(* ===== verification/Prelude.thy ===== *)
theory Prelude
  imports Main "HOL-Library.Word"
begin

text \<open>
  Shared vocabulary of the development: the fragments of the C library the
  sources call (character classes, case folding), the status codes of
  \<^verbatim>\<open>src/libahttp/abuf.h\<close>, and the generic list lemmas that the component
  theories rely on.  Strings of the program are byte strings; they are modelled
  by \<^typ>\<open>string\<close>, whose characters are exactly the 256 byte values.  A nullable
  \<^verbatim>\<open>str\<close> of the sources is a \<^typ>\<open>string option\<close>.
\<close>

named_theorems buf_simps \<open>rewriting of buffer and window operations\<close>
named_theorems stream_simps \<open>what one read does to the bytes still to come\<close>

section \<open>Characters\<close>

abbreviation CR :: char where "CR \<equiv> CHR 0x0D"
abbreviation LF :: char where "LF \<equiv> CHR 0x0A"
abbreviation TAB :: char where "TAB \<equiv> CHR 0x09"
abbreviation SPC :: char where "SPC \<equiv> CHR 0x20"
abbreviation DQ :: char where "DQ \<equiv> CHR 0x22"
abbreviation SQ :: char where "SQ \<equiv> CHR 0x27"
abbreviation BSLASH :: char where "BSLASH \<equiv> CHR 0x5C"
abbreviation NUL :: char where "NUL \<equiv> CHR 0x00"

definition code :: "char \<Rightarrow> nat" where
  "code c = of_char c"

text \<open>\<^verbatim>\<open>isspace\<close>, \<^verbatim>\<open>isdigit\<close>, \<^verbatim>\<open>tolower\<close> of the C locale.\<close>

definition isspace :: "char \<Rightarrow> bool" where
  "isspace c \<longleftrightarrow> code c = 32 \<or> (9 \<le> code c \<and> code c \<le> 13)"

definition isdigit :: "char \<Rightarrow> bool" where
  "isdigit c \<longleftrightarrow> 48 \<le> code c \<and> code c \<le> 57"

definition tolower :: "char \<Rightarrow> char" where
  "tolower c = (if 65 \<le> code c \<and> code c \<le> 90 then char_of (code c + 32) else c)"

text \<open>Value of a character as the signed \<^verbatim>\<open>char\<close> the sources read through a pointer.\<close>

definition schar :: "char \<Rightarrow> int" where
  "schar c = (if code c < 128 then int (code c) else int (code c) - 256)"

section \<open>Status codes\<close>

datatype abuf_stat =
    ABUF_OK | ABUF_PARSE_ERR | ABUF_EOF | ABUF_OVERFLOW | ABUF_WAIT
  | ABUF_NOMATCH | ABUF_CONTINUE | ABUF_COMPLETE | ABUF_SEPARATOR

text \<open>
  HTTP status codes of \<^verbatim>\<open>src/libahttp/httpconst.h\<close> used by the parsers.
\<close>

definition HTTP_OK :: int where "HTTP_OK = 200"
definition HTTP_BAD_REQUEST :: int where "HTTP_BAD_REQUEST = 400"
definition HTTP_TIMEOUT :: int where "HTTP_TIMEOUT = 408"
definition HTTP_REQ_TOO_BIG :: int where "HTTP_REQ_TOO_BIG = 413"
definition HTTP_UNEXPECTED_EOF :: int where "HTTP_UNEXPECTED_EOF = 417"
definition HTTP_PIPELINE_EOF :: int where "HTTP_PIPELINE_EOF = 605"
definition HTTP_PIPELINE_CLEAN_TIMEOUT :: int where "HTTP_PIPELINE_CLEAN_TIMEOUT = 606"

lemmas http_status_defs =
  HTTP_OK_def HTTP_BAD_REQUEST_def HTTP_TIMEOUT_def HTTP_REQ_TOO_BIG_def
  HTTP_UNEXPECTED_EOF_def HTTP_PIPELINE_EOF_def HTTP_PIPELINE_CLEAN_TIMEOUT_def

section \<open>Generic lemmas\<close>

lemma code_less [simp]: "code c < 256"
  by (simp add: code_def)

lemma code_inject [simp]: "code c = code d \<longleftrightarrow> c = d"
  by (simp add: code_def)

lemma code_char_of [simp]: "code (char_of n) = n mod 256"
  by (simp add: code_def)

lemma char_of_code [simp]: "char_of (code c) = c"
  by (simp add: code_def)

lemma tolower_idem [simp]: "tolower (tolower c) = tolower c"
  by (auto simp: tolower_def)

lemma schar_range: "- 128 \<le> schar c \<and> schar c < 128"
  using code_less [of c] by (auto simp: schar_def simp del: code_less)

lemma schar_inject: "schar c = schar d \<Longrightarrow> c = d"
proof -
  assume eq: "schar c = schar d"
  have "code c = code d"
    using eq code_less [of c] code_less [of d]
    by (auto simp: schar_def simp del: code_less code_inject split: if_splits)
  then show "c = d" by simp
qed

text \<open>Overwriting a block of a buffer, as \<^verbatim>\<open>memcpy\<close> does.\<close>

definition blit :: "'a list \<Rightarrow> nat \<Rightarrow> 'a list \<Rightarrow> 'a list" where
  "blit buf at d = take at buf @ d @ drop (at + length d) buf"

text \<open>The bytes of a buffer between two positions.\<close>

definition seg :: "nat \<Rightarrow> nat \<Rightarrow> 'a list \<Rightarrow> 'a list" where
  "seg i j buf = take (j - i) (drop i buf)"

lemma length_blit [simp]:
  "at + length d \<le> length buf \<Longrightarrow> length (blit buf at d) = length buf"
  by (simp add: blit_def)

lemma length_seg [simp]: "length (seg i j buf) = min (j - i) (length buf - i)"
  by (simp add: seg_def)

lemma seg_empty [simp]: "j \<le> i \<Longrightarrow> seg i j buf = []"
  by (simp add: seg_def)

lemma blit_Nil [simp]: "blit buf at [] = buf"
  by (simp add: blit_def)

lemma seg_append_seg:
  "i \<le> j \<Longrightarrow> j \<le> k \<Longrightarrow> seg i j buf @ seg j k buf = seg i k buf"
proof -
  assume "i \<le> j" "j \<le> k"
  then have "take (k - i) (drop i buf) =
      take (j - i) (drop i buf) @ take (k - j) (drop (j - i) (drop i buf))"
    by (metis Nat.add_diff_assoc2 add.commute le_add_diff_inverse2 take_add)
  with \<open>i \<le> j\<close> show ?thesis by (simp add: seg_def)
qed

lemma seg_blit_same [buf_simps]:
  "at + length d \<le> length buf \<Longrightarrow> seg at (at + length d) (blit buf at d) = d"
  by (simp add: seg_def blit_def)

lemma seg_blit_before [buf_simps]:
  "j \<le> at \<Longrightarrow> at + length d \<le> length buf \<Longrightarrow> seg i j (blit buf at d) = seg i j buf"
  by (cases "i \<le> j") (simp_all add: seg_def blit_def drop_take min_def)

lemma seg_blit_after [buf_simps]:
  "at + length d \<le> i \<Longrightarrow> at + length d \<le> length buf \<Longrightarrow>
     seg i j (blit buf at d) = seg i j buf"
  by (simp add: seg_def blit_def)

lemma drop_seg: "drop n (seg i j buf) = seg (i + n) j buf"
  by (simp add: seg_def drop_take add.commute diff_diff_left)

lemma seg_blit_extend:
  assumes "at + length d \<le> length buf" and "i \<le> at"
  shows "seg i (at + length d) (blit buf at d) = seg i at buf @ d"
proof -
  have "seg i (at + length d) (blit buf at d) =
      seg i at (blit buf at d) @ seg at (at + length d) (blit buf at d)"
    using assms by (simp add: seg_append_seg)
  then show ?thesis using assms by (simp add: buf_simps)
qed

lemma take_min_length: "take (min (length q) c) q = take c q"
  by (metis take_all_iff take_take nle_le min.absorb2 min.commute)

end
