(* ===== verification/Suiolite.thy ===== *)
theory Suiolite
  imports Prelude
begin

text \<open>
  The ring buffer between a socket and the HTTP parsers:
  \<^verbatim>\<open>src/libahttp/suiolite.h\<close> and \<^verbatim>\<open>src/libahttp/suiolite.C\<close>.
  The pointers \<^verbatim>\<open>bep\<close>, \<^verbatim>\<open>rp\<close>, \<^verbatim>\<open>dep[0]\<close>, \<^verbatim>\<open>dep[1]\<close> are kept as offsets from
  \<^verbatim>\<open>buf\<close>.  A failed \<^verbatim>\<open>assert\<close> ends the process; here it sets the sticky flag
  \<open>sl_abort\<close> and leaves the rest of the state alone.  The bytes the kernel has
  ready for the descriptor are an argument of the read.
\<close>

section \<open>State\<close>

record suiolite =
  sl_len :: nat
  sl_buf :: string
  sl_bep :: nat
  sl_rp :: nat
  sl_dep0 :: nat
  sl_dep1 :: nat
  sl_iov :: "(nat \<times> nat) \<times> (nat \<times> nat)"
  sl_scb :: bool
  sl_scb_calls :: nat
  sl_peek :: bool
  sl_dont_peek :: bool
  sl_bytes_read :: "32 word"
  sl_abort :: bool

definition SUIOLITE_MAX_BUFLEN :: nat where
  "SUIOLITE_MAX_BUFLEN = 0x40000"

definition suiolite_new :: "nat \<Rightarrow> bool \<Rightarrow> suiolite" where
  "suiolite_new l s =
     (let n = min l SUIOLITE_MAX_BUFLEN in
      \<lparr>sl_len = n, sl_buf = replicate n NUL, sl_bep = n, sl_rp = 0,
       sl_dep0 = 0, sl_dep1 = 0, sl_iov = ((0, 0), (0, 0)), sl_scb = s, sl_scb_calls = 0,
       sl_peek = False, sl_dont_peek = False, sl_bytes_read = 0, sl_abort = False\<rparr>)"

section \<open>Operations\<close>

definition suiolite_clear :: "suiolite \<Rightarrow> suiolite" where
  "suiolite_clear s = s\<lparr>sl_scb := False, sl_bep := sl_len s, sl_rp := 0, sl_peek := False,
     sl_dont_peek := False, sl_bytes_read := 0, sl_dep0 := 0, sl_dep1 := 0\<rparr>"

definition resid :: "suiolite \<Rightarrow> nat" where
  "resid s = (sl_dep1 s - sl_rp s) + sl_dep0 s"

definition full :: "suiolite \<Rightarrow> bool" where
  "full s \<longleftrightarrow> resid s = sl_len s"

definition capacity :: "suiolite \<Rightarrow> nat" where
  "capacity s = sl_len s - resid s"

definition sl_getdata :: "suiolite \<Rightarrow> string" where
  "sl_getdata s = seg (sl_rp s) (sl_dep1 s) (sl_buf s)"

definition load_iov :: "suiolite \<Rightarrow> suiolite" where
  "load_iov s = s\<lparr>sl_iov := ((sl_dep1 s, sl_bep s - sl_dep1 s), (sl_dep0 s, sl_rp s - sl_dep0 s))\<rparr>"

definition get_iov :: "suiolite \<Rightarrow> ((nat \<times> nat) \<times> (nat \<times> nat)) \<times> suiolite" where
  "get_iov s = (let s' = load_iov s in (sl_iov s', s'))"

definition account_for_new_bytes :: "nat \<Rightarrow> suiolite \<Rightarrow> suiolite" where
  "account_for_new_bytes n s =
     (let l0 = min n (snd (fst (sl_iov s)));
          l1 = min (n - l0) (snd (snd (sl_iov s)))
      in s\<lparr>sl_bytes_read := sl_bytes_read s + of_nat n,
           sl_dep1 := sl_dep1 s + l0, sl_dep0 := sl_dep0 s + l1\<rparr>)"

text \<open>\<^verbatim>\<open>readv\<close> fills the first region, then the second one.\<close>

definition readv_iov :: "string \<Rightarrow> suiolite \<Rightarrow> suiolite" where
  "readv_iov d s =
     (let (b0, l0) = fst (sl_iov s); (b1, l1) = snd (sl_iov s); n0 = min (length d) l0
      in s\<lparr>sl_buf := blit (blit (sl_buf s) b0 (take n0 d)) b1 (drop n0 d)\<rparr>)"

text \<open>
  \<^verbatim>\<open>input\<close>: the kernel's queue is \<open>Some q\<close>, or \<open>None\<close> when the read fails.  The result is
  the value returned, the queue left behind (all of it under \<^verbatim>\<open>MSG_PEEK\<close>) and the new state.
\<close>

definition suiolite_input ::
  "string option \<Rightarrow> suiolite \<Rightarrow> int \<times> string option \<times> suiolite" where
  "suiolite_input k s =
     (if full s then (0, k, s)
      else
        let s1 = load_iov s in
        case k of
          None \<Rightarrow> (- 1, None, s1)
        | Some q \<Rightarrow>
            let n = min (length q) (snd (fst (sl_iov s1)) + snd (snd (sl_iov s1)));
                s2 = readv_iov (take n q) s1;
                s3 = (if 0 < n then account_for_new_bytes n s2 else s2);
                left = (if sl_peek s \<and> \<not> sl_dont_peek s then q else drop n q)
            in (int n, Some left, s3))"

definition sl_rembytes :: "nat \<Rightarrow> suiolite \<Rightarrow> suiolite" where
  "sl_rembytes nbytes s =
     (if \<not> nbytes \<le> resid s then s\<lparr>sl_abort := True\<rparr>
      else
        let docall = full s \<and> 0 < nbytes \<and> sl_scb s;
            len2 = sl_bep s - sl_rp s;
            s1 = (if len2 \<le> nbytes
                  then s\<lparr>sl_rp := nbytes - len2, sl_dep1 := sl_dep0 s, sl_dep0 := 0\<rparr>
                  else s\<lparr>sl_rp := sl_rp s + nbytes\<rparr>)
        in if docall then s1\<lparr>sl_scb_calls := Suc (sl_scb_calls s1)\<rparr> else s1)"

definition suiolite_grow :: "nat \<Rightarrow> suiolite \<Rightarrow> suiolite" where
  "suiolite_grow ns s =
     (if resid s \<noteq> 0 \<or> sl_bytes_read s \<noteq> 0 then s\<lparr>sl_abort := True\<rparr>
      else let n = min ns SUIOLITE_MAX_BUFLEN
           in suiolite_clear (s\<lparr>sl_len := n, sl_buf := replicate n NUL\<rparr>))"

text \<open>The two \<^verbatim>\<open>memcpy\<close> blocks of \<^verbatim>\<open>load_from_buffer\<close>.\<close>

definition load_upper :: "nat \<Rightarrow> string \<Rightarrow> suiolite \<Rightarrow> suiolite" where
  "load_upper nb d s =
     (if 0 < nb
      then s\<lparr>sl_buf := blit (sl_buf s) (sl_dep1 s) (take nb d), sl_dep1 := sl_dep1 s + nb\<rparr>
      else s)"

definition load_lower :: "nat \<Rightarrow> string \<Rightarrow> suiolite \<Rightarrow> suiolite" where
  "load_lower nb d s =
     (if 0 < nb
      then s\<lparr>sl_buf := blit (sl_buf s) (sl_dep0 s) (take nb d), sl_dep0 := sl_dep0 s + nb\<rparr>
      else s)"

definition load_from_buffer :: "string \<Rightarrow> suiolite \<Rightarrow> nat \<times> suiolite" where
  "load_from_buffer input s0 =
     (let s = (if capacity s0 < length input then suiolite_grow (length input + 10) s0 else s0)
      in if sl_abort s then (0, s)
      else
        let nb = min (length input) (sl_bep s - sl_dep1 s);
            s1 = load_upper nb input s;
            rest = drop nb input;
            nb' = min (length rest) (sl_rp s1 - sl_dep0 s1);
            s2 = load_lower nb' rest s1
        in (nb + nb', s2\<lparr>sl_bytes_read := sl_bytes_read s2 + of_nat (nb + nb')\<rparr>))"

text \<open>
  \<^verbatim>\<open>load_into_xdr\<close>: the output pointer is set to the start of the output in every round
  of the loop, as in the source.
\<close>

partial_function (option) load_into_xdr_loop ::
  "nat \<Rightarrow> string \<Rightarrow> suiolite \<Rightarrow> (string \<times> suiolite) option" where
  "load_into_xdr_loop nbytes out s =
     (if 0 < nbytes
      then let d = take nbytes (sl_getdata s)
           in load_into_xdr_loop (nbytes - length d) (blit out 0 d) (sl_rembytes (length d) s)
      else Some (out, s))"

declare load_into_xdr_loop.simps [code]

definition load_into_xdr :: "nat \<Rightarrow> suiolite \<Rightarrow> (string \<times> suiolite) option" where
  "load_into_xdr n s =
     (let nbytes = min n (resid s) in load_into_xdr_loop nbytes (replicate nbytes NUL) s)"

section \<open>Invariant and abstraction\<close>

text \<open>
  The two configurations of the comment in \<^verbatim>\<open>suiolite.h\<close>: unread bytes lie in
  \<open>[rp, dep1)\<close> and then in \<open>[0, dep0)\<close>, and either the upper region ends at the end of
  the buffer or the lower one is empty.
\<close>

definition suiolite_inv :: "suiolite \<Rightarrow> bool" where
  "suiolite_inv s \<longleftrightarrow>
     \<not> sl_abort s \<and> length (sl_buf s) = sl_len s \<and> sl_bep s = sl_len s
   \<and> sl_dep0 s \<le> sl_rp s \<and> sl_rp s \<le> sl_dep1 s \<and> sl_dep1 s \<le> sl_bep s
   \<and> (sl_dep1 s = sl_bep s \<or> sl_dep0 s = 0)
   \<and> (sl_rp s < sl_bep s \<or> sl_bep s = 0)"

definition sl_content :: "suiolite \<Rightarrow> string" where
  "sl_content s = seg (sl_rp s) (sl_dep1 s) (sl_buf s) @ seg 0 (sl_dep0 s) (sl_buf s)"

text \<open>What a read that finds \<open>d\<close> in the kernel does to the buffer.\<close>

definition sl_put :: "string \<Rightarrow> suiolite \<Rightarrow> suiolite" where
  "sl_put d s = snd (snd (suiolite_input (Some d) s))"

text \<open>
  A schedule of the buffer's two users: the socket side delivers bytes, the parser side
  takes up to \<open>n\<close> bytes of what \<^verbatim>\<open>getdata\<close> shows and then removes them.
\<close>

datatype sl_event = Arrive string | Consume nat

fun sl_step :: "sl_event \<Rightarrow> suiolite \<Rightarrow> string \<times> string \<times> suiolite" where
  "sl_step (Arrive q) s =
     (let (n, _, s') = suiolite_input (Some q) s in (take (nat n) q, [], s'))"
| "sl_step (Consume n) s =
     (let d = take n (sl_getdata s) in ([], d, sl_rembytes (length d) s))"

fun sl_run :: "sl_event list \<Rightarrow> suiolite \<Rightarrow> string \<times> string \<times> suiolite" where
  "sl_run [] s = ([], [], s)"
| "sl_run (e # es) s =
     (let (i, o1, s1) = sl_step e s; (is', os, s2) = sl_run es s1 in (i @ is', o1 @ os, s2))"

text \<open>The byte queue a reader of the buffer relies on.\<close>

locale byte_fifo =
  fixes invar :: "'q \<Rightarrow> bool"
    and content :: "'q \<Rightarrow> 'b list"
    and avail :: "'q \<Rightarrow> 'b list"
    and room :: "'q \<Rightarrow> nat"
    and put :: "'b list \<Rightarrow> 'q \<Rightarrow> 'q"
    and rem :: "nat \<Rightarrow> 'q \<Rightarrow> 'q"
  assumes put_invar: "invar q \<Longrightarrow> invar (put d q)"
    and put_content: "invar q \<Longrightarrow> content (put d q) = content q @ take (room q) d"
    and put_avail: "invar q \<Longrightarrow> \<exists>r. avail (put d q) = avail q @ r"
    and rem_invar: "invar q \<Longrightarrow> n \<le> length (content q) \<Longrightarrow> invar (rem n q)"
    and rem_content: "invar q \<Longrightarrow> n \<le> length (content q) \<Longrightarrow> content (rem n q) = drop n (content q)"
    and avail_content: "invar q \<Longrightarrow> \<exists>r. content q = avail q @ r"
    and avail_live: "invar q \<Longrightarrow> content q \<noteq> [] \<Longrightarrow> avail q \<noteq> []"
begin

lemma avail_length: "invar q \<Longrightarrow> length (avail q) \<le> length (content q)"
  using avail_content by fastforce

lemma rem_avail_content:
  assumes "invar q"
  shows "content q = avail q @ content (rem (length (avail q)) q)"
proof -
  obtain r where r: "content q = avail q @ r" using assms avail_content by blast
  then show ?thesis using assms by (simp add: rem_content)
qed

lemma rem_put_content:
  assumes "invar q" and "n \<le> length (content q)"
  shows "content (rem n (put d q)) = drop n (content q) @ take (room q) d"
  using assms by (simp add: rem_content put_content put_invar)

lemma put_keeps_window:
  assumes "invar q"
  shows "take (length (avail q)) (content (put d q)) = avail q"
proof -
  obtain r where "content q = avail q @ r" using assms avail_content by blast
  then show ?thesis using assms by (simp add: put_content)
qed

end

section \<open>Correctness\<close>

lemmas suiolite_ops =
  resid_def full_def capacity_def sl_getdata_def load_iov_def account_for_new_bytes_def
  readv_iov_def sl_content_def

lemma suiolite_new_inv: "suiolite_inv (suiolite_new l c)"
  by (auto simp: suiolite_inv_def suiolite_new_def Let_def SUIOLITE_MAX_BUFLEN_def)

lemma suiolite_new_content: "sl_content (suiolite_new l c) = []"
  by (simp add: sl_content_def suiolite_new_def Let_def)

lemma suiolite_clear_inv:
  "\<not> sl_abort s \<Longrightarrow> length (sl_buf s) = sl_len s \<Longrightarrow> suiolite_inv (suiolite_clear s)"
  by (auto simp: suiolite_inv_def suiolite_clear_def)

lemma resid_content: "suiolite_inv s \<Longrightarrow> resid s = length (sl_content s)"
  by (auto simp: suiolite_inv_def suiolite_ops)

lemma content_le_len: "suiolite_inv s \<Longrightarrow> length (sl_content s) \<le> sl_len s"
  by (auto simp: suiolite_inv_def suiolite_ops)

text \<open>How \<open>n\<close> bytes are divided between the two free regions.\<close>

lemma region_split:
  fixes n f0 f1 :: nat
  assumes "n \<le> f0 + f1" and "n0 = min n f0"
  shows "n0 \<le> f0 \<and> n0 \<le> n \<and> n - n0 \<le> f1 \<and> (n0 = f0 \<or> n0 = n)"
  using assms by auto

lemma account_zero [simp]: "account_for_new_bytes 0 s = s"
  by (simp add: account_for_new_bytes_def)

text \<open>The effect of a successful read in one equation.\<close>

lemma sl_put_eq:
  assumes "\<not> full s"
    and n: "n = min (length q) ((sl_bep s - sl_dep1 s) + (sl_rp s - sl_dep0 s))"
  shows "sl_put q s = account_for_new_bytes n (readv_iov (take n q) (load_iov s))"
proof -
  have "snd (fst (sl_iov (load_iov s))) + snd (snd (sl_iov (load_iov s))) =
      (sl_bep s - sl_dep1 s) + (sl_rp s - sl_dep0 s)"
    by (simp add: load_iov_def)
  then show ?thesis using assms(1)
    unfolding sl_put_def suiolite_input_def Let_def option.case n [symmetric]
    by (cases "n = 0") (simp_all add: n [symmetric])
qed

lemma room_regions:
  "suiolite_inv s \<Longrightarrow> capacity s = (sl_bep s - sl_dep1 s) + (sl_rp s - sl_dep0 s)"
  by (auto simp: suiolite_inv_def capacity_def resid_def)

lemma sl_put_full: "full s \<Longrightarrow> sl_put q s = s"
  by (simp add: sl_put_def suiolite_input_def)

lemma sl_put_fields:
  assumes inv: "suiolite_inv s" and nf: "\<not> full s"
  obtains n n0 d b0 where
    "d = take (capacity s) q" "length d = n" "n0 \<le> n"
    "n0 = sl_bep s - sl_dep1 s \<or> n0 = n"
    "sl_dep1 s + n0 \<le> sl_bep s" "sl_dep0 s + (n - n0) \<le> sl_rp s"
    "b0 = blit (sl_buf s) (sl_dep1 s) (take n0 d)" "length b0 = length (sl_buf s)"
    "sl_put q s = s\<lparr>sl_iov := sl_iov (load_iov s),
          sl_buf := blit b0 (sl_dep0 s) (drop n0 d),
          sl_bytes_read := sl_bytes_read s + of_nat n,
          sl_dep1 := sl_dep1 s + n0, sl_dep0 := sl_dep0 s + (n - n0)\<rparr>"
proof -
  define f0 f1 where "f0 = sl_bep s - sl_dep1 s" and "f1 = sl_rp s - sl_dep0 s"
  define n where "n = min (length q) (f0 + f1)"
  define n0 where "n0 = min n f0"
  define d where "d = take n q"
  have cap: "capacity s = f0 + f1" by (simp add: room_regions [OF inv] f0_def f1_def)
  have "n \<le> f0 + f1" by (simp add: n_def)
  then have *: "n0 \<le> f0" "n0 \<le> n" "n - n0 \<le> f1" "n0 = f0 \<or> n0 = n"
    using region_split [OF _ n0_def] by blast+
  have ends: "sl_dep1 s \<le> sl_bep s" "sl_dep0 s \<le> sl_rp s" "length (sl_buf s) = sl_bep s"
    using inv by (auto simp: suiolite_inv_def)
  have d: "d = take (capacity s) q" "length d = n"
    by (simp_all add: d_def n_def cap take_min_length)
  have fit: "sl_dep1 s + n0 \<le> sl_bep s" "sl_dep0 s + (n - n0) \<le> sl_rp s"
    using * ends by (simp_all add: f0_def f1_def)
  have b0: "length (blit (sl_buf s) (sl_dep1 s) (take n0 d)) = length (sl_buf s)"
    using fit d * ends by simp
  have "sl_put q s = account_for_new_bytes n (readv_iov d (load_iov s))"
    unfolding d_def by (rule sl_put_eq [OF nf]) (simp add: n_def f0_def f1_def)
  also have "\<dots> = s\<lparr>sl_iov := sl_iov (load_iov s),
        sl_buf := blit (blit (sl_buf s) (sl_dep1 s) (take n0 d)) (sl_dep0 s) (drop n0 d),
        sl_bytes_read := sl_bytes_read s + of_nat n,
        sl_dep1 := sl_dep1 s + n0, sl_dep0 := sl_dep0 s + (n - n0)\<rparr>"
    using d(2) *(3)
    by (simp add: account_for_new_bytes_def readv_iov_def load_iov_def Let_def
        f0_def [symmetric] f1_def [symmetric] n0_def [symmetric])
  finally show thesis
    using that [OF d *(2) _ fit refl b0] *(4) by (simp add: f0_def)
qed

lemma sl_put_inv:
  assumes inv: "suiolite_inv s"
  shows "suiolite_inv (sl_put q s)"
proof (cases "full s")
  case False
  from inv False show ?thesis
  proof (rule sl_put_fields [of s q])
    fix n n0 d b0
    assume n: "length d = n" "n0 \<le> n" "n0 = sl_bep s - sl_dep1 s \<or> n0 = n"
      "sl_dep1 s + n0 \<le> sl_bep s" "sl_dep0 s + (n - n0) \<le> sl_rp s"
      and b0: "length b0 = length (sl_buf s)"
      and eq: "sl_put q s = s\<lparr>sl_iov := sl_iov (load_iov s), sl_buf := blit b0 (sl_dep0 s) (drop n0 d),
          sl_bytes_read := sl_bytes_read s + of_nat n,
          sl_dep1 := sl_dep1 s + n0, sl_dep0 := sl_dep0 s + (n - n0)\<rparr>"
    have "sl_rp s \<le> sl_bep s" "length (sl_buf s) = sl_bep s" using inv by (auto simp: suiolite_inv_def)
    then have "length (blit b0 (sl_dep0 s) (drop n0 d)) = sl_bep s"
      using n b0 by simp
    then show ?thesis using inv n unfolding eq suiolite_inv_def by auto
  qed
qed (simp add: sl_put_full inv)

lemma sl_put_content:
  assumes inv: "suiolite_inv s"
  shows "sl_content (sl_put q s) = sl_content s @ take (capacity s) q"
proof (cases "full s")
  case True
  then show ?thesis by (simp add: sl_put_full capacity_def full_def)
next
  case False
  from inv False show ?thesis
  proof (rule sl_put_fields [of s q])
    fix n n0 d b0
    assume d: "d = take (capacity s) q"
      and n: "length d = n" "n0 \<le> n" "n0 = sl_bep s - sl_dep1 s \<or> n0 = n"
      "sl_dep1 s + n0 \<le> sl_bep s" "sl_dep0 s + (n - n0) \<le> sl_rp s"
      and b0: "b0 = blit (sl_buf s) (sl_dep1 s) (take n0 d)" "length b0 = length (sl_buf s)"
      and eq: "sl_put q s = s\<lparr>sl_iov := sl_iov (load_iov s), sl_buf := blit b0 (sl_dep0 s) (drop n0 d),
          sl_bytes_read := sl_bytes_read s + of_nat n,
          sl_dep1 := sl_dep1 s + n0, sl_dep0 := sl_dep0 s + (n - n0)\<rparr>"
    let ?b = "blit b0 (sl_dep0 s) (drop n0 d)"
    have ends: "sl_rp s \<le> sl_dep1 s" "sl_rp s \<le> sl_bep s" "length (sl_buf s) = sl_bep s"
      "sl_dep0 s = 0 \<or> n0 = 0"
      using inv n by (auto simp: suiolite_inv_def)
    have len: "length (drop n0 d) = n - n0" "length (take n0 d) = n0" using n by simp_all
    have "seg (sl_rp s) (sl_dep1 s + n0) ?b = seg (sl_rp s) (sl_dep1 s + n0) b0"
      by (rule seg_blit_after) (use n b0 ends len in auto)
    also have "\<dots> = seg (sl_rp s) (sl_dep1 s) (sl_buf s) @ take n0 d"
      using seg_blit_extend [of "sl_dep1 s" "take n0 d" "sl_buf s" "sl_rp s"] n ends len b0 by simp
    finally have upper: "seg (sl_rp s) (sl_dep1 s + n0) ?b = seg (sl_rp s) (sl_dep1 s) (sl_buf s) @ take n0 d" .
    have "seg 0 (sl_dep0 s) b0 = seg 0 (sl_dep0 s) (sl_buf s)"
      unfolding b0(1) by (rule seg_blit_before) (use n ends len in auto)
    then have lower: "seg 0 (sl_dep0 s + (n - n0)) ?b = seg 0 (sl_dep0 s) (sl_buf s) @ drop n0 d"
      using seg_blit_extend [of "sl_dep0 s" "drop n0 d" b0 0] n b0 ends len by simp
    have "sl_content (sl_put q s) = sl_content s @ d"
      using ends unfolding eq sl_content_def by (auto simp: upper lower)
    then show ?thesis by (simp add: d)
  qed
qed

lemma sl_put_getdata:
  assumes inv: "suiolite_inv s"
  shows "\<exists>r. sl_getdata (sl_put q s) = sl_getdata s @ r"
proof -
  have len: "length (sl_getdata t) \<le> length (sl_content t) \<and>
     sl_getdata t = take (length (sl_getdata t)) (sl_content t)" for t
    by (simp add: sl_getdata_def sl_content_def)
  have "length (sl_getdata s) \<le> length (sl_getdata (sl_put q s))"
  proof (cases "full s")
    case False
    have "sl_rp (sl_put q s) = sl_rp s \<and> sl_dep1 s \<le> sl_dep1 (sl_put q s)"
      by (rule sl_put_fields [OF inv False, of q]) simp
    moreover have "length (sl_getdata t) = sl_dep1 t - sl_rp t" if "suiolite_inv t" for t
      using that by (auto simp: sl_getdata_def suiolite_inv_def)
    ultimately show ?thesis using sl_put_inv [OF inv, of q] inv by (simp add: diff_le_mono)
  qed (simp add: sl_put_full)
  moreover have "take (length (sl_getdata s)) (sl_content (sl_put q s)) = sl_getdata s"
    using len [of s] by (simp add: sl_put_content [OF inv])
  ultimately have "take (length (sl_getdata s)) (sl_getdata (sl_put q s)) = sl_getdata s"
    using len [of "sl_put q s"] by (metis min.absorb1 take_take)
  then show ?thesis by (metis append_take_drop_id)
qed

lemma sl_rembytes_inv:
  assumes "suiolite_inv s" and "n \<le> resid s"
  shows "suiolite_inv (sl_rembytes n s)"
  using assms unfolding suiolite_inv_def sl_rembytes_def Let_def resid_def by auto

lemma sl_rembytes_content:
  assumes inv: "suiolite_inv s" and n: "n \<le> resid s"
  shows "sl_content (sl_rembytes n s) = drop n (sl_content s)"
proof (cases "sl_bep s - sl_rp s \<le> n")
  case True
  then have "sl_dep1 s = sl_bep s"
    using inv n by (auto simp: suiolite_inv_def resid_def)
  then show ?thesis using True inv n
    by (auto simp: sl_rembytes_def Let_def sl_content_def suiolite_inv_def drop_seg)
next
  case False
  then show ?thesis using inv n
    by (auto simp: sl_rembytes_def Let_def sl_content_def suiolite_inv_def resid_def drop_seg)
qed

lemma sl_getdata_content: "\<exists>r. sl_content s = sl_getdata s @ r"
  by (simp add: sl_content_def sl_getdata_def)

lemma sl_getdata_live:
  "suiolite_inv s \<Longrightarrow> sl_content s \<noteq> [] \<Longrightarrow> sl_getdata s \<noteq> []"
  by (auto simp: sl_content_def sl_getdata_def suiolite_inv_def seg_def)

interpretation sl: byte_fifo suiolite_inv sl_content sl_getdata capacity sl_put sl_rembytes
proof unfold_locales
  fix q :: suiolite and d :: string and n :: nat
  assume inv: "suiolite_inv q"
  show "suiolite_inv (sl_put d q)" using inv by (rule sl_put_inv)
  show "sl_content (sl_put d q) = sl_content q @ take (capacity q) d" using inv by (rule sl_put_content)
  show "\<exists>r. sl_getdata (sl_put d q) = sl_getdata q @ r" using inv by (rule sl_put_getdata)
  show "\<exists>r. sl_content q = sl_getdata q @ r" by (rule sl_getdata_content)
  show "sl_content q \<noteq> [] \<Longrightarrow> sl_getdata q \<noteq> []" using inv by (rule sl_getdata_live)
  assume "n \<le> length (sl_content q)"
  then have n: "n \<le> resid q" using inv by (simp add: resid_content)
  show "suiolite_inv (sl_rembytes n q)" using inv n by (rule sl_rembytes_inv)
  show "sl_content (sl_rembytes n q) = drop n (sl_content q)" using inv n by (rule sl_rembytes_content)
qed


lemma suiolite_inv_iov [simp]: "suiolite_inv (s\<lparr>sl_iov := v\<rparr>) = suiolite_inv s"
  by (simp add: suiolite_inv_def)

lemma sl_content_iov [simp]: "sl_content (s\<lparr>sl_iov := v\<rparr>) = sl_content s"
  by (simp add: sl_content_def)

lemma load_upper_eq: "load_upper nb d s =
    s\<lparr>sl_buf := blit (sl_buf s) (sl_dep1 s) (take nb d), sl_dep1 := sl_dep1 s + nb\<rparr>"
  by (cases nb) (simp_all add: load_upper_def)

lemma load_lower_eq: "load_lower nb d s =
    s\<lparr>sl_buf := blit (sl_buf s) (sl_dep0 s) (take nb d), sl_dep0 := sl_dep0 s + nb\<rparr>"
  by (cases nb) (simp_all add: load_lower_def)

lemma load_from_buffer_fits:
  assumes "\<not> sl_abort s" and "length d \<le> capacity s"
    and "min (length d) (sl_bep s - sl_dep1 s) = n0"
    and "min (length d - n0) (sl_rp s - sl_dep0 s) = n1"
  shows "load_from_buffer d s =
    (n0 + n1, s\<lparr>sl_buf := blit (blit (sl_buf s) (sl_dep1 s) (take n0 d)) (sl_dep0 s) (take n1 (drop n0 d)),
       sl_dep1 := sl_dep1 s + n0, sl_dep0 := sl_dep0 s + n1,
       sl_bytes_read := sl_bytes_read s + of_nat (n0 + n1)\<rparr>)"
  using assms by (simp add: load_from_buffer_def Let_def load_upper_eq load_lower_eq not_less)

lemma load_from_buffer_put:
  assumes inv: "suiolite_inv s" and fits: "length d \<le> capacity s"
  shows "load_from_buffer d s = (length d, (sl_put d s)\<lparr>sl_iov := sl_iov s\<rparr>)"
proof (cases "full s")
  case True
  then have "d = []" using fits by (simp add: full_def capacity_def)
  with True inv show ?thesis
    by (simp add: load_from_buffer_def load_upper_def load_lower_def sl_put_full suiolite_inv_def Let_def)
next
  case False
  from inv False show ?thesis
  proof (rule sl_put_fields [of s d])
    fix n n0 d' b0
    assume d': "d' = take (capacity s) d"
      and n: "length d' = n" "n0 \<le> n" "n0 = sl_bep s - sl_dep1 s \<or> n0 = n"
      "sl_dep1 s + n0 \<le> sl_bep s" "sl_dep0 s + (n - n0) \<le> sl_rp s"
      and b0: "b0 = blit (sl_buf s) (sl_dep1 s) (take n0 d')"
      and eq: "sl_put d s = s\<lparr>sl_iov := sl_iov (load_iov s), sl_buf := blit b0 (sl_dep0 s) (drop n0 d'),
          sl_bytes_read := sl_bytes_read s + of_nat n,
          sl_dep1 := sl_dep1 s + n0, sl_dep0 := sl_dep0 s + (n - n0)\<rparr>"
    have d: "d' = d" "length d = n" using d' fits n by auto
    have nb: "min (length d) (sl_bep s - sl_dep1 s) = n0"
      "min (n - n0) (sl_rp s - sl_dep0 s) = n - n0"
      using n d by auto
    have "\<not> sl_abort s" using inv by (simp add: suiolite_inv_def)
    then have "load_from_buffer d s =
      (n0 + (n - n0), s\<lparr>sl_buf := blit (blit (sl_buf s) (sl_dep1 s) (take n0 d)) (sl_dep0 s) (take (n - n0) (drop n0 d)),
         sl_dep1 := sl_dep1 s + n0, sl_dep0 := sl_dep0 s + (n - n0),
         sl_bytes_read := sl_bytes_read s + of_nat (n0 + (n - n0))\<rparr>)"
      using fits nb unfolding d(2) [symmetric] by (rule load_from_buffer_fits)
    moreover have "take (n - n0) (drop n0 d) = drop n0 d" "n0 + (n - n0) = n" using n d by simp_all
    ultimately show ?thesis using d by (simp add: eq b0)
  qed
qed

text \<open>The output pointer restarts in each round, so a second round overwrites the first.\<close>

lemma load_into_xdr_loop_0 [simp]: "load_into_xdr_loop 0 out s = Some (out, s)"
  by (simp add: load_into_xdr_loop.simps)

lemma load_into_xdr_round:
  "0 < n \<Longrightarrow> n \<le> length (sl_getdata s) \<Longrightarrow>
     load_into_xdr_loop n out s = Some (blit out 0 (take n (sl_getdata s)), sl_rembytes n s)"
  by (simp add: load_into_xdr_loop.simps [of n] Let_def min_def)

lemma load_into_xdr_contiguous_aux:
  assumes inv: "suiolite_inv s" and n: "0 < n" "n \<le> length (sl_getdata s)"
  shows "load_into_xdr n s = Some (take n (sl_content s), sl_rembytes n s)"
proof -
  have "n \<le> resid s"
    using n sl.avail_length [OF inv] by (simp add: resid_content [OF inv])
  moreover have "take n (sl_getdata s) = take n (sl_content s)"
    using n by (simp add: sl_content_def sl_getdata_def)
  ultimately show ?thesis using n resid_content [OF inv]
    by (simp add: load_into_xdr_def Let_def load_into_xdr_round blit_def min.absorb1)
qed

lemma sl_getdata_after_wrap:
  assumes inv: "suiolite_inv s" and w: "length (sl_getdata s) < resid s"
  shows "sl_getdata (sl_rembytes (length (sl_getdata s)) s) =
         drop (length (sl_getdata s)) (sl_content s)"
proof -
  have len: "length (sl_getdata s) = sl_dep1 s - sl_rp s"
    using inv by (auto simp: sl_getdata_def suiolite_inv_def)
  have "sl_dep1 s = sl_bep s"
    using w len inv by (auto simp: suiolite_inv_def resid_def)
  then show ?thesis using w len inv
    by (simp add: sl_rembytes_def Let_def sl_content_def sl_getdata_def suiolite_inv_def)
qed

lemma load_into_xdr_wrapped_aux:
  assumes inv: "suiolite_inv s"
    and w: "length (sl_getdata s) < n" "n \<le> length (sl_content s)" "sl_content s \<noteq> []"
  shows "\<exists>s'. load_into_xdr n s =
      Some (let first = sl_getdata s; second = drop (length first) (take n (sl_content s))
            in second @ drop (length second) first
               @ replicate (n - max (length first) (length second)) NUL, s')"
proof -
  let ?f = "sl_getdata s"
  let ?s1 = "sl_rembytes (length ?f) s"
  let ?k = "n - length ?f"
  have rs: "resid s = length (sl_content s)" using inv by (rule resid_content)
  have g: "sl_getdata ?s1 = drop (length ?f) (sl_content s)"
    using sl_getdata_after_wrap [OF inv] w rs by simp
  have k: "0 < ?k" "?k \<le> length (sl_getdata ?s1)" using w by (simp_all add: g)
  have second: "take ?k (sl_getdata ?s1) = drop (length ?f) (take n (sl_content s))"
    by (simp add: g drop_take)
  have "load_into_xdr n s = load_into_xdr_loop n (replicate n NUL) s"
    using w rs by (simp add: load_into_xdr_def Let_def min_def)
  also have "\<dots> = load_into_xdr_loop ?k (blit (replicate n NUL) 0 ?f) ?s1"
    using w by (simp add: load_into_xdr_loop.simps [of n] Let_def)
  also have "\<dots> = Some (blit (blit (replicate n NUL) 0 ?f) 0 (take ?k (sl_getdata ?s1)), sl_rembytes ?k ?s1)"
    using k by (rule load_into_xdr_round)
  finally show ?thesis
    using w by (auto simp: second blit_def Let_def max_def)
qed


section \<open>Properties\<close>

lemma suiolite_input_count:
  assumes inv: "suiolite_inv s"
  shows "fst (suiolite_input (Some q) s) = int (min (length q) (capacity s))"
  by (cases "full s")
    (simp_all add: suiolite_input_def Let_def load_iov_def room_regions [OF inv],
     simp_all add: full_def capacity_def room_regions [OF inv, symmetric])

lemma sl_step_conserves:
  assumes inv: "suiolite_inv s" and step: "sl_step e s = (i, o1, s')"
  shows "suiolite_inv s' \<and> o1 @ sl_content s' = sl_content s @ i"
proof (cases e)
  case (Arrive q)
  obtain n k where r: "suiolite_input (Some q) s = (n, k, s')"
    using step Arrive by (auto simp: Let_def split: prod.splits)
  have "n = int (min (length q) (capacity s))" using suiolite_input_count [OF inv, of q] r by simp
  moreover have "s' = sl_put q s" using r by (simp add: sl_put_def)
  ultimately show ?thesis using step Arrive r inv
    by (simp add: sl_put_inv sl_put_content take_min_length)
next
  case (Consume n)
  let ?d = "take n (sl_getdata s)"
  have s': "s' = sl_rembytes (length ?d) s" "o1 = ?d" "i = []"
    using step Consume by (auto simp: Let_def)
  have le: "length ?d \<le> length (sl_content s)"
    using sl.avail_length [OF inv] by simp
  have "sl_content s = ?d @ drop (length ?d) (sl_content s)"
    using sl.avail_content [OF inv] by (metis append.assoc append_eq_conv_conj append_take_drop_id)
  then show ?thesis using s' sl.rem_invar [OF inv le] sl.rem_content [OF inv le] by simp
qed

lemma sl_run_conserves:
  "suiolite_inv s \<Longrightarrow> sl_run es s = (i, o1, s') \<Longrightarrow>
     suiolite_inv s' \<and> o1 @ sl_content s' = sl_content s @ i"
proof (induction es arbitrary: s i o1 s')
  case (Cons e es)
  obtain i1 x1 s1 where st: "sl_step e s = (i1, x1, s1)" by (cases "sl_step e s") auto
  obtain i2 x2 s2 where rn: "sl_run es s1 = (i2, x2, s2)" by (cases "sl_run es s1") auto
  note step = sl_step_conserves [OF Cons.prems(1) st]
  have run: "suiolite_inv s2 \<and> x2 @ sl_content s2 = sl_content s1 @ i2"
    using Cons.IH [OF _ rn] step by blast
  have "i = i1 @ i2" "o1 = x1 @ x2" "s' = s2" using Cons.prems(2) st rn by simp_all
  with step run show ?case by (metis append.assoc)
qed simp

text \<open>
  C18.  Starting from an empty ring buffer of any size, under every interleaving of socket
  reads and parser reads, no byte is lost, duplicated or reordered: what the parser has
  taken, followed by what is still buffered, is what the buffer has accepted, the pointer
  invariant of the comment in \<^verbatim>\<open>suiolite.h\<close> holds and no \<^verbatim>\<open>assert\<close> fires.
\<close>

theorem suiolite_fifo:
  assumes "sl_run es (suiolite_new l c) = (accepted, taken, s)"
  shows "taken @ sl_content s = accepted \<and> suiolite_inv s \<and> \<not> sl_abort s"
  using sl_run_conserves [OF suiolite_new_inv assms]
  by (auto simp: suiolite_new_content suiolite_inv_def)

lemma suiolite_new_4:
  "suiolite_new 4 False =
      \<lparr>sl_len = 4, sl_buf = [NUL, NUL, NUL, NUL], sl_bep = 4, sl_rp = 0, sl_dep0 = 0, sl_dep1 = 0,
       sl_iov = ((0, 0), (0, 0)), sl_scb = False, sl_scb_calls = 0, sl_peek = False,
       sl_dont_peek = False, sl_bytes_read = 0, sl_abort = False\<rparr>"
proof -
  have "replicate 4 NUL = [NUL, NUL, NUL, NUL]" by (simp add: numeral_eq_Suc)
  then show ?thesis by (simp add: suiolite_new_def SUIOLITE_MAX_BUFLEN_def)
qed

theorem suiolite_fifo_witness:
  "\<exists>s. sl_run [Arrive ''abc'', Consume 2, Arrive ''defg'', Consume 9, Consume 9] (suiolite_new 4 False)
      = (''abcdef'', ''abcdef'', s) \<and> ''abcdef'' @ sl_content s = ''abcdef''"
proof -
  let ?es = "[Arrive ''abc'', Consume 2, Arrive ''defg'', Consume 9, Consume 9]"
  obtain i x s where r: "sl_run ?es (suiolite_new 4 False) = (i, x, s)"
    by (cases "sl_run ?es (suiolite_new 4 False)") auto
  moreover have "fst (sl_run ?es (suiolite_new 4 False)) = ''abcdef''"
    unfolding suiolite_new_4 by code_simp
  moreover have "fst (snd (sl_run ?es (suiolite_new 4 False))) = ''abcdef''"
    unfolding suiolite_new_4 by code_simp
  ultimately show ?thesis using suiolite_fifo [OF r] by simp
qed

text \<open>
  A read from the socket never disturbs the window a parser may still hold: the bytes
  \<^verbatim>\<open>getdata\<close> showed before the read are still a prefix of what it shows after it, and as
  long as any byte is buffered \<^verbatim>\<open>getdata\<close> shows at least one.
\<close>

theorem suiolite_window_stable:
  assumes "suiolite_inv s"
  shows "(\<exists>r. sl_getdata (snd (snd (suiolite_input k s))) = sl_getdata s @ r)
       \<and> (resid s \<noteq> 0 \<longrightarrow> sl_getdata s \<noteq> [])"
proof -
  have "sl_getdata (load_iov s) = sl_getdata s" by (simp add: sl_getdata_def load_iov_def)
  then have "\<exists>r. sl_getdata (snd (snd (suiolite_input k s))) = sl_getdata s @ r"
    using sl.put_avail [OF assms] by (cases k) (simp_all add: suiolite_input_def sl_put_def)
  then show ?thesis using assms sl.avail_live by (simp add: resid_content)
qed

theorem suiolite_window_stable_witness:
  "\<exists>r. sl_getdata (snd (snd (suiolite_input (Some ''xy'') (suiolite_new 4 False)))) = [] @ r"
  using suiolite_window_stable [OF suiolite_new_inv, of "Some ''xy''" 4 False]
  by (simp add: suiolite_new_def Let_def sl_getdata_def)

text \<open>
  \<^verbatim>\<open>load_into_xdr\<close> on unread bytes that wrap around the end of the ring: the second
  block is copied over the start of the output instead of after the first block, so the
  output is not the buffered data.
\<close>

theorem load_into_xdr_wrapped:
  assumes "suiolite_inv s" and "length (sl_getdata s) < n" and "n \<le> length (sl_content s)"
  shows "\<exists>s'. load_into_xdr n s =
      Some (let first = sl_getdata s; second = drop (length first) (take n (sl_content s))
            in second @ drop (length second) first
               @ replicate (n - max (length first) (length second)) NUL, s')"
  using load_into_xdr_wrapped_aux assms by force

definition wrapped_ring :: suiolite where
  "wrapped_ring = (suiolite_new 4 False)\<lparr>sl_buf := ''cdab'', sl_rp := 2, sl_dep1 := 4, sl_dep0 := 2\<rparr>"

theorem load_into_xdr_wrapped_witness:
  "sl_content wrapped_ring = ''abcd'' \<and> (\<exists>s'. load_into_xdr 4 wrapped_ring = Some (''cd'' @ [NUL, NUL], s'))"
proof -
  have g: "sl_getdata wrapped_ring = ''ab''" "sl_content wrapped_ring = ''abcd''"
    by (simp_all add: wrapped_ring_def sl_getdata_def sl_content_def seg_def suiolite_new_def Let_def)
  have "suiolite_inv wrapped_ring"
    by (simp add: wrapped_ring_def suiolite_inv_def suiolite_new_def SUIOLITE_MAX_BUFLEN_def)
  from load_into_xdr_wrapped [OF this, of 4] g show ?thesis by (simp add: numeral_eq_Suc)
qed

end
