(* ===== verification/Abuf.thy ===== *)
theory Abuf
  imports Suiolite
begin

text \<open>
  The character stream every parser of the server reads from:
  \<^verbatim>\<open>src/libahttp/abuf.h\<close> and \<^verbatim>\<open>src/libahttp/abuf.C\<close>.  A buffer \<open>abuf\<close> sits on a data
  source, either a connection (\<^verbatim>\<open>abuf_con_t\<close>, on top of the ring buffer of theory
  \<open>Suiolite\<close>) or a string (\<^verbatim>\<open>abuf_str_t\<close>); the virtual calls of \<^verbatim>\<open>abuf_src_t\<close> are the
  functions \<open>src_*\<close> by cases on the source.  The window \<open>[_basep, _endp)\<close> is the list
  \<open>ab_win\<close>, \<^verbatim>\<open>_cp\<close> an offset into it (\<^verbatim>\<open>len\<close> is always the length of the window).
  The mirror is the pair of the bytes copied so far and the room of the caller's buffer.
  A failed \<^verbatim>\<open>assert\<close> sets \<open>ab_abort\<close>.
\<close>

section \<open>State\<close>

text \<open>The value of \<^verbatim>\<open>get\<close>: a byte, or one of the two control characters.\<close>

datatype abuf_ch = CH char | EOFCHAR | WAITCHAR

text \<open>The integer the code uses for it.\<close>

fun ch_int :: "abuf_ch \<Rightarrow> int" where
  "ch_int (CH c) = schar c"
| "ch_int EOFCHAR = - 0xffff0"
| "ch_int WAITCHAR = - 0xffff1"

definition is_control_char :: "abuf_ch \<Rightarrow> bool" where
  "is_control_char ch \<longleftrightarrow> ch_int ch \<le> - 0xffff0"

text \<open>The byte stored when that integer is assigned to a \<^verbatim>\<open>char\<close>.\<close>

definition ch_byte :: "abuf_ch \<Rightarrow> char" where
  "ch_byte ch = char_of (nat (ch_int ch mod 256))"

record abuf_con =
  con_in :: suiolite
  con_eof :: bool
  con_selread :: bool
  con_overflow :: bool

record abuf_str =
  as_s :: string
  as_eof :: bool

datatype abuf_src = Src_con abuf_con | Src_str abuf_str

record abuf =
  ab_src :: abuf_src
  ab_bc :: bool
  ab_lch :: abuf_ch
  ab_win :: string
  ab_cp :: nat
  ab_erc :: abuf_stat
  ab_spcs :: nat
  ab_lim :: int
  ab_ccnt :: int
  ab_mirror :: "(string \<times> nat) option"
  ab_abort :: bool

definition abuf_new :: "abuf_src \<Rightarrow> abuf" where
  "abuf_new s = \<lparr>ab_src = s, ab_bc = False, ab_lch = CH NUL, ab_win = [], ab_cp = 0,
     ab_erc = ABUF_OK, ab_spcs = 0, ab_lim = - 1, ab_ccnt = 0, ab_mirror = None, ab_abort = False\<rparr>"

section \<open>Sources\<close>

text \<open>\<^verbatim>\<open>abuf_str_t (const str \&)\<close> and \<^verbatim>\<open>abuf_str_t (const char *, bool, int)\<close>.\<close>

definition abuf_str_new :: "string \<Rightarrow> abuf_str" where
  "abuf_str_new s = \<lparr>as_s = s, as_eof = (length s = 0)\<rparr>"

definition abuf_str_new_cstr :: "string \<Rightarrow> abuf_str" where
  "abuf_str_new_cstr s = \<lparr>as_s = s, as_eof = (0 < length s)\<rparr>"

definition abuf_con_new :: "suiolite \<Rightarrow> bool \<Rightarrow> abuf_con" where
  "abuf_con_new s ateof = \<lparr>con_in = s, con_eof = ateof, con_selread = True, con_overflow = False\<rparr>"

definition con_readcb :: "nat \<Rightarrow> abuf_con \<Rightarrow> abuf_con" where
  "con_readcb n c = (if n = 0 then c\<lparr>con_eof := True\<rparr> else c)"

text \<open>\<^verbatim>\<open>init\<close> and \<^verbatim>\<open>ahttpcon::setrcb\<close>: whether the read callback runs at once.\<close>

fun src_init :: "abuf_src \<Rightarrow> bool \<times> abuf_src" where
  "src_init (Src_con c) =
     (if con_selread c
      then let i = resid (con_in c)
           in if i \<noteq> 0 then (True, Src_con (con_readcb i c)) else (False, Src_con c)
      else (True, Src_con (con_readcb 0 c)))"
| "src_init (Src_str t) = (True, Src_str t)"

fun src_getdata :: "abuf_src \<Rightarrow> (abuf_stat \<times> string) \<times> abuf_src" where
  "src_getdata (Src_con c) =
     (if con_eof c then ((ABUF_EOF, []), Src_con c)
      else let d = sl_getdata (con_in c)
           in ((if d \<noteq> [] then ABUF_OK else ABUF_WAIT, d), Src_con c))"
| "src_getdata (Src_str t) =
     (if as_eof t then ((ABUF_EOF, []), Src_str t)
      else ((ABUF_OK, as_s t), Src_str (t\<lparr>as_eof := True\<rparr>)))"

fun src_rembytes :: "nat \<Rightarrow> abuf_src \<Rightarrow> abuf_src" where
  "src_rembytes n (Src_con c) = Src_con (c\<lparr>con_in := sl_rembytes n (con_in c)\<rparr>)"
| "src_rembytes n (Src_str t) = Src_str t"

fun src_overflow :: "abuf_src \<Rightarrow> bool" where
  "src_overflow (Src_con c) = con_overflow c"
| "src_overflow (Src_str t) = False"

section \<open>Reading\<close>

definition moredata :: "abuf \<Rightarrow> abuf" where
  "moredata a =
     (let s1 = (if 0 < length (ab_win a) then src_rembytes (length (ab_win a)) (ab_src a) else ab_src a);
          ((e, d), s2) = src_getdata s1
      in a\<lparr>ab_src := s2, ab_win := d, ab_cp := 0, ab_erc := e\<rparr>)"

definition mirror_push :: "char \<Rightarrow> (string \<times> nat) option \<Rightarrow> (string \<times> nat) option" where
  "mirror_push c m =
     (case m of None \<Rightarrow> None
      | Some (bs, room) \<Rightarrow> if length bs < room then Some (bs @ [c], room) else Some (bs, room))"

text \<open>The macro \<^verbatim>\<open>ABUF_T_GET_GOT_CHAR\<close>.\<close>

definition got_char :: "abuf \<Rightarrow> abuf_ch \<times> abuf" where
  "got_char a =
     (let c = ab_win a ! ab_cp a
      in (CH c, a\<lparr>ab_ccnt := ab_ccnt a + 1, ab_mirror := mirror_push c (ab_mirror a),
                  ab_lch := CH c, ab_cp := Suc (ab_cp a)\<rparr>))"

definition abuf_get :: "abuf \<Rightarrow> abuf_ch \<times> abuf" where
  "abuf_get a =
     (if ab_bc a then (ab_lch a, a\<lparr>ab_bc := False\<rparr>)
      else if ab_lim a = ab_ccnt a then (EOFCHAR, a)
      else if ab_cp a < length (ab_win a) then got_char a
      else
        let a1 = (if ab_erc a = ABUF_OK then moredata a else a)
        in if ab_erc a = ABUF_OK \<and> ab_erc a1 = ABUF_OK \<and> ab_cp a1 < length (ab_win a1)
           then got_char a1
           else let e = (if ab_erc a1 = ABUF_WAIT then WAITCHAR else EOFCHAR)
                in (e, a1\<lparr>ab_lch := e\<rparr>))"

definition abuf_unget :: "abuf \<Rightarrow> abuf" where
  "abuf_unget a = (if ab_lch a \<noteq> WAITCHAR then a\<lparr>ab_bc := True\<rparr> else a)"

definition abuf_peek :: "abuf \<Rightarrow> abuf_ch \<times> abuf" where
  "abuf_peek a = (let (r, a') = abuf_get a in (r, abuf_unget a'))"

definition abuf_can_read :: "abuf \<Rightarrow> abuf" where
  "abuf_can_read a = a\<lparr>ab_erc := ABUF_OK\<rparr>"

definition abuf_setlim :: "int \<Rightarrow> abuf \<Rightarrow> abuf" where
  "abuf_setlim l a = a\<lparr>ab_lim := l, ab_ccnt := 0\<rparr>"

definition abuf_reset :: "abuf \<Rightarrow> abuf" where
  "abuf_reset a = a\<lparr>ab_spcs := 0, ab_mirror := None\<rparr>"

definition get_ccnt :: "abuf \<Rightarrow> int" where
  "get_ccnt a = ab_ccnt a - (if ab_bc a then 1 else 0)"

definition abuf_overflow :: "abuf \<Rightarrow> bool" where
  "abuf_overflow a = src_overflow (ab_src a)"

definition abuf_finish :: "abuf \<Rightarrow> abuf" where
  "abuf_finish a =
     (if \<not> ab_cp a \<le> length (ab_win a) then a\<lparr>ab_abort := True\<rparr>
      else a\<lparr>ab_src := src_rembytes (ab_cp a) (ab_src a),
             ab_win := drop (ab_cp a) (ab_win a), ab_cp := 0\<rparr>)"

partial_function (option) skip_ws :: "abuf \<Rightarrow> (abuf_stat \<times> abuf) option" where
  "skip_ws a =
     (let (ch, a') = abuf_get a
      in case ch of
           CH c \<Rightarrow> if 0 < schar c \<and> isspace c then skip_ws a' else Some (ABUF_OK, abuf_unget a')
         | WAITCHAR \<Rightarrow> Some (ABUF_WAIT, a')
         | EOFCHAR \<Rightarrow> Some (ABUF_EOF, a'))"

declare skip_ws.simps [code]

text \<open>The loop of \<^verbatim>\<open>skip_hws\<close>, which counts the characters it reads in \<^verbatim>\<open>spcs\<close>.\<close>

partial_function (option) skip_hws_loop :: "abuf \<Rightarrow> (abuf_ch \<times> abuf) option" where
  "skip_hws_loop a =
     (let (ch, a') = abuf_get a; a'' = a'\<lparr>ab_spcs := Suc (ab_spcs a')\<rparr>
      in if ch = CH SPC \<or> ch = CH TAB then skip_hws_loop a'' else Some (ch, a''))"

declare skip_hws_loop.simps [code]

definition skip_hws :: "nat \<Rightarrow> abuf \<Rightarrow> (abuf_stat \<times> abuf) option" where
  "skip_hws mn a =
     (case skip_hws_loop a of
        None \<Rightarrow> None
      | Some (ch, a1) \<Rightarrow>
          let a2 = a1\<lparr>ab_spcs := ab_spcs a1 - 1\<rparr>
          in if ch = WAITCHAR then Some (ABUF_WAIT, a2)
             else Some (if ab_spcs a2 < mn then ABUF_PARSE_ERR else ABUF_OK,
                        abuf_unget (a2\<lparr>ab_spcs := 0\<rparr>)))"

definition expectchar :: "char \<Rightarrow> abuf \<Rightarrow> abuf_stat \<times> abuf" where
  "expectchar ch a =
     (let (c, a1) = abuf_get a
      in if c = CH ch then (ABUF_OK, a1)
         else let a2 = abuf_unget a1
              in (case c of WAITCHAR \<Rightarrow> ABUF_WAIT | EOFCHAR \<Rightarrow> ABUF_EOF | CH _ \<Rightarrow> ABUF_NOMATCH, a2))"

definition requirechar :: "char \<Rightarrow> abuf \<Rightarrow> abuf_stat \<times> abuf" where
  "requirechar ch a =
     (let (r, a') = expectchar ch a in (if r = ABUF_NOMATCH then ABUF_PARSE_ERR else r, a'))"

section \<open>Mirroring\<close>

definition abuf_mirror :: "nat \<Rightarrow> abuf \<Rightarrow> abuf" where
  "abuf_mirror room a = a\<lparr>ab_mirror := Some ([], room)\<rparr>"

definition strip_crlf :: "string \<Rightarrow> string" where
  "strip_crlf s = rev (dropWhile (\<lambda>c. c = CR \<or> c = LF) (rev s))"

text \<open>With no mirror set the three pointers are \<^verbatim>\<open>NULL\<close> and the result is the empty string.\<close>

definition end_mirror :: "abuf \<Rightarrow> string \<times> abuf" where
  "end_mirror a =
     (strip_crlf (case ab_mirror a of None \<Rightarrow> [] | Some (bs, _) \<Rightarrow> bs), a\<lparr>ab_mirror := None\<rparr>)"

definition end_mirror2 :: "nat \<Rightarrow> abuf \<Rightarrow> string \<times> abuf" where
  "end_mirror2 sublen a =
     (let bs = (case ab_mirror a of None \<Rightarrow> [] | Some (b, _) \<Rightarrow> b)
      in if length bs < sublen then ([], a\<lparr>ab_abort := True\<rparr>)
         else let b1 = take (length bs - sublen) bs;
                  b2 = (if 2 \<le> length b1 \<and> drop (length b1 - 2) b1 = [CR, LF]
                        then take (length b1 - 2) b1 else b1)
              in (b2, a\<lparr>ab_mirror := None\<rparr>))"

section \<open>Block reads\<close>

definition abuf_flush :: "nat \<Rightarrow> abuf \<Rightarrow> string \<times> abuf" where
  "abuf_flush n a =
     (if n = 0 \<or> ab_cp a = length (ab_win a) then ([], a)
      else
        let pre = (if ab_bc a then [ch_byte (ab_lch a)] else []);
            d = take (n - length pre) (drop (ab_cp a) (ab_win a))
        in (pre @ d, a\<lparr>ab_cp := ab_cp a + length d, ab_ccnt := ab_ccnt a + int (length d),
                       ab_bc := False\<rparr>))"

definition get_errchar :: "abuf \<Rightarrow> abuf_ch option" where
  "get_errchar a =
     (if 0 \<le> ab_lim a \<and> ab_lim a \<le> ab_ccnt a then Some EOFCHAR
      else case ab_erc a of ABUF_EOF \<Rightarrow> Some EOFCHAR | ABUF_WAIT \<Rightarrow> Some WAITCHAR | _ \<Rightarrow> None)"

partial_function (option) dump_loop :: "nat \<Rightarrow> string \<Rightarrow> abuf \<Rightarrow> (string \<times> abuf) option" where
  "dump_loop spaceleft out a =
     (if 0 < spaceleft \<and> ab_erc a = ABUF_OK
      then let (d, a1) = abuf_flush spaceleft a; left = spaceleft - length d;
               a2 = (if 0 < left then moredata a1 else a1)
           in dump_loop left (out @ d) a2
      else Some (out, a))"

declare dump_loop.simps [code]

text \<open>\<^verbatim>\<open>dump\<close>: a control character, or the bytes written.\<close>

definition abuf_dump :: "nat \<Rightarrow> abuf \<Rightarrow> ((abuf_ch + string) \<times> abuf) option" where
  "abuf_dump n a =
     (case get_errchar a of
        Some e \<Rightarrow> Some (Inl e, a)
      | None \<Rightarrow> map_option (\<lambda>(d, a'). (Inr d, a')) (dump_loop n [] a))"

definition abuf_stream :: "abuf \<Rightarrow> (abuf_ch + string) \<times> abuf" where
  "abuf_stream a =
     (if ab_bc a then
        if ch_int (ab_lch a) < 0 then (Inr [], a\<lparr>ab_abort := True\<rparr>)
        else (Inr [ch_byte (ab_lch a)], a\<lparr>ab_bc := False\<rparr>)
      else case get_errchar a of
        Some e \<Rightarrow> (Inl e, a)
      | None \<Rightarrow>
          let refill = (ab_cp a = length (ab_win a)); a1 = (if refill then moredata a else a)
          in case (if refill then get_errchar a1 else None) of
               Some e \<Rightarrow> (Inl e, a1)
             | None \<Rightarrow>
                 if ab_erc a1 \<noteq> ABUF_OK then (Inr [], a1\<lparr>ab_abort := True\<rparr>)
                 else let d = drop (ab_cp a1) (ab_win a1)
                      in (Inr d, a1\<lparr>ab_cp := length (ab_win a1),
                                    ab_ccnt := ab_ccnt a1 + int (length d)\<rparr>))"

section \<open>Invariant and abstraction\<close>

text \<open>
  \<open>src_rest n s\<close>: what the source will still deliver once the \<open>n\<close> bytes of the current
  window are given back to it.
\<close>

fun src_rest :: "nat \<Rightarrow> abuf_src \<Rightarrow> string" where
  "src_rest n (Src_con c) = (if con_eof c then [] else drop n (sl_content (con_in c)))"
| "src_rest n (Src_str t) = (if as_eof t then [] else as_s t)"

fun src_ateof :: "abuf_src \<Rightarrow> bool" where
  "src_ateof (Src_con c) = con_eof c"
| "src_ateof (Src_str t) = as_eof t"

fun src_inv :: "string \<Rightarrow> abuf_src \<Rightarrow> bool" where
  "src_inv w (Src_con c) \<longleftrightarrow> suiolite_inv (con_in c) \<and> take (length w) (sl_content (con_in c)) = w"
| "src_inv w (Src_str t) \<longleftrightarrow> True"

text \<open>What reading past the last byte of the source reports.\<close>

fun src_end :: "abuf_src \<Rightarrow> abuf_ch" where
  "src_end (Src_con c) = (if con_eof c then EOFCHAR else WAITCHAR)"
| "src_end (Src_str t) = EOFCHAR"

definition abuf_inv :: "abuf \<Rightarrow> bool" where
  "abuf_inv a \<longleftrightarrow>
     \<not> ab_abort a \<and> ab_cp a \<le> length (ab_win a) \<and> src_inv (ab_win a) (ab_src a)
   \<and> ab_erc a \<in> {ABUF_OK, ABUF_WAIT, ABUF_EOF}
   \<and> (ab_erc a = ABUF_EOF \<longrightarrow> src_ateof (ab_src a))
   \<and> (ab_erc a = ABUF_WAIT \<longrightarrow>
        \<not> src_ateof (ab_src a) \<and> src_rest (length (ab_win a)) (ab_src a) = [])
   \<and> (ab_bc a \<longrightarrow> ab_lch a \<noteq> WAITCHAR)
   \<and> (ab_bc a \<and> ab_lch a = EOFCHAR \<longrightarrow>
        src_ateof (ab_src a) \<and> ab_cp a = length (ab_win a) \<and> ab_erc a \<noteq> ABUF_WAIT)"

definition ab_avail :: "abuf \<Rightarrow> string" where
  "ab_avail a = drop (ab_cp a) (ab_win a)
     @ (if ab_erc a = ABUF_OK then src_rest (length (ab_win a)) (ab_src a) else [])"

definition ab_end :: "abuf \<Rightarrow> abuf_ch" where
  "ab_end a = (case ab_erc a of ABUF_OK \<Rightarrow> src_end (ab_src a) | ABUF_WAIT \<Rightarrow> WAITCHAR | _ \<Rightarrow> EOFCHAR)"

definition ab_buffered :: "abuf \<Rightarrow> string" where
  "ab_buffered a = (if ab_bc a then (case ab_lch a of CH c \<Rightarrow> [c] | _ \<Rightarrow> []) else [])"

text \<open>The characters a reader will still see, and the control character after them.\<close>

definition ab_pending :: "abuf \<Rightarrow> string" where
  "ab_pending a = ab_buffered a
     @ (if ab_ccnt a \<le> ab_lim a then take (nat (ab_lim a - ab_ccnt a)) (ab_avail a) else ab_avail a)"

definition ab_eos :: "abuf \<Rightarrow> abuf_ch" where
  "ab_eos a =
     (if ab_ccnt a \<le> ab_lim a \<and> nat (ab_lim a - ab_ccnt a) \<le> length (ab_avail a)
      then EOFCHAR else ab_end a)"

section \<open>Interfaces\<close>

text \<open>
  What an \<open>abuf\<close> relies on in a source: \<open>getdata\<close> and \<open>rembytes\<close> hand out the remaining bytes
  in order, and report the end only when none are left.
\<close>

locale data_source =
  fixes inv :: "string \<Rightarrow> 's \<Rightarrow> bool"
    and rest :: "nat \<Rightarrow> 's \<Rightarrow> string"
    and endch :: "'s \<Rightarrow> abuf_ch"
    and ateof :: "'s \<Rightarrow> bool"
    and getdata :: "'s \<Rightarrow> (abuf_stat \<times> string) \<times> 's"
    and rembytes :: "nat \<Rightarrow> 's \<Rightarrow> 's"
  assumes rembytes_inv: "inv w s \<Longrightarrow> inv [] (rembytes (length w) s)"
    and rembytes_rest: "inv w s \<Longrightarrow> rest 0 (rembytes (length w) s) = rest (length w) s"
    and rembytes_end: "endch (rembytes n s) = endch s"
    and getdata_inv: "inv [] s \<Longrightarrow> getdata s = ((e, d), s') \<Longrightarrow> inv d s'"
    and getdata_rest: "inv [] s \<Longrightarrow> getdata s = ((e, d), s') \<Longrightarrow>
        rest 0 s = d @ (if e = ABUF_OK then rest (length d) s' else [])"
    and getdata_live: "inv [] s \<Longrightarrow> getdata s = ((e, d), s') \<Longrightarrow> rest 0 s \<noteq> [] \<Longrightarrow> e = ABUF_OK \<and> d \<noteq> []"
    and getdata_end: "inv [] s \<Longrightarrow> getdata s = ((e, d), s') \<Longrightarrow>
        endch s = (case e of ABUF_OK \<Rightarrow> endch s' | ABUF_WAIT \<Rightarrow> WAITCHAR | _ \<Rightarrow> EOFCHAR)"
    and getdata_stat: "getdata s = ((e, d), s') \<Longrightarrow> e \<in> {ABUF_OK, ABUF_WAIT, ABUF_EOF}"
    and getdata_eof: "getdata s = ((e, d), s') \<Longrightarrow> (e = ABUF_EOF \<longrightarrow> ateof s') \<and> (e = ABUF_WAIT \<longrightarrow> \<not> ateof s')"
    and getdata_wait: "getdata s = ((ABUF_WAIT, d), s') \<Longrightarrow> d = [] \<and> s' = s"
    and getdata_empty: "getdata s = ((ABUF_OK, []), s') \<Longrightarrow> ateof s'"
begin

text \<open>Giving an exhausted window back changes nothing of what is to come.\<close>

lemma give_back:
  assumes "inv w s" and "s0 = (if 0 < length w then rembytes (length w) s else s)"
  shows "inv [] s0 \<and> rest 0 s0 = rest (length w) s \<and> endch s0 = endch s"
  using assms rembytes_inv [OF assms(1)] rembytes_rest [OF assms(1)] by (auto simp: rembytes_end)

end

text \<open>What a parser relies on in a character stream.\<close>

locale char_stream =
  fixes ok :: "'a \<Rightarrow> bool"
    and pending :: "'a \<Rightarrow> string"
    and eos :: "'a \<Rightarrow> abuf_ch"
    and get :: "'a \<Rightarrow> abuf_ch \<times> 'a"
    and unget :: "'a \<Rightarrow> 'a"
  assumes eos_control: "eos a \<in> {EOFCHAR, WAITCHAR}"
    and get_char: "ok a \<Longrightarrow> pending a = c # cs \<Longrightarrow> \<exists>a'. get a = (CH c, a') \<and> ok a' \<and> pending a' = cs \<and> eos a' = eos a"
    and get_end: "ok a \<Longrightarrow> pending a = [] \<Longrightarrow> \<exists>a'. get a = (eos a, a') \<and> ok a' \<and> pending a' = [] \<and> eos a' = eos a"
    and unget_char: "ok a \<Longrightarrow> get a = (CH c, a') \<Longrightarrow>
        ok (unget a') \<and> pending (unget a') = c # pending a' \<and> eos (unget a') = eos a'"
begin

lemma get_CH_iff:
  assumes "ok a"
  shows "(\<exists>a'. get a = (CH c, a')) \<longleftrightarrow> (\<exists>cs. pending a = c # cs)"
proof (cases "pending a")
  case Nil
  then show ?thesis using get_end [OF assms] eos_control [of a] by auto
next
  case (Cons d ds)
  then show ?thesis using get_char [OF assms] by fastforce
qed

text \<open>Reading and pushing back is looking.\<close>

lemma get_unget:
  assumes "ok a" and "pending a = c # cs"
  shows "\<exists>a'. get a = (CH c, a') \<and> ok (unget a') \<and> pending (unget a') = pending a \<and> eos (unget a') = eos a"
proof -
  obtain a' where a': "get a = (CH c, a')" "pending a' = cs" "eos a' = eos a"
    using get_char [OF assms] by blast
  then show ?thesis using unget_char [OF assms(1) a'(1)] assms(2) by simp
qed

end

text \<open>Which fields the abstraction does not look at.\<close>

lemma ab_avail_frame [simp]:
  "ab_avail (a\<lparr>ab_lch := x\<rparr>) = ab_avail a" "ab_avail (a\<lparr>ab_bc := b\<rparr>) = ab_avail a"
  "ab_avail (a\<lparr>ab_spcs := n\<rparr>) = ab_avail a" "ab_avail (a\<lparr>ab_mirror := m\<rparr>) = ab_avail a"
  "ab_avail (a\<lparr>ab_ccnt := i\<rparr>) = ab_avail a" "ab_avail (a\<lparr>ab_lim := i\<rparr>) = ab_avail a"
  by (simp_all add: ab_avail_def)

lemma ab_end_frame [simp]:
  "ab_end (a\<lparr>ab_lch := x\<rparr>) = ab_end a" "ab_end (a\<lparr>ab_bc := b\<rparr>) = ab_end a"
  "ab_end (a\<lparr>ab_spcs := n\<rparr>) = ab_end a" "ab_end (a\<lparr>ab_mirror := m\<rparr>) = ab_end a"
  "ab_end (a\<lparr>ab_ccnt := i\<rparr>) = ab_end a" "ab_end (a\<lparr>ab_lim := i\<rparr>) = ab_end a"
  "ab_end (a\<lparr>ab_cp := n\<rparr>) = ab_end a"
  by (cases "ab_erc a"; simp add: ab_end_def)+

lemma ab_eos_frame [simp]:
  "ab_eos (a\<lparr>ab_lch := x\<rparr>) = ab_eos a" "ab_eos (a\<lparr>ab_bc := b\<rparr>) = ab_eos a"
  "ab_eos (a\<lparr>ab_spcs := n\<rparr>) = ab_eos a" "ab_eos (a\<lparr>ab_mirror := m\<rparr>) = ab_eos a"
  by (simp_all add: ab_eos_def)

lemma ab_pending_frame [simp]:
  "ab_pending (a\<lparr>ab_spcs := n\<rparr>) = ab_pending a" "ab_pending (a\<lparr>ab_mirror := m\<rparr>) = ab_pending a"
  by (simp_all add: ab_pending_def ab_buffered_def)

lemma abuf_inv_frame [simp]:
  "abuf_inv (a\<lparr>ab_spcs := n\<rparr>) = abuf_inv a" "abuf_inv (a\<lparr>ab_mirror := m\<rparr>) = abuf_inv a"
  by (simp_all add: abuf_inv_def)

section \<open>Sources meet the interface\<close>

lemma src_rembytes_0_rest:
  "src_inv w s \<Longrightarrow> src_inv [] (src_rembytes (length w) s) \<and>
     src_rest 0 (src_rembytes (length w) s) = src_rest (length w) s"
proof (cases s)
  case (Src_con c)
  assume "src_inv w s"
  with Src_con have inv: "suiolite_inv (con_in c)" and w: "take (length w) (sl_content (con_in c)) = w"
    by simp_all
  from w have le: "length w \<le> length (sl_content (con_in c))"
    by (metis length_take min.cobounded1)
  show ?thesis using Src_con sl.rem_invar [OF inv le] sl.rem_content [OF inv le] by simp
qed simp

lemma src_getdata_facts:
  assumes inv: "src_inv [] s" and g: "src_getdata s = ((e, d), s')"
  shows "src_inv d s' \<and> src_rest 0 s = d @ (if e = ABUF_OK then src_rest (length d) s' else [])"
proof (cases s)
  case (Src_con c)
  then have c: "suiolite_inv (con_in c)" using inv by simp
  obtain r where r: "sl_content (con_in c) = sl_getdata (con_in c) @ r"
    using sl.avail_content [OF c] by blast
  show ?thesis
  proof (cases "con_eof c")
    case False
    then have "d = sl_getdata (con_in c)" "s' = s" "e = (if d \<noteq> [] then ABUF_OK else ABUF_WAIT)"
      using g Src_con by (auto simp: Let_def)
    moreover have "d = [] \<longrightarrow> sl_content (con_in c) = []"
      using sl.avail_live [OF c] calculation(1) by auto
    ultimately show ?thesis using False Src_con c r by (cases "d = []") simp_all
  qed (use g Src_con c in auto)
qed (use g in \<open>auto split: if_splits\<close>)

interpretation src: data_source src_inv src_rest src_end src_ateof src_getdata src_rembytes
proof unfold_locales
  fix w :: string and s s' :: abuf_src and n :: nat and e :: abuf_stat and d :: string
  show "src_inv w s \<Longrightarrow> src_inv [] (src_rembytes (length w) s)"
    and "src_inv w s \<Longrightarrow> src_rest 0 (src_rembytes (length w) s) = src_rest (length w) s"
    using src_rembytes_0_rest by blast+
  show "src_end (src_rembytes n s) = src_end s" by (cases s) simp_all
  show "src_getdata s = ((ABUF_OK, []), s') \<Longrightarrow> src_ateof s'"
    and "src_getdata s = ((ABUF_WAIT, d), s') \<Longrightarrow> d = [] \<and> s' = s"
    by (cases s; auto simp: Let_def split: if_splits)+
  assume g: "src_getdata s = ((e, d), s')"
  then show "e \<in> {ABUF_OK, ABUF_WAIT, ABUF_EOF}"
    and "(e = ABUF_EOF \<longrightarrow> src_ateof s') \<and> (e = ABUF_WAIT \<longrightarrow> \<not> src_ateof s')"
    by (cases s; auto simp: Let_def split: if_splits)+
  assume inv: "src_inv [] s"
  show "src_inv d s' " and "src_rest 0 s = d @ (if e = ABUF_OK then src_rest (length d) s' else [])"
    using src_getdata_facts [OF inv g] by blast+
  from inv g show "src_end s = (case e of ABUF_OK \<Rightarrow> src_end s' | ABUF_WAIT \<Rightarrow> WAITCHAR | _ \<Rightarrow> EOFCHAR)"
    by (cases s) (auto simp: Let_def split: if_splits)
  show "src_rest 0 s \<noteq> [] \<Longrightarrow> e = ABUF_OK \<and> d \<noteq> []"
  proof (cases s)
    case (Src_con c)
    assume r: "src_rest 0 s \<noteq> []"
    then have "sl_getdata (con_in c) \<noteq> []" "\<not> con_eof c"
      using Src_con inv sl.avail_live [of "con_in c"] by (auto split: if_splits)
    then show ?thesis using g Src_con by auto
  qed (use g in \<open>auto split: if_splits\<close>)
qed

section \<open>Reading\<close>

lemma moredata_eq:
  assumes "src_inv (ab_win a) (ab_src a)"
  obtains e d s s0 where
    "moredata a = a\<lparr>ab_src := s, ab_win := d, ab_cp := 0, ab_erc := e\<rparr>"
    "src_inv [] s0" "src_rest 0 s0 = src_rest (length (ab_win a)) (ab_src a)"
    "src_end s0 = src_end (ab_src a)" "src_getdata s0 = ((e, d), s)"
proof -
  let ?s0 = "if 0 < length (ab_win a) then src_rembytes (length (ab_win a)) (ab_src a) else ab_src a"
  obtain e d s where g: "src_getdata ?s0 = ((e, d), s)" by (metis surj_pair)
  have m: "moredata a = a\<lparr>ab_src := s, ab_win := d, ab_cp := 0, ab_erc := e\<rparr>"
    using g by (simp add: moredata_def)
  with src.give_back [OF assms refl] show thesis using that g by blast
qed

lemma moredata_refill:
  assumes inv: "abuf_inv a" and "\<not> ab_bc a" "ab_erc a = ABUF_OK" "ab_cp a = length (ab_win a)"
  shows "abuf_inv (moredata a)" "ab_avail (moredata a) = ab_avail a" "ab_end (moredata a) = ab_end a"
    and "ab_avail a \<noteq> [] \<Longrightarrow> ab_erc (moredata a) = ABUF_OK \<and> ab_win (moredata a) \<noteq> []"
    and "ab_cp (moredata a) = 0"
proof -
  have "src_inv (ab_win a) (ab_src a)" using inv by (simp add: abuf_inv_def)
  then obtain e d s s0 where m: "moredata a = a\<lparr>ab_src := s, ab_win := d, ab_cp := 0, ab_erc := e\<rparr>"
    and s0: "src_inv [] s0" "src_rest 0 s0 = src_rest (length (ab_win a)) (ab_src a)"
    "src_end s0 = src_end (ab_src a)" and g: "src_getdata s0 = ((e, d), s)"
    by (rule moredata_eq)
  have wait: "e = ABUF_WAIT \<Longrightarrow> src_rest (length d) s = []"
  proof -
    assume e: "e = ABUF_WAIT"
    then have "d = []" "s = s0" using src.getdata_wait g by blast+
    then show ?thesis using src.getdata_live [OF s0(1) g] e by auto
  qed
  show "abuf_inv (moredata a)"
    using inv assms(2) src.getdata_inv [OF s0(1) g] src.getdata_stat [OF g] src.getdata_eof [OF g] wait
    by (auto simp: abuf_inv_def m)
  show "ab_avail (moredata a) = ab_avail a"
    using src.getdata_rest [OF s0(1) g] s0(2) assms by (simp add: ab_avail_def m)
  show "ab_end (moredata a) = ab_end a"
    using src.getdata_end [OF s0(1) g] s0(3) assms by (cases e) (simp_all add: ab_end_def m)
  show "ab_avail a \<noteq> [] \<Longrightarrow> ab_erc (moredata a) = ABUF_OK \<and> ab_win (moredata a) \<noteq> []"
  proof -
    assume "ab_avail a \<noteq> []"
    then have "src_rest 0 s0 \<noteq> []" using s0(2) assms by (simp add: ab_avail_def)
    then show ?thesis using src.getdata_live [OF s0(1) g] by (simp add: m)
  qed
  show "ab_cp (moredata a) = 0" by (simp add: m)
qed


lemma moredata_frame [simp]:
  "ab_bc (moredata a) = ab_bc a" "ab_lch (moredata a) = ab_lch a" "ab_lim (moredata a) = ab_lim a"
  "ab_ccnt (moredata a) = ab_ccnt a" "ab_spcs (moredata a) = ab_spcs a"
  "ab_mirror (moredata a) = ab_mirror a" "ab_abort (moredata a) = ab_abort a"
  by (simp_all add: moredata_def split: prod.splits)

lemma moredata_empty_eof: "ab_win (moredata a) = [] \<Longrightarrow> ab_erc (moredata a) \<noteq> ABUF_OK \<or> src_ateof (ab_src (moredata a))"
  using src.getdata_empty by (auto simp: moredata_def Let_def split: prod.splits)

lemma moredata_pending:
  assumes "abuf_inv a" and "\<not> ab_bc a" "ab_erc a = ABUF_OK" "ab_cp a = length (ab_win a)"
  shows "ab_pending (moredata a) = ab_pending a" "ab_eos (moredata a) = ab_eos a"
  using moredata_refill [OF assms]
  by (simp_all add: ab_pending_def ab_eos_def ab_buffered_def)

lemma got_char_law:
  assumes "abuf_inv a" and "\<not> ab_bc a" "ab_lim a \<noteq> ab_ccnt a" "ab_cp a < length (ab_win a)"
  shows "\<exists>c a'. got_char a = (CH c, a') \<and> ab_pending a = c # ab_pending a' \<and> abuf_inv a'
      \<and> ab_eos a' = ab_eos a \<and> ab_lch a' = CH c \<and> \<not> ab_bc a'"
proof -
  define c where "c = ab_win a ! ab_cp a"
  define a' where "a' = snd (got_char a)"
  have g: "got_char a = (CH c, a')" by (simp add: a'_def got_char_def Let_def c_def)
  have a': "a' = a\<lparr>ab_ccnt := ab_ccnt a + 1, ab_mirror := mirror_push c (ab_mirror a),
      ab_lch := CH c, ab_cp := Suc (ab_cp a)\<rparr>"
    by (simp add: a'_def got_char_def Let_def c_def)
  have av: "ab_avail a = c # ab_avail a'"
    using assms(4) by (simp add: ab_avail_def a' c_def Cons_nth_drop_Suc [symmetric])
  have en: "ab_end a' = ab_end a" by (simp add: a')
  have lim: "nat (ab_lim a - ab_ccnt a) = Suc (nat (ab_lim a - (ab_ccnt a + 1)))" if "ab_ccnt a \<le> ab_lim a"
    using that assms(3) by (simp add: Suc_nat_eq_nat_zadd1)
  have "ab_pending a = c # ab_pending a'"
    using assms(2,3) lim by (auto simp: ab_pending_def ab_buffered_def av a' simp del: ab_avail_def)
  moreover have "ab_eos a' = ab_eos a"
    using assms(3) lim by (auto simp: ab_eos_def av en) (auto simp: a')
  moreover have "abuf_inv a'" using assms by (auto simp: abuf_inv_def a')
  ultimately show ?thesis using g assms(2) by (auto simp: a')
qed

lemma abuf_get_bc:
  "ab_bc a \<Longrightarrow> abuf_get a = (ab_lch a, a\<lparr>ab_bc := False\<rparr>)"
  by (simp add: abuf_get_def)

lemma ab_pending_empty:
  "\<not> ab_bc a \<Longrightarrow> ab_lim a \<noteq> ab_ccnt a \<Longrightarrow> ab_pending a = [] \<longleftrightarrow> ab_avail a = []"
  by (auto simp: ab_pending_def ab_buffered_def)

text \<open>After the last byte: the control character is remembered and can be pushed back.\<close>

definition at_end :: "abuf \<Rightarrow> bool" where
  "at_end a \<longleftrightarrow> abuf_inv a \<and> ab_pending a = [] \<and> \<not> ab_bc a \<and>
     (ab_lim a \<noteq> ab_ccnt a \<longrightarrow>
        ab_lch a = ab_eos a \<and> abuf_inv (abuf_unget a) \<and> ab_pending (abuf_unget a) = [])"

lemma abuf_get_stuck:
  assumes inv: "abuf_inv a" and nbc: "\<not> ab_bc a" and lim: "ab_lim a \<noteq> ab_ccnt a"
    and av: "ab_avail a = []" and ok: "ab_erc a \<noteq> ABUF_OK \<or> src_ateof (ab_src a)"
    and cp: "ab_cp a = length (ab_win a)"
  shows "(if ab_erc a = ABUF_WAIT then WAITCHAR else EOFCHAR) = ab_eos a \<and> at_end (a\<lparr>ab_lch := ab_eos a\<rparr>)"
proof -
  define e where "e = (if ab_erc a = ABUF_WAIT then WAITCHAR else EOFCHAR)"
  have "e = ab_end a"
    using inv ok by (cases "ab_src a") (auto simp: ab_end_def abuf_inv_def e_def)
  moreover have "ab_eos a = ab_end a"
    using av lim by (auto simp: ab_eos_def)
  ultimately have e: "ab_eos a = e" by simp
  have inv': "abuf_inv (a\<lparr>ab_lch := e\<rparr>)" using inv nbc by (simp add: abuf_inv_def)
  have "abuf_inv (abuf_unget (a\<lparr>ab_lch := e\<rparr>))"
    using inv nbc ok cp by (auto simp: abuf_inv_def abuf_unget_def e_def)
  moreover have "ab_pending (a\<lparr>ab_lch := e\<rparr>) = []" "ab_pending (abuf_unget (a\<lparr>ab_lch := e\<rparr>)) = []"
    using nbc av by (auto simp: ab_pending_def ab_buffered_def abuf_unget_def e_def)
  ultimately show ?thesis using inv' nbc e by (simp add: at_end_def e_def [symmetric])
qed

lemma abuf_get_refill:
  assumes inv: "abuf_inv a" and nbc: "\<not> ab_bc a" and lim: "ab_lim a \<noteq> ab_ccnt a"
    and cp: "ab_cp a = length (ab_win a)"
  shows "case ab_pending a of
      c # cs \<Rightarrow> \<exists>a'. abuf_get a = (CH c, a') \<and> abuf_inv a' \<and> ab_pending a' = cs \<and> ab_eos a' = ab_eos a
                 \<and> ab_lch a' = CH c \<and> \<not> ab_bc a'
    | [] \<Rightarrow> \<exists>a'. abuf_get a = (ab_eos a, a') \<and> at_end a' \<and> ab_eos a' = ab_eos a"
proof (cases "ab_erc a = ABUF_OK")
  case False
  then have av: "ab_avail a = []" using cp by (simp add: ab_avail_def)
  then have p: "ab_pending a = []" using nbc lim by (simp add: ab_pending_empty)
  show ?thesis
    using abuf_get_stuck [OF inv nbc lim av _ cp] False nbc lim cp
    unfolding p by (simp add: abuf_get_def Let_def)
next
  case ok: True
  let ?m = "moredata a"
  note m = moredata_refill [OF inv nbc ok cp] moredata_pending [OF inv nbc ok cp]
  have m_nbc: "\<not> ab_bc ?m" and m_lim: "ab_lim ?m \<noteq> ab_ccnt ?m" using nbc lim by simp_all
  show ?thesis
  proof (cases "ab_avail a = []")
    case True
    then have win: "ab_win ?m = []" "ab_avail ?m = []"
      using m(2,5) by (auto simp: ab_avail_def)
    have "ab_erc ?m \<noteq> ABUF_OK \<or> src_ateof (ab_src ?m)"
      using moredata_empty_eof [OF win(1)] by blast
    then have stuck: "(if ab_erc ?m = ABUF_WAIT then WAITCHAR else EOFCHAR) = ab_eos ?m"
        "at_end (?m\<lparr>ab_lch := ab_eos ?m\<rparr>)"
      using abuf_get_stuck [OF m(1) m_nbc m_lim win(2)] win m(5) by auto
    have "abuf_get a = (ab_eos ?m, ?m\<lparr>ab_lch := ab_eos ?m\<rparr>)"
      using nbc lim cp ok win stuck(1) by (simp add: abuf_get_def Let_def)
    moreover have p: "ab_pending a = []" using True nbc lim by (simp add: ab_pending_empty)
    ultimately show ?thesis using stuck m(7) unfolding p by simp
  next
    case False
    then have e: "ab_erc ?m = ABUF_OK" "ab_cp ?m < length (ab_win ?m)" using m(4,5) by simp_all
    then show ?thesis
      using got_char_law [OF m(1) m_nbc m_lim e(2)] nbc lim cp ok m(6,7)
      by (auto simp: abuf_get_def Let_def)
  qed
qed

lemma abuf_get_spec:
  assumes inv: "abuf_inv a"
  shows "case ab_pending a of
      c # cs \<Rightarrow> \<exists>a'. abuf_get a = (CH c, a') \<and> abuf_inv a' \<and> ab_pending a' = cs \<and> ab_eos a' = ab_eos a
                 \<and> ab_lch a' = CH c \<and> \<not> ab_bc a'
    | [] \<Rightarrow> \<exists>a'. abuf_get a = (ab_eos a, a') \<and> at_end a' \<and> ab_eos a' = ab_eos a"
proof (cases "ab_bc a")
  case True
  let ?a' = "a\<lparr>ab_bc := False\<rparr>"
  have av: "ab_avail ?a' = ab_avail a" "ab_eos ?a' = ab_eos a" by simp_all
  show ?thesis
  proof (cases "ab_lch a")
    case (CH c)
    then have "ab_pending a = c # ab_pending ?a'" "abuf_inv ?a'"
      using True inv by (simp_all add: ab_pending_def ab_buffered_def av abuf_inv_def)
    then show ?thesis using True CH av by (simp add: abuf_get_bc)
  next
    case EOFCHAR
    then have e: "src_ateof (ab_src a)" "ab_cp a = length (ab_win a)" "ab_erc a = ABUF_OK \<or> ab_erc a = ABUF_EOF"
      using True inv by (auto simp: abuf_inv_def)
    then have "ab_avail a = []" "ab_end a = EOFCHAR"
      by (cases "ab_src a"; auto simp: ab_avail_def ab_end_def)+
    then have "ab_pending a = []" "ab_pending ?a' = []" "ab_eos a = EOFCHAR" "abuf_inv ?a'"
        "abuf_unget ?a' = a"
      using True EOFCHAR inv av
      by (auto simp: ab_pending_def ab_buffered_def ab_eos_def abuf_inv_def abuf_unget_def)
    then have "at_end ?a'" using inv EOFCHAR by (simp add: at_end_def)
    then show ?thesis using True EOFCHAR av \<open>ab_pending a = []\<close> \<open>ab_eos a = EOFCHAR\<close>
      by (simp add: abuf_get_bc)
  next
    case WAITCHAR
    then show ?thesis using True inv by (simp add: abuf_inv_def)
  qed
next
  case nbc: False
  show ?thesis
  proof (cases "ab_lim a = ab_ccnt a")
    case True
    then have "ab_pending a = []" "ab_eos a = EOFCHAR"
      using nbc by (simp_all add: ab_pending_def ab_buffered_def ab_eos_def)
    then show ?thesis using True nbc inv by (simp add: abuf_get_def at_end_def)
  next
    case lim: False
    show ?thesis
    proof (cases "ab_cp a < length (ab_win a)")
      case True
      then show ?thesis using got_char_law [OF inv nbc lim True] nbc lim by (auto simp: abuf_get_def)
    next
      case cp: False
      then have cpe: "ab_cp a = length (ab_win a)" using inv by (simp add: abuf_inv_def)
      show ?thesis using abuf_get_refill [OF inv nbc lim cpe] by (auto split: list.splits)
    qed
  qed
qed


lemma abuf_get_CH:
  assumes "abuf_inv a" and "ab_pending a = c # cs"
  obtains a' where "abuf_get a = (CH c, a')" "abuf_inv a'" "ab_pending a' = cs" "ab_eos a' = ab_eos a"
    "ab_lch a' = CH c" "\<not> ab_bc a'"
  using abuf_get_spec [OF assms(1)] assms(2) by auto

lemma abuf_get_end:
  assumes "abuf_inv a" and "ab_pending a = []"
  obtains a' where "abuf_get a = (ab_eos a, a')" "abuf_inv a'" "ab_pending a' = []" "ab_eos a' = ab_eos a"
    "at_end a'"
  using abuf_get_spec [OF assms(1)] assms(2) by (auto simp: at_end_def)

lemma src_end_control: "src_end s \<in> {EOFCHAR, WAITCHAR}"
  by (cases s) simp_all

lemma ab_eos_control: "ab_eos a \<in> {EOFCHAR, WAITCHAR}"
  using src_end_control [of "ab_src a"] by (simp add: ab_eos_def ab_end_def split: abuf_stat.split)

lemma abuf_unget_char:
  assumes inv: "abuf_inv a" and get: "abuf_get a = (CH c, a')"
  shows "abuf_inv (abuf_unget a') \<and> ab_pending (abuf_unget a') = c # ab_pending a'
       \<and> ab_eos (abuf_unget a') = ab_eos a'"
proof (cases "ab_pending a")
  case Nil
  then have "ab_eos a = CH c" using abuf_get_spec [OF inv] get by auto
  then show ?thesis using ab_eos_control [of a] by simp
next
  case (Cons d ds)
  then have a': "abuf_inv a'" "ab_lch a' = CH c" "\<not> ab_bc a'"
    using abuf_get_spec [OF inv] get by auto
  then show ?thesis
    by (auto simp: abuf_unget_def ab_pending_def ab_buffered_def abuf_inv_def)
qed

interpretation ab: char_stream abuf_inv ab_pending ab_eos abuf_get abuf_unget
proof unfold_locales
  fix a a' :: abuf and c :: char and cs :: string
  show "ab_eos a \<in> {EOFCHAR, WAITCHAR}" by (rule ab_eos_control)
  assume inv: "abuf_inv a"
  show "\<exists>a'. abuf_get a = (CH c, a') \<and> abuf_inv a' \<and> ab_pending a' = cs \<and> ab_eos a' = ab_eos a"
    if "ab_pending a = c # cs" by (rule abuf_get_CH [OF inv that]) blast
  show "\<exists>a'. abuf_get a = (ab_eos a, a') \<and> abuf_inv a' \<and> ab_pending a' = [] \<and> ab_eos a' = ab_eos a"
    if "ab_pending a = []" by (rule abuf_get_end [OF inv that]) blast
  show "abuf_get a = (CH c, a') \<Longrightarrow> abuf_inv (abuf_unget a') \<and> ab_pending (abuf_unget a') = c # ab_pending a'
      \<and> ab_eos (abuf_unget a') = ab_eos a'"
    using inv by (rule abuf_unget_char)
qed

lemma abuf_get_frame:
  "abuf_get a = (ch, a') \<Longrightarrow> ab_spcs a' = ab_spcs a \<and> ab_lim a' = ab_lim a"
  by (auto simp: abuf_get_def got_char_def Let_def split: if_splits)


section \<open>Events\<close>

text \<open>
  Bytes \<open>q\<close> reach the connection (\<^verbatim>\<open>ahttpcon::input\<close> fills the ring, \<^verbatim>\<open>readcb\<close> runs the
  parser's \<^verbatim>\<open>can_read_cb\<close>), or the peer closes it.
\<close>

fun src_feed :: "string \<Rightarrow> abuf_src \<Rightarrow> abuf_src" where
  "src_feed q (Src_con c) = Src_con (con_readcb (length q) (c\<lparr>con_in := sl_put q (con_in c)\<rparr>))"
| "src_feed q (Src_str t) = Src_str t"

definition abuf_feed :: "string \<Rightarrow> abuf \<Rightarrow> abuf" where
  "abuf_feed q a = abuf_can_read (a\<lparr>ab_src := src_feed q (ab_src a)\<rparr>)"

fun src_room :: "abuf_src \<Rightarrow> nat" where
  "src_room (Src_con c) = (if con_eof c then 0 else capacity (con_in c))"
| "src_room (Src_str t) = 0"

text \<open>A connection that is still open, with no limit on the characters read.\<close>

definition open_con :: "abuf \<Rightarrow> bool" where
  "open_con a \<longleftrightarrow> (\<exists>c. ab_src a = Src_con c \<and> \<not> con_eof c) \<and> ab_lim a < 0 \<and> 0 \<le> ab_ccnt a"

lemma abuf_feed_law:
  assumes inv: "abuf_inv a" and o: "open_con a" and q: "q \<noteq> []"
  shows "abuf_inv (abuf_feed q a)" "open_con (abuf_feed q a)"
    "ab_pending (abuf_feed q a) = ab_pending a @ take (src_room (ab_src a)) q"
proof -
  obtain c where c: "ab_src a = Src_con c" "\<not> con_eof c" using o by (auto simp: open_con_def)
  have sinv: "suiolite_inv (con_in c)" and w: "take (length (ab_win a)) (sl_content (con_in c)) = ab_win a"
    using inv c by (auto simp: abuf_inv_def)
  from w have le: "length (ab_win a) \<le> length (sl_content (con_in c))"
    by (metis length_take min.cobounded1)
  have erc: "ab_erc a = ABUF_OK \<or> (ab_erc a = ABUF_WAIT \<and> drop (length (ab_win a)) (sl_content (con_in c)) = [])"
    using inv c by (auto simp: abuf_inv_def)
  have f: "abuf_feed q a = a\<lparr>ab_src := Src_con (c\<lparr>con_in := sl_put q (con_in c)\<rparr>), ab_erc := ABUF_OK\<rparr>"
    using c q by (simp add: abuf_feed_def abuf_can_read_def con_readcb_def)
  show "abuf_inv (abuf_feed q a)"
    using inv c le w sl.put_invar [OF sinv, of q] sl.put_content [OF sinv, of q]
    by (auto simp: abuf_inv_def f)
  show "open_con (abuf_feed q a)" using o c by (simp add: open_con_def f)
  have "ab_avail (abuf_feed q a) = ab_avail a @ take (capacity (con_in c)) q"
    using erc c le sl.put_content [OF sinv, of q] by (auto simp: ab_avail_def f)
  then show "ab_pending (abuf_feed q a) = ab_pending a @ take (src_room (ab_src a)) q"
    using o c by (simp add: ab_pending_def ab_buffered_def open_con_def f)
qed

lemma abuf_get_open:
  "abuf_get a = (ch, a') \<Longrightarrow> open_con a \<Longrightarrow> open_con a'"
proof -
  assume g: "abuf_get a = (ch, a')" and o: "open_con a"
  then obtain c where c: "ab_src a = Src_con c" "\<not> con_eof c" by (auto simp: open_con_def)
  then have "\<exists>c'. ab_src (moredata a) = Src_con c' \<and> \<not> con_eof c'"
    by (auto simp: moredata_def Let_def split: prod.splits if_splits)
  then show ?thesis using g o c
    by (auto simp: abuf_get_def got_char_def Let_def open_con_def split: if_splits)
qed

section \<open>Derived reads\<close>

definition is_hws :: "char \<Rightarrow> bool" where
  "is_hws c \<longleftrightarrow> c = SPC \<or> c = TAB"

lemma abuf_unget_spcs [simp]: "abuf_unget (a\<lparr>ab_spcs := n\<rparr>) = (abuf_unget a)\<lparr>ab_spcs := n\<rparr>"
  by (simp add: abuf_unget_def)

lemma abuf_unget_frame [simp]:
  "ab_spcs (abuf_unget a) = ab_spcs a" "ab_lim (abuf_unget a) = ab_lim a" "ab_src (abuf_unget a) = ab_src a"
  "ab_eos (abuf_unget a) = ab_eos a" "ab_ccnt (abuf_unget a) = ab_ccnt a"
  by (simp_all add: abuf_unget_def)

lemma abuf_unget_pending:
  assumes "abuf_inv a" and "ab_pending a = c # cs"
  obtains a' where "abuf_get a = (CH c, a')" "abuf_inv (abuf_unget a')"
    "ab_pending (abuf_unget a') = c # cs" "ab_eos (abuf_unget a') = ab_eos a"
proof -
  obtain a' where "abuf_get a = (CH c, a')" "ab_pending a' = cs" "ab_eos a' = ab_eos a"
    using assms by (rule abuf_get_CH)
  then show thesis using that [of a'] abuf_unget_char [OF assms(1)] by simp
qed

lemma skip_hws_loop_spec:
  assumes "abuf_inv a" and "ab_pending a = ws @ rest" and "list_all is_hws ws"
    and "rest = [] \<or> \<not> is_hws (hd rest)"
  shows "\<exists>a0 ch a1. abuf_get a0 = (ch, a1) \<and> abuf_inv a0 \<and> ab_pending a0 = rest \<and> ab_eos a0 = ab_eos a
      \<and> ab_spcs a0 = ab_spcs a + length ws \<and> ab_lim a0 = ab_lim a
      \<and> skip_hws_loop a = Some (ch, a1\<lparr>ab_spcs := Suc (ab_spcs a + length ws)\<rparr>)"
  using assms
proof (induction ws arbitrary: a)
  case Nil
  obtain ch a1 where g: "abuf_get a = (ch, a1)" by (cases "abuf_get a")
  have "\<not> (ch = CH SPC \<or> ch = CH TAB)"
    using Nil g ab.get_CH_iff [OF Nil.prems(1)] by (auto simp: is_hws_def)
  then have "skip_hws_loop a = Some (ch, a1\<lparr>ab_spcs := Suc (ab_spcs a)\<rparr>)"
    using g abuf_get_frame [OF g] by (simp add: skip_hws_loop.simps [of a])
  then show ?case using g Nil.prems by (intro exI [of _ a] exI [of _ ch] exI [of _ a1]) simp
next
  case (Cons w ws)
  obtain a1 where g: "abuf_get a = (CH w, a1)" "abuf_inv a1" "ab_pending a1 = ws @ rest" "ab_eos a1 = ab_eos a"
    using abuf_get_CH [OF Cons.prems(1), of w "ws @ rest"] Cons.prems(2) by auto
  have fr: "ab_spcs a1 = ab_spcs a" "ab_lim a1 = ab_lim a" using abuf_get_frame [OF g(1)] by auto
  let ?a2 = "a1\<lparr>ab_spcs := Suc (ab_spcs a1)\<rparr>"
  have "skip_hws_loop a = skip_hws_loop ?a2"
    using g(1) Cons.prems(3) by (auto simp: skip_hws_loop.simps [of a] is_hws_def)
  moreover note Cons.IH [of ?a2]
  ultimately show ?case using g fr Cons.prems by simp
qed

lemma skip_hws_char:
  assumes "abuf_inv a" and "ab_pending a = ws @ c # cs" and "list_all is_hws ws" and "\<not> is_hws c"
  shows "\<exists>a'. skip_hws mn a = Some (if ab_spcs a + length ws < mn then ABUF_PARSE_ERR else ABUF_OK, a')
      \<and> abuf_inv a' \<and> ab_pending a' = c # cs \<and> ab_eos a' = ab_eos a \<and> ab_spcs a' = 0"
proof -
  obtain a0 ch a1 where l: "abuf_get a0 = (ch, a1)" "abuf_inv a0" "ab_pending a0 = c # cs" "ab_eos a0 = ab_eos a"
      "skip_hws_loop a = Some (ch, a1\<lparr>ab_spcs := Suc (ab_spcs a + length ws)\<rparr>)"
    using skip_hws_loop_spec [OF assms(1-3)] assms(4) by auto
  obtain a1' where "abuf_get a0 = (CH c, a1')" "abuf_inv (abuf_unget a1')"
    "ab_pending (abuf_unget a1') = c # cs" "ab_eos (abuf_unget a1') = ab_eos a0"
    using l(2,3) by (rule abuf_unget_pending)
  with l show ?thesis by (auto simp: skip_hws_def Let_def)
qed

lemma skip_hws_wait:
  assumes "abuf_inv a" and "ab_pending a = ws" and "list_all is_hws ws" and "ab_eos a = WAITCHAR"
  shows "\<exists>a'. skip_hws mn a = Some (ABUF_WAIT, a') \<and> abuf_inv a' \<and> ab_pending a' = []
      \<and> ab_eos a' = WAITCHAR \<and> ab_spcs a' = ab_spcs a + length ws"
proof -
  obtain a0 ch a1 where l: "abuf_get a0 = (ch, a1)" "abuf_inv a0" "ab_pending a0 = []" "ab_eos a0 = ab_eos a"
      "skip_hws_loop a = Some (ch, a1\<lparr>ab_spcs := Suc (ab_spcs a + length ws)\<rparr>)"
    using skip_hws_loop_spec [OF assms(1), of ws "[]"] assms by auto
  obtain a1' where "abuf_get a0 = (ab_eos a0, a1')" "abuf_inv a1'" "ab_pending a1' = []" "ab_eos a1' = ab_eos a0"
    using l(2,3) by (rule abuf_get_end)
  with l assms show ?thesis by (simp add: skip_hws_def)
qed

lemma expectchar_spec:
  assumes "abuf_inv a" and "ab_pending a = c # cs"
  shows "\<exists>a'. expectchar ch a = (if c = ch then ABUF_OK else ABUF_NOMATCH, a') \<and> abuf_inv a'
      \<and> ab_pending a' = (if c = ch then cs else c # cs) \<and> ab_eos a' = ab_eos a \<and> ab_spcs a' = ab_spcs a"
proof -
  obtain a1 where g: "abuf_get a = (CH c, a1)" "abuf_inv a1" "ab_pending a1 = cs" "ab_eos a1 = ab_eos a"
    using assms by (rule abuf_get_CH)
  then show ?thesis
    using abuf_unget_char [OF assms(1) g(1)] abuf_get_frame [OF g(1)] by (simp add: expectchar_def)
qed

lemma expectchar_wait:
  assumes "abuf_inv a" and "ab_pending a = []" and "ab_eos a = WAITCHAR"
  shows "\<exists>a'. expectchar ch a = (ABUF_WAIT, a') \<and> abuf_inv a' \<and> ab_pending a' = [] \<and> ab_eos a' = WAITCHAR
     \<and> ab_spcs a' = ab_spcs a"
proof -
  obtain a1 where g: "abuf_get a = (ab_eos a, a1)" "abuf_inv a1" "ab_pending a1 = []" "ab_eos a1 = ab_eos a" "at_end a1"
    using assms(1,2) by (rule abuf_get_end)
  have "abuf_unget a1 = a1 \<or> ab_lch a1 \<noteq> WAITCHAR" by (simp add: abuf_unget_def)
  moreover have "ab_lim a1 = ab_ccnt a1 \<Longrightarrow> ab_eos a1 = EOFCHAR" by (simp add: ab_eos_def)
  ultimately have "abuf_unget a1 = a1" using g assms(3) by (auto simp: at_end_def)
  then show ?thesis using g assms abuf_get_frame [OF g(1)] by (simp add: expectchar_def)
qed

lemma peek_spec:
  assumes "abuf_inv a" and "ab_pending a = c # cs"
  shows "\<exists>a'. abuf_peek a = (CH c, a') \<and> abuf_inv a' \<and> ab_pending a' = c # cs \<and> ab_eos a' = ab_eos a
    \<and> ab_spcs a' = ab_spcs a"
proof -
  obtain a1 where g: "abuf_get a = (CH c, a1)" "abuf_inv (abuf_unget a1)"
      "ab_pending (abuf_unget a1) = c # cs" "ab_eos (abuf_unget a1) = ab_eos a"
    using assms by (rule abuf_unget_pending)
  then show ?thesis using abuf_get_frame [OF g(1)] by (simp add: abuf_peek_def)
qed

text \<open>A reader that skips blanks stops on every consistent buffer.\<close>

lemma skip_ws_total: "abuf_inv a \<Longrightarrow> \<exists>r. skip_ws a = Some r"
proof (induction "length (ab_pending a)" arbitrary: a)
  case 0
  then have "ab_pending a = []" by simp
  with 0(2) obtain a' where "abuf_get a = (ab_eos a, a')" by (rule abuf_get_end)
  then show ?case using ab_eos_control [of a] by (auto simp: skip_ws.simps [of a])
next
  case (Suc n)
  then obtain c cs where p: "ab_pending a = c # cs" by (cases "ab_pending a") auto
  obtain a' where "abuf_get a = (CH c, a')" "abuf_inv a'" "ab_pending a' = cs"
    using Suc.prems p by (rule abuf_get_CH)
  then show ?case using Suc.hyps(1) [of a'] Suc.hyps(2) p by (auto simp: skip_ws.simps [of a])
qed

lemma skip_hws_total: "abuf_inv a \<Longrightarrow> \<exists>r. skip_hws mn a = Some r"
proof -
  assume inv: "abuf_inv a"
  define ws where "ws = takeWhile is_hws (ab_pending a)"
  define rest where "rest = dropWhile is_hws (ab_pending a)"
  have "ab_pending a = ws @ rest" "list_all is_hws ws" "rest = [] \<or> \<not> is_hws (hd rest)"
    using hd_dropWhile [of is_hws "ab_pending a"]
    by (auto simp: ws_def rest_def list_all_iff dest: set_takeWhileD)
  from skip_hws_loop_spec [OF inv this] show ?thesis
    by (auto simp: skip_hws_def Let_def)
qed

section \<open>Properties\<close>

datatype ab_event = Feed string | Read

fun ab_step :: "ab_event \<Rightarrow> abuf \<Rightarrow> string \<times> string \<times> abuf" where
  "ab_step (Feed q) a = (if q = [] then ([], [], a) else (take (src_room (ab_src a)) q, [], abuf_feed q a))"
| "ab_step Read a =
     (let (ch, a') = abuf_get a in ([], (case ch of CH c \<Rightarrow> [c] | _ \<Rightarrow> []), a'))"

fun ab_run :: "ab_event list \<Rightarrow> abuf \<Rightarrow> string \<times> string \<times> abuf" where
  "ab_run [] a = ([], [], a)"
| "ab_run (e # es) a =
     (let (i, x, a1) = ab_step e a; (is', xs, a2) = ab_run es a1 in (i @ is', x @ xs, a2))"

fun abuf_gets :: "nat \<Rightarrow> abuf \<Rightarrow> abuf_ch list \<times> abuf" where
  "abuf_gets 0 a = ([], a)"
| "abuf_gets (Suc n) a = (let (ch, a1) = abuf_get a; (chs, a2) = abuf_gets n a1 in (ch # chs, a2))"

definition abuf_on_con :: "nat \<Rightarrow> abuf" where
  "abuf_on_con l = abuf_new (Src_con (abuf_con_new (suiolite_new l False) False))"

definition abuf_on_str :: "string \<Rightarrow> abuf" where
  "abuf_on_str s = abuf_new (Src_str (abuf_str_new s))"

lemma abuf_on_con_init:
  "abuf_inv (abuf_on_con l)" "open_con (abuf_on_con l)" "ab_pending (abuf_on_con l) = []"
  by (simp_all add: abuf_on_con_def abuf_new_def abuf_con_new_def abuf_inv_def open_con_def
      suiolite_new_inv suiolite_new_content ab_pending_def ab_buffered_def ab_avail_def)

lemma abuf_on_str_init:
  "abuf_inv (abuf_on_str s)" "ab_pending (abuf_on_str s) = s" "ab_eos (abuf_on_str s) = EOFCHAR"
  by (simp_all add: abuf_on_str_def abuf_new_def abuf_str_new_def abuf_inv_def
      ab_pending_def ab_buffered_def ab_avail_def ab_eos_def ab_end_def)

lemma ab_step_conserves:
  assumes inv: "abuf_inv a" "open_con a" and step: "ab_step e a = (i, x, a')"
  shows "abuf_inv a' \<and> open_con a' \<and> x @ ab_pending a' = ab_pending a @ i"
proof (cases e)
  case (Feed q)
  then show ?thesis using step inv abuf_feed_law [OF inv] by (cases "q = []") auto
next
  case Read
  then obtain ch where g: "abuf_get a = (ch, a')" and x: "x = (case ch of CH c \<Rightarrow> [c] | _ \<Rightarrow> [])" "i = []"
    using step by (auto split: prod.splits)
  have o: "open_con a'" using abuf_get_open [OF g inv(2)] .
  show ?thesis
  proof (cases "ab_pending a")
    case Nil
    then obtain a'' where "abuf_get a = (ab_eos a, a'')" "abuf_inv a''" "ab_pending a'' = []"
      by (rule abuf_get_end [OF inv(1)])
    then show ?thesis using g o x Nil ab_eos_control [of a] by auto
  next
    case (Cons c cs)
    then obtain a'' where "abuf_get a = (CH c, a'')" "abuf_inv a''" "ab_pending a'' = cs"
      by (rule abuf_get_CH [OF inv(1)])
    then show ?thesis using g o x Cons by simp
  qed
qed

lemma ab_run_conserves:
  "abuf_inv a \<Longrightarrow> open_con a \<Longrightarrow> ab_run es a = (i, x, a') \<Longrightarrow>
     abuf_inv a' \<and> open_con a' \<and> x @ ab_pending a' = ab_pending a @ i"
proof (induction es arbitrary: a i x a')
  case (Cons e es)
  obtain i1 x1 a1 where st: "ab_step e a = (i1, x1, a1)" by (cases "ab_step e a") auto
  obtain i2 x2 a2 where rn: "ab_run es a1 = (i2, x2, a2)" by (cases "ab_run es a1") auto
  note step = ab_step_conserves [OF Cons.prems(1,2) st]
  have run: "abuf_inv a2 \<and> open_con a2 \<and> x2 @ ab_pending a2 = ab_pending a1 @ i2"
    using Cons.IH [OF _ _ rn] step by blast
  have "i = i1 @ i2" "x = x1 @ x2" "a' = a2" using Cons.prems(3) st rn by simp_all
  with step run show ?case by (metis append.assoc)
qed simp

text \<open>
  C17.  From the socket to the parser: on a fresh connection buffer, under every interleaving of
  arriving chunks and \<^verbatim>\<open>get\<close> calls, the characters \<^verbatim>\<open>get\<close> has returned, followed by those it
  will still return, are the bytes accepted from the socket, in order.
\<close>

theorem abuf_stream_faithful:
  assumes "ab_run es (abuf_on_con l) = (accepted, got, a)"
  shows "got @ ab_pending a = accepted \<and> abuf_inv a"
  using ab_run_conserves [OF abuf_on_con_init(1,2) assms] by (simp add: abuf_on_con_init)

text \<open>
  \<open>n\<close> calls of \<^verbatim>\<open>get\<close> on any consistent buffer (pushed-back character, byte limit and
  refills included) return the first \<open>n\<close> pending characters and then the end marker, over and
  over.
\<close>

theorem abuf_gets_pending:
  assumes "abuf_inv a"
  shows "fst (abuf_gets n a) =
      map CH (take n (ab_pending a)) @ replicate (n - length (ab_pending a)) (ab_eos a)"
  using assms
proof (induction n arbitrary: a)
  case (Suc n)
  show ?case
  proof (cases "ab_pending a")
    case Nil
    then obtain a' where "abuf_get a = (ab_eos a, a')" "abuf_inv a'" "ab_pending a' = []" "ab_eos a' = ab_eos a"
      by (rule abuf_get_end [OF Suc.prems])
    then show ?thesis using Suc.IH [of a'] Nil by (auto simp: Let_def split: prod.split)
  next
    case (Cons c cs)
    then obtain a' where "abuf_get a = (CH c, a')" "abuf_inv a'" "ab_pending a' = cs" "ab_eos a' = ab_eos a"
      by (rule abuf_get_CH [OF Suc.prems])
    then show ?thesis using Suc.IH [of a'] Cons by (auto simp: Let_def split: prod.split)
  qed
qed simp


theorem abuf_stream_faithful_witness:
  "\<exists>a. ab_run [Feed ''GET'', Read, Feed '' /x'', Read, Read, Read] (abuf_on_con 4)
        = (''GET '', ''GET '', a) \<and> ''GET '' @ ab_pending a = ''GET ''"
proof -
  let ?es = "[Feed ''GET'', Read, Feed '' /x'', Read, Read, Read]"
  obtain i x a where r: "ab_run ?es (abuf_on_con 4) = (i, x, a)"
    by (cases "ab_run ?es (abuf_on_con 4)") auto
  moreover have "fst (ab_run ?es (abuf_on_con 4)) = ''GET ''"
    unfolding abuf_on_con_def suiolite_new_4 by code_simp
  moreover have "fst (snd (ab_run ?es (abuf_on_con 4))) = ''GET ''"
    unfolding abuf_on_con_def suiolite_new_4 by code_simp
  ultimately show ?thesis using abuf_stream_faithful [OF r] by simp
qed

theorem abuf_gets_pending_witness:
  "fst (abuf_gets 4 (abuf_on_str ''ab'')) = [CH CHR ''a'', CH CHR ''b'', EOFCHAR, EOFCHAR]"
  using abuf_gets_pending [OF abuf_on_str_init(1), of 4 "''ab''"]
  by (simp add: abuf_on_str_init numeral_eq_Suc)

text \<open>
  The integers that stand for "end of file" and "wait" are no signed byte value and differ
  from each other, so \<^verbatim>\<open>get\<close>'s result is unambiguous and \<^verbatim>\<open>IS_CONTROL_CHAR\<close> holds of exactly
  these two.
\<close>

theorem ch_int_unambiguous:
  "(ch_int x = ch_int y \<longleftrightarrow> x = y) \<and> (is_control_char x \<longleftrightarrow> x = EOFCHAR \<or> x = WAITCHAR)"
proof -
  have s: "- 128 \<le> schar c" "schar c < 128" for c using schar_range [of c] by simp_all
  then have ne: "schar c \<noteq> - 1048560" "schar c \<noteq> - 1048561" "\<not> schar c \<le> - 1048560" for c
    using s(1) [of c] by linarith+
  have "ch_int x = ch_int y \<Longrightarrow> x = y"
    using ne ne(1,2) [symmetric] by (cases x; cases y) (auto dest: schar_inject)
  moreover have "is_control_char x \<longleftrightarrow> x = EOFCHAR \<or> x = WAITCHAR"
    using ne by (cases x) (simp_all add: is_control_char_def)
  ultimately show ?thesis by auto
qed

text \<open>
  At the byte limit set by \<^verbatim>\<open>setlim\<close>, \<^verbatim>\<open>get\<close> reports end of file without recording it, so
  \<^verbatim>\<open>peek\<close> (and every other push-back there) makes the last character read appear a second time.
\<close>

theorem peek_at_limit_replays:
  assumes "\<not> ab_bc a" and "ab_lim a = ab_ccnt a" and "ab_lch a = CH c"
  shows "fst (abuf_peek a) = EOFCHAR \<and> fst (abuf_get (snd (abuf_peek a))) = CH c"
  using assms by (simp add: abuf_peek_def abuf_get_def abuf_unget_def)

theorem peek_at_limit_replays_witness:
  "fst (abuf_get (snd (abuf_peek (snd (abuf_get (abuf_setlim 1 (abuf_on_str ''xy''))))))) = CH CHR ''x''"
proof -
  let ?a = "snd (abuf_get (abuf_setlim 1 (abuf_on_str ''xy'')))"
  have "\<not> ab_bc ?a" "ab_lim ?a = ab_ccnt ?a" "ab_lch ?a = CH CHR ''x''"
    by (simp_all add: abuf_on_str_def abuf_new_def abuf_str_new_def abuf_setlim_def abuf_get_def
        moredata_def got_char_def Let_def)
  then show ?thesis using peek_at_limit_replays [of ?a] by blast
qed

text \<open>
  The constructor of a string source from a C string sets its end flag the wrong way round:
  a parser given a non-empty string sees end of file at once.
\<close>

theorem abuf_str_cstr_eof:
  "s \<noteq> [] \<Longrightarrow> fst (abuf_get (abuf_new (Src_str (abuf_str_new_cstr s)))) = EOFCHAR
     \<and> fst (abuf_get (abuf_on_str s)) = CH (hd s)"
  by (simp add: abuf_new_def abuf_on_str_def abuf_str_new_def abuf_str_new_cstr_def abuf_get_def
      moredata_def got_char_def Let_def hd_conv_nth)

theorem abuf_str_cstr_eof_witness:
  "fst (abuf_get (abuf_new (Src_str (abuf_str_new_cstr ''a=b'')))) = EOFCHAR"
  using abuf_str_cstr_eof [of "''a=b''"] by simp

text \<open>
  \<^verbatim>\<open>dump\<close> drops a pushed-back character when the window is exhausted and the source has
  no more data: the character was pending, but the bytes copied are none.
\<close>

theorem dump_drops_pushed_back:
  assumes "ab_bc a" "ab_erc a = ABUF_OK" "ab_cp a = length (ab_win a)" "ab_lim a < 0"
    and "ab_src a = Src_str t" "as_eof t" "ab_lch a = CH c" "0 < n"
  shows "ab_pending a = [c] \<and> (\<exists>a'. abuf_dump n a = Some (Inr [], a'))"
proof -
  have "abuf_flush n a = ([], a)" using assms by (simp add: abuf_flush_def)
  moreover have "ab_erc (moredata a) = ABUF_EOF" using assms by (simp add: moredata_def)
  ultimately have "dump_loop n [] a = Some ([], moredata a)"
    using assms by (simp add: dump_loop.simps [of n] dump_loop.simps [of n _ "moredata a"])
  then show ?thesis
    using assms by (simp add: abuf_dump_def get_errchar_def ab_pending_def ab_buffered_def ab_avail_def)
qed

theorem dump_drops_pushed_back_witness:
  "\<exists>a'. abuf_dump 5 (snd (abuf_peek (abuf_on_str ''x''))) = Some (Inr [], a')"
proof -
  let ?a = "snd (abuf_peek (abuf_on_str ''x''))"
  note d = abuf_on_str_def abuf_new_def abuf_str_new_def abuf_peek_def abuf_get_def
        moredata_def got_char_def Let_def abuf_unget_def
  have "ab_bc ?a" "ab_erc ?a = ABUF_OK" "ab_cp ?a = length (ab_win ?a)" "ab_lim ?a < 0"
    "ab_src ?a = Src_str \<lparr>as_s = ''x'', as_eof = True\<rparr>" "ab_lch ?a = CH CHR ''x''"
    by (simp_all add: d)
  from dump_drops_pushed_back [OF this(1-5) _ this(6), of 5] show ?thesis by simp
qed

end
