(* ===== verification/Clib.thy ===== *)
theory Clib
  imports Prelude
begin

text \<open>
  The parts of the C library the sources call on strings and numbers: the extent of a C string,
  hexadecimal and decimal formatting (\<^verbatim>\<open>sprintf\<close> with \<open>%02x\<close>, \<open>%04x\<close>, \<open>%d\<close>), and
  \<^verbatim>\<open>strtoll\<close>/\<^verbatim>\<open>strtoull\<close> with base 0, with the end pointer (as the rest of the string) and
  the range error they report.
\<close>

definition cstr :: "string \<Rightarrow> string" where
  "cstr s = takeWhile (\<lambda>c. c \<noteq> NUL) s"

section \<open>Formatting\<close>

definition hexdig :: "nat \<Rightarrow> char" where
  "hexdig n = char_of (if n < 10 then 48 + n else 87 + n)"

fun hexs :: "nat \<Rightarrow> string" where
  "hexs n = (if n < 16 then [hexdig n] else hexs (n div 16) @ [hexdig (n mod 16)])"

declare hexs.simps [simp del]

definition pad0 :: "nat \<Rightarrow> string \<Rightarrow> string" where
  "pad0 w s = replicate (w - length s) CHR ''0'' @ s"

definition decdig :: "nat \<Rightarrow> char" where
  "decdig n = char_of (48 + n)"

fun dec_nat :: "nat \<Rightarrow> string" where
  "dec_nat n = (if n < 10 then [decdig n] else dec_nat (n div 10) @ [decdig (n mod 10)])"

declare dec_nat.simps [simp del]

definition dec_int :: "int \<Rightarrow> string" where
  "dec_int i = (if i < 0 then CHR ''-'' # dec_nat (nat (- i)) else dec_nat (nat i))"

section \<open>Number parsing\<close>

definition digit_val :: "char \<Rightarrow> nat option" where
  "digit_val c =
     (if 48 \<le> code c \<and> code c \<le> 57 then Some (code c - 48)
      else if 97 \<le> code c \<and> code c \<le> 122 then Some (code c - 87)
      else if 65 \<le> code c \<and> code c \<le> 90 then Some (code c - 55)
      else None)"

definition is_digit :: "nat \<Rightarrow> char \<Rightarrow> bool" where
  "is_digit base c \<longleftrightarrow> (case digit_val c of Some d \<Rightarrow> d < base | None \<Rightarrow> False)"

definition num_val :: "nat \<Rightarrow> string \<Rightarrow> nat" where
  "num_val base ds = foldl (\<lambda>a c. a * base + the (digit_val c)) 0 ds"

text \<open>The magnitude after the sign, with base 0; \<open>None\<close>: no digits.\<close>

definition strto_base :: "string \<Rightarrow> nat \<times> string" where
  "strto_base cs =
     (if take 1 cs = ''0'' then
        (if take 2 cs \<in> {''0x'', ''0X''} \<and> drop 2 cs \<noteq> [] \<and> is_digit 16 (cs ! 2)
         then (16, drop 2 cs) else (8, cs))
      else (10, cs))"

definition strto_mag :: "string \<Rightarrow> (nat \<times> string) option" where
  "strto_mag cs =
     (let (base, ds) = strto_base cs; d = takeWhile (is_digit base) ds in
      if d = [] then None else Some (num_val base d, dropWhile (is_digit base) ds))"

definition strto_sign :: "string \<Rightarrow> bool \<times> string" where
  "strto_sign cs =
     (case cs of c # r \<Rightarrow> if c = CHR ''-'' then (True, r) else if c = CHR ''+'' then (False, r) else (False, cs)
      | [] \<Rightarrow> (False, cs))"

definition INT64_MAX :: int where "INT64_MAX = 2 ^ 63 - 1"
definition INT64_MIN :: int where "INT64_MIN = - (2 ^ 63)"
definition UINT64_MAX :: int where "UINT64_MAX = 2 ^ 64 - 1"

text \<open>Value, rest of the string, \<^verbatim>\<open>errno == ERANGE\<close>.\<close>

definition strtoll :: "string \<Rightarrow> int \<times> string \<times> bool" where
  "strtoll s =
     (let (neg, cs) = strto_sign (dropWhile isspace s) in
      case strto_mag cs of
        None \<Rightarrow> (0, s, False)
      | Some (m, r) \<Rightarrow>
          let v = (if neg then - int m else int m) in
          if v < INT64_MIN then (INT64_MIN, r, True)
          else if INT64_MAX < v then (INT64_MAX, r, True) else (v, r, False))"

definition strtoull :: "string \<Rightarrow> int \<times> string \<times> bool" where
  "strtoull s =
     (let (neg, cs) = strto_sign (dropWhile isspace s) in
      case strto_mag cs of
        None \<Rightarrow> (0, s, False)
      | Some (m, r) \<Rightarrow>
          if UINT64_MAX < int m then (UINT64_MAX, r, True)
          else (if neg then (- int m) mod 2 ^ 64 else int m, r, False))"

lemmas clib_num_defs = strto_base_def strto_mag_def strto_sign_def

section \<open>Lemmas\<close>

lemma char_of_48: "char_of (48 :: nat) = CHR ''0''"
  by code_simp

lemma cstr_no_nul [simp]: "NUL \<notin> set (cstr s)"
  by (auto simp: cstr_def dest: set_takeWhileD)

lemma cstr_id: "NUL \<notin> set s \<Longrightarrow> cstr s = s"
  unfolding cstr_def by (induction s) auto

lemma cstr_idem [simp]: "cstr (cstr s) = cstr s"
  by (simp add: cstr_id)

lemma code_hexdig: "n < 16 \<Longrightarrow> code (hexdig n) = (if n < 10 then 48 + n else 87 + n)"
  by (simp add: hexdig_def)

lemma digit_val_hexdig [simp]: "n < 16 \<Longrightarrow> digit_val (hexdig n) = Some n"
  by (simp add: digit_val_def code_hexdig)

lemma code_decdig [simp]: "n < 10 \<Longrightarrow> code (decdig n) = 48 + n"
  by (simp add: decdig_def)

lemma digit_val_decdig [simp]: "n < 10 \<Longrightarrow> digit_val (decdig n) = Some n"
  by (simp add: digit_val_def)

lemma is_digit_decdig [simp]: "n < 10 \<Longrightarrow> 10 \<le> b \<Longrightarrow> is_digit b (decdig n)"
  by (simp add: is_digit_def)

lemma num_val_snoc: "num_val b (ds @ [c]) = num_val b ds * b + the (digit_val c)"
  by (simp add: num_val_def)

lemma dec_nat_not_Nil [simp]: "dec_nat n \<noteq> []"
  by (subst dec_nat.simps) simp

lemma dec_nat_digits: "c \<in> set (dec_nat n) \<Longrightarrow> \<exists>d < 10. c = decdig d"
  by (induction n rule: dec_nat.induct)
     (subst (asm) (2) dec_nat.simps, auto split: if_splits intro: exI[of _ "n mod 10" for n])

lemma num_val_dec_nat [simp]: "num_val 10 (dec_nat n) = n"
proof (induction n rule: dec_nat.induct)
  case (1 n)
  show ?case
  proof (cases "n < 10")
    case True
    then show ?thesis by (subst dec_nat.simps) (simp add: num_val_def)
  next
    case False
    then show ?thesis using 1 by (subst dec_nat.simps) (simp add: num_val_snoc)
  qed
qed

lemma hd_dec_nat: "0 < n \<Longrightarrow> \<exists>d < 10. 0 < d \<and> hd (dec_nat n) = decdig d"
proof (induction n rule: dec_nat.induct)
  case (1 n)
  show ?case
  proof (cases "n < 10")
    case True
    then show ?thesis using 1(2) by (subst dec_nat.simps) auto
  next
    case False
    moreover have "0 < n div 10" using False by simp
    ultimately show ?thesis using 1(1) by (subst dec_nat.simps) simp
  qed
qed

lemma decdig_inject: "a < 10 \<Longrightarrow> b < 10 \<Longrightarrow> decdig a = decdig b \<longleftrightarrow> a = b"
  using code_decdig by (metis add_left_cancel)

lemma zero_decdig: "CHR ''0'' = decdig 0"
  by (simp add: decdig_def char_of_48)

lemma takeWhile_eq_all: "(\<And>x. x \<in> set xs \<Longrightarrow> P x) \<Longrightarrow> takeWhile P xs = xs"
  by (simp add: takeWhile_eq_all_conv)

lemma strto_mag_dec_nat [simp]: "strto_mag (dec_nat n) = Some (n, [])"
proof (cases "n = 0")
  case True
  have "strto_mag (dec_nat 0) = Some (0, [])" by code_simp
  then show ?thesis using True by simp
next
  case False
  then obtain d where d: "d < 10" "0 < d" "hd (dec_nat n) = decdig d" using hd_dec_nat by blast
  then have "take 1 (dec_nat n) \<noteq> ''0''"
    using decdig_inject[of d 0] by (cases "dec_nat n") (auto simp: zero_decdig)
  then have base: "strto_base (dec_nat n) = (10, dec_nat n)"
    by (simp add: strto_base_def)
  have all: "\<forall>c \<in> set (dec_nat n). is_digit 10 c"
    using dec_nat_digits by fastforce
  then have "takeWhile (is_digit 10) (dec_nat n) = dec_nat n" "dropWhile (is_digit 10) (dec_nat n) = []"
    by (simp_all add: takeWhile_eq_all)
  then show ?thesis using all by (simp add: strto_mag_def base Let_def takeWhile_eq_all)
qed

lemma decdig_plain: "d < 10 \<Longrightarrow> decdig d \<noteq> CHR ''-'' \<and> decdig d \<noteq> CHR ''+'' \<and> \<not> isspace (decdig d) \<and> decdig d \<noteq> NUL"
proof -
  assume "d < 10"
  then have "code (decdig d) = 48 + d" by simp
  then show ?thesis
    by (auto simp: isspace_def) (simp_all add: code_def)
qed

lemma dec_nat_head:
  obtains d ds where "d < 10" "dec_nat n = decdig d # ds"
  using dec_nat_digits[of "hd (dec_nat n)" n] by (cases "dec_nat n") auto

lemma strto_sign_dec_nat [simp]: "strto_sign (dropWhile isspace (dec_nat n)) = (False, dec_nat n)"
proof -
  obtain d ds where "d < 10" "dec_nat n = decdig d # ds" by (rule dec_nat_head)
  then show ?thesis using decdig_plain[of d] by (simp add: strto_sign_def)
qed

lemma isspace_minus [simp]: "\<not> isspace CHR ''-''"
  by code_simp

lemma strtoll_dec_int:
  assumes "INT64_MIN \<le> v" "v \<le> INT64_MAX"
  shows "strtoll (dec_int v) = (v, [], False)"
proof (cases "v < 0")
  case True
  have "strto_sign (dropWhile isspace (dec_int v)) = (True, dec_nat (nat (- v)))"
    using True by (simp add: dec_int_def strto_sign_def)
  then show ?thesis using True assms by (simp add: strtoll_def)
next
  case False
  then show ?thesis using assms by (simp add: strtoll_def dec_int_def)
qed

lemma dec_int_no_nul: "NUL \<notin> set (dec_int v)"
proof -
  have "NUL \<notin> set (dec_nat n)" for n
    using dec_nat_digits[of NUL n] decdig_plain by metis
  then show ?thesis by (auto simp: dec_int_def)
qed

text \<open>Two hexadecimal digits.\<close>

lemma hexs_less_256: "n < 256 \<Longrightarrow> pad0 2 (hexs n) = [hexdig (n div 16), hexdig (n mod 16)]"
proof -
  assume n: "n < 256"
  show ?thesis
  proof (cases "n < 16")
    case True
    then show ?thesis
      by (subst hexs.simps) (simp add: pad0_def hexdig_def char_of_48)
  next
    case False
    then have "n div 16 < 16" using n by linarith
    then show ?thesis
      using False by (subst hexs.simps, subst hexs.simps) (simp add: pad0_def)
  qed
qed

end
