(* ===== verification/Escape.thy ===== *)
theory Escape
  imports Clib
begin

text \<open>
  The escaping filters of \<^verbatim>\<open>src/libpub/escape.C\<close>: JSON strings, the cross-site-scripting
  filter with its growing static buffer, and the HTML filter that lets some tags through.
  The conversion of a byte string to wide characters (class \<^verbatim>\<open>wide_str_t\<close> of the base
  library) and the regular-expression search are parameters.  A write or a read outside a buffer
  is the value \<open>None\<close>, except for the static buffer of \<^verbatim>\<open>xss_escape\<close>, where the highest index
  written is returned beside the result.
\<close>

section \<open>JSON\<close>

definition find_non_std_char :: "string \<Rightarrow> bool" where
  "find_non_std_char s = list_ex (\<lambda>c. code c \<le> 0x1f \<or> 0x7f < code c) s"

text \<open>One wide character: whether it goes through \<^verbatim>\<open>snprintf\<close>, and what is written.\<close>

definition json_wide_seq :: "int \<Rightarrow> (bool \<times> string) option" where
  "json_wide_seq w =
     (if w > 0x10ffff then None
      else if w > 0xffff then
        (let ch = nat (w - 0x10000) in
         Some (True, BSLASH # ''u'' @ pad0 4 (hexs (ch div 1024 + 0xd800))
                  @ BSLASH # ''u'' @ pad0 4 (hexs (ch mod 1024 + 0xdc00))))
      else if w = int (code LF) then Some (True, [BSLASH, CHR ''n''])
      else if w = int (code TAB) then Some (True, [BSLASH, CHR ''t''])
      else if w = int (code CR) then Some (True, [BSLASH, CHR ''r''])
      else if w = int (code BSLASH) then Some (True, [BSLASH, BSLASH])
      else if w = int (code DQ) then Some (True, [BSLASH, DQ])
      else if w > 0x7f \<or> w \<le> 0x1f then
        Some (True, BSLASH # ''u'' @ pad0 4 (hexs (nat (w mod 2 ^ 32))))
      else Some (False, [char_of (nat w)]))"

text \<open>\<open>None\<close>: a sequence that does not fit in the room that is left.\<close>

fun json_heavy_loop :: "nat \<Rightarrow> string \<Rightarrow> int list \<Rightarrow> (nat \<times> string) option" where
  "json_heavy_loop room out [] = Some (room, out)"
| "json_heavy_loop room out (w # ws) =
     (case json_wide_seq w of
        None \<Rightarrow> json_heavy_loop room out ws
      | Some (printed, q) \<Rightarrow>
          if length q + (if printed then 1 else 0) \<le> room
          then json_heavy_loop (room - length q) (out @ q) ws
          else None)"

definition json_escape_heavy :: "int list \<Rightarrow> bool \<Rightarrow> string option" where
  "json_escape_heavy ws addq =
     (let q = (if addq then [DQ] else []) in
      Option.bind (json_heavy_loop (12 * length ws + 3 - length q) q ws) (\<lambda>(room, out).
        if length q \<le> room then Some (out @ q) else None))"

definition json_std_special :: "char \<Rightarrow> bool" where
  "json_std_special c \<longleftrightarrow> c = BSLASH \<or> c = DQ \<or> c = LF \<or> c = TAB \<or> c = CR"

definition json_std_letter :: "char \<Rightarrow> char" where
  "json_std_letter c =
     (if c = LF then CHR ''n'' else if c = TAB then CHR ''t'' else if c = CR then CHR ''r'' else c)"

text \<open>The \<^verbatim>\<open>strpbrk\<close> loop.\<close>

function json_std_loop :: "string \<Rightarrow> string" where
  "json_std_loop p1 =
     (case dropWhile (\<lambda>c. \<not> json_std_special c) p1 of
        [] \<Rightarrow> p1
      | c # r \<Rightarrow> takeWhile (\<lambda>c. \<not> json_std_special c) p1 @ [BSLASH, json_std_letter c]
                @ json_std_loop r)"
  by pat_completeness auto
termination
  by (relation "measure length") (auto, metis Suc_le_lessD length_Cons length_dropWhile_le)

declare json_std_loop.simps [simp del]

definition json_escape_std :: "string \<Rightarrow> bool \<Rightarrow> string" where
  "json_escape_std s addq =
     (let q = (if addq then [DQ] else []) in cstr (q @ json_std_loop (cstr s) @ q))"

definition json_escape ::
    "(string \<Rightarrow> int list) \<Rightarrow> string option \<Rightarrow> bool \<Rightarrow> bool \<Rightarrow> string option option" where
  "json_escape wide s addq utf8 =
     (case s of
        None \<Rightarrow> Some None
      | Some s \<Rightarrow>
          if \<not> find_non_std_char s \<or> utf8 then Some (Some (json_escape_std s addq))
          else map_option Some (json_escape_heavy (wide s) addq))"

section \<open>The cross-site-scripting filter\<close>

record xss_state =
  xss_buf :: bool
  xss_buflen :: nat

definition xss_init :: xss_state where
  "xss_init = \<lparr>xss_buf = False, xss_buflen = 0x1000\<rparr>"

definition xss_max_buflen :: nat where
  "xss_max_buflen = 0x1000000"

definition xss_seq :: "char \<Rightarrow> string" where
  "xss_seq c =
     (if c = CHR ''<'' then ''&lt;''
      else if c = CHR ''>'' then ''&gt;''
      else if c = CHR ''&'' then ''&#38;''
      else if c = DQ then ''&quot;''
      else if c = SQ then ''&#39;''
      else [c])"

partial_function (option) xss_double :: "nat \<Rightarrow> nat \<Rightarrow> nat option" where
  "xss_double biggest l =
     (if l < biggest \<and> l < xss_max_buflen then xss_double biggest (l * 2) else Some l)"

declare xss_double.simps [code]

definition xss_prepare :: "nat \<Rightarrow> xss_state \<Rightarrow> xss_state option" where
  "xss_prepare biggest st =
     (let st1 = (if xss_buflen st < biggest \<and> xss_buflen st \<noteq> xss_max_buflen \<and> xss_buf st
                 then st\<lparr>xss_buf := False\<rparr> else st) in
      if xss_buf st1 then Some st1
      else Option.bind (xss_double biggest (xss_buflen st1)) (\<lambda>l.
             Some \<lparr>xss_buf = True, xss_buflen = min l xss_max_buflen\<rparr>))"

text \<open>
  The output and one past the highest index of the buffer written so far; \<^verbatim>\<open>sprintf\<close> writes
  a terminating NUL after its characters.
\<close>

fun xss_loop :: "nat \<Rightarrow> string \<Rightarrow> nat \<Rightarrow> string \<Rightarrow> string \<times> nat" where
  "xss_loop buflen out hi [] = (out, hi)"
| "xss_loop buflen out hi (c # cs) =
     (if 5 + length out < buflen then
        (let q = xss_seq c; e = length out + length q + (if q = [c] then 0 else 1) in
         xss_loop buflen (out @ q) (max hi e) cs)
      else (out, hi))"

definition xss_escape :: "string \<Rightarrow> xss_state \<Rightarrow> (string \<times> nat \<times> xss_state) option" where
  "xss_escape s st =
     Option.bind (xss_prepare (5 * length s) st) (\<lambda>st'.
       let (out, hi) = xss_loop (xss_buflen st') [] 0 s in Some (out, hi, st'))"

section \<open>The HTML filters\<close>

text \<open>\<^verbatim>\<open>strchr\<close>: the text before the character and the text after it.\<close>

definition strchr_split :: "char \<Rightarrow> string \<Rightarrow> (string \<times> string) option" where
  "strchr_split ch cs =
     (case dropWhile (\<lambda>x. x \<noteq> ch \<and> x \<noteq> NUL) cs of
        [] \<Rightarrow> None
      | x # r \<Rightarrow> if x = ch then Some (takeWhile (\<lambda>x. x \<noteq> ch \<and> x \<noteq> NUL) cs, r) else None)"

definition safe_entity_list :: "string list" where
  "safe_entity_list = [''lt'', ''gt'', ''amp'', ''#35'', ''quot'']"

definition is_safe_entity :: "string \<Rightarrow> bool" where
  "is_safe_entity s \<longleftrightarrow> s \<in> set safe_entity_list"

fun trim_start :: "string \<Rightarrow> nat \<Rightarrow> nat \<Rightarrow> nat" where
  "trim_start t a 0 = a"
| "trim_start t a (Suc n) = (if isspace (t ! a) then trim_start t (a + 1) n else a)"

fun trim_end :: "string \<Rightarrow> nat \<Rightarrow> nat \<Rightarrow> nat" where
  "trim_end t a 0 = 0"
| "trim_end t a (Suc e) = (if a < Suc e \<and> isspace (t ! Suc e) then trim_end t a e else Suc e)"

text \<open>
  \<^verbatim>\<open>match\<close> on the text \<open>t\<close> between two positions, both inclusive; a negative length is the
  value \<open>None\<close>.
\<close>

definition html_match :: "(string \<Rightarrow> bool) \<Rightarrow> string \<Rightarrow> nat \<Rightarrow> nat \<Rightarrow> bool option" where
  "html_match tab t start end =
     (let a = trim_start t start (end - start); e = trim_end t a end in
      if int e - int a + 1 < 0 then None else Some (tab (take (e + 1 - a) (drop a t))))"

text \<open>
  \<^verbatim>\<open>handle_tag\<close> gets the text from the opening bracket on and returns what it appends and the
  text that is left.
\<close>

definition handle_tag_bhash :: "(string \<Rightarrow> bool) \<Rightarrow> string \<Rightarrow> (string \<times> string) option" where
  "handle_tag_bhash tab cs =
     (let inner = tl cs in
      case strchr_split (CHR ''>'') inner of
        None \<Rightarrow> Some ([], [])
      | Some (body, after) \<Rightarrow>
          let t = cs @ [NUL];
              start = (if t ! 2 = CHR ''/'' then 2 else 1);
              e = length body;
              outter = (if t ! e = CHR ''/'' then e + 1 else e) in
          Option.bind (html_match tab t start outter) (\<lambda>b.
            Some (if b then (CHR ''<'' # body @ ''>'', after) else (''&lt;'', inner))))"

definition handle_tag_rxx :: "(string \<Rightarrow> nat option) \<Rightarrow> string \<Rightarrow> (string \<times> string) option" where
  "handle_tag_rxx rx cs =
     (case rx cs of Some n \<Rightarrow> Some (take n cs, drop n cs) | None \<Rightarrow> Some (''&lt;'', tl cs))"

text \<open>
  The loop of \<^verbatim>\<open>html_filter_t::run\<close> on the text from \<^verbatim>\<open>cp\<close> on.  After a double quote the code
  falls through to the default case.
\<close>

partial_function (option) html_filter_loop ::
    "(string \<Rightarrow> (string \<times> string) option) \<Rightarrow> string \<Rightarrow> string option" where
  "html_filter_loop handle_tag cs =
     (case cs of
        [] \<Rightarrow> Some []
      | c # r \<Rightarrow>
          if c = NUL then Some []
          else if c = CHR ''<'' then
            Option.bind (handle_tag cs) (\<lambda>(add, r').
            Option.bind (html_filter_loop handle_tag r') (\<lambda>out. Some (add @ out)))
          else if c = CHR ''&'' then
            (case strchr_split (CHR '';'') r of
               Some (e, r') \<Rightarrow>
                 if is_safe_entity e
                 then Option.bind (html_filter_loop handle_tag r') (\<lambda>out. Some (CHR ''&'' # e @ '';'' @ out))
                 else Option.bind (html_filter_loop handle_tag r) (\<lambda>out. Some (''&amp;'' @ out))
             | None \<Rightarrow> Option.bind (html_filter_loop handle_tag r) (\<lambda>out. Some (''&amp;'' @ out)))
          else if c = CHR ''#'' then
            Option.bind (html_filter_loop handle_tag r) (\<lambda>out. Some (''&#35;'' @ out))
          else if c = DQ then
            (case r of
               [] \<Rightarrow> None
             | d # r' \<Rightarrow> Option.bind (html_filter_loop handle_tag r') (\<lambda>out. Some (''&quot;'' @ d # out)))
          else Option.bind (html_filter_loop handle_tag r) (\<lambda>out. Some (c # out)))"

declare html_filter_loop.simps [code]

definition html_filter_run ::
    "(string \<Rightarrow> (string \<times> string) option) \<Rightarrow> string option \<Rightarrow> string option option" where
  "html_filter_run handle_tag s =
     (case s of None \<Rightarrow> Some None | Some s \<Rightarrow> map_option Some (html_filter_loop handle_tag s))"

definition htmlspecial_seq :: "char \<Rightarrow> string" where
  "htmlspecial_seq c =
     (if c = CHR ''&'' then ''&amp;''
      else if c = CHR ''<'' then ''&lt;''
      else if c = CHR ''>'' then ''&gt;''
      else if c = DQ then ''&quot;''
      else if c = SQ then ''&#039;''
      else [c])"

definition htmlspecialchars :: "string option \<Rightarrow> string option" where
  "htmlspecialchars s = map_option (\<lambda>s. concat (map htmlspecial_seq s)) s"

section \<open>JSON: lemmas\<close>

text \<open>A reader of JSON string bodies, up to the closing quote.\<close>

definition json_unletter :: "char \<Rightarrow> char" where
  "json_unletter c =
     (if c = CHR ''n'' then LF else if c = CHR ''t'' then TAB else if c = CHR ''r'' then CR else c)"

fun json_lex :: "string \<Rightarrow> (string \<times> string) option" where
  "json_lex [] = None"
| "json_lex [c] = (if c = DQ then Some ([], []) else None)"
| "json_lex (c # d # cs) =
     (if c = DQ then Some ([], d # cs)
      else if c = BSLASH then map_option (apfst ((#) (json_unletter d))) (json_lex cs)
      else map_option (apfst ((#) c)) (json_lex (d # cs)))"

lemma json_lex_plain:
  "c \<noteq> DQ \<Longrightarrow> c \<noteq> BSLASH \<Longrightarrow> json_lex (c # cs) = map_option (apfst ((#) c)) (json_lex cs)"
  by (cases cs) auto

lemma json_lex_quote: "json_lex (DQ # cs) = Some ([], cs)"
  by (cases cs) auto

lemma json_lex_span:
  "\<forall>c \<in> set xs. \<not> json_std_special c \<Longrightarrow>
   json_lex (xs @ cs) = map_option (apfst ((@) xs)) (json_lex cs)"
proof (induction xs)
  case Nil
  then show ?case by (cases "json_lex cs") auto
next
  case (Cons x xs)
  then have "x \<noteq> DQ" "x \<noteq> BSLASH" by (simp_all add: json_std_special_def)
  then show ?case using Cons by (cases "json_lex cs") (simp_all add: json_lex_plain prod_eq_iff)
qed

lemma json_std_loop_span: "\<forall>c \<in> set p. \<not> json_std_special c \<Longrightarrow> json_std_loop p = p"
  by (subst json_std_loop.simps) (simp add: dropWhile_eq_Nil_conv[THEN iffD2])

lemma json_unletter_letter: "json_std_special c \<Longrightarrow> json_unletter (json_std_letter c) = c"
  by (auto simp: json_std_special_def json_unletter_def json_std_letter_def)

lemma takeWhile_special: "\<forall>c \<in> set (takeWhile (\<lambda>c. \<not> json_std_special c) p). \<not> json_std_special c"
  by (auto dest: set_takeWhileD)

lemma json_lex_std_loop:
  "json_lex (json_std_loop p @ DQ # rest) = Some (p, rest)"
proof (induction p rule: json_std_loop.induct)
  case (1 p)
  let ?ok = "\<lambda>c. \<not> json_std_special c"
  show ?case
  proof (cases "dropWhile ?ok p")
    case Nil
    then have "\<forall>c \<in> set p. ?ok c" by simp
    then show ?thesis
      by (simp add: json_std_loop_span json_lex_span json_lex_quote)
  next
    case (Cons c r)
    then have "json_std_special c" using hd_dropWhile[of ?ok p] by simp
    moreover have "takeWhile ?ok p @ c # r = p" using Cons takeWhile_dropWhile_id[of ?ok p] by simp
    ultimately show ?thesis
      using Cons 1[OF Cons] by (subst json_std_loop.simps)
        (simp add: json_lex_span[OF takeWhile_special] json_unletter_letter)
  qed
qed

lemma json_std_loop_set: "set (json_std_loop p) \<subseteq> set p \<union> {BSLASH, CHR ''n'', CHR ''t'', CHR ''r''}"
proof (induction p rule: json_std_loop.induct)
  case (1 p)
  let ?ok = "\<lambda>c. \<not> json_std_special c"
  show ?case
  proof (cases "dropWhile ?ok p")
    case Nil
    then show ?thesis by (auto simp: json_std_loop_span)
  next
    case (Cons c r)
    have "set (takeWhile ?ok p) \<subseteq> set p" "set r \<subseteq> set p" "c \<in> set p"
      using Cons set_dropWhileD[of _ ?ok p] by (auto dest: set_takeWhileD)
    then show ?thesis
      using 1[OF Cons] Cons by (subst json_std_loop.simps) (auto simp: json_std_letter_def)
  qed
qed

lemma hexs_len: "n < 16 ^ k \<Longrightarrow> 0 < k \<Longrightarrow> length (hexs n) \<le> k"
proof (induction k arbitrary: n)
  case (Suc k)
  show ?case
  proof (cases "n < 16")
    case True
    then show ?thesis by (subst hexs.simps) simp
  next
    case False
    then have "0 < k" using Suc.prems by (cases k) auto
    moreover have "n div 16 < 16 ^ k" using Suc.prems by (simp add: less_mult_imp_div_less mult.commute)
    ultimately show ?thesis using Suc.IH False by (subst hexs.simps) simp
  qed
qed simp

lemma pad0_hexs_len: "n < 16 ^ k \<Longrightarrow> 4 \<le> k \<Longrightarrow> length (pad0 4 (hexs n)) \<le> k"
  using hexs_len[of n k] by (auto simp: pad0_def)

lemma json_wide_seq_len:
  assumes "json_wide_seq w = Some (b, q)"
  shows "length q \<le> 12"
proof -
  have a: "length (pad0 4 (hexs (nat (w mod 2 ^ 32)))) \<le> 8"
    by (rule pad0_hexs_len) (simp_all add: nat_less_iff)
  have c: "length (pad0 4 (hexs (n div 1024 + 0xd800))) \<le> 4" if "n < 0x100000" for n
    by (rule pad0_hexs_len) (use that in simp_all)
  have d: "length (pad0 4 (hexs (n mod 1024 + 0xdc00))) \<le> 4" for n
    by (rule pad0_hexs_len) (use mod_less_divisor[of 1024 n] in simp_all)
  have "nat (w - 0x10000) < 0x100000" if "w \<le> 0x10ffff" using that by simp
  then show ?thesis
    using assms a c[of "nat (w - 0x10000)"] d[of "nat (w - 0x10000)"]
    by (auto simp: json_wide_seq_def Let_def split: if_splits)
qed

lemma json_heavy_loop_total:
  "12 * length ws + 2 \<le> room \<Longrightarrow>
   \<exists>out'. json_heavy_loop room out ws = Some out' \<and> 2 \<le> fst out'"
proof (induction ws arbitrary: room out)
  case (Cons w ws)
  show ?case
  proof (cases "json_wide_seq w")
    case None
    then show ?thesis using Cons by simp
  next
    case (Some bq)
    then obtain b q where bq: "bq = (b, q)" by (cases bq)
    then have "length q \<le> 12" using Some json_wide_seq_len by simp
    then show ?thesis
      using Cons.IH[of "room - length q" "out @ q"] Cons.prems Some bq by auto
  qed
qed simp

section \<open>XSS: lemmas\<close>

lemma xss_loop_prefix:
  "\<exists>k. k \<le> length s \<and> fst (xss_loop l out hi s) = out @ concat (map xss_seq (take k s))"
proof (induction s arbitrary: out hi)
  case (Cons c s)
  show ?case
  proof (cases "5 + length out < l")
    case True
    let ?q = "xss_seq c"
    let ?hi = "max hi (length out + length ?q + (if ?q = [c] then 0 else 1))"
    obtain k where "k \<le> length s" "fst (xss_loop l (out @ ?q) ?hi s) = (out @ ?q) @ concat (map xss_seq (take k s))"
      using Cons.IH by blast
    then show ?thesis using True by (intro exI[of _ "Suc k"]) (simp add: Let_def)
  next
    case False
    then show ?thesis by (intro exI[of _ 0]) simp
  qed
qed simp

lemma xss_seq_clean: "{CHR ''<'', CHR ''>'', DQ, SQ} \<inter> set (xss_seq c) = {}"
  by (auto simp: xss_seq_def)

lemma xss_seq_len: "c \<noteq> DQ \<Longrightarrow> length (xss_seq c) \<le> 5"
  by (auto simp: xss_seq_def)

text \<open>Enough room: the whole input is escaped and the buffer is respected.\<close>

lemma xss_loop_all:
  assumes "DQ \<notin> set s" "length out + 5 * length s < l" "hi \<le> l"
  shows "fst (xss_loop l out hi s) = out @ concat (map xss_seq s) \<and> snd (xss_loop l out hi s) \<le> l"
  using assms
proof (induction s arbitrary: out hi)
  case (Cons c s)
  let ?q = "xss_seq c"
  have q: "length ?q \<le> 5" using Cons.prems(1) by (intro xss_seq_len) auto
  let ?hi = "max hi (length out + length ?q + (if ?q = [c] then 0 else 1))"
  have "?hi \<le> l" "length (out @ ?q) + 5 * length s < l" "5 + length out < l"
    using q Cons.prems by auto
  then show ?case
    using Cons.IH[of "out @ ?q" ?hi] Cons.prems(1) by (simp add: Let_def)
qed simp

definition xss_inv :: "xss_state \<Rightarrow> bool" where
  "xss_inv st \<longleftrightarrow> (\<exists>j \<le> 12. xss_buflen st = 0x1000 * 2 ^ j)"

lemma xss_inv_init: "xss_inv xss_init"
  by (auto simp: xss_inv_def xss_init_def intro!: exI[of _ 0])

lemma xss_max_pow: "xss_max_buflen = 0x1000 * 2 ^ 12"
  by (simp add: xss_max_buflen_def)

lemma xss_double_total:
  "j \<le> 12 \<Longrightarrow> \<exists>i \<le> 12. xss_double b (0x1000 * 2 ^ j) = Some (0x1000 * 2 ^ i)
     \<and> (b \<le> xss_max_buflen \<longrightarrow> b \<le> 0x1000 * 2 ^ i)"
proof (induction "12 - j" arbitrary: j)
  case 0
  then have "j = 12" by simp
  then show ?case by (subst xss_double.simps) (auto simp: xss_max_pow)
next
  case (Suc n)
  show ?case
  proof (cases "0x1000 * 2 ^ j < b")
    case True
    have "(0x1000 :: nat) * 2 ^ j < xss_max_buflen"
      unfolding xss_max_pow using Suc.hyps(2) power_strict_increasing[of j 12 "2 :: nat"] by simp
    then have "xss_double b (0x1000 * 2 ^ j) = xss_double b (0x1000 * 2 ^ Suc j)"
      using True by (subst xss_double.simps) (simp add: mult.commute mult.left_commute)
    then show ?thesis using Suc.hyps(1)[of "Suc j"] Suc.hyps(2) by auto
  next
    case False
    then show ?thesis using Suc.prems by (subst xss_double.simps) (auto intro!: exI[of _ j])
  qed
qed

lemma not_5_dvd: "\<not> 5 dvd (0x1000 * 2 ^ j :: nat)"
proof (induction j)
  case (Suc j)
  have "\<not> 5 dvd 2 * m" if "\<not> 5 dvd m" for m :: nat using that by presburger
  from this[OF Suc] show ?case by (simp add: mult.left_commute)
qed simp

lemma xss_prepare_inv:
  assumes "xss_inv st"
  shows "\<exists>st'. xss_prepare b st = Some st' \<and> xss_inv st' \<and> (b \<le> xss_max_buflen \<longrightarrow> b \<le> xss_buflen st')"
proof -
  obtain j where j: "j \<le> 12" "xss_buflen st = 0x1000 * 2 ^ j" using assms by (auto simp: xss_inv_def)
  obtain i where i: "i \<le> 12" "xss_double b (0x1000 * 2 ^ j) = Some (0x1000 * 2 ^ i)"
      "b \<le> xss_max_buflen \<Longrightarrow> b \<le> 0x1000 * 2 ^ i"
    using xss_double_total[OF j(1)] by blast
  have "(0x1000 :: nat) * 2 ^ i \<le> xss_max_buflen"
    unfolding xss_max_pow using i(1) power_increasing[of i 12 "2 :: nat"] by simp
  then have "min (0x1000 * 2 ^ i) xss_max_buflen = 0x1000 * 2 ^ i" by simp
  then show ?thesis
    using i j assms unfolding xss_prepare_def Let_def xss_inv_def
    by (auto simp: j(2))
qed

lemma xss_loop_hi: "hi \<le> snd (xss_loop l out hi s)"
proof (induction s arbitrary: out hi)
  case (Cons c s)
  show ?case
    using order_trans[OF max.cobounded1 Cons.IH] by (auto simp: Let_def)
qed simp

lemma xss_loop_app:
  assumes "length out + 6 * length s \<le> l"
  shows "\<exists>hi'. xss_loop l out hi (s @ cs) = xss_loop l (out @ concat (map xss_seq s)) hi' cs"
  using assms
proof (induction s arbitrary: out hi)
  case (Cons c s)
  let ?q = "xss_seq c"
  have "length ?q \<le> 6" by (simp add: xss_seq_def)
  then show ?case
    using Cons.IH[of "out @ ?q"] Cons.prems by (auto simp: Let_def)
qed auto

section \<open>HTML filter: lemmas\<close>

lemma strchr_split_Some:
  assumes "strchr_split ch cs = Some (b, r)"
  shows "cs = b @ ch # r"
proof -
  let ?P = "\<lambda>x. x \<noteq> ch \<and> x \<noteq> NUL"
  have "dropWhile ?P cs = ch # r" "takeWhile ?P cs = b"
    using assms by (auto simp: strchr_split_def split: list.splits if_splits)
  then show ?thesis using takeWhile_dropWhile_id[of ?P cs] by metis
qed

lemma trim_start_le: "trim_start t a n \<le> a + n"
proof (induction n arbitrary: a)
  case (Suc n)
  show ?case using Suc[of "a + 1"] by simp
qed simp

lemma trim_end_ge: "a \<le> e \<Longrightarrow> a \<le> trim_end t a e"
  by (induction e) auto

lemma html_match_total: "start \<le> end + 1 \<Longrightarrow> html_match tab t start end \<noteq> None"
proof (cases "start \<le> end")
  case True
  define a where "a = trim_start t start (end - start)"
  have "a \<le> end" using True trim_start_le[of t start "end - start"] by (simp add: a_def)
  then have "a \<le> trim_end t a end" by (rule trim_end_ge)
  then show ?thesis unfolding html_match_def a_def[symmetric] Let_def by simp
next
  case False
  moreover assume "start \<le> end + 1"
  ultimately have s: "start = end + 1" by simp
  then have "trim_end t start end = end" by (cases "end") auto
  then show ?thesis using s by (simp add: html_match_def)
qed

lemma handle_tag_none_allowed:
  assumes "cs = CHR ''<'' # inner" "take 2 inner \<noteq> ''>/''"
  shows "handle_tag_bhash (\<lambda>_. False) cs \<in> {Some ([], []), Some (''&lt;'', inner)}"
proof (cases "strchr_split (CHR ''>'') inner")
  case None
  then show ?thesis using assms by (simp add: handle_tag_bhash_def)
next
  case (Some ba)
  then obtain body after where ba: "ba = (body, after)" by (cases ba)
  let ?t = "cs @ [NUL]"
  let ?start = "if ?t ! 2 = CHR ''/'' then 2 else 1 :: nat"
  let ?out = "if ?t ! length body = CHR ''/'' then length body + 1 else length body"
  have inner: "inner = body @ CHR ''>'' # after" using strchr_split_Some Some ba by blast
  have "?start \<le> ?out + 1"
  proof (cases body)
    case Nil
    then have "?t ! 2 \<noteq> CHR ''/''"
      using assms inner by (cases after) (auto simp: numeral_2_eq_2)
    then show ?thesis by simp
  next
    case (Cons b bs)
    then show ?thesis by auto
  qed
  then have "\<exists>b. html_match (\<lambda>_. False) ?t ?start ?out = Some b"
    using html_match_total by blast
  moreover have "html_match (\<lambda>_. False) t p q \<noteq> Some True" for t p q
    by (auto simp: html_match_def Let_def split: if_splits)
  ultimately have "html_match (\<lambda>_. False) ?t ?start ?out = Some False"
    by fastforce
  then show ?thesis using Some ba assms(1) by (simp add: handle_tag_bhash_def)
qed

text \<open>A text of characters none of which is special to the filter passes unchanged.\<close>

definition html_plain :: "char \<Rightarrow> bool" where
  "html_plain c \<longleftrightarrow> c \<noteq> NUL \<and> c \<noteq> CHR ''<'' \<and> c \<noteq> CHR ''&'' \<and> c \<noteq> CHR ''#'' \<and> c \<noteq> DQ"

lemma html_filter_plain: "list_all html_plain cs \<Longrightarrow> html_filter_loop h cs = Some cs"
proof (induction cs)
  case Nil
  show ?case by (subst html_filter_loop.simps) simp
next
  case (Cons c cs)
  then show ?case by (subst html_filter_loop.simps) (simp add: html_plain_def)
qed

lemma safe_entity_no_tag: "is_safe_entity e \<Longrightarrow> CHR ''<'' \<notin> set e"
  by (auto simp: is_safe_entity_def safe_entity_list_def)

definition html_no_hole :: "string \<Rightarrow> bool" where
  "html_no_hole s \<longleftrightarrow> DQ \<notin> set s \<and> (\<forall>u v. s \<noteq> u @ ''<>/'' @ v)"

lemma html_no_hole_suffix: "html_no_hole (p @ r) \<Longrightarrow> html_no_hole r"
  unfolding html_no_hole_def by (metis Un_iff append.assoc set_append)

lemma html_filter_none_allowed:
  "html_no_hole s \<Longrightarrow>
   \<exists>out. html_filter_loop (handle_tag_bhash (\<lambda>_. False)) s = Some out \<and> CHR ''<'' \<notin> set out"
proof (induction "length s" arbitrary: s rule: less_induct)
  case less
  let ?run = "html_filter_loop (handle_tag_bhash (\<lambda>_. False))"
  have nil: "?run [] = Some []" by (subst html_filter_loop.simps) simp
  show ?case
  proof (cases s)
    case Nil
    then show ?thesis using nil by simp
  next
    case (Cons c r)
    have "html_no_hole r" using html_no_hole_suffix[of "[c]" r] less.prems Cons by simp
    then obtain out where out: "?run r = Some out" "CHR ''<'' \<notin> set out"
      using less.hyps[of r] Cons by auto
    consider "c = CHR ''<''" | "c = CHR ''&''" | "c \<noteq> CHR ''<'' \<and> c \<noteq> CHR ''&''" by blast
    then show ?thesis
    proof cases
      case 1
      have "take 2 r \<noteq> ''>/''"
        using less.prems Cons 1 unfolding html_no_hole_def by (metis append_Cons append_Nil append_take_drop_id)
      from handle_tag_none_allowed[OF Cons[unfolded 1] this] show ?thesis
        using out nil Cons 1 by (subst html_filter_loop.simps) auto
    next
      case 2
      show ?thesis
      proof (cases "strchr_split (CHR '';'') r")
        case None
        then show ?thesis using out Cons 2 by (subst html_filter_loop.simps) simp
      next
        case (Some er)
        then obtain e r' where er: "er = (e, r')" by (cases er)
        then have r: "r = (e @ '';'') @ r'" using strchr_split_Some Some by force
        then have "html_no_hole r'" using \<open>html_no_hole r\<close> html_no_hole_suffix by blast
        then obtain out' where "?run r' = Some out'" "CHR ''<'' \<notin> set out'"
          using less.hyps[of r'] Cons r by auto
        then show ?thesis
          using out Some er Cons 2 safe_entity_no_tag[of e] by (subst html_filter_loop.simps) auto
      qed
    next
      case 3
      then show ?thesis
        using out Cons less.prems by (subst html_filter_loop.simps) (auto simp: html_no_hole_def)
    qed
  qed
qed

lemma escape_std_eq: "NUL \<notin> set s \<Longrightarrow> json_escape_std s True = DQ # json_std_loop s @ [DQ]"
proof -
  assume "NUL \<notin> set s"
  moreover from this have "NUL \<notin> set (json_std_loop s)" using json_std_loop_set [of s] by auto
  ultimately show ?thesis by (simp add: json_escape_std_def cstr_id)
qed

section \<open>Properties\<close>



text \<open>
  \<^verbatim>\<open>json_escape_heavy\<close> never runs out of the room it allocates, whatever wide characters the
  conversion delivers (valid code points or not, negative values included): every \<^verbatim>\<open>snprintf\<close>
  fits with its terminator and the closing quote has its place.
\<close>

theorem json_escape_heavy_fits: "\<exists>out. json_escape_heavy ws addq = Some out"
proof -
  have "12 * length ws + 2 \<le> 12 * length ws + 3 - length (if addq then [DQ] else [])" by simp
  from json_heavy_loop_total[OF this] obtain room out where
    "json_heavy_loop (12 * length ws + 3 - length (if addq then [DQ] else [])) (if addq then [DQ] else []) ws
       = Some (room, out)" "2 \<le> room"
    by fastforce
  then show ?thesis by (simp add: json_escape_heavy_def)
qed



text \<open>
  The sequence \<^verbatim>\<open>&quot;\<close> is longer than the five characters \<^verbatim>\<open>maxseqlen\<close> allows for: on 681
  double quotes, four other characters and one more double quote, \<^verbatim>\<open>xss_escape\<close> with its initial
  buffer writes one byte past the end of the buffer.
\<close>

theorem xss_escape_overruns:
  "\<exists>out hi st'. xss_escape (replicate 681 DQ @ ''aaaa'' @ [DQ]) xss_init = Some (out, hi, st')
     \<and> xss_buflen st' < hi"
proof -
  let ?s = "replicate 681 DQ @ ''aaaa''" and ?l = "0x1000 :: nat"
  have prep: "xss_prepare (5 * length (?s @ [DQ])) xss_init = Some \<lparr>xss_buf = True, xss_buflen = ?l\<rparr>"
    by (simp add: xss_prepare_def xss_init_def xss_max_buflen_def xss_double.simps)
  have len: "length (concat (map xss_seq ?s)) = 4090"
    by (simp add: xss_seq_def length_concat sum_list_replicate)
  obtain hi1 where "xss_loop ?l [] 0 (replicate 681 DQ @ ''aaaa'' @ [DQ])
      = xss_loop ?l (concat (map xss_seq (replicate 681 DQ))) hi1 (''aaaa'' @ [DQ])"
    using xss_loop_app[of "[]" "replicate 681 DQ" ?l 0 "''aaaa'' @ [DQ]"] by auto
  then have "4097 \<le> snd (xss_loop ?l [] 0 (replicate 681 DQ @ ''aaaa'' @ [DQ]))"
    by (simp add: Let_def xss_seq_def length_concat sum_list_replicate)
  then show ?thesis
    using prep by (simp add: xss_escape_def case_prod_beta)
qed

text \<open>
  The HTML filter does not filter the character after a double quote: whatever the table of
  allowed tags, a tag that directly follows a double quote passes unescaped.
\<close>

theorem html_filter_quote_bypass:
  assumes "list_all html_plain name"
  shows "html_filter_run (handle_tag_bhash tab) (Some (DQ # CHR ''<'' # name @ ''>''))
    = Some (Some (''&quot;<'' @ name @ ''>''))"
proof -
  have "html_filter_loop h (name @ ''>'') = Some (name @ ''>'')" for h
    using assms by (intro html_filter_plain) (simp add: html_plain_def)
  then have "html_filter_loop (handle_tag_bhash tab) (DQ # CHR ''<'' # name @ ''>'') = Some (''&quot;<'' @ name @ ''>'')"
    by (subst html_filter_loop.simps) simp
  then show ?thesis by (simp add: html_filter_run_def)
qed

theorem html_filter_quote_bypass_witness:
  "html_filter_run (handle_tag_bhash (\<lambda>_. False)) (Some (DQ # CHR ''<'' # ''script'' @ ''>''))
    = Some (Some (''&quot;<'' @ ''script'' @ ''>''))"
  by (rule html_filter_quote_bypass) code_simp

text \<open>
  On a text without double quotes and without the sequence \<^verbatim>\<open><>/\<close> (which makes the code build
  a string of negative length), the HTML filter with an empty table of allowed tags returns, and no
  opening bracket gets through.
\<close>

theorem html_filter_blocks_tags:
  assumes "DQ \<notin> set s" "\<forall>u v. s \<noteq> u @ ''<>/'' @ v"
  shows "\<exists>out. html_filter_run (handle_tag_bhash (\<lambda>_. False)) (Some s) = Some (Some out)
    \<and> CHR ''<'' \<notin> set out"
  using html_filter_none_allowed[of s] assms by (auto simp: html_filter_run_def html_no_hole_def)

theorem html_filter_blocks_tags_witness:
  "\<exists>out. html_filter_run (handle_tag_bhash (\<lambda>_. False)) (Some ''<b>&amp;</b>'') = Some (Some out)
    \<and> CHR ''<'' \<notin> set out"
proof (rule html_filter_blocks_tags)
  show "\<forall>u v. ''<b>&amp;</b>'' \<noteq> u @ ''<>/'' @ v"
    by (auto simp: Cons_eq_append_conv)
qed simp

end
