(* ===== verification/Pairtab.thy ===== *)
theory Pairtab
  imports Escape
begin

text \<open>
  Tables of key/value pairs, \<^verbatim>\<open>src/libahttp/pair.h\<close> and \<^verbatim>\<open>src/libahttp/pair.C\<close>: a key has a
  list of string values and lazily converted integer views of them.  The hash table \<^verbatim>\<open>tab\<close> and
  the linked list \<^verbatim>\<open>lst\<close> of the code hold the same pair objects; the model is the list of the
  pairs in the order of \<^verbatim>\<open>lst\<close>, and the hash look-up finds the pair with the key.  Mutable
  members that the code fills during a \<^verbatim>\<open>const\<close> look-up are part of the returned state.
\<close>

section \<open>Pairs\<close>

datatype iv_state = IV_ST_NONE | IV_ST_FAIL | IV_ST_OK

record pair =
  p_key :: string
  p_vals :: "string list"
  p_is :: iv_state
  p_uis :: iv_state
  p_ivals :: "int list"
  p_uivals :: "int list"
  p_encflag :: bool

definition pair_new :: "string \<Rightarrow> string option \<Rightarrow> bool \<Rightarrow> pair" where
  "pair_new k v e =
     \<lparr>p_key = k, p_vals = (case v of None \<Rightarrow> [] | Some s \<Rightarrow> [s]), p_is = IV_ST_NONE, p_uis = IV_ST_NONE,
      p_ivals = [], p_uivals = [], p_encflag = e\<rparr>"

definition pair_new_int :: "string \<Rightarrow> int \<Rightarrow> pair" where
  "pair_new_int k i =
     \<lparr>p_key = k, p_vals = [], p_is = IV_ST_OK, p_uis = IV_ST_NONE,
      p_ivals = [i], p_uivals = [], p_encflag = True\<rparr>"

definition hasdata :: "pair \<Rightarrow> bool" where
  "hasdata p \<longleftrightarrow> 0 < length (p_vals p)"

definition addval :: "string \<Rightarrow> pair \<Rightarrow> pair" where
  "addval v p = p\<lparr>p_vals := p_vals p @ [v]\<rparr>"

text \<open>
  The conversion loops: the values converted so far, and whether every value converted.  The whole
  value has to be used up (\<open>r = []\<close>) and not be empty; the signed loop also checks the range.
\<close>

fun iv_loop :: "string list \<Rightarrow> bool \<times> int list" where
  "iv_loop [] = (True, [])"
| "iv_loop (s # ss) =
     (let nptr = cstr s; (v, r, erange) = strtoll nptr in
      if r \<noteq> [] \<or> r = nptr \<or> erange then (False, [v])
      else (let (ok, vs) = iv_loop ss in (ok, v # vs)))"

fun uiv_loop :: "string list \<Rightarrow> bool \<times> int list" where
  "uiv_loop [] = (True, [])"
| "uiv_loop (s # ss) =
     (let nptr = cstr s; (v, r, _) = strtoull nptr in
      if r \<noteq> [] \<or> r = nptr then (False, [v])
      else (let (ok, vs) = uiv_loop ss in (ok, v # vs)))"

definition to_ints :: "pair \<Rightarrow> int list option \<times> pair" where
  "to_ints p =
     (case p_is p of
        IV_ST_NONE \<Rightarrow>
          (let (ok, vs) = iv_loop (p_vals p) in
           if ok then (Some vs, p\<lparr>p_ivals := vs, p_is := IV_ST_OK\<rparr>)
           else (None, p\<lparr>p_ivals := vs, p_is := IV_ST_FAIL\<rparr>))
      | IV_ST_OK \<Rightarrow> (Some (p_ivals p), p)
      | IV_ST_FAIL \<Rightarrow> (None, p))"

definition to_uint64s :: "pair \<Rightarrow> int list option \<times> pair" where
  "to_uint64s p =
     (case p_uis p of
        IV_ST_NONE \<Rightarrow>
          (let (ok, vs) = uiv_loop (p_vals p) in
           if ok then (Some vs, p\<lparr>p_uivals := vs, p_uis := IV_ST_OK\<rparr>)
           else (None, p\<lparr>p_uivals := vs, p_uis := IV_ST_FAIL\<rparr>))
      | IV_ST_OK \<Rightarrow> (Some (p_uivals p), p)
      | IV_ST_FAIL \<Rightarrow> (None, p))"

definition to_int :: "pair \<Rightarrow> int option \<times> pair" where
  "to_int p = (case to_ints p of
     (Some (v # _), p') \<Rightarrow> (Some v, p') | (_, p') \<Rightarrow> (None, p'))"

definition to_uint64 :: "pair \<Rightarrow> int option \<times> pair" where
  "to_uint64 p = (case to_uint64s p of
     (Some (v # _), p') \<Rightarrow> (Some v, p') | (_, p') \<Rightarrow> (None, p'))"

section \<open>Tables\<close>

datatype xss_filter = XSSFILT_NONE | XSSFILT_SOME | XSSFILT_ALL

record pairtab =
  pt_pairs :: "pair list"
  pt_filter :: bool

definition pairtab_new :: "bool \<Rightarrow> pairtab" where
  "pairtab_new f = \<lparr>pt_pairs = [], pt_filter = f\<rparr>"

definition tab_find :: "string \<Rightarrow> pairtab \<Rightarrow> pair option" where
  "tab_find k t = find (\<lambda>p. p_key p = k) (pt_pairs t)"

text \<open>Writing back an updated pair object.\<close>

definition tab_update :: "pair \<Rightarrow> pairtab \<Rightarrow> pairtab" where
  "tab_update p t = t\<lparr>pt_pairs := map (\<lambda>q. if p_key q = p_key p then p else q) (pt_pairs t)\<rparr>"

definition pt_lookup :: "string \<Rightarrow> pairtab \<Rightarrow> string option" where
  "pt_lookup k t = (case tab_find k t of
     Some p \<Rightarrow> (case p_vals p of v # _ \<Rightarrow> Some v | [] \<Rightarrow> None) | None \<Rightarrow> None)"

definition pt_lookup_vec :: "string \<Rightarrow> pairtab \<Rightarrow> string list option" where
  "pt_lookup_vec k t = map_option p_vals (tab_find k t)"

definition ivlookup :: "string \<Rightarrow> pairtab \<Rightarrow> int list option \<times> pairtab" where
  "ivlookup k t = (case tab_find k t of
     None \<Rightarrow> (None, t) | Some p \<Rightarrow> (let (r, p') = to_ints p in (r, tab_update p' t)))"

definition uivlookup :: "string \<Rightarrow> pairtab \<Rightarrow> int list option \<times> pairtab" where
  "uivlookup k t = (case tab_find k t of
     None \<Rightarrow> (None, t) | Some p \<Rightarrow> (let (r, p') = to_uint64s p in (r, tab_update p' t)))"

definition pt_lookup_int :: "string \<Rightarrow> pairtab \<Rightarrow> int option \<times> pairtab" where
  "pt_lookup_int k t = (case tab_find k t of
     None \<Rightarrow> (None, t) | Some p \<Rightarrow> (let (r, p') = to_int p in (r, tab_update p' t)))"

definition pt_lookup_uint64 :: "string \<Rightarrow> pairtab \<Rightarrow> int option \<times> pairtab" where
  "pt_lookup_uint64 k t = (case tab_find k t of
     None \<Rightarrow> (None, t) | Some p \<Rightarrow> (let (r, p') = to_uint64 p in (r, tab_update p' t)))"

text \<open>\<^verbatim>\<open>blookup\<close> reads the value into a 32-bit \<^verbatim>\<open>int\<close>.\<close>

definition blookup :: "string \<Rightarrow> pairtab \<Rightarrow> bool \<times> pairtab" where
  "blookup k t = (let (r, t') = pt_lookup_int k t in
     (case r of Some i \<Rightarrow> signed_take_bit 31 i \<noteq> 0 | None \<Rightarrow> False, t'))"

definition safe_lookup :: "xss_filter \<Rightarrow> string \<Rightarrow> pairtab \<Rightarrow> xss_state \<Rightarrow> (string \<times> xss_state) option" where
  "safe_lookup cfg k t xs =
     (case pt_lookup k t of
        None \<Rightarrow> Some ([], xs)
      | Some s \<Rightarrow>
          (let s = cstr s in
           if pt_filter t \<and> cfg = XSSFILT_SOME
           then Option.bind (xss_escape s xs) (\<lambda>(out, _, xs'). Some (out, xs'))
           else Some (s, xs)))"

definition pt_exists :: "xss_filter \<Rightarrow> string \<Rightarrow> pairtab \<Rightarrow> xss_state \<Rightarrow> (bool \<times> xss_state) option" where
  "pt_exists cfg k t xs = map_option (\<lambda>(s, xs'). (0 < length s, xs')) (safe_lookup cfg k t xs)"

definition strict_exists :: "string \<Rightarrow> pairtab \<Rightarrow> bool" where
  "strict_exists k t \<longleftrightarrow> pt_lookup k t \<noteq> None"

definition insert_pair :: "pair \<Rightarrow> pairtab \<Rightarrow> pairtab" where
  "insert_pair p t = t\<lparr>pt_pairs := pt_pairs t @ [p]\<rparr>"

definition pt_insert ::
    "string option \<Rightarrow> string option \<Rightarrow> bool \<Rightarrow> bool \<Rightarrow> pairtab \<Rightarrow> pairtab" where
  "pt_insert key val app encode t =
     (case key of
        None \<Rightarrow> t
      | Some k \<Rightarrow>
          if k = [] then t
          else (case (tab_find k t, val) of
                  (Some p, Some v) \<Rightarrow>
                    if app then tab_update (addval v p) t else tab_update (p\<lparr>p_vals := [v]\<rparr>) t
                | (Some p, None) \<Rightarrow> t
                | (None, _) \<Rightarrow> insert_pair (pair_new k val encode) t))"

text \<open>Insertion of a number: its decimal digits.\<close>

definition pt_insert_int :: "string \<Rightarrow> int \<Rightarrow> bool \<Rightarrow> bool \<Rightarrow> pairtab \<Rightarrow> pairtab" where
  "pt_insert_int k v app encode t = pt_insert (Some k) (Some (dec_int v)) app encode t"

definition pt_remove :: "string \<Rightarrow> pairtab \<Rightarrow> bool \<times> pairtab" where
  "pt_remove k t =
     (case tab_find k t of
        Some p \<Rightarrow> (True, t\<lparr>pt_pairs := remove1 p (pt_pairs t)\<rparr>)
      | None \<Rightarrow> (False, t))"

definition pt_reset :: "pairtab \<Rightarrow> pairtab" where
  "pt_reset t = t\<lparr>pt_pairs := []\<rparr>"

definition load_dict :: "pairtab \<Rightarrow> (string \<times> string) list" where
  "load_dict t = [(p_key p, last (p_vals p)). p \<leftarrow> pt_pairs t, 0 < length (p_vals p)]"

section \<open>Invariant and laws\<close>

definition pt_inv :: "pairtab \<Rightarrow> bool" where
  "pt_inv t \<longleftrightarrow> distinct (map p_key (pt_pairs t)) \<and> (\<forall>p \<in> set (pt_pairs t). p_key p \<noteq> [])"

text \<open>All values of a key.\<close>

definition pt_vals :: "pairtab \<Rightarrow> string \<Rightarrow> string list" where
  "pt_vals t k = (case tab_find k t of Some p \<Rightarrow> p_vals p | None \<Rightarrow> [])"

lemma pt_inv_new [simp]: "pt_inv (pairtab_new f)"
  by (simp add: pt_inv_def pairtab_new_def)

lemma pt_vals_new [simp]: "pt_vals (pairtab_new f) k = []"
  by (simp add: pt_vals_def tab_find_def pairtab_new_def)

lemma tab_find_Some:
  "tab_find k t = Some p \<Longrightarrow> p \<in> set (pt_pairs t) \<and> p_key p = k"
  unfolding tab_find_def by (metis (mono_tags, lifting) find_Some_iff nth_mem)

lemma tab_find_None: "tab_find k t = None \<longleftrightarrow> k \<notin> p_key ` set (pt_pairs t)"
  by (auto simp: tab_find_def find_None_iff)

lemma tab_find_unique:
  assumes "pt_inv t" "p \<in> set (pt_pairs t)"
  shows "tab_find (p_key p) t = Some p"
proof -
  obtain q where q: "tab_find (p_key p) t = Some q"
    using assms(2) tab_find_None by (cases "tab_find (p_key p) t") auto
  then show ?thesis
    using tab_find_Some[OF q] assms by (auto simp: pt_inv_def distinct_map dest: inj_onD)
qed

lemma find_map_upd:
  "find (\<lambda>q. p_key q = k) (map (\<lambda>q. if p_key q = p_key p then p else q) ps)
   = (case find (\<lambda>q. p_key q = k) ps of None \<Rightarrow> None | Some q \<Rightarrow> Some (if k = p_key p then p else q))"
  by (induction ps) auto

lemma tab_find_update:
  "tab_find k (tab_update p t)
   = (case tab_find k t of None \<Rightarrow> None | Some q \<Rightarrow> Some (if k = p_key p then p else q))"
  unfolding tab_find_def tab_update_def using find_map_upd by simp

lemma keys_update: "map p_key (pt_pairs (tab_update p t)) = map p_key (pt_pairs t)"
  by (simp add: tab_update_def)

lemma tab_find_insert_pair:
  "tab_find k (insert_pair p t) = (case tab_find k t of Some q \<Rightarrow> Some q
     | None \<Rightarrow> if p_key p = k then Some p else None)"
proof -
  have "find P (xs @ [y]) = (case find P xs of Some q \<Rightarrow> Some q | None \<Rightarrow> if P y then Some y else None)"
    for P and xs :: "pair list" and y by (induction xs) auto
  then show ?thesis by (simp add: tab_find_def insert_pair_def)
qed

lemma pt_inv_keys:
  "pt_inv t \<longleftrightarrow> distinct (map p_key (pt_pairs t)) \<and> [] \<notin> set (map p_key (pt_pairs t))"
  by (force simp: pt_inv_def)

lemma pt_insert_inv [simp]: "pt_inv t \<Longrightarrow> pt_inv (pt_insert key val app encode t)"
  unfolding pt_inv_keys
  by (auto simp: pt_insert_def insert_pair_def pair_new_def addval_def keys_update image_iff tab_find_None
      simp del: set_map split: option.splits dest: tab_find_Some)
     (auto simp: tab_update_def tab_find_None pair_new_def split: option.splits)

lemma pt_vals_insert [simp]:
  assumes "k \<noteq> []"
  shows "pt_vals (pt_insert (Some k) (Some v) True e t) k'
    = (if k' = k then pt_vals t k @ [v] else pt_vals t k')"
proof (cases "tab_find k t")
  case None
  then show ?thesis
    using assms by (auto simp: pt_vals_def pt_insert_def tab_find_insert_pair pair_new_def split: option.splits)
next
  case (Some p)
  then have "p_key p = k" using tab_find_Some by blast
  then show ?thesis
    using assms Some by (auto simp: pt_vals_def pt_insert_def tab_find_update addval_def split: option.splits)
qed

section \<open>Tables as multimaps\<close>

text \<open>What the parsers that fill a table rely on.\<close>

locale multimap =
  fixes emp :: 't
    and add :: "'k \<Rightarrow> 'v \<Rightarrow> 't \<Rightarrow> 't"
    and vals :: "'t \<Rightarrow> 'k \<Rightarrow> 'v list"
    and ok :: "'k \<Rightarrow> bool"
  assumes vals_emp: "vals emp k = []"
    and vals_add: "ok k \<Longrightarrow> vals (add k v t) k' = (if k' = k then vals t k @ [v] else vals t k')"
    and add_bad: "\<not> ok k \<Longrightarrow> add k v t = t"
begin

lemma vals_adds:
  "vals (fold (\<lambda>(k, v). add k v) kvs t) k
   = vals t k @ map snd (filter (\<lambda>(k', _). ok k' \<and> k' = k) kvs)"
proof (induction kvs arbitrary: t)
  case (Cons kv kvs)
  obtain k' v where "kv = (k', v)" by (cases kv)
  then show ?case using Cons by (cases "ok k'") (auto simp: vals_add add_bad)
qed simp

end

interpretation pt: multimap "pairtab_new f" "\<lambda>k v. pt_insert (Some k) (Some v) True e" pt_vals "\<lambda>k. k \<noteq> []"
  for f e
  by unfold_locales (simp_all, simp add: pt_insert_def)

lemma pt_fold_inv:
  "pt_inv t \<Longrightarrow> pt_inv (fold (\<lambda>(k, v). pt_insert (Some k) (Some v) True e) kvs t)"
  by (induction kvs arbitrary: t) auto

section \<open>Conversions\<close>

lemma iv_loop_dec:
  assumes "INT64_MIN \<le> v" "v \<le> INT64_MAX"
  shows "iv_loop [dec_int v] = (True, [v])"
  using strtoll_dec_int[OF assms] dec_int_no_nul[of v] by (simp add: cstr_id dec_int_def dec_nat_not_Nil[symmetric])

lemma to_int_cached: "p_is p = IV_ST_OK \<Longrightarrow> to_int p = (case p_ivals p of [] \<Rightarrow> None | v # _ \<Rightarrow> Some v, p)"
  by (simp add: to_int_def to_ints_def split: list.splits)

lemma to_int_caches:
  assumes "fst (to_int p) = Some i"
  shows "p_is (snd (to_int p)) = IV_ST_OK" "\<exists>is. p_ivals (snd (to_int p)) = i # is"
    "p_key (snd (to_int p)) = p_key p"
  using assms
  by (auto simp: to_int_def to_ints_def split: iv_state.splits prod.splits if_splits list.splits option.splits)

lemma pt_lookup_int_find:
  "tab_find k t = Some p \<Longrightarrow> fst (pt_lookup_int k t) = fst (to_int p)"
  by (simp add: pt_lookup_int_def case_prod_beta)

section \<open>Properties\<close>

text \<open>
  C25.  A table filled by any sequence of insertions keeps its keys distinct and non-empty and
  returns for each key all its values in order of insertion, the first of them for a plain
  look-up; insertions under the empty key are ignored, and a key never inserted is absent.
\<close>

theorem pairtab_collects_values:
  "let t = fold (\<lambda>(k, v). pt_insert (Some k) (Some v) True e) kvs (pairtab_new f);
       vs = map snd (filter (\<lambda>(k', _). k' \<noteq> [] \<and> k' = k) kvs) in
   pt_inv t \<and> pt_lookup_vec k t = (if vs = [] then None else Some vs)
   \<and> pt_lookup k t = (case vs of [] \<Rightarrow> None | v # _ \<Rightarrow> Some v)"
proof -
  define t where "t = fold (\<lambda>(k, v). pt_insert (Some k) (Some v) True e) kvs (pairtab_new f)"
  define vs where "vs = map snd (filter (\<lambda>(k', _). k' \<noteq> [] \<and> k' = k) kvs)"
  have vals: "pt_vals t k = vs"
    unfolding t_def vs_def using pt.vals_adds[of e kvs "pairtab_new f" k] by simp
  have full: "\<forall>p \<in> set (pt_pairs t). p_vals p \<noteq> []"
    unfolding t_def
  proof (induction kvs rule: rev_induct)
    case (snoc kv kvs)
    then show ?case
      by (auto simp: pt_insert_def insert_pair_def tab_update_def pair_new_def addval_def
          split: option.splits prod.splits)
  qed (simp add: pairtab_new_def)
  show ?thesis
  proof (cases "tab_find k t")
    case None
    then have "vs = []" using vals by (simp add: pt_vals_def)
    then show ?thesis
      using None pt_fold_inv[OF pt_inv_new]
      unfolding t_def[symmetric] vs_def[symmetric] Let_def
      by (simp add: pt_lookup_vec_def pt_lookup_def t_def)
  next
    case (Some p)
    then have "p_vals p = vs" "p_vals p \<noteq> []" using vals full tab_find_Some by (auto simp: pt_vals_def)
    then show ?thesis
      using Some pt_fold_inv[OF pt_inv_new]
      unfolding t_def[symmetric] vs_def[symmetric] Let_def
      by (simp add: pt_lookup_vec_def pt_lookup_def t_def split: list.splits)
  qed
qed

text \<open>
  A 64-bit integer inserted under a fresh key is read back unchanged by the integer look-up.
\<close>

theorem pairtab_int_roundtrip:
  assumes "k \<noteq> []" "pt_lookup_vec k t = None" "INT64_MIN \<le> v" "v \<le> INT64_MAX"
  shows "fst (pt_lookup_int k (pt_insert_int k v app e t)) = Some v"
proof -
  let ?p = "pair_new k (Some (dec_int v)) e"
  have "tab_find k t = None" using assms(2) by (simp add: pt_lookup_vec_def)
  then have "tab_find k (pt_insert_int k v app e t) = Some ?p"
    using assms(1) by (simp add: pt_insert_int_def pt_insert_def tab_find_insert_pair pair_new_def)
  moreover have "fst (to_int ?p) = Some v"
    using iv_loop_dec[OF assms(3,4)] by (simp add: to_int_def to_ints_def pair_new_def)
  ultimately show ?thesis by (simp add: pt_lookup_int_find)
qed

theorem pairtab_int_roundtrip_witness:
  "fst (pt_lookup_int ''n'' (pt_insert_int ''n'' (- 42) True True (pairtab_new False))) = Some (- 42)"
  by (rule pairtab_int_roundtrip)
     (simp_all add: pt_lookup_vec_def tab_find_def pairtab_new_def INT64_MIN_def INT64_MAX_def)

text \<open>
  The integer view of a pair is never refreshed: once an integer look-up of a key has
  succeeded, later insertions under the key, replacing ones included, leave the result of the integer
  look-up as it was, while the string look-up shows the new value.
\<close>

theorem pairtab_int_stale:
  assumes "fst (pt_lookup_int k t) = Some i" "k \<noteq> []"
  shows "let t' = pt_insert (Some k) (Some s) False e (snd (pt_lookup_int k t)) in
    fst (pt_lookup_int k t') = Some i \<and> pt_lookup k t' = Some s"
proof -
  obtain p where p: "tab_find k t = Some p"
    using assms(1) by (cases "tab_find k t") (auto simp: pt_lookup_int_def)
  then have i: "fst (to_int p) = Some i" using assms(1) by (simp add: pt_lookup_int_find)
  define p1 where "p1 = snd (to_int p)"
  have p1: "p_is p1 = IV_ST_OK" "\<exists>is. p_ivals p1 = i # is" "p_key p1 = k"
    using to_int_caches[OF i] tab_find_Some[OF p] by (simp_all add: p1_def)
  have "tab_find k (snd (pt_lookup_int k t)) = Some p1"
    using p p1(3) by (simp add: pt_lookup_int_def case_prod_beta p1_def[symmetric] tab_find_update)
  then have "tab_find k (pt_insert (Some k) (Some s) False e (snd (pt_lookup_int k t))) = Some (p1\<lparr>p_vals := [s]\<rparr>)"
    using assms(2) p1(3) by (simp add: pt_insert_def tab_find_update)
  moreover have "fst (to_int (p1\<lparr>p_vals := [s]\<rparr>)) = Some i"
    using p1 by (auto simp: to_int_cached)
  ultimately show ?thesis by (simp add: pt_lookup_int_find pt_lookup_def)
qed

theorem pairtab_int_stale_witness:
  "let t' = pt_insert (Some ''n'') (Some ''7'') False True
       (snd (pt_lookup_int ''n'' (pt_insert (Some ''n'') (Some ''5'') True True (pairtab_new False)))) in
    fst (pt_lookup_int ''n'' t') = Some 5 \<and> pt_lookup ''n'' t' = Some ''7''"
  by (rule pairtab_int_stale) code_simp+

text \<open>
  The unsigned conversion does not check the range: a decimal number too large for 64 bits
  converts to the largest unsigned value, where the signed conversion fails.
\<close>

theorem to_uint64_saturates:
  assumes "UINT64_MAX < int n"
  shows "fst (to_uint64 (pair_new k (Some (dec_nat n)) e)) = Some UINT64_MAX
    \<and> fst (to_int (pair_new k (Some (dec_nat n)) e)) = None"
proof -
  have c: "cstr (dec_nat n) = dec_nat n"
    using dec_int_no_nul[of "int n"] by (simp add: cstr_id dec_int_def)
  have big: "INT64_MAX < int n" "\<not> int n < INT64_MIN"
    using assms by (simp_all add: UINT64_MAX_def INT64_MAX_def INT64_MIN_def)
  have "strtoull (dec_nat n) = (UINT64_MAX, [], True)" "strtoll (dec_nat n) = (INT64_MAX, [], True)"
    using assms big by (simp_all add: strtoull_def strtoll_def)
  then show ?thesis
    by (simp add: to_uint64_def to_uint64s_def to_int_def to_ints_def pair_new_def c dec_nat_not_Nil[symmetric])
qed

theorem to_uint64_saturates_witness:
  "fst (to_uint64 (pair_new ''n'' (Some (dec_nat (2 ^ 64))) True)) = Some UINT64_MAX
    \<and> fst (to_int (pair_new ''n'' (Some (dec_nat (2 ^ 64))) True)) = None"
  by (rule to_uint64_saturates) (simp add: UINT64_MAX_def)

end
