(* ===== verification/Cgi.thy ===== *)
theory Cgi
  imports Abuf Pairtab
begin

text \<open>
  Form and cookie data, \<^verbatim>\<open>src/libahttp/cgi.C\<close> and \<^verbatim>\<open>src/libahttp/okcgi.h\<close>: the encoder, the
  resumable parser of \<^verbatim>\<open>key=value\<close> data, and the table it fills.  The scratch buffer is the
  prefix written so far (\<open>cg_scr\<close>, of length \<^verbatim>\<open>pcp - buf\<close>) and its size (\<open>cg_cap\<close>,
  \<^verbatim>\<open>endp - buf\<close>); a write at or past the end, or a failed \<^verbatim>\<open>assert\<close>, sets \<open>cg_fail\<close>.  The
  configuration variables \<^verbatim>\<open>ok_filter_cgi\<close> and \<^verbatim>\<open>ok_cgibuf_limit\<close> are an argument, and the static
  buffer of \<^verbatim>\<open>xss_escape\<close> is carried in \<open>cg_xss\<close>.
\<close>

section \<open>State\<close>

datatype cgi_var = CGI_KEY | CGI_VAL | CGI_CKEY | CGI_CVAL | CGI_NONE

abbreviation CGI_BINDCHAR :: char where "CGI_BINDCHAR \<equiv> CHR ''=''"
abbreviation CGI_SEPCHAR :: char where "CGI_SEPCHAR \<equiv> CHR ''&''"
abbreviation CGI_HEXCHAR :: char where "CGI_HEXCHAR \<equiv> CHR ''%''"
abbreviation CGI_SPACECHAR :: char where "CGI_SPACECHAR \<equiv> CHR ''+''"
abbreviation CGI_CVALEND :: char where "CGI_CVALEND \<equiv> CHR '';''"

record ok_conf =
  ok_filter_cgi :: xss_filter
  ok_cgibuf_limit :: nat

record cgi =
  cg_cookie :: bool
  cg_inhex :: bool
  cg_pstate :: cgi_var
  cg_scr :: string
  cg_cap :: nat
  cg_hex_i :: nat
  cg_hex_h :: nat
  cg_hex_lch :: "char option"
  cg_key :: "string option"
  cg_uri_mode :: bool
  cg_maxlen :: int
  cg_tab :: pairtab
  cg_xss :: xss_state
  cg_fail :: bool

definition cgi_new :: "bool \<Rightarrow> nat \<Rightarrow> xss_state \<Rightarrow> cgi" where
  "cgi_new ck cap xss =
     \<lparr>cg_cookie = ck, cg_inhex = False, cg_pstate = (if ck then CGI_CKEY else CGI_KEY),
      cg_scr = [], cg_cap = cap, cg_hex_i = 0, cg_hex_h = 0, cg_hex_lch = None, cg_key = None,
      cg_uri_mode = False, cg_maxlen = - 1, cg_tab = pairtab_new True, cg_xss = xss, cg_fail = False\<rparr>"

definition cgi_set_scratch :: "nat \<Rightarrow> cgi \<Rightarrow> cgi" where
  "cgi_set_scratch n c = c\<lparr>cg_scr := [], cg_cap := n\<rparr>"

definition cgi_reset_state :: "cgi \<Rightarrow> cgi" where
  "cgi_reset_state c =
     c\<lparr>cg_pstate := (if cg_cookie c then CGI_CKEY else CGI_KEY), cg_inhex := False, cg_hex_i := 0,
       cg_hex_h := 0, cg_hex_lch := None, cg_uri_mode := False\<rparr>"

definition cgi_set_uri_mode :: "bool \<Rightarrow> cgi \<Rightarrow> cgi" where
  "cgi_set_uri_mode b c = c\<lparr>cg_uri_mode := b\<rparr>"

definition cgi_set_max_scratchlen :: "int \<Rightarrow> cgi \<Rightarrow> cgi" where
  "cgi_set_max_scratchlen n c = c\<lparr>cg_maxlen := n\<rparr>"

section \<open>Encoding\<close>

definition REGCHARTAB :: "bool list" where
  "REGCHARTAB =
     [True, True, False] @ replicate 10 True @ replicate 7 False @ replicate 26 True
     @ [False, False, False, False, True, False] @ replicate 26 True @ replicate 4 False"

definition cgi_plain :: "char \<Rightarrow> bool" where
  "cgi_plain ch \<longleftrightarrow> 45 \<le> code ch \<and> code ch \<le> 126 \<and> REGCHARTAB ! (code ch - 45)"

text \<open>What one character is written as, and whether \<^verbatim>\<open>sprintf\<close> writes it (and a NUL after it).\<close>

definition cgi_enc_char :: "bool \<Rightarrow> char \<Rightarrow> bool \<times> string" where
  "cgi_enc_char e ch =
     (if e then
        (if cgi_plain ch then (False, [ch])
         else if ch = SPC then (False, ''+'')
         else (True, CHR ''%'' # pad0 2 (hexs (code ch))))
      else
        (if ch = CHR '';'' then (True, CHR ''%'' # pad0 2 (hexs (code ch)))
         else (False, [ch])))"

text \<open>The size of the buffer used, given the length of the caller's scratch buffer.\<close>

definition cgi_encode_room :: "nat \<Rightarrow> nat option \<Rightarrow> nat \<Rightarrow> nat" where
  "cgi_encode_room dflt scr inlen =
     (let needlen = inlen * 3 in
      case scr of
        None \<Rightarrow> max needlen dflt
      | Some l \<Rightarrow> if l < needlen then needlen else l)"

text \<open>The output and one past the highest index written.\<close>

fun cgi_encode_loop :: "bool \<Rightarrow> string \<Rightarrow> nat \<Rightarrow> string \<Rightarrow> string \<times> nat" where
  "cgi_encode_loop e out hi [] = (out, hi)"
| "cgi_encode_loop e out hi (ch # cs) =
     (let (pr, q) = cgi_enc_char e ch in
      cgi_encode_loop e (out @ q) (max hi (length out + length q + (if pr then 1 else 0))) cs)"

definition cgi_encode_full :: "bool \<Rightarrow> string \<Rightarrow> string \<times> nat" where
  "cgi_encode_full e s = cgi_encode_loop e [] 0 s"

definition cgi_encode :: "bool \<Rightarrow> string \<Rightarrow> string" where
  "cgi_encode e s = fst (cgi_encode_full e s)"

text \<open>The state of an encoding pass: the output and whether a pair was written.\<close>

record encode_st =
  es_out :: string
  es_first :: bool

fun encode_vals :: "string \<Rightarrow> string \<Rightarrow> bool \<Rightarrow> bool \<Rightarrow> string list \<Rightarrow> string" where
  "encode_vals sep k e fst_val [] = []"
| "encode_vals sep k e fst_val (v # vs) =
     (if fst_val then [] else sep) @ k @ ''='' @ cgi_encode e v @ encode_vals sep k e False vs"

definition cgi_pair_encode :: "string \<Rightarrow> pair \<Rightarrow> encode_st \<Rightarrow> encode_st" where
  "cgi_pair_encode sep p es =
     (if \<not> hasdata p then es
      else
        (let out = (if es_first es then es_out es else es_out es @ sep) in
         \<lparr>es_out = out @ encode_vals sep (cgi_encode (p_encflag p) (p_key p)) (p_encflag p) True (p_vals p),
          es_first = False\<rparr>))"

text \<open>\<open>trav\<close> is the order in which the hash table is traversed.\<close>

definition cgi_tab_encode :: "(pair list \<Rightarrow> pair list) \<Rightarrow> string \<Rightarrow> pairtab \<Rightarrow> encode_st \<Rightarrow> encode_st" where
  "cgi_tab_encode trav sep t es = fold (cgi_pair_encode sep) (trav (pt_pairs t)) es"

definition cgi_t_encode :: "(pair list \<Rightarrow> pair list) \<Rightarrow> pairtab \<Rightarrow> string" where
  "cgi_t_encode trav t = es_out (cgi_tab_encode trav ''&'' t \<lparr>es_out = [], es_first = True\<rparr>)"

record cookie =
  ck_tab :: pairtab
  ck_domain :: pair
  ck_path :: pair
  ck_expires :: pair
  ck_secure :: bool
  ck_httponly :: bool

definition cookie_new :: "string option \<Rightarrow> string option \<Rightarrow> string option \<Rightarrow> bool \<Rightarrow> bool \<Rightarrow> cookie" where
  "cookie_new d p e s ho =
     \<lparr>ck_tab = pairtab_new True, ck_domain = pair_new ''Domain'' d False, ck_path = pair_new ''Path'' p False,
      ck_expires = pair_new ''Expires'' e False, ck_secure = s, ck_httponly = ho\<rparr>"

definition cookie_add :: "string \<Rightarrow> string option \<Rightarrow> cookie \<Rightarrow> cookie" where
  "cookie_add k v ck = ck\<lparr>ck_tab := pt_insert (Some k) v False True (ck_tab ck)\<rparr>"

definition cookie_add_int :: "string \<Rightarrow> int \<Rightarrow> cookie \<Rightarrow> cookie" where
  "cookie_add_int k v ck = ck\<lparr>ck_tab := pt_insert_int k v True True (ck_tab ck)\<rparr>"

definition cookie_set_expires :: "string \<Rightarrow> cookie \<Rightarrow> cookie" where
  "cookie_set_expires s ck = ck\<lparr>ck_expires := addval s (ck_expires ck)\<rparr>"

definition cookie_set_secure :: "bool \<Rightarrow> cookie \<Rightarrow> cookie" where
  "cookie_set_secure b ck = ck\<lparr>ck_secure := b\<rparr>"

definition cookie_set_httponly :: "bool \<Rightarrow> cookie \<Rightarrow> cookie" where
  "cookie_set_httponly b ck = ck\<lparr>ck_httponly := b\<rparr>"

definition cookie_encode :: "(pair list \<Rightarrow> pair list) \<Rightarrow> cookie \<Rightarrow> string" where
  "cookie_encode trav ck =
     (let es = cgi_tab_encode trav ''; '' (ck_tab ck) \<lparr>es_out = [], es_first = True\<rparr>;
          es = cgi_pair_encode ''; '' (ck_expires ck) es;
          es = cgi_pair_encode ''; '' (ck_path ck) es;
          es = cgi_pair_encode ''; '' (ck_domain ck) es in
      es_out es @ (if ck_secure ck then ''; Secure'' else []) @ (if ck_httponly ck then ''; HttpOnly'' else []))"

section \<open>Parsing\<close>

definition HEXVALTAB :: "int list" where
  "HEXVALTAB =
     [0, 1, 2, 3, 4, 5, 6, 7, 8, 9, -1, -1, -1, -1, -1, -1, -1, 10, 11, 12, 13, 14, 15,
      -1, -1, -1, -1, -1, -1, -1, -1, -1, -1, -1, -1, -1, -1, -1, -1, -1, -1, -1, -1, -1, -1, -1, -1, -1, -1,
      10, 11, 12, 13, 14, 15]"

definition char_to_hex :: "char \<Rightarrow> int" where
  "char_to_hex c = (if schar c < 48 \<or> 102 < schar c then - 1 else HEXVALTAB ! nat (schar c - 48))"

text \<open>\<^verbatim>\<open>*pcp++ = ch\<close>.\<close>

definition cg_push :: "char \<Rightarrow> cgi \<Rightarrow> cgi" where
  "cg_push ch c =
     (if length (cg_scr c) < cg_cap c then c\<lparr>cg_scr := cg_scr c @ [ch]\<rparr>
      else c\<lparr>cg_scr := cg_scr c @ [ch], cg_fail := True\<rparr>)"

definition extend_scratch :: "ok_conf \<Rightarrow> cgi \<Rightarrow> bool \<times> cgi" where
  "extend_scratch cfg c =
     (let limit = (if cg_maxlen c < 0 \<or> int (ok_cgibuf_limit cfg) < cg_maxlen c
                   then ok_cgibuf_limit cfg else nat (cg_maxlen c)) in
      if limit \<le> cg_cap c then (False, c)
      else
        (let newlen = min (cg_cap c * 2) limit in
         (True, c\<lparr>cg_cap := newlen, cg_fail := (cg_fail c \<or> newlen \<le> cg_cap c)\<rparr>)))"

text \<open>The loop of \<^verbatim>\<open>parse_hexchar\<close>; \<open>Some\<close> is an early return.\<close>

function hex_loop :: "cgi \<Rightarrow> abuf \<Rightarrow> abuf_stat option \<times> cgi \<times> abuf" where
  "hex_loop c a =
     (if cg_hex_i c < 2 then
        (case abuf_get a of
           (WAITCHAR, a) \<Rightarrow> (Some ABUF_WAIT, c, a)
         | (EOFCHAR, a) \<Rightarrow> (Some ABUF_EOF, c, a)
         | (CH ch, a) \<Rightarrow>
             (let t = char_to_hex ch in
              if t < 0 then (None, c, abuf_unget a)
              else hex_loop (c\<lparr>cg_hex_lch := Some ch,
                               cg_hex_h := (if cg_hex_i c = 0 then nat t else cg_hex_h c * 16 + nat t),
                               cg_hex_i := cg_hex_i c + 1\<rparr>) a))
      else (None, c, a))"
  by pat_completeness auto
termination by (relation "measure (\<lambda>(c, _). 2 - cg_hex_i c)") auto

declare hex_loop.simps [simp del]

text \<open>What \<^verbatim>\<open>parse_hexchar\<close> writes at the end.\<close>

definition hex_done :: "cgi \<Rightarrow> cgi" where
  "hex_done c =
     (let c' = (if cg_hex_i c = 2 then cg_push (char_of (cg_hex_h c)) c
                else
                  (let c1 = cg_push CGI_HEXCHAR c in
                   case cg_hex_lch c of
                     Some l \<Rightarrow> if length (cg_scr c1) + 1 < cg_cap c1 then cg_push l c1 else c1
                   | None \<Rightarrow> c1)) in
      c'\<lparr>cg_hex_i := 0, cg_hex_h := 0, cg_hex_lch := None\<rparr>)"

definition parse_hexchar :: "cgi \<Rightarrow> abuf \<Rightarrow> abuf_stat \<times> cgi \<times> abuf" where
  "parse_hexchar c a =
     (case hex_loop c a of
        (Some rc, c, a) \<Rightarrow> (rc, c, a)
      | (None, c, a) \<Rightarrow> (ABUF_OK, hex_done c, a))"

definition key_state :: "cgi_var \<Rightarrow> bool" where
  "key_state s \<longleftrightarrow> s = CGI_KEY \<or> s = CGI_CKEY"

definition cookie_state :: "cgi_var \<Rightarrow> bool" where
  "cookie_state s \<longleftrightarrow> s = CGI_CKEY \<or> s = CGI_CVAL"

fun state_trans :: "cgi_var \<Rightarrow> cgi_var" where
  "state_trans CGI_KEY = CGI_VAL"
| "state_trans CGI_VAL = CGI_KEY"
| "state_trans CGI_CKEY = CGI_CVAL"
| "state_trans _ = CGI_CKEY"

text \<open>The effect of one character other than \<^verbatim>\<open>%\<close> in the loop of \<^verbatim>\<open>parse_key_or_val\<close>.\<close>

datatype kv_action =
    Kv_push char            \<comment> \<open>store a character and go on\<close>
  | Kv_skip                 \<comment> \<open>go on\<close>
  | Kv_stop                 \<comment> \<open>\<open>flag = false\<close>\<close>
  | Kv_ret abuf_stat        \<comment> \<open>leave the loop with a status\<close>
  | Kv_unget_ret abuf_stat  \<comment> \<open>push the character back and leave the loop with a status\<close>

definition kv_char :: "cgi_var \<Rightarrow> bool \<Rightarrow> char \<Rightarrow> kv_action" where
  "kv_char vt uri ch =
     (if ch = CGI_SEPCHAR then
        (if vt = CGI_KEY then Kv_ret ABUF_SEPARATOR else if vt = CGI_VAL then Kv_stop else Kv_push ch)
      else if ch = CGI_BINDCHAR then (if key_state vt then Kv_stop else Kv_push ch)
      else if ch = CGI_CVALEND then
        (if vt = CGI_CKEY then Kv_ret ABUF_SEPARATOR else if vt = CGI_CVAL then Kv_stop else Kv_push ch)
      else if ch = CR then
        (if uri then Kv_ret ABUF_EOF else if \<not> cookie_state vt then Kv_push ch else Kv_skip)
      else if ch = LF then
        (if cookie_state vt \<or> uri then Kv_unget_ret ABUF_EOF else Kv_push ch)
      else if ch = CGI_SPACECHAR then Kv_push SPC
      else if ch = SPC \<or> ch = TAB then (if uri then Kv_unget_ret ABUF_EOF else Kv_push ch)
      else Kv_push ch)"

text \<open>The test at the top of the loop: \<open>None\<close> is the overflow.\<close>

definition kv_room :: "ok_conf \<Rightarrow> cgi \<Rightarrow> cgi option" where
  "kv_room cfg c =
     (if cg_cap c \<le> length (cg_scr c) then
        (let (ok, c') = extend_scratch cfg c in
         if ok then Some (c'\<lparr>cg_fail := (cg_fail c' \<or> cg_cap c' \<le> length (cg_scr c'))\<rparr>) else None)
      else Some c)"

partial_function (option) kv_loop :: "ok_conf \<Rightarrow> cgi_var \<Rightarrow> cgi \<Rightarrow> abuf \<Rightarrow> (abuf_stat \<times> cgi \<times> abuf) option" where
  "kv_loop cfg vt c a =
     (case kv_room cfg c of
        None \<Rightarrow> Some (ABUF_OVERFLOW, c, a)
      | Some c \<Rightarrow>
          (case abuf_get a of
             (EOFCHAR, a) \<Rightarrow> Some (ABUF_EOF, c, a)
           | (WAITCHAR, a) \<Rightarrow> Some (ABUF_WAIT, c, a)
           | (CH ch, a) \<Rightarrow>
               if ch = CGI_HEXCHAR then
                 (case parse_hexchar (c\<lparr>cg_inhex := True\<rparr>) a of
                    (rc, c, a) \<Rightarrow>
                      if rc = ABUF_WAIT \<or> rc = ABUF_EOF then Some (rc, c, a)
                      else kv_loop cfg vt (c\<lparr>cg_inhex := False\<rparr>) a)
               else
                 (case kv_char vt (cg_uri_mode c) ch of
                    Kv_push x \<Rightarrow> kv_loop cfg vt (cg_push x c) a
                  | Kv_skip \<Rightarrow> kv_loop cfg vt c a
                  | Kv_stop \<Rightarrow> Some (ABUF_OK, c, a)
                  | Kv_ret r \<Rightarrow> Some (r, c, a)
                  | Kv_unget_ret r \<Rightarrow> Some (r, c, abuf_unget a))))"

declare kv_loop.simps [code]

text \<open>After the loop: the string found, the scratch buffer emptied.\<close>

definition kv_result :: "ok_conf \<Rightarrow> abuf_stat \<Rightarrow> cgi \<Rightarrow> (abuf_stat \<times> string option \<times> cgi) option" where
  "kv_result cfg ret c =
     (if ret = ABUF_WAIT then Some (ret, None, c)
      else if ret = ABUF_OVERFLOW \<or> cg_cap c \<le> length (cg_scr c)
      then Some (ABUF_OVERFLOW, None, c\<lparr>cg_scr := []\<rparr>)
      else if ok_filter_cgi cfg = XSSFILT_ALL
      then Option.bind (xss_escape (cg_scr c) (cg_xss c)) (\<lambda>(s, _, xs).
             Some (ret, Some s, c\<lparr>cg_scr := [], cg_xss := xs\<rparr>))
      else Some (ret, Some (cg_scr c), c\<lparr>cg_scr := []\<rparr>))"

definition kv_run :: "ok_conf \<Rightarrow> cgi_var \<Rightarrow> cgi \<Rightarrow> abuf \<Rightarrow> (abuf_stat \<times> string option \<times> cgi \<times> abuf) option" where
  "kv_run cfg vt c a =
     Option.bind (kv_loop cfg vt c a) (\<lambda>(ret, c, a).
     Option.bind (kv_result cfg ret c) (\<lambda>(ret, s, c). Some (ret, s, c, a)))"

definition parse_key_or_val ::
    "ok_conf \<Rightarrow> bool \<Rightarrow> cgi \<Rightarrow> abuf \<Rightarrow> (abuf_stat \<times> string option \<times> cgi \<times> abuf) option" where
  "parse_key_or_val cfg use_internal c a =
     (let vt = (if use_internal then cg_pstate c else CGI_NONE) in
      if cg_inhex c then
        (case parse_hexchar c a of
           (rc, c, a) \<Rightarrow>
             if rc = ABUF_WAIT \<or> rc = ABUF_EOF then Some (rc, None, c, a)
             else kv_run cfg vt (c\<lparr>cg_inhex := False\<rparr>) a)
      else kv_run cfg vt c a)"

definition cg_insert :: "string option \<Rightarrow> string option \<Rightarrow> cgi \<Rightarrow> cgi" where
  "cg_insert k v c = c\<lparr>cg_tab := pt_insert k v True True (cg_tab c)\<rparr>"

definition process_parsed_key_or_val :: "abuf_stat \<Rightarrow> string option \<Rightarrow> cgi \<Rightarrow> abuf_stat \<times> cgi" where
  "process_parsed_key_or_val rc s c =
     (case rc of
        ABUF_SEPARATOR \<Rightarrow>
          (ABUF_OK, cg_insert s None (c\<lparr>cg_fail := (cg_fail c \<or> \<not> key_state (cg_pstate c))\<rparr>))
      | ABUF_OK \<Rightarrow>
          (ABUF_OK,
           (if key_state (cg_pstate c) then c\<lparr>cg_key := s\<rparr>
            else (cg_insert (cg_key c) s c)\<lparr>cg_key := None\<rparr>)\<lparr>cg_pstate := state_trans (cg_pstate c)\<rparr>)
      | ABUF_EOF \<Rightarrow>
          (ABUF_EOF, if key_state (cg_pstate c) then cg_insert s None c else cg_insert (cg_key c) s c)
      | ABUF_PARSE_ERR \<Rightarrow> (rc, c\<lparr>cg_fail := True\<rparr>)
      | _ \<Rightarrow> (rc, c))"

definition parse_still_waiting :: "cgi \<Rightarrow> abuf \<Rightarrow> (bool \<times> abuf) option" where
  "parse_still_waiting c a =
     (if cg_pstate c = CGI_CKEY \<and> cg_scr c = []
      then Option.bind (skip_hws 0 a) (\<lambda>(r, a). Some (r = ABUF_WAIT, a))
      else Some (False, a))"

definition parse_guts_driver :: "ok_conf \<Rightarrow> cgi \<Rightarrow> abuf \<Rightarrow> (abuf_stat \<times> cgi \<times> abuf) option" where
  "parse_guts_driver cfg c a =
     Option.bind (parse_still_waiting c a) (\<lambda>(w, a).
       if w then Some (ABUF_WAIT, c, a)
       else Option.bind (parse_key_or_val cfg True c a) (\<lambda>(rc, s, c, a).
              let (rc, c) = process_parsed_key_or_val rc s c in Some (rc, c, a)))"

text \<open>\<open>True\<close>: \<^verbatim>\<open>finish_parse (HTTP_OK)\<close> was called.\<close>

partial_function (option) cgi_parse_guts :: "ok_conf \<Rightarrow> cgi \<Rightarrow> abuf \<Rightarrow> (bool \<times> cgi \<times> abuf) option" where
  "cgi_parse_guts cfg c a =
     Option.bind (parse_guts_driver cfg c a) (\<lambda>(rc, c, a).
       if rc = ABUF_EOF then Some (True, c, a)
       else if rc = ABUF_WAIT then Some (False, c, a)
       else cgi_parse_guts cfg c a)"

declare cgi_parse_guts.simps [code]

definition ok_dflt_cgibuf_sz :: nat where "ok_dflt_cgibuf_sz = 0x10000"

definition cgi_decode :: "ok_conf \<Rightarrow> xss_state \<Rightarrow> string \<Rightarrow> string option option" where
  "cgi_decode cfg xss s =
     Option.bind (parse_key_or_val cfg False (cgi_new False ok_dflt_cgibuf_sz xss) (abuf_on_str s))
       (\<lambda>(rc, r, _, _). Some (if rc = ABUF_EOF then r else None))"

definition cgi_str_parse :: "ok_conf \<Rightarrow> xss_state \<Rightarrow> string \<Rightarrow> cgi option" where
  "cgi_str_parse cfg xss s =
     Option.bind (cgi_parse_guts cfg (cgi_new False ok_dflt_cgibuf_sz xss) (abuf_on_str s))
       (\<lambda>(_, c, _). Some c)"

section \<open>The parser as an automaton\<close>

text \<open>
  Outside cookie mode the parser is a machine that reads one character at a time.  \<open>cg_pre\<close> is the
  test for room that precedes a read (an overflow drops what was stored), \<open>cg_item\<close> the string
  completed at a delimiter.
\<close>

definition cg_pre :: "ok_conf \<Rightarrow> cgi \<Rightarrow> cgi" where
  "cg_pre cfg c =
     (if cg_inhex c then c else case kv_room cfg c of Some c' \<Rightarrow> c' | None \<Rightarrow> c\<lparr>cg_scr := []\<rparr>)"

definition cg_item :: "ok_conf \<Rightarrow> cgi \<Rightarrow> string option \<times> cgi" where
  "cg_item cfg c =
     (if ok_filter_cgi cfg = XSSFILT_ALL
      then (case xss_escape (cg_scr c) (cg_xss c) of
              Some (s, _, xs) \<Rightarrow> (Some s, c\<lparr>cg_scr := [], cg_xss := xs\<rparr>) | None \<Rightarrow> (None, c))
      else (Some (cg_scr c), c\<lparr>cg_scr := []\<rparr>))"

definition cg_emit :: "ok_conf \<Rightarrow> abuf_stat \<Rightarrow> cgi \<Rightarrow> cgi" where
  "cg_emit cfg rc c = (let (s, c) = cg_item cfg c in snd (process_parsed_key_or_val rc s c))"

text \<open>
  The effect of a character; the second component is \<open>Some b\<close> when the input ends there, with
  the character pushed back iff \<open>b\<close>.
\<close>

definition cg_plain_step :: "ok_conf \<Rightarrow> char \<Rightarrow> cgi \<Rightarrow> cgi \<times> bool option" where
  "cg_plain_step cfg ch c =
     (if ch = CGI_HEXCHAR then (c\<lparr>cg_inhex := True\<rparr>, None)
      else
        (case kv_char (cg_pstate c) (cg_uri_mode c) ch of
           Kv_push x \<Rightarrow> (cg_push x c, None)
         | Kv_skip \<Rightarrow> (c, None)
         | Kv_stop \<Rightarrow> (cg_emit cfg ABUF_OK c, None)
         | Kv_ret r \<Rightarrow> (cg_emit cfg r c, if r = ABUF_EOF then Some False else None)
         | Kv_unget_ret r \<Rightarrow> (cg_emit cfg r c, Some True)))"

definition cg_hex_digit :: "char \<Rightarrow> cgi \<Rightarrow> cgi" where
  "cg_hex_digit ch c =
     c\<lparr>cg_hex_lch := Some ch,
       cg_hex_h := (if cg_hex_i c = 0 then nat (char_to_hex ch) else cg_hex_h c * 16 + nat (char_to_hex ch)),
       cg_hex_i := cg_hex_i c + 1\<rparr>"

definition cg_hex_end :: "cgi \<Rightarrow> cgi" where
  "cg_hex_end c = (hex_done c)\<lparr>cg_inhex := False\<rparr>"

definition cg_step :: "ok_conf \<Rightarrow> char \<Rightarrow> cgi \<Rightarrow> cgi \<times> bool option" where
  "cg_step cfg ch c =
     (let c = cg_pre cfg c in
      if \<not> cg_inhex c then cg_plain_step cfg ch c
      else if char_to_hex ch < 0 then cg_plain_step cfg ch (cg_pre cfg (cg_hex_end c))
      else
        (let c1 = cg_hex_digit ch c in
         if cg_hex_i c1 = 2 then (cg_hex_end c1, None) else (c1, None)))"

fun cg_consume :: "ok_conf \<Rightarrow> cgi \<Rightarrow> string \<Rightarrow> cgi \<times> string option" where
  "cg_consume cfg c [] = (cg_pre cfg c, None)"
| "cg_consume cfg c (ch # cs) =
     (case cg_step cfg ch c of
        (c', None) \<Rightarrow> cg_consume cfg c' cs
      | (c', Some b) \<Rightarrow> (c', Some (if b then ch # cs else cs)))"

definition cg_ok :: "cgi \<Rightarrow> bool" where
  "cg_ok c \<longleftrightarrow> \<not> cg_fail c \<and> 0 < cg_cap c \<and> length (cg_scr c) \<le> cg_cap c
     \<and> (cg_inhex c \<longrightarrow> length (cg_scr c) < cg_cap c \<and> cg_hex_i c < 2)
     \<and> (\<not> cg_inhex c \<longrightarrow> cg_hex_i c = 0 \<and> cg_hex_h c = 0 \<and> cg_hex_lch c = None)
     \<and> cg_pstate c \<in> {CGI_KEY, CGI_VAL} \<and> xss_inv (cg_xss c)"

lemma cg_ok_new: "0 < cap \<Longrightarrow> xss_inv xss \<Longrightarrow> cg_ok (cgi_new False cap xss)"
  by (simp add: cg_ok_def cgi_new_def)

lemma cg_push_sel [simp]:
  "cg_pstate (cg_push x c) = cg_pstate c" "cg_inhex (cg_push x c) = cg_inhex c" "cg_cap (cg_push x c) = cg_cap c"
  "cg_xss (cg_push x c) = cg_xss c" "cg_hex_i (cg_push x c) = cg_hex_i c" "cg_hex_h (cg_push x c) = cg_hex_h c"
  "cg_hex_lch (cg_push x c) = cg_hex_lch c" "cg_scr (cg_push x c) = cg_scr c @ [x]"
  "cg_uri_mode (cg_push x c) = cg_uri_mode c" "cg_maxlen (cg_push x c) = cg_maxlen c"
  "cg_fail (cg_push x c) = (cg_fail c \<or> cg_cap c \<le> length (cg_scr c))"
  by (auto simp: cg_push_def)

lemma cg_push_tab [simp]: "cg_tab (cg_push x c) = cg_tab c" "cg_key (cg_push x c) = cg_key c" "cg_cookie (cg_push x c) = cg_cookie c"
  by (auto simp: cg_push_def)

lemma kv_room_cases:
  assumes "0 < cg_cap c" "length (cg_scr c) \<le> cg_cap c" "\<not> cg_fail c"
  shows "kv_room cfg c = None \<and> length (cg_scr c) = cg_cap c
    \<or> (\<exists>n. kv_room cfg c = Some (c\<lparr>cg_cap := n, cg_fail := False\<rparr>) \<and> length (cg_scr c) < n \<and> cg_cap c \<le> n)"
proof (cases "length (cg_scr c) < cg_cap c")
  case True
  then have "c\<lparr>cg_cap := cg_cap c, cg_fail := False\<rparr> = c" using assms(3) by simp
  then show ?thesis using True by (intro disjI2 exI[of _ "cg_cap c"]) (simp add: kv_room_def)
next
  case False
  then show ?thesis
    using assms by (auto simp: kv_room_def extend_scratch_def Let_def min_def)
qed

lemma cg_pre_ok:
  assumes "cg_ok c"
  shows "cg_ok (cg_pre cfg c)" "length (cg_scr (cg_pre cfg c)) < cg_cap (cg_pre cfg c)"
    "cg_inhex (cg_pre cfg c) = cg_inhex c" "cg_pstate (cg_pre cfg c) = cg_pstate c"
    "cg_pre cfg (cg_pre cfg c) = cg_pre cfg c"
proof -
  have "0 < cg_cap c" "length (cg_scr c) \<le> cg_cap c" "\<not> cg_fail c" using assms by (auto simp: cg_ok_def)
  note r = kv_room_cases[OF this, of cfg]
  show "cg_ok (cg_pre cfg c)" "length (cg_scr (cg_pre cfg c)) < cg_cap (cg_pre cfg c)"
      "cg_inhex (cg_pre cfg c) = cg_inhex c" "cg_pstate (cg_pre cfg c) = cg_pstate c"
    using r assms by (auto simp: cg_pre_def cg_ok_def)
  then show "cg_pre cfg (cg_pre cfg c) = cg_pre cfg c"
    using assms by (simp add: cg_pre_def[of cfg "cg_pre cfg c"] kv_room_def)
qed

lemma kv_room_pre:
  assumes "cg_ok c" "\<not> cg_inhex c" "length (cg_scr c) < cg_cap c"
  shows "kv_room cfg c = Some c"
  using assms by (simp add: kv_room_def)

lemma cg_item_total:
  assumes "xss_inv (cg_xss c)"
  shows "\<exists>s xs. cg_item cfg c = (Some s, c\<lparr>cg_scr := [], cg_xss := xs\<rparr>) \<and> xss_inv xs"
proof (cases "ok_filter_cgi cfg = XSSFILT_ALL")
  case True
  obtain st' where "xss_prepare (5 * length (cg_scr c)) (cg_xss c) = Some st'" "xss_inv st'"
    using xss_prepare_inv[OF assms] by blast
  then show ?thesis using True by (auto simp: cg_item_def xss_escape_def case_prod_beta)
next
  case False
  then show ?thesis using assms by (auto simp: cg_item_def intro!: exI[of _ "cg_xss c"])
qed

lemma kv_result_item:
  assumes "cg_ok c" "length (cg_scr c) < cg_cap c" "ret \<noteq> ABUF_WAIT" "ret \<noteq> ABUF_OVERFLOW"
  shows "kv_result cfg ret c = Some (ret, fst (cg_item cfg c), snd (cg_item cfg c))"
proof -
  have "xss_inv (cg_xss c)" using assms(1) by (simp add: cg_ok_def)
  then obtain st' where "xss_prepare (5 * length (cg_scr c)) (cg_xss c) = Some st'"
    using xss_prepare_inv by blast
  then show ?thesis
    using assms by (auto simp: kv_result_def cg_item_def xss_escape_def case_prod_beta)
qed

lemma state_trans_kv: "s \<in> {CGI_KEY, CGI_VAL} \<Longrightarrow> state_trans s \<in> {CGI_KEY, CGI_VAL}"
  by auto

lemma cg_emit_ok:
  assumes "cg_ok c" "\<not> cg_inhex c" "rc \<in> {ABUF_OK, ABUF_EOF} \<or> rc = ABUF_SEPARATOR \<and> cg_pstate c = CGI_KEY"
  shows "cg_ok (cg_emit cfg rc c)"
proof -
  have "xss_inv (cg_xss c)" using assms(1) by (simp add: cg_ok_def)
  then obtain s xs where "cg_item cfg c = (Some s, c\<lparr>cg_scr := [], cg_xss := xs\<rparr>)" "xss_inv xs"
    using cg_item_total by blast
  then show ?thesis
    using assms by (auto simp: cg_emit_def process_parsed_key_or_val_def cg_ok_def cg_insert_def key_state_def)
qed

lemma kv_char_cases:
  assumes "vt \<in> {CGI_KEY, CGI_VAL}"
  shows "(\<exists>x. kv_char vt uri ch = Kv_push x) \<or> kv_char vt uri ch = Kv_skip \<or> kv_char vt uri ch = Kv_stop
    \<or> kv_char vt uri ch = Kv_ret ABUF_SEPARATOR \<and> vt = CGI_KEY
    \<or> kv_char vt uri ch = Kv_ret ABUF_EOF \<or> kv_char vt uri ch = Kv_unget_ret ABUF_EOF"
  using assms by (auto simp: kv_char_def key_state_def cookie_state_def)

lemma cg_plain_step_ok:
  assumes "cg_ok c" "\<not> cg_inhex c" "length (cg_scr c) < cg_cap c"
  shows "cg_ok (fst (cg_plain_step cfg ch c))"
proof -
  have "cg_pstate c \<in> {CGI_KEY, CGI_VAL}" using assms(1) by (simp add: cg_ok_def)
  from kv_char_cases[OF this, of "cg_uri_mode c" ch] show ?thesis
    using assms cg_emit_ok[OF assms(1,2)] by (auto simp: cg_plain_step_def) (auto simp: cg_ok_def)
qed

lemma hex_done_ok:
  assumes "cg_ok c" "cg_inhex c"
  shows "cg_ok (cg_hex_end c)" "cg_ok (cg_hex_digit ch c) \<or> cg_hex_i (cg_hex_digit ch c) = 2"
    "cg_ok (cg_hex_end (cg_hex_digit ch c))" "\<not> cg_inhex (cg_hex_end c)"
  using assms by (auto simp: cg_hex_end_def hex_done_def cg_ok_def cg_hex_digit_def Let_def split: option.splits)

lemma cg_step_ok:
  assumes "cg_ok c"
  shows "cg_ok (fst (cg_step cfg ch c))"
proof -
  let ?c = "cg_pre cfg c"
  note p = cg_pre_ok[OF assms, of cfg]
  show ?thesis
  proof (cases "cg_inhex ?c")
    case False
    then show ?thesis using p cg_plain_step_ok[OF p(1)] by (simp add: cg_step_def)
  next
    case True
    note h = hex_done_ok[OF p(1) True]
    note p' = cg_pre_ok[OF h(1), of cfg]
    have "cg_ok (fst (cg_plain_step cfg ch (cg_pre cfg (cg_hex_end ?c))))"
      using cg_plain_step_ok[OF p'(1)] p' h(4) by simp
    then show ?thesis using h True by (auto simp: cg_step_def Let_def)
  qed
qed

section \<open>The parser implements the automaton\<close>

text \<open>Outside cookie mode the driver reads an item and files it.\<close>

lemma driver_plain:
  assumes "cg_pstate c \<in> {CGI_KEY, CGI_VAL}"
  shows "parse_guts_driver cfg c a =
    Option.bind (parse_key_or_val cfg True c a) (\<lambda>(rc, s, c, a).
      let (rc, c) = process_parsed_key_or_val rc s c in Some (rc, c, a))"
  using assms by (auto simp: parse_guts_driver_def parse_still_waiting_def)

lemma guts_driver_eq:
  "parse_guts_driver cfg c a = parse_guts_driver cfg c' a' \<Longrightarrow> cgi_parse_guts cfg c a = cgi_parse_guts cfg c' a'"
  by (simp add: cgi_parse_guts.simps[of cfg c a] cgi_parse_guts.simps[of cfg c' a'])

lemma guts_key_or_val_eq:
  assumes "cg_pstate c \<in> {CGI_KEY, CGI_VAL}" "cg_pstate c' = cg_pstate c"
    and "parse_key_or_val cfg True c a = parse_key_or_val cfg True c' a'"
  shows "cgi_parse_guts cfg c a = cgi_parse_guts cfg c' a'"
  using assms by (intro guts_driver_eq) (simp add: driver_plain)

text \<open>One round of the loop that stays in the loop.\<close>

lemma guts_loop_eq:
  assumes "cg_pstate c \<in> {CGI_KEY, CGI_VAL}" "cg_pstate c' = cg_pstate c" "\<not> cg_inhex c" "\<not> cg_inhex c'"
    and "kv_loop cfg (cg_pstate c) c a = kv_loop cfg (cg_pstate c) c' a'"
  shows "cgi_parse_guts cfg c a = cgi_parse_guts cfg c' a'"
  using assms by (intro guts_key_or_val_eq) (simp_all add: parse_key_or_val_def kv_run_def)

text \<open>The loop left with a complete item.\<close>

lemma guts_item:
  assumes "cg_ok c" "\<not> cg_inhex c" "length (cg_scr c) < cg_cap c"
    and "kv_loop cfg (cg_pstate c) c a = Some (rc, c, a')"
    and "rc = ABUF_OK \<or> rc = ABUF_SEPARATOR"
  shows "cgi_parse_guts cfg c a = cgi_parse_guts cfg (cg_emit cfg rc c) a'"
proof -
  have k: "cg_pstate c \<in> {CGI_KEY, CGI_VAL}" using assms(1) by (simp add: cg_ok_def)
  have "kv_result cfg rc c = Some (rc, fst (cg_item cfg c), snd (cg_item cfg c))"
    using kv_result_item[OF assms(1,3)] assms(5) by auto
  then have "parse_key_or_val cfg True c a = Some (rc, fst (cg_item cfg c), snd (cg_item cfg c), a')"
    using assms(2,4) by (simp add: parse_key_or_val_def kv_run_def case_prod_beta)
  then have "parse_guts_driver cfg c a = Some (ABUF_OK, cg_emit cfg rc c, a')"
    using assms(5) by (auto simp: driver_plain[OF k] cg_emit_def case_prod_beta process_parsed_key_or_val_def Let_def)
  then show ?thesis by (simp add: cgi_parse_guts.simps[of cfg c a])
qed

lemma guts_item_eof:
  assumes "cg_ok c" "\<not> cg_inhex c" "length (cg_scr c) < cg_cap c"
    and "kv_loop cfg (cg_pstate c) c a = Some (ABUF_EOF, c, a')"
  shows "cgi_parse_guts cfg c a = Some (True, cg_emit cfg ABUF_EOF c, a')"
proof -
  have k: "cg_pstate c \<in> {CGI_KEY, CGI_VAL}" using assms(1) by (simp add: cg_ok_def)
  have "kv_result cfg ABUF_EOF c = Some (ABUF_EOF, fst (cg_item cfg c), snd (cg_item cfg c))"
    using kv_result_item[OF assms(1,3)] by auto
  then have "parse_key_or_val cfg True c a = Some (ABUF_EOF, fst (cg_item cfg c), snd (cg_item cfg c), a')"
    using assms(2,4) by (simp add: parse_key_or_val_def kv_run_def case_prod_beta)
  then have "parse_guts_driver cfg c a = Some (ABUF_EOF, cg_emit cfg ABUF_EOF c, a')"
    by (auto simp: driver_plain[OF k] cg_emit_def case_prod_beta process_parsed_key_or_val_def Let_def)
  then show ?thesis by (simp add: cgi_parse_guts.simps[of cfg c a])
qed

lemma guts_wait:
  assumes "cg_ok c" "parse_key_or_val cfg True c a = Some (ABUF_WAIT, None, c, a')"
  shows "cgi_parse_guts cfg c a = Some (False, c, a')"
proof -
  have "cg_pstate c \<in> {CGI_KEY, CGI_VAL}" using assms(1) by (simp add: cg_ok_def)
  then have "parse_guts_driver cfg c a = Some (ABUF_WAIT, c, a')"
    using assms(2) by (simp add: driver_plain process_parsed_key_or_val_def)
  then show ?thesis by (simp add: cgi_parse_guts.simps[of cfg c a])
qed

text \<open>The test for room.\<close>

lemma guts_pre:
  assumes "cg_ok c"
  shows "cgi_parse_guts cfg c a = cgi_parse_guts cfg (cg_pre cfg c) a"
proof (cases "cg_inhex c \<or> length (cg_scr c) < cg_cap c")
  case True
  then have "cg_pre cfg c = c" by (auto simp: cg_pre_def kv_room_def)
  then show ?thesis by simp
next
  case False
  have k: "cg_pstate c \<in> {CGI_KEY, CGI_VAL}" "0 < cg_cap c" "length (cg_scr c) \<le> cg_cap c" "\<not> cg_fail c"
    using assms by (auto simp: cg_ok_def)
  show ?thesis
  proof (cases "kv_room cfg c")
    case None
    then have pre: "cg_pre cfg c = c\<lparr>cg_scr := []\<rparr>" using False by (simp add: cg_pre_def)
    have "kv_loop cfg (cg_pstate c) c a = Some (ABUF_OVERFLOW, c, a)"
      using None by (subst kv_loop.simps) simp
    then have "parse_guts_driver cfg c a = Some (ABUF_OVERFLOW, c\<lparr>cg_scr := []\<rparr>, a)"
      using False by (simp add: driver_plain[OF k(1)] parse_key_or_val_def kv_run_def kv_result_def
          process_parsed_key_or_val_def)
    then show ?thesis by (simp add: pre cgi_parse_guts.simps[of cfg c a])
  next
    case (Some c')
    then have pre: "cg_pre cfg c = c'" using False by (simp add: cg_pre_def)
    have "kv_room cfg c' = Some c'"
      using cg_pre_ok[OF assms, of cfg] False unfolding pre by (simp add: kv_room_def)
    then have "kv_loop cfg (cg_pstate c) c a = kv_loop cfg (cg_pstate c) c' a"
      using Some by (simp add: kv_loop.simps[of cfg _ c a] kv_loop.simps[of cfg _ c' a])
    then show ?thesis
      unfolding pre using cg_pre_ok[OF assms, of cfg] False k(1) unfolding pre by (intro guts_loop_eq) auto
  qed
qed

text \<open>A hexadecimal escape in progress.\<close>

lemma guts_hex_bad:
  assumes "cg_ok c" "cg_inhex c" "abuf_get a = (CH ch, a')" "char_to_hex ch < 0"
  shows "cgi_parse_guts cfg c a = cgi_parse_guts cfg (cg_hex_end c) (abuf_unget a')"
proof (rule guts_key_or_val_eq)
  show "cg_pstate c \<in> {CGI_KEY, CGI_VAL}" using assms(1) by (simp add: cg_ok_def)
  show ps: "cg_pstate (cg_hex_end c) = cg_pstate c"
    by (simp add: cg_hex_end_def hex_done_def Let_def split: option.splits)
  have "hex_loop c a = (None, c, abuf_unget a')"
    using assms by (subst hex_loop.simps) (simp add: cg_ok_def)
  then show "parse_key_or_val cfg True c a = parse_key_or_val cfg True (cg_hex_end c) (abuf_unget a')"
    using assms(2) ps hex_done_ok(4)[OF assms(1,2)]
    by (simp add: parse_key_or_val_def parse_hexchar_def cg_hex_end_def)
qed

lemma cg_hex_digit_sel [simp]:
  "cg_inhex (cg_hex_digit ch c) = cg_inhex c" "cg_pstate (cg_hex_digit ch c) = cg_pstate c"
  "cg_hex_i (cg_hex_digit ch c) = Suc (cg_hex_i c)"
  by (simp_all add: cg_hex_digit_def)

lemma hex_loop_status: "fst (hex_loop c a) \<in> {None, Some ABUF_WAIT, Some ABUF_EOF}"
  by (induction c a rule: hex_loop.induct)
     (subst hex_loop.simps, auto split: prod.splits abuf_ch.splits simp: Let_def)

lemma hex_loop_digit:
  assumes "cg_hex_i c < 2" "abuf_get a = (CH ch, a')" "\<not> char_to_hex ch < 0"
  shows "hex_loop c a = hex_loop (cg_hex_digit ch c) a'"
  using assms by (subst hex_loop.simps) (simp add: cg_hex_digit_def)

lemma guts_hex_more:
  assumes "cg_ok c" "cg_inhex c" "abuf_get a = (CH ch, a')" "\<not> char_to_hex ch < 0" "cg_hex_i c = 0"
  shows "cgi_parse_guts cfg c a = cgi_parse_guts cfg (cg_hex_digit ch c) a'"
proof (rule guts_key_or_val_eq)
  show "cg_pstate c \<in> {CGI_KEY, CGI_VAL}" using assms(1) by (simp add: cg_ok_def)
  show ps: "cg_pstate (cg_hex_digit ch c) = cg_pstate c" by (simp add: cg_hex_digit_def)
  have "hex_loop c a = hex_loop (cg_hex_digit ch c) a'" using assms hex_loop_digit by simp
  then show "parse_key_or_val cfg True c a = parse_key_or_val cfg True (cg_hex_digit ch c) a'"
    using assms(2) by (simp add: parse_key_or_val_def parse_hexchar_def)
qed

lemma guts_hex_last:
  assumes "cg_ok c" "cg_inhex c" "abuf_get a = (CH ch, a')" "\<not> char_to_hex ch < 0" "cg_hex_i c = 1"
  shows "cgi_parse_guts cfg c a = cgi_parse_guts cfg (cg_hex_end (cg_hex_digit ch c)) a'"
proof (rule guts_key_or_val_eq)
  let ?c = "cg_hex_digit ch c"
  show "cg_pstate c \<in> {CGI_KEY, CGI_VAL}" using assms(1) by (simp add: cg_ok_def)
  show ps: "cg_pstate (cg_hex_end ?c) = cg_pstate c"
    by (simp add: cg_hex_end_def hex_done_def cg_hex_digit_def Let_def split: option.splits)
  have "hex_loop c a = hex_loop ?c a'" using assms hex_loop_digit by simp
  also have "\<dots> = (None, ?c, a')" using assms(5) by (subst hex_loop.simps) (simp add: cg_hex_digit_def)
  finally have "hex_loop c a = (None, ?c, a')" .
  then show "parse_key_or_val cfg True c a = parse_key_or_val cfg True (cg_hex_end ?c) a'"
    using assms(2) ps by (simp add: parse_key_or_val_def parse_hexchar_def cg_hex_end_def)
qed

text \<open>The percent sign: as if the parser had been suspended right behind it.\<close>

lemma guts_percent:
  assumes "cg_ok c" "\<not> cg_inhex c" "length (cg_scr c) < cg_cap c" "abuf_get a = (CH CGI_HEXCHAR, a')"
    and "fst (hex_loop (c\<lparr>cg_inhex := True\<rparr>) a') \<noteq> Some ABUF_EOF"
  shows "cgi_parse_guts cfg c a = cgi_parse_guts cfg (c\<lparr>cg_inhex := True\<rparr>) a'"
proof (rule guts_key_or_val_eq)
  show "cg_pstate c \<in> {CGI_KEY, CGI_VAL}" using assms(1) by (simp add: cg_ok_def)
  show "cg_pstate (c\<lparr>cg_inhex := True\<rparr>) = cg_pstate c" by simp
  obtain r c1 a1 where h: "hex_loop (c\<lparr>cg_inhex := True\<rparr>) a' = (r, c1, a1)" by (metis prod_cases3)
  have st: "r = None \<or> r = Some ABUF_WAIT \<or> r = Some ABUF_EOF"
    using hex_loop_status[of "c\<lparr>cg_inhex := True\<rparr>" a'] h by auto
  show "parse_key_or_val cfg True c a = parse_key_or_val cfg True (c\<lparr>cg_inhex := True\<rparr>) a'"
    using assms h st
    by (auto simp: parse_key_or_val_def kv_run_def kv_loop.simps[of cfg _ c a] kv_room_def parse_hexchar_def kv_result_def)
qed

lemma guts_plain:
  assumes ok: "cg_ok c" "\<not> cg_inhex c" "length (cg_scr c) < cg_cap c" and get: "abuf_get a = (CH ch, a1)"
    and hex: "ch = CGI_HEXCHAR \<Longrightarrow> fst (hex_loop (c\<lparr>cg_inhex := True\<rparr>) a1) \<noteq> Some ABUF_EOF"
  shows "case cg_plain_step cfg ch c of
      (c', None) \<Rightarrow> cgi_parse_guts cfg c a = cgi_parse_guts cfg c' a1
    | (c', Some b) \<Rightarrow> cgi_parse_guts cfg c a = Some (True, c', if b then abuf_unget a1 else a1)"
proof (cases "ch = CGI_HEXCHAR")
  case True
  then show ?thesis using guts_percent[OF ok] get hex by (simp add: cg_plain_step_def)
next
  case False
  have k: "cg_pstate c \<in> {CGI_KEY, CGI_VAL}" using ok(1) by (simp add: cg_ok_def)
  let ?k = "kv_char (cg_pstate c) (cg_uri_mode c) ch"
  have loop: "kv_loop cfg (cg_pstate c) c a =
      (case ?k of
         Kv_push x \<Rightarrow> kv_loop cfg (cg_pstate c) (cg_push x c) a1
       | Kv_skip \<Rightarrow> kv_loop cfg (cg_pstate c) c a1
       | Kv_stop \<Rightarrow> Some (ABUF_OK, c, a1)
       | Kv_ret r \<Rightarrow> Some (r, c, a1)
       | Kv_unget_ret r \<Rightarrow> Some (r, c, abuf_unget a1))"
    using False ok(3) get by (subst kv_loop.simps) (simp add: kv_room_def)
  from kv_char_cases[OF k, of "cg_uri_mode c" ch] show ?thesis
  proof (elim disjE exE conjE)
    fix x assume x: "?k = Kv_push x"
    have "cgi_parse_guts cfg c a = cgi_parse_guts cfg (cg_push x c) a1"
      by (rule guts_loop_eq) (use k ok loop x in simp_all)
    then show ?thesis using False x by (simp add: cg_plain_step_def)
  next
    assume x: "?k = Kv_skip"
    have "cgi_parse_guts cfg c a = cgi_parse_guts cfg c a1"
      by (rule guts_loop_eq) (use k ok loop x in simp_all)
    then show ?thesis using False x by (simp add: cg_plain_step_def)
  next
    assume x: "?k = Kv_stop"
    then show ?thesis using False guts_item[OF ok, of cfg a ABUF_OK a1] loop by (simp add: cg_plain_step_def)
  next
    assume x: "?k = Kv_ret ABUF_SEPARATOR"
    then show ?thesis using False guts_item[OF ok, of cfg a ABUF_SEPARATOR a1] loop by (simp add: cg_plain_step_def)
  next
    assume x: "?k = Kv_ret ABUF_EOF"
    then show ?thesis using False guts_item_eof[OF ok, of cfg a a1] loop by (simp add: cg_plain_step_def)
  next
    assume x: "?k = Kv_unget_ret ABUF_EOF"
    then show ?thesis using False guts_item_eof[OF ok, of cfg a "abuf_unget a1"] loop by (simp add: cg_plain_step_def)
  qed
qed

text \<open>When the reader cannot hit the end of the input inside an escape.\<close>

definition hex_safe :: "ok_conf \<Rightarrow> cgi \<Rightarrow> string \<Rightarrow> abuf_ch \<Rightarrow> bool" where
  "hex_safe cfg c cs e \<longleftrightarrow> e = WAITCHAR \<or>
     (case cg_consume cfg c cs of (c', None) \<Rightarrow> \<not> cg_inhex c' | (_, Some _) \<Rightarrow> True)"

lemma hex_loop_end:
  assumes "abuf_inv a" "ab_pending a = []" "cg_hex_i c < 2"
  shows "\<exists>a'. hex_loop c a = (Some (if ab_eos a = WAITCHAR then ABUF_WAIT else ABUF_EOF), c, a')
    \<and> abuf_inv a' \<and> ab_pending a' = [] \<and> ab_eos a' = ab_eos a"
proof -
  obtain a' where "abuf_get a = (ab_eos a, a')" "abuf_inv a'" "ab_pending a' = []" "ab_eos a' = ab_eos a"
    by (rule abuf_get_end[OF assms(1,2)])
  then show ?thesis using assms(3) ab_eos_control[of a] by (subst hex_loop.simps) auto
qed

lemma hex_loop_safe:
  assumes "abuf_inv a" "hex_safe cfg c (ab_pending a) (ab_eos a)" "cg_ok c" "cg_inhex c"
  shows "fst (hex_loop c a) \<noteq> Some ABUF_EOF"
  using assms
proof (induction "2 - cg_hex_i c" arbitrary: c a)
  case 0
  then show ?case by (simp add: cg_ok_def)
next
  case (Suc n)
  have i: "cg_hex_i c < 2" using Suc.prems by (simp add: cg_ok_def)
  have pre: "cg_pre cfg c = c" using Suc.prems(4) by (simp add: cg_pre_def)
  show ?case
  proof (cases "ab_pending a")
    case Nil
    then show ?thesis
      using hex_loop_end[OF Suc.prems(1) Nil i] Suc.prems pre by (auto simp: hex_safe_def)
  next
    case (Cons ch cs)
    obtain a1 where g: "abuf_get a = (CH ch, a1)" "abuf_inv a1" "ab_pending a1 = cs" "ab_eos a1 = ab_eos a"
      by (rule abuf_get_CH[OF Suc.prems(1) Cons])
    show ?thesis
    proof (cases "char_to_hex ch < 0")
      case True
      then show ?thesis using i g(1) by (subst hex_loop.simps) simp
    next
      case False
      let ?c = "cg_hex_digit ch c"
      have loop: "hex_loop c a = hex_loop ?c a1" using hex_loop_digit[OF i g(1) False] .
      show ?thesis
      proof (cases "cg_hex_i c = 1")
        case True
        then have "hex_loop ?c a1 = (None, ?c, a1)" by (subst hex_loop.simps) simp
        then show ?thesis using loop by simp
      next
        case f: False
        then have i0: "cg_hex_i c = 0" using i by simp
        then have "cg_consume cfg c (ch # cs) = cg_consume cfg ?c cs"
          using pre Suc.prems(4) False by (simp add: cg_step_def Let_def)
        then have "hex_safe cfg ?c (ab_pending a1) (ab_eos a1)"
          using Suc.prems(2) g(3,4) Cons by (simp add: hex_safe_def)
        moreover have "cg_ok ?c" using hex_done_ok(2)[OF Suc.prems(3,4), of ch] i0 by simp
        ultimately show ?thesis
          using Suc.hyps(1)[of ?c a1] Suc.hyps(2) g(2) Suc.prems(4) loop i0 by simp
      qed
    qed
  qed
qed

lemma hex_safe_step:
  assumes "hex_safe cfg c (ch # cs) e" "cg_step cfg ch c = (c', None)"
  shows "hex_safe cfg c' cs e"
  using assms by (simp add: hex_safe_def)

lemma cg_plain_hex: "cg_plain_step cfg CGI_HEXCHAR c = (c\<lparr>cg_inhex := True\<rparr>, None)"
  by (simp add: cg_plain_step_def)

text \<open>One character, in every state.\<close>

lemma guts_step:
  assumes ok: "cg_ok c" and inv: "abuf_inv a" and p: "ab_pending a = ch # cs"
    and hs: "hex_safe cfg c (ch # cs) (ab_eos a)"
  shows "\<exists>a'. abuf_inv a' \<and> ab_eos a' = ab_eos a \<and>
    (case cg_step cfg ch c of
       (c', None) \<Rightarrow> ab_pending a' = cs \<and> cgi_parse_guts cfg c a = cgi_parse_guts cfg c' a'
     | (c', Some b) \<Rightarrow> ab_pending a' = (if b then ch # cs else cs) \<and> cgi_parse_guts cfg c a = Some (True, c', a'))"
proof -
  have plain: "\<exists>a'. abuf_inv a' \<and> ab_eos a' = ab_eos a \<and>
      (case cg_plain_step cfg ch d of
         (c', None) \<Rightarrow> ab_pending a' = cs \<and> cgi_parse_guts cfg d b = cgi_parse_guts cfg c' a'
       | (c', Some u) \<Rightarrow> ab_pending a' = (if u then ch # cs else cs) \<and> cgi_parse_guts cfg d b = Some (True, c', a'))"
    if d: "cg_ok d" "\<not> cg_inhex d" "length (cg_scr d) < cg_cap d"
      and b: "abuf_inv b" "ab_pending b = ch # cs" "ab_eos b = ab_eos a"
      and eq: "cg_step cfg ch c = cg_plain_step cfg ch d" for d b
  proof -
    obtain a1 where g: "abuf_get b = (CH ch, a1)" "abuf_inv a1" "ab_pending a1 = cs" "ab_eos a1 = ab_eos b"
      by (rule abuf_get_CH[OF b(1,2)])
    have u: "abuf_inv (abuf_unget a1)" "ab_pending (abuf_unget a1) = ch # cs" "ab_eos (abuf_unget a1) = ab_eos b"
      using abuf_unget_char[OF b(1) g(1)] g by auto
    have "fst (hex_loop (d\<lparr>cg_inhex := True\<rparr>) a1) \<noteq> Some ABUF_EOF" if "ch = CGI_HEXCHAR"
    proof (rule hex_loop_safe)
      have "cg_step cfg ch c = (d\<lparr>cg_inhex := True\<rparr>, None)" using eq that cg_plain_hex by simp
      then show "hex_safe cfg (d\<lparr>cg_inhex := True\<rparr>) (ab_pending a1) (ab_eos a1)"
        using hex_safe_step[OF hs] g(3,4) b(3) by simp
      show "cg_ok (d\<lparr>cg_inhex := True\<rparr>)" using d by (simp add: cg_ok_def)
    qed (use g in simp_all)
    from guts_plain[OF d g(1) this, of cfg] show ?thesis
      using g u b(3) by (cases "cg_plain_step cfg ch d"; cases "snd (cg_plain_step cfg ch d)") auto
  qed
  let ?c = "cg_pre cfg c"
  note pre = cg_pre_ok[OF ok, of cfg] and gp = guts_pre[OF ok, of cfg a]
  show ?thesis
  proof (cases "cg_inhex ?c")
    case False
    then have "cg_step cfg ch c = cg_plain_step cfg ch ?c" by (simp add: cg_step_def)
    from plain[OF pre(1) False pre(2) inv p refl this] show ?thesis unfolding gp by (simp add: \<open>cg_step cfg ch c = cg_plain_step cfg ch ?c\<close>)
  next
    case True
    obtain a1 where g: "abuf_get a = (CH ch, a1)" "abuf_inv a1" "ab_pending a1 = cs" "ab_eos a1 = ab_eos a"
      by (rule abuf_get_CH[OF inv p])
    have u: "abuf_inv (abuf_unget a1)" "ab_pending (abuf_unget a1) = ch # cs" "ab_eos (abuf_unget a1) = ab_eos a"
      using abuf_unget_char[OF inv g(1)] g by auto
    show ?thesis
    proof (cases "char_to_hex ch < 0")
      case neg: True
      note h = hex_done_ok[OF pre(1) True]
      note pre' = cg_pre_ok[OF h(1), of cfg]
      have st: "cg_step cfg ch c = cg_plain_step cfg ch (cg_pre cfg (cg_hex_end ?c))"
        using True neg by (simp add: cg_step_def)
      have eq: "cgi_parse_guts cfg c a = cgi_parse_guts cfg (cg_pre cfg (cg_hex_end ?c)) (abuf_unget a1)"
        using gp guts_hex_bad[OF pre(1) True g(1) neg] guts_pre[OF h(1)] by simp
      have "\<not> cg_inhex (cg_pre cfg (cg_hex_end ?c))" using pre'(3) h(4) by simp
      from plain[OF pre'(1) this pre'(2) u st] show ?thesis unfolding st eq .
    next
      case dig: False
      have i: "cg_hex_i ?c < 2" using pre(1) True by (simp add: cg_ok_def)
      show ?thesis
      proof (cases "cg_hex_i ?c = 0")
        case i0: True
        then have "cg_step cfg ch c = (cg_hex_digit ch ?c, None)" using True dig by (simp add: cg_step_def Let_def)
        then show ?thesis using gp guts_hex_more[OF pre(1) True g(1) dig i0] g by auto
      next
        case False
        then have i1: "cg_hex_i ?c = 1" using i by simp
        then have "cg_step cfg ch c = (cg_hex_end (cg_hex_digit ch ?c), None)"
          using True dig by (simp add: cg_step_def Let_def)
        then show ?thesis using gp guts_hex_last[OF pre(1) True g(1) dig i1] g by auto
      qed
    qed
  qed
qed

text \<open>The end of the input.\<close>

lemma guts_end:
  assumes ok: "cg_ok c" and inv: "abuf_inv a" and p: "ab_pending a = []"
    and hs: "hex_safe cfg c [] (ab_eos a)"
  shows "\<exists>a'. abuf_inv a' \<and> ab_eos a' = ab_eos a \<and> ab_pending a' = [] \<and>
    cgi_parse_guts cfg c a =
      (if ab_eos a = WAITCHAR then Some (False, cg_pre cfg c, a') else Some (True, cg_emit cfg ABUF_EOF (cg_pre cfg c), a'))"
proof -
  let ?c = "cg_pre cfg c"
  note pre = cg_pre_ok[OF ok, of cfg] and gp = guts_pre[OF ok, of cfg a]
  show ?thesis
  proof (cases "cg_inhex ?c")
    case True
    then have w: "ab_eos a = WAITCHAR" using hs by (simp add: hex_safe_def)
    have "cg_hex_i ?c < 2" using pre(1) True by (simp add: cg_ok_def)
    then obtain a' where a': "hex_loop ?c a = (Some ABUF_WAIT, ?c, a')" "abuf_inv a'" "ab_pending a' = []" "ab_eos a' = ab_eos a"
      using hex_loop_end[OF inv p, of ?c] w by auto
    then have "parse_key_or_val cfg True ?c a = Some (ABUF_WAIT, None, ?c, a')"
      using True by (simp add: parse_key_or_val_def parse_hexchar_def)
    then show ?thesis using guts_wait[OF pre(1)] gp w a' by auto
  next
    case False
    obtain a' where g: "abuf_get a = (ab_eos a, a')" "abuf_inv a'" "ab_pending a' = []" "ab_eos a' = ab_eos a"
      by (rule abuf_get_end[OF inv p])
    have loop: "kv_loop cfg (cg_pstate ?c) ?c a = Some (if ab_eos a = WAITCHAR then ABUF_WAIT else ABUF_EOF, ?c, a')"
      using g(1) pre(2) ab_eos_control[of a] by (subst kv_loop.simps) (auto simp: kv_room_def)
    show ?thesis
    proof (cases "ab_eos a = WAITCHAR")
      case True
      then have "parse_key_or_val cfg True ?c a = Some (ABUF_WAIT, None, ?c, a')"
        using loop False by (simp add: parse_key_or_val_def kv_run_def kv_result_def)
      then show ?thesis using guts_wait[OF pre(1)] gp True g by auto
    next
      case f: False
      then show ?thesis using guts_item_eof[OF pre(1) False pre(2), of cfg a a'] loop gp g by auto
    qed
  qed
qed

text \<open>Verdict, state and left-over characters of a run of the automaton that ends with \<open>e\<close>.\<close>

definition cg_outcome :: "ok_conf \<Rightarrow> abuf_ch \<Rightarrow> cgi \<times> string option \<Rightarrow> bool \<times> cgi \<times> string" where
  "cg_outcome cfg e cr =
     (case cr of
        (c, Some rest) \<Rightarrow> (True, c, rest)
      | (c, None) \<Rightarrow> if e = WAITCHAR then (False, c, []) else (True, cg_emit cfg ABUF_EOF c, []))"

lemma guts_consume:
  assumes "cg_ok c" "abuf_inv a" "hex_safe cfg c (ab_pending a) (ab_eos a)"
    and "cg_outcome cfg (ab_eos a) (cg_consume cfg c (ab_pending a)) = (fin, c', rest)"
  shows "\<exists>b. cgi_parse_guts cfg c a = Some (fin, c', b) \<and> abuf_inv b \<and> ab_eos b = ab_eos a \<and> ab_pending b = rest"
  using assms
proof (induction "ab_pending a" arbitrary: c a)
  case Nil
  have "hex_safe cfg c [] (ab_eos a)" using Nil by simp
  from guts_end[OF Nil(2,3) Nil(1)[symmetric] this] show ?case
    using Nil(5) by (auto simp: Nil(1)[symmetric] cg_outcome_def split: if_splits)
next
  case (Cons ch cs)
  have hs: "hex_safe cfg c (ch # cs) (ab_eos a)" using Cons by simp
  obtain a1 where a1: "abuf_inv a1" "ab_eos a1 = ab_eos a"
     "case cg_step cfg ch c of
       (c', None) \<Rightarrow> ab_pending a1 = cs \<and> cgi_parse_guts cfg c a = cgi_parse_guts cfg c' a1
     | (c', Some b) \<Rightarrow> ab_pending a1 = (if b then ch # cs else cs) \<and> cgi_parse_guts cfg c a = Some (True, c', a1)"
    by (rule exE[OF guts_step[OF Cons.prems(1,2) Cons.hyps(2)[symmetric] hs]]) (elim conjE, rule that)
  obtain c1 r where st: "cg_step cfg ch c = (c1, r)" by (cases "cg_step cfg ch c")
  show ?case
  proof (cases r)
    case None
    have ok': "cg_ok c1" using cg_step_ok[OF Cons.prems(1), of cfg ch] st by simp
    have p1: "ab_pending a1 = cs" and eq: "cgi_parse_guts cfg c a = cgi_parse_guts cfg c1 a1"
      using a1(3) st None by simp_all
    have "hex_safe cfg c1 (ab_pending a1) (ab_eos a1)"
      using hex_safe_step[OF hs] st None p1 a1(2) by simp
    moreover have "cg_outcome cfg (ab_eos a1) (cg_consume cfg c1 (ab_pending a1)) = (fin, c', rest)"
      using Cons.prems(4) st None p1 a1(2) Cons.hyps(2)[symmetric] by simp
    ultimately show ?thesis
      using Cons.hyps(1)[OF p1[symmetric] ok' a1(1)] eq a1(2) by simp
  next
    case (Some b)
    then show ?thesis using a1 st Cons.prems(4) Cons.hyps(2)[symmetric] by (auto simp: cg_outcome_def)
  qed
qed

lemma cg_consume_pre: "cg_ok c \<Longrightarrow> cg_consume cfg (cg_pre cfg c) cs = cg_consume cfg c cs"
  using cg_pre_ok[of c cfg] by (cases cs) (simp_all add: cg_step_def)

lemma cg_consume_append:
  "cg_ok c \<Longrightarrow> cg_consume cfg c xs = (c1, None) \<Longrightarrow>
   cg_ok c1 \<and> cg_consume cfg c (xs @ ys) = cg_consume cfg c1 ys"
proof (induction xs arbitrary: c)
  case Nil
  then show ?case using cg_consume_pre cg_pre_ok(1) by auto
next
  case (Cons ch xs)
  obtain c' r where st: "cg_step cfg ch c = (c', r)" by (cases "cg_step cfg ch c")
  then have "r = None" using Cons.prems(2) by (auto split: option.splits)
  moreover have "cg_ok c'" using cg_step_ok[OF Cons.prems(1), of cfg ch] st by simp
  ultimately show ?case using Cons st by simp
qed

section \<open>Encoding\<close>

lemma char_to_hex_hexdig:
  assumes "n < 16"
  shows "char_to_hex (hexdig n) = int n"
proof -
  have "schar (hexdig n) = (if n < 10 then 48 + int n else 87 + int n)"
    using assms by (simp add: schar_def code_hexdig)
  moreover have "n \<in> {0, 1, 2, 3, 4, 5, 6, 7, 8, 9, 10, 11, 12, 13, 14, 15}"
    using assms unfolding insert_iff empty_iff by presburger
  ultimately show ?thesis by (elim insertE) (simp_all add: char_to_hex_def HEXVALTAB_def)
qed

lemma kv_char_plain:
  assumes "cgi_plain ch"
  shows "kv_char vt uri ch = Kv_push ch \<and> ch \<noteq> CGI_HEXCHAR"
proof -
  have "\<forall>x \<in> set [CHR ''&'', CHR ''='', CHR '';'', CR, LF, CHR ''+'', SPC, TAB, CHR ''%'']. \<not> cgi_plain x"
    by code_simp
  then have "ch \<notin> set [CHR ''&'', CHR ''='', CHR '';'', CR, LF, CHR ''+'', SPC, TAB, CHR ''%'']"
    using assms by blast
  then show ?thesis by (simp add: kv_char_def)
qed

lemma cgi_encode_loop_out: "fst (cgi_encode_loop e out hi s) = out @ concat (map (snd \<circ> cgi_enc_char e) s)"
  by (induction s arbitrary: out hi) (auto simp: case_prod_beta Let_def)

lemma cgi_encode_concat: "cgi_encode e s = concat (map (snd \<circ> cgi_enc_char e) s)"
  by (simp add: cgi_encode_def cgi_encode_full_def cgi_encode_loop_out)

text \<open>How large the scratch buffer may become.\<close>

definition cg_max :: "ok_conf \<Rightarrow> cgi \<Rightarrow> nat" where
  "cg_max cfg c = max (cg_cap c) (ok_cgibuf_limit cfg)"

definition cg_idle :: "cgi \<Rightarrow> bool" where
  "cg_idle c \<longleftrightarrow> cg_ok c \<and> \<not> cg_inhex c \<and> cg_maxlen c < 0"

lemma cg_pre_room:
  assumes "cg_idle c" "length (cg_scr c) < cg_max cfg c"
  shows "\<exists>n. cg_pre cfg c = c\<lparr>cg_cap := n\<rparr> \<and> cg_max cfg (c\<lparr>cg_cap := n\<rparr>) = cg_max cfg c \<and> length (cg_scr c) < n
    \<and> cg_idle (c\<lparr>cg_cap := n\<rparr>) \<and> kv_room cfg c = Some (c\<lparr>cg_cap := n\<rparr>)"
proof -
  have ok: "cg_ok c" "\<not> cg_inhex c" "cg_maxlen c < 0" "0 < cg_cap c" "length (cg_scr c) \<le> cg_cap c" "\<not> cg_fail c"
    using assms(1) by (auto simp: cg_idle_def cg_ok_def)
  have f: "c\<lparr>cg_cap := m, cg_fail := False\<rparr> = c\<lparr>cg_cap := m\<rparr>" for m using ok(6) by simp
  show ?thesis
  proof (cases "length (cg_scr c) < cg_cap c")
    case True
    then have "cg_pre cfg c = c" "kv_room cfg c = Some c" using ok by (simp_all add: cg_pre_def kv_room_def)
    then show ?thesis using True assms by (intro exI[of _ "cg_cap c"]) simp
  next
    case False
    then have lim: "cg_cap c < ok_cgibuf_limit cfg" using assms(2) ok(5) by (simp add: cg_max_def)
    let ?n = "min (cg_cap c * 2) (ok_cgibuf_limit cfg)"
    have n: "cg_cap c < ?n" using lim ok(4) by simp
    have rm: "kv_room cfg c = Some (c\<lparr>cg_cap := ?n\<rparr>)"
      using False lim n ok by (simp add: kv_room_def extend_scratch_def Let_def f)
    then have "cg_pre cfg c = c\<lparr>cg_cap := ?n\<rparr>" using ok by (simp add: cg_pre_def)
    moreover have "cg_max cfg (c\<lparr>cg_cap := ?n\<rparr>) = cg_max cfg c" using lim by (simp add: cg_max_def)
    moreover have "cg_idle (c\<lparr>cg_cap := ?n\<rparr>)" using assms(1) n ok by (auto simp: cg_idle_def cg_ok_def)
    ultimately show ?thesis using n ok(5) rm by (intro exI[of _ ?n]) simp
  qed
qed

lemma cg_push_room: "length (cg_scr c) < cg_cap c \<Longrightarrow> cg_push x c = c\<lparr>cg_scr := cg_scr c @ [x]\<rparr>"
  by (simp add: cg_push_def)

lemma cg_idle_push:
  assumes "cg_idle (c\<lparr>cg_cap := n\<rparr>)" "length (cg_scr c) < n"
  shows "cg_idle (c\<lparr>cg_scr := cg_scr c @ [x], cg_cap := n\<rparr>)"
  using assms by (auto simp: cg_idle_def cg_ok_def)

text \<open>The automaton reads back one encoded character.\<close>

lemma consume_enc_char:
  assumes "cg_idle c" "length (cg_scr c) < cg_max cfg c"
  shows "\<exists>n. cg_consume cfg c (snd (cgi_enc_char True ch) @ rest)
      = cg_consume cfg (c\<lparr>cg_scr := cg_scr c @ [ch], cg_cap := n\<rparr>) rest
    \<and> cg_idle (c\<lparr>cg_scr := cg_scr c @ [ch], cg_cap := n\<rparr>) \<and> cg_max cfg (c\<lparr>cg_cap := n\<rparr>) = cg_max cfg c"
proof -
  obtain n where n: "cg_pre cfg c = c\<lparr>cg_cap := n\<rparr>" "cg_max cfg (c\<lparr>cg_cap := n\<rparr>) = cg_max cfg c"
      "length (cg_scr c) < n" "cg_idle (c\<lparr>cg_cap := n\<rparr>)"
    using cg_pre_room[OF assms] by blast
  let ?c = "c\<lparr>cg_cap := n\<rparr>"
  have nh: "\<not> cg_inhex c" using assms(1) by (simp add: cg_idle_def)
  have room: "length (cg_scr ?c) < cg_cap ?c" using n(3) by simp
  have push: "cg_push x ?c = c\<lparr>cg_scr := cg_scr c @ [x], cg_cap := n\<rparr>" for x
    using cg_push_room[OF room] by simp
  have idle: "cg_idle (c\<lparr>cg_scr := cg_scr c @ [x], cg_cap := n\<rparr>)" for x
    using cg_idle_push[OF n(4) n(3)] .
  have "cg_consume cfg c (snd (cgi_enc_char True ch) @ rest) = cg_consume cfg (cg_push ch ?c) rest"
  proof (cases "cgi_plain ch \<or> ch = SPC")
    case True
    then obtain d where d: "cgi_enc_char True ch = (False, [d])" "d \<noteq> CGI_HEXCHAR" "kv_char vt uri d = Kv_push ch" for vt uri
      using kv_char_plain[of ch] by (cases "cgi_plain ch") (auto simp: cgi_enc_char_def kv_char_def)
    then show ?thesis using nh n(1) by (simp add: cg_step_def cg_plain_step_def)
  next
    case False
    let ?x = "hexdig (code ch div 16)" and ?y = "hexdig (code ch mod 16)"
    have enc: "snd (cgi_enc_char True ch) = [CGI_HEXCHAR, ?x, ?y]"
      using False hexs_less_256[OF code_less[of ch]] by (simp add: cgi_enc_char_def)
    have hx: "char_to_hex ?x = int (code ch div 16)" "char_to_hex ?y = int (code ch mod 16)"
      using less_mult_imp_div_less[of "code ch" 16 16] by (simp_all add: char_to_hex_hexdig)
    have h0: "cg_hex_i c = 0" "cg_hex_h c = 0" "cg_hex_lch c = None" using assms(1) by (auto simp: cg_idle_def cg_ok_def)
    have cc: "code ch div 16 * 16 + code ch mod 16 = code ch" by simp
    let ?c1 = "?c\<lparr>cg_inhex := True\<rparr>"
    let ?c2 = "?c1\<lparr>cg_hex_lch := Some ?x, cg_hex_h := code ch div 16, cg_hex_i := 1\<rparr>"
    let ?c3 = "?c2\<lparr>cg_hex_lch := Some ?y, cg_hex_h := code ch, cg_hex_i := 2\<rparr>"
    have s1: "cg_step cfg CGI_HEXCHAR c = (?c1, None)"
      using nh n(1) by (simp add: cg_step_def cg_plain_step_def)
    have s2: "cg_step cfg ?x ?c1 = (?c2, None)"
      using hx h0 by (simp add: cg_step_def cg_pre_def cg_hex_digit_def Let_def)
    have s3: "cg_step cfg ?y ?c2 = (cg_hex_end ?c3, None)"
      using hx cc by (simp add: cg_step_def cg_pre_def cg_hex_digit_def Let_def numeral_2_eq_2)
    have "cg_hex_end ?c3 = cg_push ch ?c"
      using n(3) h0 nh by (simp add: cg_hex_end_def hex_done_def cg_push_def Let_def)
    then show ?thesis using s1 s2 s3 by (simp add: enc)
  qed
  then show ?thesis using push idle n(2) by (intro exI[of _ n]) (simp add: cg_max_def)
qed

lemma consume_encoded:
  assumes "cg_idle c" "length (cg_scr c) + length s \<le> cg_max cfg c"
  shows "\<exists>n. cg_consume cfg c (cgi_encode True s @ rest) = cg_consume cfg (c\<lparr>cg_scr := cg_scr c @ s, cg_cap := n\<rparr>) rest
    \<and> cg_idle (c\<lparr>cg_scr := cg_scr c @ s, cg_cap := n\<rparr>) \<and> cg_max cfg (c\<lparr>cg_cap := n\<rparr>) = cg_max cfg c"
  using assms
proof (induction s arbitrary: c)
  case Nil
  then show ?case by (intro exI[of _ "cg_cap c"]) (simp add: cgi_encode_concat)
next
  case (Cons ch s)
  obtain n where n: "cg_consume cfg c (snd (cgi_enc_char True ch) @ cgi_encode True s @ rest)
        = cg_consume cfg (c\<lparr>cg_scr := cg_scr c @ [ch], cg_cap := n\<rparr>) (cgi_encode True s @ rest)"
      "cg_idle (c\<lparr>cg_scr := cg_scr c @ [ch], cg_cap := n\<rparr>)" "cg_max cfg (c\<lparr>cg_cap := n\<rparr>) = cg_max cfg c"
    using consume_enc_char[OF Cons.prems(1), of cfg ch "cgi_encode True s @ rest"] Cons.prems(2) by auto
  let ?c = "c\<lparr>cg_scr := cg_scr c @ [ch], cg_cap := n\<rparr>"
  have m: "cg_max cfg ?c = cg_max cfg c" using n(3) by (simp add: cg_max_def)
  obtain k where "cg_consume cfg ?c (cgi_encode True s @ rest) = cg_consume cfg (?c\<lparr>cg_scr := cg_scr ?c @ s, cg_cap := k\<rparr>) rest"
      "cg_idle (?c\<lparr>cg_scr := cg_scr ?c @ s, cg_cap := k\<rparr>)" "cg_max cfg (?c\<lparr>cg_cap := k\<rparr>) = cg_max cfg ?c"
    using Cons.IH[OF n(2)] Cons.prems(2) m by auto
  moreover have "cgi_encode True (ch # s) @ rest = snd (cgi_enc_char True ch) @ cgi_encode True s @ rest"
    by (simp add: cgi_encode_concat)
  ultimately show ?case using n m by (intro exI[of _ k]) (simp add: cg_max_def)
qed

lemma cg_item_plain: "ok_filter_cgi cfg \<noteq> XSSFILT_ALL \<Longrightarrow> cg_item cfg c = (Some (cg_scr c), c\<lparr>cg_scr := []\<rparr>)"
  by (simp add: cg_item_def)

text \<open>A delimiter files what was read, the end of the input too.\<close>

lemma consume_bind:
  assumes "cg_idle c" "length (cg_scr c) < cg_max cfg c" "cg_pstate c = CGI_KEY" "ok_filter_cgi cfg \<noteq> XSSFILT_ALL"
  shows "\<exists>n. cg_consume cfg c (CGI_BINDCHAR # rest)
      = cg_consume cfg (c\<lparr>cg_scr := [], cg_key := Some (cg_scr c), cg_pstate := CGI_VAL, cg_cap := n\<rparr>) rest
    \<and> cg_idle (c\<lparr>cg_scr := [], cg_key := Some (cg_scr c), cg_pstate := CGI_VAL, cg_cap := n\<rparr>)
    \<and> cg_max cfg (c\<lparr>cg_cap := n\<rparr>) = cg_max cfg c"
proof -
  obtain n where n: "cg_pre cfg c = c\<lparr>cg_cap := n\<rparr>" "cg_max cfg (c\<lparr>cg_cap := n\<rparr>) = cg_max cfg c"
      "length (cg_scr c) < n" "cg_idle (c\<lparr>cg_cap := n\<rparr>)"
    using cg_pre_room[OF assms(1,2)] by blast
  have "cg_step cfg CGI_BINDCHAR c
      = (c\<lparr>cg_scr := [], cg_key := Some (cg_scr c), cg_pstate := CGI_VAL, cg_cap := n\<rparr>, None)"
    using assms n(1) by (simp add: cg_step_def cg_plain_step_def kv_char_def key_state_def cg_emit_def cg_item_plain
        process_parsed_key_or_val_def cg_idle_def)
  then show ?thesis using n by (intro exI[of _ n]) (auto simp: cg_idle_def cg_ok_def)
qed

lemma consume_sep:
  assumes "cg_idle c" "length (cg_scr c) < cg_max cfg c" "cg_pstate c = CGI_VAL" "ok_filter_cgi cfg \<noteq> XSSFILT_ALL"
  shows "\<exists>n. cg_consume cfg c (CGI_SEPCHAR # rest)
      = cg_consume cfg (c\<lparr>cg_scr := [], cg_key := None, cg_pstate := CGI_KEY, cg_cap := n,
            cg_tab := pt_insert (cg_key c) (Some (cg_scr c)) True True (cg_tab c)\<rparr>) rest
    \<and> cg_idle (c\<lparr>cg_scr := [], cg_key := None, cg_pstate := CGI_KEY, cg_cap := n,
            cg_tab := pt_insert (cg_key c) (Some (cg_scr c)) True True (cg_tab c)\<rparr>)
    \<and> cg_max cfg (c\<lparr>cg_cap := n\<rparr>) = cg_max cfg c"
proof -
  obtain n where n: "cg_pre cfg c = c\<lparr>cg_cap := n\<rparr>" "cg_max cfg (c\<lparr>cg_cap := n\<rparr>) = cg_max cfg c"
      "length (cg_scr c) < n" "cg_idle (c\<lparr>cg_cap := n\<rparr>)"
    using cg_pre_room[OF assms(1,2)] by blast
  have "cg_step cfg CGI_SEPCHAR c
      = (c\<lparr>cg_scr := [], cg_key := None, cg_pstate := CGI_KEY, cg_cap := n,
            cg_tab := pt_insert (cg_key c) (Some (cg_scr c)) True True (cg_tab c)\<rparr>, None)"
    using assms n(1) by (simp add: cg_step_def cg_plain_step_def kv_char_def key_state_def cg_emit_def cg_item_plain
        process_parsed_key_or_val_def cg_idle_def cg_insert_def)
  then show ?thesis using n by (intro exI[of _ n]) (auto simp: cg_idle_def cg_ok_def)
qed

text \<open>One encoded \<^verbatim>\<open>key=value\<close> item.\<close>

definition enc_item :: "string \<times> string \<Rightarrow> string" where
  "enc_item kv = cgi_encode True (fst kv) @ ''='' @ cgi_encode True (snd kv)"

definition at_key :: "cgi \<Rightarrow> bool" where
  "at_key c \<longleftrightarrow> cg_idle c \<and> cg_pstate c = CGI_KEY \<and> cg_scr c = []"

lemma consume_item:
  assumes "at_key c" "length k < cg_max cfg c" "length v < cg_max cfg c" "ok_filter_cgi cfg \<noteq> XSSFILT_ALL"
  obtains d where "cg_consume cfg c (enc_item (k, v) @ rest) = cg_consume cfg d rest"
    "cg_idle d" "cg_pstate d = CGI_VAL" "cg_scr d = v" "cg_key d = Some k" "cg_tab d = cg_tab c"
    "cg_max cfg d = cg_max cfg c"
proof -
  let ?r1 = "''='' @ cgi_encode True v @ rest" and ?r2 = "cgi_encode True v @ rest"
  have c: "cg_idle c" "cg_pstate c = CGI_KEY" "cg_scr c = []" using assms(1) by (auto simp: at_key_def)
  obtain n where n: "cg_consume cfg c (cgi_encode True k @ ?r1) = cg_consume cfg (c\<lparr>cg_scr := k, cg_cap := n\<rparr>) ?r1"
      "cg_idle (c\<lparr>cg_scr := k, cg_cap := n\<rparr>)" "cg_max cfg (c\<lparr>cg_cap := n\<rparr>) = cg_max cfg c"
    using consume_encoded[OF c(1), of k cfg ?r1] c(3) assms(2) by auto
  let ?c1 = "c\<lparr>cg_scr := k, cg_cap := n\<rparr>"
  have m1: "cg_max cfg ?c1 = cg_max cfg c" using n(3) by (simp add: cg_max_def)
  obtain n2 where n2: "cg_consume cfg ?c1 ?r1
        = cg_consume cfg (?c1\<lparr>cg_scr := [], cg_key := Some k, cg_pstate := CGI_VAL, cg_cap := n2\<rparr>) ?r2"
      "cg_idle (?c1\<lparr>cg_scr := [], cg_key := Some k, cg_pstate := CGI_VAL, cg_cap := n2\<rparr>)"
      "cg_max cfg (?c1\<lparr>cg_cap := n2\<rparr>) = cg_max cfg ?c1"
    using consume_bind[OF n(2), of cfg ?r2] c(2) assms(2,4) m1 by auto
  let ?c2 = "?c1\<lparr>cg_scr := [], cg_key := Some k, cg_pstate := CGI_VAL, cg_cap := n2\<rparr>"
  have m2: "cg_max cfg ?c2 = cg_max cfg c" using n2(3) m1 by (simp add: cg_max_def)
  obtain n3 where n3: "cg_consume cfg ?c2 ?r2 = cg_consume cfg (?c2\<lparr>cg_scr := v, cg_cap := n3\<rparr>) rest"
      "cg_idle (?c2\<lparr>cg_scr := v, cg_cap := n3\<rparr>)" "cg_max cfg (?c2\<lparr>cg_cap := n3\<rparr>) = cg_max cfg ?c2"
    using consume_encoded[OF n2(2), of v cfg rest] assms(3) m2 by auto
  show thesis
  proof (rule that)
    show "cg_consume cfg c (enc_item (k, v) @ rest) = cg_consume cfg (?c2\<lparr>cg_scr := v, cg_cap := n3\<rparr>) rest"
      using n(1) n2(1) n3(1) by (simp add: enc_item_def)
    show "cg_max cfg (?c2\<lparr>cg_scr := v, cg_cap := n3\<rparr>) = cg_max cfg c"
      using n3(3) m2 by (simp add: cg_max_def)
  qed (use n3(2) in simp_all)
qed

fun join_with :: "string \<Rightarrow> bool \<Rightarrow> string list \<Rightarrow> string" where
  "join_with sep f [] = []"
| "join_with sep f (x # xs) = (if f then [] else sep) @ x @ join_with sep False xs"

text \<open>The table after reading a list of encoded items and the end of the input.\<close>

lemma consume_items:
  assumes "at_key c" "\<forall>(k, v) \<in> set kvs. length k < cg_max cfg c \<and> length v < cg_max cfg c"
    "ok_filter_cgi cfg \<noteq> XSSFILT_ALL"
  shows "\<exists>d. cg_consume cfg c (join_with ''&'' True (map enc_item kvs)) = (d, None) \<and> \<not> cg_inhex d
    \<and> cg_tab (cg_emit cfg ABUF_EOF d) = fold (\<lambda>(k, v). pt_insert (Some k) (Some v) True True) kvs (cg_tab c)"
  using assms
proof (induction kvs arbitrary: c)
  case Nil
  then have c: "cg_idle c" "cg_pstate c = CGI_KEY" "cg_scr c = []" by (auto simp: at_key_def)
  then have "cg_pre cfg c = c" by (auto simp: cg_pre_def kv_room_def cg_idle_def cg_ok_def)
  then show ?case
    using c Nil(3) by (auto simp: cg_emit_def cg_item_plain process_parsed_key_or_val_def key_state_def
        cg_insert_def pt_insert_def cg_idle_def)
next
  case (Cons kv kvs)
  obtain k v where kv: "kv = (k, v)" by (cases kv)
  have kvl: "length k < cg_max cfg c" "length v < cg_max cfg c" using Cons.prems(2) kv by auto
  let ?rest = "join_with ''&'' False (map enc_item kvs)"
  obtain d where d: "cg_consume cfg c (enc_item (k, v) @ ?rest) = cg_consume cfg d ?rest"
    "cg_idle d" "cg_pstate d = CGI_VAL" "cg_scr d = v" "cg_key d = Some k" "cg_tab d = cg_tab c"
    "cg_max cfg d = cg_max cfg c"
    by (rule consume_item[OF Cons.prems(1) kvl Cons.prems(3)])
  have dv: "length (cg_scr d) < cg_max cfg d" using d(4,7) kvl(2) by simp
  show ?case
  proof (cases kvs)
    case Nil
    obtain n where "cg_pre cfg d = d\<lparr>cg_cap := n\<rparr>" using cg_pre_room[OF d(2) dv] by blast
    then have "cg_consume cfg c (join_with ''&'' True (map enc_item (kv # kvs))) = (d\<lparr>cg_cap := n\<rparr>, None)"
      using d(1) Nil kv by simp
    moreover have "cg_tab (cg_emit cfg ABUF_EOF (d\<lparr>cg_cap := n\<rparr>)) = pt_insert (Some k) (Some v) True True (cg_tab c)"
      using d Cons.prems(3) by (simp add: cg_emit_def cg_item_plain process_parsed_key_or_val_def key_state_def cg_insert_def)
    ultimately show ?thesis using d(2) Nil kv by (simp add: cg_idle_def)
  next
    case (Cons kv2 kvs2)
    let ?next = "join_with ''&'' True (map enc_item kvs)"
    have rest: "?rest = CGI_SEPCHAR # ?next" using Cons by simp
    obtain n where n: "cg_consume cfg d (CGI_SEPCHAR # ?next)
          = cg_consume cfg (d\<lparr>cg_scr := [], cg_key := None, cg_pstate := CGI_KEY, cg_cap := n,
              cg_tab := pt_insert (Some k) (Some v) True True (cg_tab c)\<rparr>) ?next"
        "cg_idle (d\<lparr>cg_scr := [], cg_key := None, cg_pstate := CGI_KEY, cg_cap := n,
              cg_tab := pt_insert (Some k) (Some v) True True (cg_tab c)\<rparr>)"
        "cg_max cfg (d\<lparr>cg_cap := n\<rparr>) = cg_max cfg d"
      using consume_sep[OF d(2) dv d(3) Cons.prems(3), of ?next] d(4-6) by auto
    let ?d = "d\<lparr>cg_scr := [], cg_key := None, cg_pstate := CGI_KEY, cg_cap := n,
              cg_tab := pt_insert (Some k) (Some v) True True (cg_tab c)\<rparr>"
    have "at_key ?d" using n(2) by (simp add: at_key_def)
    moreover have "cg_max cfg ?d = cg_max cfg c" using n(3) d(7) by (simp add: cg_max_def)
    ultimately show ?thesis
      using Cons.IH[of ?d] Cons.prems(2,3) d(1) n(1) rest kv by auto
  qed
qed

lemma join_with_append: "join_with sep f (xs @ ys) = join_with sep f xs @ join_with sep (f \<and> xs = []) ys"
  by (induction xs arbitrary: f) auto

lemma encode_vals_join:
  "encode_vals sep (cgi_encode True k) True f vs = join_with sep f (map (\<lambda>v. enc_item (k, v)) vs)"
  by (induction vs arbitrary: f) (auto simp: enc_item_def)

definition pair_items :: "pair \<Rightarrow> (string \<times> string) list" where
  "pair_items p = map (\<lambda>v. (p_key p, v)) (p_vals p)"

lemma cgi_pair_encode_join:
  "p_encflag p \<Longrightarrow> cgi_pair_encode sep p es =
     \<lparr>es_out = es_out es @ join_with sep (es_first es) (map enc_item (pair_items p)),
      es_first = (es_first es \<and> p_vals p = [])\<rparr>"
  by (cases "p_vals p")
     (auto simp: cgi_pair_encode_def hasdata_def pair_items_def encode_vals_join comp_def Let_def enc_item_def)

lemma cgi_tab_encode_join:
  "\<forall>p \<in> set ps. p_encflag p \<Longrightarrow> es_out (fold (cgi_pair_encode sep) ps es)
     = es_out es @ join_with sep (es_first es) (map enc_item (concat (map pair_items ps)))"
  by (induction ps arbitrary: es) (auto simp: cgi_pair_encode_join join_with_append pair_items_def)

section \<open>Decoding\<close>

lemma kv_loop_push:
  assumes "cg_idle c" "length (cg_scr c) < cg_max cfg c" "abuf_get a = (CH d, a1)" "d \<noteq> CGI_HEXCHAR"
    "kv_char vt (cg_uri_mode c) d = Kv_push x"
  shows "kv_loop cfg vt c a = kv_loop cfg vt (cg_push x (cg_pre cfg c)) a1"
proof -
  have "kv_room cfg c = Some (cg_pre cfg c)" "cg_uri_mode (cg_pre cfg c) = cg_uri_mode c"
    using cg_pre_room[OF assms(1,2)] by auto
  then show ?thesis using assms by (subst kv_loop.simps) simp
qed

lemma kv_loop_hex:
  assumes "cg_idle c" "length (cg_scr c) < cg_max cfg c" "abuf_inv a"
    and "ab_pending a = CGI_HEXCHAR # hexdig (n div 16) # hexdig (n mod 16) # rest" "n < 256"
  shows "\<exists>a'. kv_loop cfg vt c a = kv_loop cfg vt (cg_push (char_of n) (cg_pre cfg c)) a'
    \<and> abuf_inv a' \<and> ab_pending a' = rest \<and> ab_eos a' = ab_eos a"
proof -
  let ?x = "hexdig (n div 16)" and ?y = "hexdig (n mod 16)"
  obtain m where m: "cg_pre cfg c = c\<lparr>cg_cap := m\<rparr>" "length (cg_scr c) < m" "kv_room cfg c = Some (c\<lparr>cg_cap := m\<rparr>)"
    using cg_pre_room[OF assms(1,2)] by blast
  obtain a1 where a1: "abuf_get a = (CH CGI_HEXCHAR, a1)" "abuf_inv a1" "ab_pending a1 = ?x # ?y # rest" "ab_eos a1 = ab_eos a"
    by (rule abuf_get_CH[OF assms(3,4)])
  obtain a2 where a2: "abuf_get a1 = (CH ?x, a2)" "abuf_inv a2" "ab_pending a2 = ?y # rest" "ab_eos a2 = ab_eos a1"
    by (rule abuf_get_CH[OF a1(2,3)])
  obtain a3 where a3: "abuf_get a2 = (CH ?y, a3)" "abuf_inv a3" "ab_pending a3 = rest" "ab_eos a3 = ab_eos a2"
    by (rule abuf_get_CH[OF a2(2,3)])
  have hx: "char_to_hex ?x = int (n div 16)" "char_to_hex ?y = int (n mod 16)"
    using less_mult_imp_div_less[of n 16 16] assms(5) by (simp_all add: char_to_hex_hexdig)
  have h0: "cg_hex_i c = 0" "cg_hex_h c = 0" "cg_hex_lch c = None" "\<not> cg_inhex c"
    using assms(1) by (auto simp: cg_idle_def cg_ok_def)
  let ?c1 = "c\<lparr>cg_cap := m, cg_inhex := True\<rparr>"
  let ?c3 = "cg_hex_digit ?y (cg_hex_digit ?x ?c1)"
  have "hex_loop ?c1 a1 = hex_loop (cg_hex_digit ?x ?c1) a2"
    by (rule hex_loop_digit[OF _ a2(1)]) (use h0 hx in simp_all)
  also have "\<dots> = hex_loop ?c3 a3" by (rule hex_loop_digit[OF _ a3(1)]) (use h0 hx in simp_all)
  also have "\<dots> = (None, ?c3, a3)" using h0 by (subst hex_loop.simps) simp
  finally have "hex_loop ?c1 a1 = (None, ?c3, a3)" .
  moreover have "cg_hex_end ?c3 = cg_push (char_of n) (cg_pre cfg c)"
    using m h0 hx by (simp add: cg_hex_end_def hex_done_def cg_hex_digit_def cg_push_def Let_def)
  ultimately have "kv_loop cfg vt c a = kv_loop cfg vt (cg_push (char_of n) (cg_pre cfg c)) a3"
    using a1(1) m(3) by (subst kv_loop.simps) (simp add: parse_hexchar_def cg_hex_end_def)
  then show ?thesis using a1 a2 a3 by auto
qed

lemma kv_loop_enc_char:
  assumes "cg_idle c" "length (cg_scr c) < cg_max cfg c" "abuf_inv a"
    and "ab_pending a = snd (cgi_enc_char True ch) @ rest"
  shows "\<exists>a'. kv_loop cfg vt c a = kv_loop cfg vt (cg_push ch (cg_pre cfg c)) a'
    \<and> abuf_inv a' \<and> ab_pending a' = rest \<and> ab_eos a' = ab_eos a"
proof (cases "cgi_plain ch \<or> ch = SPC")
  case True
  then obtain d where d: "cgi_enc_char True ch = (False, [d])" "d \<noteq> CGI_HEXCHAR" "kv_char vt (cg_uri_mode c) d = Kv_push ch"
    using kv_char_plain[of ch] by (cases "cgi_plain ch") (auto simp: cgi_enc_char_def kv_char_def)
  then have "ab_pending a = d # rest" using assms(4) by simp
  then obtain a1 where a1: "abuf_get a = (CH d, a1)" "abuf_inv a1" "ab_pending a1 = rest" "ab_eos a1 = ab_eos a"
    by (rule abuf_get_CH[OF assms(3)])
  then show ?thesis using kv_loop_push[OF assms(1,2) a1(1) d(2,3)] by blast
next
  case False
  then have "ab_pending a = CGI_HEXCHAR # hexdig (code ch div 16) # hexdig (code ch mod 16) # rest"
    using assms(4) hexs_less_256[OF code_less[of ch]] by (simp add: cgi_enc_char_def)
  from kv_loop_hex[OF assms(1-3) this code_less] show ?thesis by simp
qed

lemma kv_loop_encoded:
  assumes "cg_idle c" "length (cg_scr c) + length s \<le> cg_max cfg c" "abuf_inv a" "ab_pending a = cgi_encode True s @ rest"
  shows "\<exists>n a'. kv_loop cfg vt c a = kv_loop cfg vt (c\<lparr>cg_scr := cg_scr c @ s, cg_cap := n\<rparr>) a'
    \<and> cg_idle (c\<lparr>cg_scr := cg_scr c @ s, cg_cap := n\<rparr>) \<and> cg_max cfg (c\<lparr>cg_cap := n\<rparr>) = cg_max cfg c
    \<and> abuf_inv a' \<and> ab_pending a' = rest \<and> ab_eos a' = ab_eos a"
  using assms
proof (induction s arbitrary: c a)
  case Nil
  then show ?case by (intro exI[of _ "cg_cap c"] exI[of _ a]) (simp add: cgi_encode_concat)
next
  case (Cons ch s)
  have l: "length (cg_scr c) < cg_max cfg c" using Cons.prems(2) by simp
  obtain n where n: "cg_pre cfg c = c\<lparr>cg_cap := n\<rparr>" "cg_max cfg (c\<lparr>cg_cap := n\<rparr>) = cg_max cfg c"
      "length (cg_scr c) < n" "cg_idle (c\<lparr>cg_cap := n\<rparr>)"
    using cg_pre_room[OF Cons.prems(1) l] by blast
  let ?c = "c\<lparr>cg_scr := cg_scr c @ [ch], cg_cap := n\<rparr>"
  have push: "cg_push ch (cg_pre cfg c) = ?c" using n(1,3) by (simp add: cg_push_def)
  have "ab_pending a = snd (cgi_enc_char True ch) @ cgi_encode True s @ rest"
    using Cons.prems(4) by (simp add: cgi_encode_concat)
  from kv_loop_enc_char[OF Cons.prems(1) l Cons.prems(3) this, of vt] obtain a1 where
    a1: "kv_loop cfg vt c a = kv_loop cfg vt ?c a1" "abuf_inv a1" "ab_pending a1 = cgi_encode True s @ rest" "ab_eos a1 = ab_eos a"
    unfolding push by blast
  have m: "cg_max cfg ?c = cg_max cfg c" using n(2) by (simp add: cg_max_def)
  then obtain k a' where "kv_loop cfg vt ?c a1 = kv_loop cfg vt (?c\<lparr>cg_scr := cg_scr ?c @ s, cg_cap := k\<rparr>) a'"
    "cg_idle (?c\<lparr>cg_scr := cg_scr ?c @ s, cg_cap := k\<rparr>)" "cg_max cfg (?c\<lparr>cg_cap := k\<rparr>) = cg_max cfg ?c"
    "abuf_inv a'" "ab_pending a' = rest" "ab_eos a' = ab_eos a1"
    using Cons.IH[OF cg_idle_push[OF n(4,3), of ch] _ a1(2,3)] Cons.prems(2) by auto
  then show ?case using a1 m by (intro exI[of _ k] exI[of _ a']) (simp add: cg_max_def)
qed

lemma pt_vals_items:
  assumes "distinct (map p_key ps)" "\<forall>p \<in> set ps. p_key p \<noteq> []"
  shows "map snd (filter (\<lambda>(k', _). k' \<noteq> [] \<and> k' = k) (concat (map pair_items ps)))
    = (case find (\<lambda>p. p_key p = k) ps of Some p \<Rightarrow> p_vals p | None \<Rightarrow> [])"
  using assms
proof (induction ps)
  case (Cons p ps)
  have one: "map snd (filter (\<lambda>(k', _). k' \<noteq> [] \<and> k' = k) (pair_items p)) = (if p_key p = k then p_vals p else [])"
    using Cons.prems(2) by (auto simp: pair_items_def filter_map comp_def)
  have "find (\<lambda>q. p_key q = k) ps = None" if "p_key p = k"
    using Cons.prems(1) that unfolding find_None_iff by (metis distinct.simps(2) image_eqI list.set_map list.simps(9))
  then show ?case using Cons one by auto
qed simp

lemma find_key_perm:
  assumes "set ps = set qs" "distinct (map p_key qs)"
  shows "find (\<lambda>p. p_key p = k) ps = find (\<lambda>p. p_key p = k) qs"
proof (cases "find (\<lambda>p. p_key p = k) qs")
  case None
  then have "find (\<lambda>p. p_key p = k) ps = None" using assms(1) by (simp add: find_None_iff)
  then show ?thesis using None by simp
next
  case (Some q)
  have q: "q \<in> set qs" "p_key q = k" using Some by (auto simp: find_Some_iff)
  then obtain p where p: "find (\<lambda>p. p_key p = k) ps = Some p"
    using assms(1) by (cases "find (\<lambda>p. p_key p = k) ps") (auto simp: find_None_iff)
  then have "p \<in> set qs" "p_key p = k" using assms(1) by (auto simp: find_Some_iff)
  then have "p = q" using q assms(2) by (auto simp: distinct_map dest: inj_onD)
  then show ?thesis using p Some by simp
qed

lemma cgi_new_at_key: "0 < cap \<Longrightarrow> xss_inv xss \<Longrightarrow> at_key (cgi_new False cap xss)"
  using cg_ok_new by (simp add: at_key_def cg_idle_def) (simp add: cgi_new_def)

text \<open>The highest index the encoder writes to.\<close>

lemma cgi_encode_hi:
  "length out + (\<Sum>c\<leftarrow>s. length (snd (cgi_enc_char e c))) + (if s \<noteq> [] \<and> fst (cgi_enc_char e (last s)) then 1 else 0)
     \<le> snd (cgi_encode_loop e out hi s) \<or> s = []"
proof (induction s arbitrary: out hi)
  case (Cons c s)
  show ?case
  proof (cases "s = []")
    case True
    then show ?thesis by (simp add: case_prod_beta Let_def)
  next
    case False
    then show ?thesis
      using Cons.IH[of "out @ snd (cgi_enc_char e c)"
          "max hi (length out + length (snd (cgi_enc_char e c)) + (if fst (cgi_enc_char e c) then 1 else 0))"]
      by (simp add: case_prod_beta Let_def)
  qed
qed simp

section \<open>Properties\<close>

text \<open>
  The resumable parser of form data implements the one-character-at-a-time automaton
  \<open>cg_consume\<close>: on any consistent stream it returns; it has consumed what the automaton consumes,
  stayed within its scratch buffer and failed no assertion (\<open>cg_ok\<close>); it is suspended, in the
  automaton's state, exactly when the stream asks it to wait, and otherwise has finished, leaving to
  its caller what follows the end of a URI.
\<close>

theorem cgi_parser_implements_automaton:
  assumes "cg_ok c" "abuf_inv a" "hex_safe cfg c (ab_pending a) (ab_eos a)"
    and "cg_consume cfg c (ab_pending a) = (c', r)"
  shows "cg_ok c' \<and> (\<exists>a'. abuf_inv a' \<and> ab_eos a' = ab_eos a \<and>
    (case r of
       Some rest \<Rightarrow> ab_pending a' = rest \<and> cgi_parse_guts cfg c a = Some (True, c', a')
     | None \<Rightarrow> ab_pending a' = [] \<and> cgi_parse_guts cfg c a =
         (if ab_eos a = WAITCHAR then Some (False, c', a') else Some (True, cg_emit cfg ABUF_EOF c', a'))))"
proof -
  have "cg_ok d \<Longrightarrow> cg_ok (fst (cg_consume cfg d cs))" for d cs
  proof (induction cs arbitrary: d)
    case Nil
    then show ?case using cg_pre_ok(1) by simp
  next
    case (Cons ch cs)
    then show ?case using cg_step_ok[OF Cons.prems, of cfg ch] by (auto split: prod.splits option.splits)
  qed
  then have "cg_ok c'" using assms(1,4) by (metis fst_conv)
  obtain fin d rest where o: "cg_outcome cfg (ab_eos a) (cg_consume cfg c (ab_pending a)) = (fin, d, rest)"
    by (metis prod_cases3)
  from guts_consume[OF assms(1-3) o] show ?thesis
    using o \<open>cg_ok c'\<close> unfolding assms(4) by (cases r) (auto simp: cg_outcome_def split: if_splits)
qed

definition cgi_conf_plain :: ok_conf where
  "cgi_conf_plain = \<lparr>ok_filter_cgi = XSSFILT_NONE, ok_cgibuf_limit = 8\<rparr>"

theorem cgi_parser_implements_automaton_witness:
  "\<exists>c'. cg_consume cgi_conf_plain (cgi_new False 4 xss_init) ''a=%41'' = (c', None) \<and> cg_ok c'
    \<and> (\<exists>a'. cgi_parse_guts cgi_conf_plain (cgi_new False 4 xss_init) (abuf_on_str ''a=%41'')
       = Some (True, cg_emit cgi_conf_plain ABUF_EOF c', a'))"
proof -
  let ?c = "cgi_new False 4 xss_init" and ?a = "abuf_on_str ''a=%41''" and ?s = "''a=%41''"
  obtain c' r where st: "cg_consume cgi_conf_plain ?c ?s = (c', r)" by (cases "cg_consume cgi_conf_plain ?c ?s")
  have r: "snd (cg_consume cgi_conf_plain ?c ?s) = None" by code_simp
  have i: "\<not> cg_inhex (fst (cg_consume cgi_conf_plain ?c ?s))" by code_simp
  have h: "hex_safe cgi_conf_plain ?c ?s EOFCHAR" using st r i by (simp add: hex_safe_def)
  have ok: "cg_ok ?c" by (rule cg_ok_new) (simp_all add: xss_inv_init)
  show ?thesis
    using cgi_parser_implements_automaton[of ?c ?a cgi_conf_plain c' r] st r h ok
    by (auto simp: abuf_on_str_init)
qed







text \<open>
  A value that ends in an incomplete escape is lost when the parser was suspended inside the
  escape: at the end of the input such a suspended parser files its key without a value and drops
  the characters stored, whereas a parser that reaches the same end without having been suspended files them.
\<close>

theorem cgi_truncated_escape:
  assumes "cg_ok c" "\<not> cg_inhex c" "cg_pstate c = CGI_VAL" "length (cg_scr c) < cg_cap c"
    "ok_filter_cgi cfg \<noteq> XSSFILT_ALL"
    and "abuf_inv a" "ab_pending a = ''%''" "ab_eos a = EOFCHAR"
    and "abuf_inv b" "ab_pending b = []" "ab_eos b = EOFCHAR"
  shows "(\<exists>a' c'. cgi_parse_guts cfg c a = Some (True, c', a')
           \<and> cg_tab c' = pt_insert (cg_key c) (Some (cg_scr c)) True True (cg_tab c))
    \<and> (\<exists>b' c'. cgi_parse_guts cfg (c\<lparr>cg_inhex := True\<rparr>) b = Some (True, c', b')
           \<and> cg_tab c' = pt_insert (cg_key c) None True True (cg_tab c))"
proof
  let ?h = "c\<lparr>cg_inhex := True\<rparr>"
  have i: "cg_hex_i ?h < 2" using assms(1,2) by (simp add: cg_ok_def)
  obtain b' where "hex_loop ?h b = (Some ABUF_EOF, ?h, b')"
    using hex_loop_end[OF assms(9,10) i] assms(11) by auto
  then have "parse_guts_driver cfg ?h b = Some (ABUF_EOF, cg_insert (cg_key c) None ?h, b')"
    using assms(3) by (simp add: driver_plain parse_key_or_val_def parse_hexchar_def process_parsed_key_or_val_def key_state_def)
  then show "\<exists>b' c'. cgi_parse_guts cfg ?h b = Some (True, c', b')
      \<and> cg_tab c' = pt_insert (cg_key c) None True True (cg_tab c)"
    by (subst cgi_parse_guts.simps) (simp add: cg_insert_def)
  obtain a1 where a1: "abuf_get a = (CH CGI_HEXCHAR, a1)" "abuf_inv a1" "ab_pending a1 = []" "ab_eos a1 = EOFCHAR"
    using abuf_get_CH[OF assms(6,7)] assms(8) by metis
  obtain a2 where "hex_loop ?h a1 = (Some ABUF_EOF, ?h, a2)"
    using hex_loop_end[OF a1(2,3) i] a1(4) by auto
  then have "kv_loop cfg CGI_VAL c a = Some (ABUF_EOF, ?h, a2)"
    using a1(1) assms(4) by (subst kv_loop.simps) (simp add: kv_room_def parse_hexchar_def)
  then have "parse_guts_driver cfg c a = Some (ABUF_EOF, cg_insert (cg_key c) (Some (cg_scr c)) (?h\<lparr>cg_scr := []\<rparr>), a2)"
    using assms(2,3,4,5) by (simp add: driver_plain parse_key_or_val_def kv_run_def kv_result_def process_parsed_key_or_val_def key_state_def)
  then show "\<exists>a' c'. cgi_parse_guts cfg c a = Some (True, c', a')
      \<and> cg_tab c' = pt_insert (cg_key c) (Some (cg_scr c)) True True (cg_tab c)"
    by (subst cgi_parse_guts.simps) (simp add: cg_insert_def)
qed

definition cgi_mid_value :: cgi where
  "cgi_mid_value = (cgi_new False 4 xss_init)\<lparr>cg_pstate := CGI_VAL, cg_key := Some ''k'', cg_scr := ''v''\<rparr>"

theorem cgi_truncated_escape_witness:
  "(\<exists>a' c'. cgi_parse_guts cgi_conf_plain cgi_mid_value (abuf_on_str ''%'') = Some (True, c', a')
           \<and> cg_tab c' = pt_insert (cg_key cgi_mid_value) (Some (cg_scr cgi_mid_value)) True True (cg_tab cgi_mid_value))
    \<and> (\<exists>b' c'. cgi_parse_guts cgi_conf_plain (cgi_mid_value\<lparr>cg_inhex := True\<rparr>) (abuf_on_str []) = Some (True, c', b')
           \<and> cg_tab c' = pt_insert (cg_key cgi_mid_value) None True True (cg_tab cgi_mid_value))"
  by (rule cgi_truncated_escape)
     (simp_all add: cgi_mid_value_def cgi_conf_plain_def abuf_on_str_init cg_ok_def cgi_new_def xss_inv_init)

text \<open>
  The encoder's buffer is three bytes per input byte, but \<^verbatim>\<open>sprintf\<close> also writes a
  terminating NUL: on a non-empty input whose every character is escaped, and too long for the caller's
  scratch buffer, it writes past the end of the buffer allocated for it.
\<close>

theorem cgi_encode_overruns:
  assumes "s \<noteq> []" "\<forall>ch \<in> set s. fst (cgi_enc_char True ch)" "l < 3 * length s"
  shows "cgi_encode_room dflt (Some l) (length s) < snd (cgi_encode_full True s)"
proof -
  have "length (snd (cgi_enc_char True ch)) = 3" if "ch \<in> set s" for ch
    using assms(2) that hexs_less_256[OF code_less[of ch]] by (auto simp: cgi_enc_char_def split: if_splits)
  then have "(\<Sum>c\<leftarrow>s. length (snd (cgi_enc_char True c))) = (\<Sum>c\<leftarrow>s. 3)" by (intro arg_cong[of _ _ sum_list] map_cong) auto
  then have "3 * length s + 1 \<le> snd (cgi_encode_full True s)"
    using cgi_encode_hi[of "[]" True s 0] assms(1,2) by (simp add: cgi_encode_full_def sum_list_triv)
  then show ?thesis using assms(3) by (simp add: cgi_encode_room_def)
qed

theorem cgi_encode_overruns_witness:
  "cgi_encode_room 0 (Some 5) (length ''%&'') < snd (cgi_encode_full True ''%&'')"
  by (rule cgi_encode_overruns) (simp, code_simp, simp)

end
