(* ===== verification/HttpHdr.thy ===== *)
theory HttpHdr
  imports Cgi "HOL-Library.Sublist"
begin

text \<open>
  The lexer of HTTP header lines, \<^verbatim>\<open>http_hdr_t\<close> of \<^verbatim>\<open>src/libahttp/hdr.h\<close> and
  \<^verbatim>\<open>src/libahttp/hdr.C\<close>.  The scratch buffer is the list \<open>hh_scr\<close> of the bytes
  \<open>[buf, pcp)\<close> and the room \<open>hh_endp\<close> up to \<^verbatim>\<open>endp\<close>; a token that is cut by the end of the
  available data stays there, so that the next call goes on with it.  The stream is threaded
  through the operations beside the object.  An out parameter \<^verbatim>\<open>str *\<close> is a \<^typ>\<open>string option\<close>
  in the result, \<open>None\<close> where the operation does not assign it.
\<close>

section \<open>State\<close>

text \<open>
  \<open>hh_curr_match\<close> is the address of the literal \<^verbatim>\<open>force_match\<close> works on and \<open>hh_fmcp\<close> what is
  left of it.  The constructor does not set these two fields.
\<close>

record http_hdr =
  hh_scr :: string
  hh_endp :: nat
  hh_key :: "string option"
  hh_val :: "string option"
  hh_noins :: bool
  hh_scr2 :: nat
  hh_nvers :: nat
  hh_need_lf :: bool
  hh_curr_match :: "nat option"
  hh_fmcp :: string

definition HTTPHDR_DEF_SCRATCH :: nat where
  "HTTPHDR_DEF_SCRATCH = 0x10400"

definition http_hdr_new :: "nat option \<Rightarrow> nat option \<Rightarrow> string \<Rightarrow> http_hdr" where
  "http_hdr_new s cm fm =
     \<lparr>hh_scr = [], hh_endp = (case s of Some n \<Rightarrow> n | None \<Rightarrow> HTTPHDR_DEF_SCRATCH),
      hh_key = None, hh_val = None, hh_noins = False, hh_scr2 = 1024, hh_nvers = 0,
      hh_need_lf = False, hh_curr_match = cm, hh_fmcp = fm\<rparr>"

definition iscookie :: "'a http_hdr_scheme \<Rightarrow> bool" where
  "iscookie h = (case hh_key h of None \<Rightarrow> False
                 | Some k \<Rightarrow> length k = 6 \<and> map tolower k = map tolower ''cookie'')"

text \<open>\<^verbatim>\<open>reset\<close>, which resets the stream too (\<^verbatim>\<open>async_parser_t::reset\<close>).\<close>

definition hdr_reset :: "'a http_hdr_scheme \<Rightarrow> abuf \<Rightarrow> 'a http_hdr_scheme \<times> abuf" where
  "hdr_reset h a =
     (h\<lparr>hh_scr := [], hh_need_lf := False, hh_nvers := 0, hh_noins := False,
        hh_curr_match := None, hh_fmcp := []\<rparr>, abuf_reset a)"

section \<open>Scanning\<close>

text \<open>
  The loop all tokens are read with, \<^verbatim>\<open>for (; pcp < endp && flag; pcp += (flag ? 1 : 0))\<close>: what
  the \<^verbatim>\<open>switch\<close> of the operation does with a character is to store a byte and go on, or to
  leave with a status, pushing the character back or not.
\<close>

datatype scan = Store char | Halt abuf_stat bool

function pcp_loop :: "(abuf_ch \<Rightarrow> scan) \<Rightarrow> nat \<Rightarrow> string \<Rightarrow> abuf_stat \<Rightarrow> abuf_ch \<Rightarrow> abuf
    \<Rightarrow> string \<times> abuf_stat \<times> abuf_ch \<times> abuf" where
  "pcp_loop body endp scr ret ch a =
     (if length scr < endp
      then let (ch', a') = abuf_get a
           in case body ch' of
                Store c \<Rightarrow> pcp_loop body endp (scr @ [c]) ret ch' a'
              | Halt r u \<Rightarrow> (scr, r, ch', if u then abuf_unget a' else a')
      else (scr, ret, ch, a))"
  by pat_completeness auto
termination
  by (relation "measure (\<lambda>(body, endp, scr, ret, ch, a). endp - length scr)") auto

declare pcp_loop.simps [simp del]

fun word_char :: "bool \<Rightarrow> abuf_ch \<Rightarrow> scan" where
  "word_char qms WAITCHAR = Halt ABUF_WAIT False"
| "word_char qms EOFCHAR = Halt ABUF_OK False"
| "word_char qms (CH c) =
     (if c = CHR ''?'' then (if qms then Halt ABUF_OK False else Store c)
      else if c \<in> {SPC, TAB, LF, CR} then Halt ABUF_OK False
      else Store c)"

definition delimit_word :: "bool \<Rightarrow> 'a http_hdr_scheme \<Rightarrow> abuf
    \<Rightarrow> abuf_stat \<times> string option \<times> 'a http_hdr_scheme \<times> abuf" where
  "delimit_word qms h a =
     (let (scr, ret, ch, a1) = pcp_loop (word_char qms) (hh_endp h) (hh_scr h) ABUF_OK WAITCHAR a
      in if ch = EOFCHAR \<and> scr = [] then (ABUF_EOF, None, h\<lparr>hh_scr := scr\<rparr>, a1)
         else if length scr = hh_endp h then (ABUF_OVERFLOW, None, h\<lparr>hh_scr := scr\<rparr>, a1)
         else if ret = ABUF_OK then (ABUF_OK, Some scr, h\<lparr>hh_scr := []\<rparr>, abuf_unget a1)
         else (ret, None, h\<lparr>hh_scr := scr\<rparr>, a1))"

fun val_char :: "abuf_ch \<Rightarrow> scan" where
  "val_char WAITCHAR = Halt ABUF_WAIT False"
| "val_char EOFCHAR = Halt ABUF_EOF False"
| "val_char (CH c) = (if c = CR \<or> c = LF then Halt ABUF_OK True else Store c)"

text \<open>The common end of \<^verbatim>\<open>delimit_val\<close>, \<^verbatim>\<open>delimit\<close> and \<^verbatim>\<open>delimit_key\<close>.\<close>

definition end_token :: "'a http_hdr_scheme \<Rightarrow> string \<times> abuf_stat \<times> abuf_ch \<times> abuf
    \<Rightarrow> abuf_stat \<times> string option \<times> 'a http_hdr_scheme \<times> abuf" where
  "end_token h res =
     (let (scr, ret, ch, a) = res; r = (if length scr = hh_endp h then ABUF_OVERFLOW else ret)
      in if r = ABUF_OK then (r, Some scr, h\<lparr>hh_scr := []\<rparr>, a)
         else (r, None, h\<lparr>hh_scr := scr\<rparr>, a))"

definition delimit_val :: "'a http_hdr_scheme \<Rightarrow> abuf
    \<Rightarrow> abuf_stat \<times> string option \<times> 'a http_hdr_scheme \<times> abuf" where
  "delimit_val h a = end_token h (pcp_loop val_char (hh_endp h) (hh_scr h) ABUF_OK WAITCHAR a)"

definition delimit_status :: "'a http_hdr_scheme \<Rightarrow> abuf
    \<Rightarrow> abuf_stat \<times> string option \<times> 'a http_hdr_scheme \<times> abuf" where
  "delimit_status h a = delimit_val h a"

text \<open>\<^verbatim>\<open>delimit\<close> starts with \<^verbatim>\<open>ABUF_CONTINUE\<close>, which is what a full buffer leaves.\<close>

fun delim_char :: "char \<Rightarrow> bool \<Rightarrow> bool \<Rightarrow> abuf_ch \<Rightarrow> scan" where
  "delim_char stopchar tol gobble WAITCHAR = Halt ABUF_WAIT False"
| "delim_char stopchar tol gobble EOFCHAR = Halt ABUF_EOF False"
| "delim_char stopchar tol gobble (CH c) =
     (if c = stopchar then Halt ABUF_OK (\<not> gobble)
      else if c = LF \<or> c = CR then Halt ABUF_PARSE_ERR True
      else Store (if tol then tolower c else c))"

definition delimit :: "char \<Rightarrow> bool \<Rightarrow> bool \<Rightarrow> 'a http_hdr_scheme \<Rightarrow> abuf
    \<Rightarrow> abuf_stat \<times> string option \<times> 'a http_hdr_scheme \<times> abuf" where
  "delimit stopchar tol gobble h a =
     end_token h (pcp_loop (delim_char stopchar tol gobble) (hh_endp h) (hh_scr h) ABUF_CONTINUE WAITCHAR a)"

fun key_char :: "abuf_ch \<Rightarrow> scan" where
  "key_char WAITCHAR = Halt ABUF_WAIT False"
| "key_char EOFCHAR = Halt ABUF_EOF False"
| "key_char (CH c) =
     (if c = CHR '':'' then Halt ABUF_OK False
      else if c \<in> {SPC, TAB, LF, CR} then Halt ABUF_PARSE_ERR False
      else Store (tolower c))"

definition delimit_key :: "'a http_hdr_scheme \<Rightarrow> abuf
    \<Rightarrow> abuf_stat \<times> string option \<times> 'a http_hdr_scheme \<times> abuf" where
  "delimit_key h a = end_token h (pcp_loop key_char (hh_endp h) (hh_scr h) ABUF_OK WAITCHAR a)"

section \<open>Line ends\<close>

definition eol :: "abuf \<Rightarrow> abuf_stat \<times> abuf" where
  "eol a =
     (let (ch, a') = abuf_peek a
      in (if ch = WAITCHAR then ABUF_WAIT
          else if ch = CH CR \<or> ch = CH LF then ABUF_OK else ABUF_NOMATCH, a'))"

text \<open>
  \<^verbatim>\<open>gobble_crlf\<close>: the loop goes round again only on a carriage return with no other one pending.
\<close>

function gobble_crlf :: "'a http_hdr_scheme \<Rightarrow> abuf \<Rightarrow> abuf_stat \<times> 'a http_hdr_scheme \<times> abuf" where
  "gobble_crlf h a =
     (let (ch, a') = abuf_get a
      in case ch of
           EOFCHAR \<Rightarrow> (ABUF_EOF, h, a')
         | WAITCHAR \<Rightarrow> (ABUF_WAIT, h, a')
         | CH c \<Rightarrow>
             if c = LF then (ABUF_OK, h\<lparr>hh_need_lf := False\<rparr>, a')
             else if c = CR then
               (if hh_need_lf h then (ABUF_PARSE_ERR, h\<lparr>hh_need_lf := False\<rparr>, a')
                else gobble_crlf (h\<lparr>hh_need_lf := True\<rparr>) a')
             else (if hh_need_lf h then (ABUF_PARSE_ERR, h\<lparr>hh_need_lf := False\<rparr>, abuf_unget a')
                   else (ABUF_NOMATCH, h, abuf_unget a')))"
  by pat_completeness auto
termination
  by (relation "measure (\<lambda>(h, a). if hh_need_lf h then 0 else 1)") auto

declare gobble_crlf.simps [simp del]

definition require_crlf :: "'a http_hdr_scheme \<Rightarrow> abuf \<Rightarrow> abuf_stat \<times> 'a http_hdr_scheme \<times> abuf" where
  "require_crlf h a =
     (let (r, h', a') = gobble_crlf h a in (if r = ABUF_NOMATCH then ABUF_PARSE_ERR else r, h', a'))"

section \<open>Matching a literal\<close>

text \<open>
  The loop of \<^verbatim>\<open>force_match\<close> on what is left of the literal.  The end of the stream differs from
  every character, so it is a parse error.  \<open>cp\<close> never is at the end of the literal on entry;
  that would compare with the terminator.
\<close>

fun fm_loop :: "bool \<Rightarrow> string \<Rightarrow> abuf \<Rightarrow> abuf_stat \<times> string \<times> abuf" where
  "fm_loop tol [] a = (ABUF_PARSE_ERR, [], a\<lparr>ab_abort := True\<rparr>)"
| "fm_loop tol (d # ds) a =
     (let (ch, a') = abuf_get a
      in case ch of
           WAITCHAR \<Rightarrow> (ABUF_WAIT, d # ds, a')
         | EOFCHAR \<Rightarrow> (ABUF_PARSE_ERR, d # ds, a')
         | CH c \<Rightarrow>
             if (if tol then tolower c else c) \<noteq> (if tol then tolower d else d)
             then (ABUF_PARSE_ERR, d # ds, a')
             else if ds = [] then (ABUF_OK, [], a')
             else fm_loop tol ds a')"

text \<open>The literal \<open>s\<close> is given with its address \<open>p\<close>, which is what the code compares.\<close>

definition force_match :: "nat \<Rightarrow> string \<Rightarrow> bool \<Rightarrow> 'a http_hdr_scheme \<Rightarrow> abuf
    \<Rightarrow> abuf_stat \<times> 'a http_hdr_scheme \<times> abuf" where
  "force_match p s tol h a =
     (if s = [] then (ABUF_PARSE_ERR, h, a\<lparr>ab_abort := True\<rparr>)
      else
        let cp = (if hh_curr_match h = Some p then hh_fmcp h else s);
            (r, cp', a') = fm_loop tol cp a
        in if r = ABUF_OK \<or> r = ABUF_PARSE_ERR
           then (r, h\<lparr>hh_curr_match := None, hh_fmcp := []\<rparr>, a')
           else (r, h\<lparr>hh_curr_match := Some p, hh_fmcp := cp'\<rparr>, a'))"

section \<open>What a scan does\<close>

text \<open>The bytes a token is made of: those the operation stores.\<close>

definition stores :: "(abuf_ch \<Rightarrow> scan) \<Rightarrow> char \<Rightarrow> bool" where
  "stores body c \<longleftrightarrow> (\<exists>d. body (CH c) = Store d)"

definition stored :: "(abuf_ch \<Rightarrow> scan) \<Rightarrow> char \<Rightarrow> char" where
  "stored body c = (case body (CH c) of Store d \<Rightarrow> d | Halt _ _ \<Rightarrow> c)"

lemma stores_char:
  "stores (word_char qms) c \<longleftrightarrow> c \<notin> {SPC, TAB, LF, CR} \<and> \<not> (qms \<and> c = CHR ''?'')"
  "stores val_char c \<longleftrightarrow> c \<noteq> CR \<and> c \<noteq> LF"
  "stores (delim_char sc tol g) c \<longleftrightarrow> c \<noteq> sc \<and> c \<noteq> LF \<and> c \<noteq> CR"
  "stores key_char c \<longleftrightarrow> c \<noteq> CHR '':'' \<and> c \<notin> {SPC, TAB, LF, CR}"
  by (auto simp: stores_def)

lemma stored_char:
  "stores (word_char qms) c \<Longrightarrow> stored (word_char qms) c = c"
  "stores val_char c \<Longrightarrow> stored val_char c = c"
  "stores (delim_char sc tol g) c \<Longrightarrow> stored (delim_char sc tol g) c = (if tol then tolower c else c)"
  "stores key_char c \<Longrightarrow> stored key_char c = tolower c"
  by (auto simp: stored_def stores_def split: if_splits)

text \<open>
  One lemma for all tokens: a scan takes the longest prefix of storable bytes, as far as there is
  room, and then asks the body about the character that follows.
\<close>

lemma pcp_loop_run:
  assumes "abuf_inv a" and "ab_pending a = w @ rest" and "list_all (stores body) w"
    and "length scr + length w \<le> endp"
  shows "\<exists>ch' a'. pcp_loop body endp scr ret ch a
            = pcp_loop body endp (scr @ map (stored body) w) ret ch' a'
        \<and> (w = [] \<longrightarrow> ch' = ch) \<and> (w \<noteq> [] \<longrightarrow> ch' = CH (last w))
        \<and> abuf_inv a' \<and> ab_pending a' = rest \<and> ab_eos a' = ab_eos a
        \<and> ab_spcs a' = ab_spcs a \<and> ab_lim a' = ab_lim a"
  using assms
proof (induction w arbitrary: scr ch a)
  case Nil
  then show ?case by auto
next
  case (Cons c w)
  then have pend: "ab_pending a = c # (w @ rest)" by simp
  obtain a' where g: "abuf_get a = (CH c, a')" "abuf_inv a'" "ab_pending a' = w @ rest" "ab_eos a' = ab_eos a"
    using Cons.prems(1) pend by (rule abuf_get_CH)
  have st: "body (CH c) = Store (stored body c)"
    using Cons.prems(3) by (auto simp: stores_def stored_def)
  have "pcp_loop body endp scr ret ch a = pcp_loop body endp (scr @ [stored body c]) ret (CH c) a'"
    using Cons.prems(4) g(1) st by (subst pcp_loop.simps) simp
  moreover note Cons.IH [OF g(2,3), of "scr @ [stored body c]" "CH c"]
  ultimately show ?case using Cons.prems(3,4) g abuf_get_frame [OF g(1)] by fastforce
qed

lemma pcp_loop_full:
  "length scr = endp \<Longrightarrow> pcp_loop body endp scr ret ch a = (scr, ret, ch, a)"
  by (subst pcp_loop.simps) simp

lemma pcp_loop_stop:
  assumes "abuf_inv a" and "ab_pending a = c # cs" and "body (CH c) = Halt r u" and "length scr < endp"
  shows "\<exists>a'. pcp_loop body endp scr ret ch a = (scr, r, CH c, a')
     \<and> abuf_inv a' \<and> ab_pending a' = (if u then c # cs else cs) \<and> ab_eos a' = ab_eos a
     \<and> (\<not> u \<longrightarrow> abuf_inv (abuf_unget a') \<and> ab_pending (abuf_unget a') = c # cs)
     \<and> ab_spcs a' = ab_spcs a \<and> ab_lim a' = ab_lim a"
proof -
  obtain a' where g: "abuf_get a = (CH c, a')" "abuf_inv a'" "ab_pending a' = cs" "ab_eos a' = ab_eos a"
    using assms(1,2) by (rule abuf_get_CH)
  show ?thesis
    using assms(3,4) g abuf_unget_char [OF assms(1) g(1)] abuf_get_frame [OF g(1)]
    by (subst pcp_loop.simps) auto
qed

lemma pcp_loop_end:
  assumes "abuf_inv a" and "ab_pending a = []" and "body (ab_eos a) = Halt r False" and "length scr < endp"
  shows "\<exists>a'. pcp_loop body endp scr ret ch a = (scr, r, ab_eos a, a')
     \<and> abuf_inv a' \<and> ab_pending a' = [] \<and> ab_eos a' = ab_eos a
     \<and> ab_spcs a' = ab_spcs a \<and> ab_lim a' = ab_lim a"
proof -
  obtain a' where g: "abuf_get a = (ab_eos a, a')" "abuf_inv a'" "ab_pending a' = []" "ab_eos a' = ab_eos a"
    using assms(1,2) by (rule abuf_get_end)
  show ?thesis
    using assms(3,4) g abuf_get_frame [OF g(1)] by (subst pcp_loop.simps) auto
qed

section \<open>Tokens against a reference lexer\<close>

text \<open>
  The token at the head of the bytes \<open>p\<close>, followed by the control character \<open>e\<close>, when \<open>scr\<close>
  has been read of it before: the status, the bytes of the token, what is left to read.
\<close>

definition token_ref :: "(abuf_ch \<Rightarrow> scan) \<Rightarrow> nat \<Rightarrow> string \<Rightarrow> string \<Rightarrow> abuf_ch
    \<Rightarrow> abuf_stat \<times> string \<times> string" where
  "token_ref body endp scr p e =
     (let w = takeWhile (stores body) p; rest = dropWhile (stores body) p;
          tok = scr @ map (stored body) w
      in if endp \<le> length tok then (ABUF_OVERFLOW, take endp tok, drop (endp - length scr) p)
         else case (case rest of [] \<Rightarrow> body e | c # cs \<Rightarrow> body (CH c)) of
                Halt r u \<Rightarrow> (r, tok, if u then rest else tl rest)
              | Store c \<Rightarrow> (ABUF_OK, tok, rest))"

text \<open>A control character always ends a token, and is not pushed back.\<close>

definition lexes :: "(abuf_ch \<Rightarrow> scan) \<Rightarrow> bool" where
  "lexes body \<longleftrightarrow> (\<exists>r. body EOFCHAR = Halt r False) \<and> body WAITCHAR = Halt ABUF_WAIT False
     \<and> (\<forall>c r u. body (CH c) = Halt r u \<longrightarrow> r \<noteq> ABUF_WAIT)"

lemma lexes_tokens [simp]:
  "lexes val_char" "lexes key_char" "lexes (delim_char sc tol g)" "lexes (word_char qms)"
  by (auto simp: lexes_def split: if_splits)

lemma lexes_eos: "lexes body \<Longrightarrow> \<exists>r. body (ab_eos a) = Halt r False"
  using ab_eos_control [of a] by (auto simp: lexes_def)

lemma pcp_loop_ref:
  assumes inv: "abuf_inv a" and le: "length scr \<le> endp" and lx: "lexes body"
  obtains scr' r ch a' where "pcp_loop body endp scr ret ch0 a = (scr', r, ch, a')"
    "abuf_inv a'" "ab_eos a' = ab_eos a" "ab_spcs a' = ab_spcs a"
    "token_ref body endp scr (ab_pending a) (ab_eos a)
       = (if length scr' = endp then ABUF_OVERFLOW else r, scr', ab_pending a')"
    "length scr' \<le> endp"
proof -
  define w rest where "w = takeWhile (stores body) (ab_pending a)"
    and "rest = dropWhile (stores body) (ab_pending a)"
  have pend: "ab_pending a = w @ rest" and w: "list_all (stores body) w"
    by (auto simp: w_def rest_def list_all_iff dest: set_takeWhileD)
  let ?tok = "scr @ map (stored body) w"
  show thesis
  proof (cases "endp \<le> length ?tok")
    case True
    let ?k = "endp - length scr"
    have k: "length scr + length (take ?k w) = endp" "?k \<le> length w" using True le by auto
    have "ab_pending a = take ?k w @ (drop ?k w @ rest)" "list_all (stores body) (take ?k w)"
      using pend w by (auto simp: list_all_iff dest: in_set_takeD)
    from pcp_loop_run [OF inv this, of scr endp ret ch0] k
    obtain ch' a' where *: "pcp_loop body endp scr ret ch0 a
          = pcp_loop body endp (scr @ map (stored body) (take ?k w)) ret ch' a'"
        "abuf_inv a'" "ab_pending a' = drop ?k w @ rest" "ab_eos a' = ab_eos a" "ab_spcs a' = ab_spcs a"
      by auto
    have dr: "drop ?k (ab_pending a) = ab_pending a'" using *(3) pend k by simp
    show thesis
    proof (rule that)
      show "pcp_loop body endp scr ret ch0 a = (scr @ map (stored body) (take ?k w), ret, ch', a')"
        using * k by (simp add: pcp_loop_full)
      show "token_ref body endp scr (ab_pending a) (ab_eos a)
         = (if length (scr @ map (stored body) (take ?k w)) = endp then ABUF_OVERFLOW else ret,
            scr @ map (stored body) (take ?k w), ab_pending a')"
        using True k le dr by (simp add: token_ref_def Let_def take_map flip: w_def rest_def)
    qed (use * k in auto)
  next
    case False
    then have lt: "length ?tok < endp" by simp
    from pcp_loop_run [OF inv pend w, of scr endp ret ch0] lt
    obtain ch' a' where *: "pcp_loop body endp scr ret ch0 a = pcp_loop body endp ?tok ret ch' a'"
        "abuf_inv a'" "ab_pending a' = rest" "ab_eos a' = ab_eos a" "ab_spcs a' = ab_spcs a"
      by auto
    show thesis
    proof (cases rest)
      case Nil
      obtain r where r: "body (ab_eos a') = Halt r False" using lexes_eos [OF lx] by blast
      with pcp_loop_end [where body = body, OF *(2) _ r lt, of ret ch'] *(3) Nil
      obtain a'' where "pcp_loop body endp ?tok ret ch' a' = (?tok, r, ab_eos a', a'')" "abuf_inv a''"
          "ab_pending a'' = []" "ab_eos a'' = ab_eos a'" "ab_spcs a'' = ab_spcs a'" by auto
      then show thesis using that * lt r Nil
        by (simp add: token_ref_def Let_def flip: w_def rest_def)
    next
      case (Cons c cs)
      then have "\<not> stores body c" using hd_dropWhile [of "stores body" "ab_pending a"] by (simp add: rest_def)
      then obtain r u where r: "body (CH c) = Halt r u" by (cases "body (CH c)") (auto simp: stores_def)
      with pcp_loop_stop [where body = body and r = r and u = u, OF *(2) _ r lt, of cs ret ch'] *(3) Cons
      obtain a'' where "pcp_loop body endp ?tok ret ch' a' = (?tok, r, CH c, a'')" "abuf_inv a''"
          "ab_pending a'' = (if u then c # cs else cs)" "ab_eos a'' = ab_eos a'" "ab_spcs a'' = ab_spcs a'" by auto
      then show thesis using that * lt r Cons
        by (simp add: token_ref_def Let_def flip: w_def rest_def)
    qed
  qed
qed

lemma end_token_ref:
  assumes "abuf_inv a" and "length (hh_scr h) \<le> hh_endp h" and "lexes body"
    and "token_ref body (hh_endp h) (hh_scr h) (ab_pending a) (ab_eos a) = (r, tok, rest)"
  obtains a' where
    "end_token h (pcp_loop body (hh_endp h) (hh_scr h) ret ch a)
      = (r, if r = ABUF_OK then Some tok else None, h\<lparr>hh_scr := if r = ABUF_OK then [] else tok\<rparr>, a')"
    "abuf_inv a'" "ab_pending a' = rest" "ab_eos a' = ab_eos a" "ab_spcs a' = ab_spcs a" "length tok \<le> hh_endp h"
proof -
  obtain scr' r' ch' a' where "pcp_loop body (hh_endp h) (hh_scr h) ret ch a = (scr', r', ch', a')"
    "abuf_inv a'" "ab_eos a' = ab_eos a" "ab_spcs a' = ab_spcs a"
    "token_ref body (hh_endp h) (hh_scr h) (ab_pending a) (ab_eos a)
       = (if length scr' = hh_endp h then ABUF_OVERFLOW else r', scr', ab_pending a')" "length scr' \<le> hh_endp h"
    using assms(1-3) by (rule pcp_loop_ref [where ret = ret and ?ch0.0 = ch])
  then show thesis using that [of a'] assms(4) by (auto simp: end_token_def Let_def split: if_splits)
qed

text \<open>A token cut by the end of the data is the token of the whole.\<close>

lemma token_ref_resume:
  assumes lx: "lexes body" and w: "token_ref body endp scr p WAITCHAR = (ABUF_WAIT, scr', rest)"
    and le: "length scr \<le> endp"
  shows "rest = [] \<and> token_ref body endp scr' q e = token_ref body endp scr (p @ q) e"
proof -
  let ?w = "takeWhile (stores body) p"
  have nf: "\<not> endp \<le> length (scr @ map (stored body) ?w)"
    using w by (auto simp: token_ref_def Let_def split: if_splits)
  have all: "dropWhile (stores body) p = []"
  proof (rule ccontr)
    assume "dropWhile (stores body) p \<noteq> []"
    then obtain c cs where d: "dropWhile (stores body) p = c # cs" by (cases "dropWhile (stores body) p") auto
    then have "\<not> stores body c" using hd_dropWhile [of "stores body" p] by simp
    then show False using w nf d lx
      by (auto simp: token_ref_def Let_def lexes_def stores_def split: scan.splits)
  qed
  then have p: "\<forall>c\<in>set p. stores body c" by (simp add: dropWhile_eq_Nil_conv)
  then have tw: "?w = p" by simp
  have s': "scr' = scr @ map (stored body) p" "rest = []"
    using w nf all lx tw by (auto simp: token_ref_def Let_def lexes_def)
  show ?thesis using nf p tw s'
    by (auto simp: token_ref_def Let_def takeWhile_append2 dropWhile_append2 algebra_simps split: scan.split)
qed

section \<open>Line ends and literals\<close>

fun crlf_ref :: "bool \<Rightarrow> string \<Rightarrow> abuf_ch \<Rightarrow> abuf_stat \<times> bool \<times> string" where
  "crlf_ref lf [] e = (if e = EOFCHAR then ABUF_EOF else ABUF_WAIT, lf, [])"
| "crlf_ref lf (c # cs) e =
     (if c = LF then (ABUF_OK, False, cs)
      else if c = CR then (if lf then (ABUF_PARSE_ERR, False, cs) else crlf_ref True cs e)
      else (if lf then ABUF_PARSE_ERR else ABUF_NOMATCH, False, c # cs))"

lemma gobble_crlf_ref:
  assumes "abuf_inv a" and "crlf_ref (hh_need_lf h) (ab_pending a) (ab_eos a) = (r, lf, rest)"
  shows "\<exists>a'. gobble_crlf h a = (r, h\<lparr>hh_need_lf := lf\<rparr>, a') \<and> abuf_inv a' \<and> ab_pending a' = rest
     \<and> ab_eos a' = ab_eos a \<and> ab_spcs a' = ab_spcs a"
  using assms
proof (induction "ab_pending a" arbitrary: a h)
  case Nil
  obtain a' where g: "abuf_get a = (ab_eos a, a')" "abuf_inv a'" "ab_pending a' = []" "ab_eos a' = ab_eos a"
    using Nil.prems(1) Nil.hyps [symmetric] by (rule abuf_get_end)
  then show ?case using Nil ab_eos_control [of a] abuf_get_frame [OF g(1)]
    by (auto simp: gobble_crlf.simps [of h])
next
  case (Cons c cs)
  obtain a' where g: "abuf_get a = (CH c, a')" "abuf_inv a'" "ab_pending a' = cs" "ab_eos a' = ab_eos a"
    using Cons.prems(1) Cons.hyps(2) [symmetric] by (rule abuf_get_CH)
  note fr = abuf_unget_char [OF Cons.prems(1) g(1)] abuf_get_frame [OF g(1)]
  show ?case
  proof (cases "c = CR \<and> \<not> hh_need_lf h")
    case True
    with Cons.hyps(1) [of a' "h\<lparr>hh_need_lf := True\<rparr>"] Cons.hyps(2) Cons.prems g fr
    show ?thesis by (auto simp: gobble_crlf.simps [of h] simp flip: Cons.hyps(2))
  next
    case False
    with Cons.prems g fr show ?thesis
      by (auto simp: gobble_crlf.simps [of h] simp flip: Cons.hyps(2) split: if_splits)
  qed
qed

text \<open>Matching a literal, by prefixes up to case.\<close>

definition fold_case :: "bool \<Rightarrow> string \<Rightarrow> string" where
  "fold_case tol s = (if tol then map tolower s else s)"

lemma fold_case_simps [simp]:
  "fold_case tol [] = []"
  "fold_case tol (c # s) = (if tol then tolower c else c) # fold_case tol s"
  "length (fold_case tol s) = length s"
  by (simp_all add: fold_case_def)

definition match_ref :: "bool \<Rightarrow> string \<Rightarrow> string \<Rightarrow> abuf_ch \<Rightarrow> abuf_stat" where
  "match_ref tol s p e =
     (if prefix (fold_case tol s) (fold_case tol p) then ABUF_OK
      else if prefix (fold_case tol p) (fold_case tol s) \<and> e = WAITCHAR then ABUF_WAIT
      else ABUF_PARSE_ERR)"

lemma fm_loop_ref:
  assumes "abuf_inv a" and "s \<noteq> []"
  shows "\<exists>s' a'. fm_loop tol s a = (match_ref tol s (ab_pending a) (ab_eos a), s', a') \<and> abuf_inv a'
     \<and> ab_eos a' = ab_eos a \<and> ab_spcs a' = ab_spcs a
     \<and> (match_ref tol s (ab_pending a) (ab_eos a) = ABUF_OK \<longrightarrow> ab_pending a' = drop (length s) (ab_pending a))
     \<and> (match_ref tol s (ab_pending a) (ab_eos a) = ABUF_WAIT \<longrightarrow>
          ab_pending a' = [] \<and> s' = drop (length (ab_pending a)) s \<and> s' \<noteq> [])"
  using assms
proof (induction s arbitrary: a)
  case (Cons d ds)
  show ?case
  proof (cases "ab_pending a")
    case Nil
    with Cons.prems(1) obtain a' where g: "abuf_get a = (ab_eos a, a')" "abuf_inv a'" "ab_pending a' = []"
      "ab_eos a' = ab_eos a" by (rule abuf_get_end)
    then show ?thesis using Nil ab_eos_control [of a] abuf_get_frame [OF g(1)]
      by (auto simp: match_ref_def)
  next
    case (Cons c cs)
    with Cons.prems(1) obtain a' where g: "abuf_get a = (CH c, a')" "abuf_inv a'" "ab_pending a' = cs"
      "ab_eos a' = ab_eos a" by (rule abuf_get_CH)
    show ?thesis
    proof (cases "ds = []")
      case True
      then show ?thesis using g Cons abuf_get_frame [OF g(1)] by (auto simp: match_ref_def)
    next
      case False
      have IH: "\<exists>s' a''. fm_loop tol ds a' = (match_ref tol ds cs (ab_eos a'), s', a'') \<and> abuf_inv a''
         \<and> ab_eos a'' = ab_eos a' \<and> ab_spcs a'' = ab_spcs a'
         \<and> (match_ref tol ds cs (ab_eos a') = ABUF_OK \<longrightarrow> ab_pending a'' = drop (length ds) cs)
         \<and> (match_ref tol ds cs (ab_eos a') = ABUF_WAIT \<longrightarrow>
              ab_pending a'' = [] \<and> s' = drop (length cs) ds \<and> s' \<noteq> [])"
        using Cons.IH [OF g(2) False] g(3) by simp
      have m: "match_ref tol (d # ds) (c # cs) e =
          (if (if tol then tolower c else c) \<noteq> (if tol then tolower d else d) then ABUF_PARSE_ERR
           else match_ref tol ds cs e)" for e
        by (auto simp: match_ref_def)
      show ?thesis using IH False g Cons abuf_get_frame [OF g(1)] by (auto simp: m)
    qed
  qed
qed simp

text \<open>The state of a match: none, or a proper suffix of the literal is still to come.\<close>

definition match_left :: "nat \<Rightarrow> string \<Rightarrow> 'a http_hdr_scheme \<Rightarrow> string" where
  "match_left p s h = (if hh_curr_match h = Some p then hh_fmcp h else s)"

lemma force_match_ref:
  assumes "abuf_inv a" and "s \<noteq> []" and "match_left p s h \<noteq> []"
  shows "\<exists>h' a'. force_match p s tol h a
       = (match_ref tol (match_left p s h) (ab_pending a) (ab_eos a), h', a') \<and> abuf_inv a'
     \<and> (\<exists>cm fm. h' = h\<lparr>hh_curr_match := cm, hh_fmcp := fm\<rparr>) \<and> ab_eos a' = ab_eos a \<and> ab_spcs a' = ab_spcs a
     \<and> (match_ref tol (match_left p s h) (ab_pending a) (ab_eos a) = ABUF_OK \<longrightarrow>
          ab_pending a' = drop (length (match_left p s h)) (ab_pending a)
        \<and> h' = h\<lparr>hh_curr_match := None, hh_fmcp := []\<rparr>)
     \<and> (match_ref tol (match_left p s h) (ab_pending a) (ab_eos a) = ABUF_WAIT \<longrightarrow>
          ab_pending a' = [] \<and> match_left p s h' = drop (length (ab_pending a)) (match_left p s h)
        \<and> match_left p s h' \<noteq> [])"
proof -
  have st: "match_ref tol s' q e \<in> {ABUF_OK, ABUF_WAIT, ABUF_PARSE_ERR}" for s' q e
    by (simp add: match_ref_def)
  obtain s' a' where l: "fm_loop tol (match_left p s h) a
        = (match_ref tol (match_left p s h) (ab_pending a) (ab_eos a), s', a')" "abuf_inv a'"
      "ab_eos a' = ab_eos a" "ab_spcs a' = ab_spcs a"
      "match_ref tol (match_left p s h) (ab_pending a) (ab_eos a) = ABUF_OK \<longrightarrow>
        ab_pending a' = drop (length (match_left p s h)) (ab_pending a)"
      "match_ref tol (match_left p s h) (ab_pending a) (ab_eos a) = ABUF_WAIT \<longrightarrow>
          ab_pending a' = [] \<and> s' = drop (length (ab_pending a)) (match_left p s h) \<and> s' \<noteq> []"
    using fm_loop_ref [OF assms(1,3)] by blast
  show ?thesis
    using l assms(2) st [of "match_left p s h" "ab_pending a" "ab_eos a"]
    by (auto simp: force_match_def match_left_def Let_def)
qed

section \<open>Properties\<close>

lemma end_token_chunks:
  assumes inv: "abuf_inv a" "abuf_inv a2" "abuf_inv b" and le: "length (hh_scr h) \<le> hh_endp h"
    and lx: "lexes body" and e: "ab_eos a = WAITCHAR"
    and w: "end_token h (pcp_loop body (hh_endp h) (hh_scr h) ret ch a) = (ABUF_WAIT, k, h1, a1)"
    and p: "ab_pending b = ab_pending a @ ab_pending a2" "ab_eos b = ab_eos a2"
  shows "\<exists>r k' h' a2' b'.
      end_token h1 (pcp_loop body (hh_endp h1) (hh_scr h1) ret ch a2) = (r, k', h', a2')
    \<and> end_token h (pcp_loop body (hh_endp h) (hh_scr h) ret ch b) = (r, k', h', b')
    \<and> ab_pending a2' = ab_pending b' \<and> ab_pending a1 = []"
proof -
  obtain r tok rest where t: "token_ref body (hh_endp h) (hh_scr h) (ab_pending a) (ab_eos a) = (r, tok, rest)"
    by (metis prod_cases3)
  obtain a' where a': "end_token h (pcp_loop body (hh_endp h) (hh_scr h) ret ch a)
      = (r, if r = ABUF_OK then Some tok else None, h\<lparr>hh_scr := if r = ABUF_OK then [] else tok\<rparr>, a')"
    "ab_pending a' = rest" "length tok \<le> hh_endp h"
    using inv(1) le lx t by (rule end_token_ref)
  with w have h1: "r = ABUF_WAIT" "h1 = h\<lparr>hh_scr := tok\<rparr>" "a1 = a'" by (auto split: if_splits)
  note res = token_ref_resume [OF lx _ le, of "ab_pending a" tok rest "ab_pending a2" "ab_eos a2"]
  obtain r2 tok2 rest2 where t2: "token_ref body (hh_endp h1) (hh_scr h1) (ab_pending a2) (ab_eos a2) = (r2, tok2, rest2)"
    by (metis prod_cases3)
  have le1: "length (hh_scr h1) \<le> hh_endp h1" using h1 a' by simp
  obtain a2' where a2: "end_token h1 (pcp_loop body (hh_endp h1) (hh_scr h1) ret ch a2)
      = (r2, if r2 = ABUF_OK then Some tok2 else None, h1\<lparr>hh_scr := if r2 = ABUF_OK then [] else tok2\<rparr>, a2')"
    "ab_pending a2' = rest2"
    using inv(2) le1 lx t2 by (rule end_token_ref)
  have tb: "token_ref body (hh_endp h) (hh_scr h) (ab_pending b) (ab_eos b) = (r2, tok2, rest2)"
    using res t e h1 t2 p by simp
  obtain b' where b: "end_token h (pcp_loop body (hh_endp h) (hh_scr h) ret ch b)
      = (r2, if r2 = ABUF_OK then Some tok2 else None, h\<lparr>hh_scr := if r2 = ABUF_OK then [] else tok2\<rparr>, b')"
    "ab_pending b' = rest2"
    using inv(3) le lx tb by (rule end_token_ref)
  show ?thesis using a2 b h1 a' res t e by simp
qed

text \<open>
  C33.  A header name may arrive in any number of pieces: when \<open>delimit_key\<close> has to wait, what it
  has read stays in the scratch buffer, and the call after more data arrived gives the status,
  the name, the parser state and the stream position that one call on the whole data gives.
\<close>
theorem delimit_key_chunks:
  assumes "abuf_inv a" "abuf_inv a2" "abuf_inv b" and "length (hh_scr h) \<le> hh_endp h"
    and "ab_eos a = WAITCHAR" and "delimit_key h a = (ABUF_WAIT, k, h1, a1)"
    and "ab_pending b = ab_pending a @ ab_pending a2" and "ab_eos b = ab_eos a2"
  shows "\<exists>r k' h' a2' b'. delimit_key h1 a2 = (r, k', h', a2') \<and> delimit_key h b = (r, k', h', b')
     \<and> ab_pending a2' = ab_pending b' \<and> ab_pending a1 = []"
  using assms unfolding delimit_key_def by (intro end_token_chunks) simp_all

text \<open>A stream on an open connection that holds \<open>s\<close>, and one whose peer has closed it.\<close>

definition con_with :: "string \<Rightarrow> abuf" where
  "con_with s = abuf_feed s (abuf_on_con 64)"

lemma con_with_laws:
  assumes "s \<noteq> []" and "length s \<le> 64"
  shows "abuf_inv (con_with s)" "ab_pending (con_with s) = s" "ab_eos (con_with s) = WAITCHAR"
proof -
  have i: "abuf_inv (abuf_on_con 64)" "open_con (abuf_on_con 64)" "ab_pending (abuf_on_con 64) = []"
    "src_room (ab_src (abuf_on_con 64)) = 64"
    by (simp_all add: abuf_on_con_init)
       (simp add: abuf_on_con_def abuf_new_def abuf_con_new_def suiolite_new_def SUIOLITE_MAX_BUFLEN_def
          capacity_def resid_def)
  note f = abuf_feed_law [OF i(1,2) assms(1)]
  show "abuf_inv (con_with s)" using f(1) by (simp add: con_with_def)
  show "ab_pending (con_with s) = s" using f(3) i assms by (simp add: con_with_def)
  show "ab_eos (con_with s) = WAITCHAR" 
    using f(2) by (auto simp: con_with_def open_con_def ab_eos_def ab_end_def abuf_feed_def abuf_can_read_def)
qed

definition hdr_demo :: http_hdr where
  "hdr_demo = http_hdr_new None None []"

theorem delimit_key_chunks_witness:
  "\<exists>h1 a1. delimit_key hdr_demo (con_with ''Ho'') = (ABUF_WAIT, None, h1, a1)
    \<and> (\<exists>r k' h' a2' b'. delimit_key h1 (abuf_on_str ''st: x'') = (r, k', h', a2')
         \<and> delimit_key hdr_demo (abuf_on_str ''Host: x'') = (r, k', h', b')
         \<and> ab_pending a2' = ab_pending b' \<and> ab_pending a1 = [])"
proof -
  have d: "length (hh_scr hdr_demo) \<le> hh_endp hdr_demo" by (simp add: hdr_demo_def http_hdr_new_def)
  have lo: "tolower CHR ''H'' = CHR ''h''" "tolower CHR ''o'' = CHR ''o''" by code_simp+
  have t: "token_ref key_char (hh_endp hdr_demo) (hh_scr hdr_demo) ''Ho'' WAITCHAR = (ABUF_WAIT, ''ho'', [])"
    by (simp add: token_ref_def hdr_demo_def http_hdr_new_def HTTPHDR_DEF_SCRATCH_def stores_char stored_def lo)
  note cw = con_with_laws [of "''Ho''", simplified]
  have t': "token_ref key_char (hh_endp hdr_demo) (hh_scr hdr_demo) (ab_pending (con_with ''Ho'')) (ab_eos (con_with ''Ho''))
      = (ABUF_WAIT, ''ho'', [])" by (simp only: cw t)
  obtain a1 where w: "delimit_key hdr_demo (con_with ''Ho'') = (ABUF_WAIT, None, hdr_demo\<lparr>hh_scr := ''ho''\<rparr>, a1)"
    using cw(1) d lexes_tokens(2) t'
    by (rule end_token_ref) (simp add: delimit_key_def)
  show ?thesis
    using delimit_key_chunks [OF cw(1) abuf_on_str_init(1) [of "''st: x''"] abuf_on_str_init(1) [of "''Host: x''"]
        d cw(3) w] w by (simp add: cw abuf_on_str_init)
qed

lemma fold_case_append [simp]: "fold_case tol (u @ v) = fold_case tol u @ fold_case tol v"
  by (simp add: fold_case_def)

lemma fold_case_drop: "fold_case tol (drop n s) = drop n (fold_case tol s)"
  by (simp add: fold_case_def drop_map)

lemma match_ref_chunks:
  assumes "prefix (fold_case tol p) (fold_case tol s)"
  shows "match_ref tol (drop (length p) s) q e = match_ref tol s (p @ q) e"
proof -
  obtain u where u: "fold_case tol s = fold_case tol p @ u" using assms by (auto simp: prefix_def)
  then have "fold_case tol (drop (length p) s) = u"
    by (simp add: fold_case_drop append_eq_conv_conj [symmetric])
  then show ?thesis using u by (simp add: match_ref_def)
qed

lemma match_ref_OK:
  "match_ref tol s p e = ABUF_OK \<longleftrightarrow> (\<exists>w rest. p = w @ rest \<and> fold_case tol w = fold_case tol s)"
proof -
  have "prefix (fold_case tol s) (fold_case tol p) \<longleftrightarrow> (\<exists>w rest. p = w @ rest \<and> fold_case tol w = fold_case tol s)"
  proof
    assume "prefix (fold_case tol s) (fold_case tol p)"
    then have "take (length s) (fold_case tol p) = fold_case tol s"
      by (auto simp: prefix_def)
    then have "fold_case tol (take (length s) p) = fold_case tol s"
      by (simp add: fold_case_def take_map split: if_splits)
    then show "\<exists>w rest. p = w @ rest \<and> fold_case tol w = fold_case tol s"
      by (metis append_take_drop_id)
  qed (auto simp: prefix_def) 
  then show ?thesis by (simp add: match_ref_def)
qed

text \<open>
  \<open>force_match\<close> is a resumable comparison: a first call that runs out of data and a second
  one on the rest give the verdict of one call on the whole, and leave the stream at the same place
  after a match.  Case is ignored when asked to.
\<close>
theorem force_match_chunks:
  assumes "abuf_inv a" "abuf_inv a2" "abuf_inv b" and "s \<noteq> []" and "hh_curr_match h \<noteq> Some p"
    and "ab_eos a = WAITCHAR" and "force_match p s tol h a = (ABUF_WAIT, h1, a1)"
    and "ab_pending b = ab_pending a @ ab_pending a2" and "ab_eos b = ab_eos a2"
  shows "\<exists>r h2 hb a2' b'. force_match p s tol h1 a2 = (r, h2, a2') \<and> force_match p s tol h b = (r, hb, b')
     \<and> (r = ABUF_OK \<longrightarrow> ab_pending a2' = ab_pending b' \<and> h2 = h\<lparr>hh_curr_match := None, hh_fmcp := []\<rparr> \<and> hb = h2)
     \<and> (r = ABUF_OK \<longleftrightarrow> (\<exists>w rest. ab_pending b = w @ rest \<and> fold_case tol w = fold_case tol s))"
proof -
  let ?p = "ab_pending a" and ?q = "ab_pending a2"
  have l: "match_left p s h = s" using assms(5) by (simp add: match_left_def)
  note f = force_match_ref [OF assms(1,4), of p h tol, unfolded l assms(6)]
  have w: "match_ref tol s ?p WAITCHAR = ABUF_WAIT" "match_left p s h1 = drop (length ?p) s"
    "match_left p s h1 \<noteq> []" and h1: "\<exists>cm fm. h1 = h\<lparr>hh_curr_match := cm, hh_fmcp := fm\<rparr>"
    using f assms(4,7) by auto
  have pre: "prefix (fold_case tol ?p) (fold_case tol s)" using w(1) by (auto simp: match_ref_def split: if_splits)
  let ?m = "match_ref tol s (?p @ ?q) (ab_eos a2)"
  have m: "match_ref tol (drop (length ?p) s) ?q (ab_eos a2) = ?m" using pre by (rule match_ref_chunks)
  have le: "length ?p \<le> length s" using pre by (metis fold_case_simps(3) prefix_length_le)
  obtain h2 a2' where 2: "force_match p s tol h1 a2 = (?m, h2, a2')"
      "?m = ABUF_OK \<longrightarrow> ab_pending a2' = drop (length s - length ?p) ?q \<and> h2 = h1\<lparr>hh_curr_match := None, hh_fmcp := []\<rparr>"
    using force_match_ref [OF assms(2,4) w(3), of tol] by (auto simp: w(2) m)
  obtain hb b' where b: "force_match p s tol h b = (?m, hb, b')"
      "?m = ABUF_OK \<longrightarrow> ab_pending b' = drop (length s) (?p @ ?q) \<and> hb = h\<lparr>hh_curr_match := None, hh_fmcp := []\<rparr>"
    using force_match_ref [OF assms(3,4), of p h tol] assms(4) by (auto simp: l assms(8,9))
  show ?thesis
    using 2 b h1 le by (auto simp: assms(8) match_ref_OK [of tol s "?p @ ?q"])
qed

theorem force_match_chunks_witness:
  "\<exists>h1 a1. force_match 7 ''name='' True hdr_demo (con_with ''NA'') = (ABUF_WAIT, h1, a1)
    \<and> (\<exists>h2 a2' b'. force_match 7 ''name='' True h1 (abuf_on_str ''me=v'') = (ABUF_OK, h2, a2')
         \<and> force_match 7 ''name='' True hdr_demo (abuf_on_str ''NAme=v'') = (ABUF_OK, h2, b')
         \<and> ab_pending a2' = ab_pending b')"
proof -
  note cw = con_with_laws [of "''NA''", simplified]
  have l: "match_left 7 ''name='' hdr_demo = ''name=''" "hh_curr_match hdr_demo \<noteq> Some 7"
    by (simp_all add: match_left_def hdr_demo_def http_hdr_new_def)
  have m: "match_ref True ''name='' ''NA'' WAITCHAR = ABUF_WAIT" by code_simp
  obtain h1 a1 where w: "force_match 7 ''name='' True hdr_demo (con_with ''NA'') = (ABUF_WAIT, h1, a1)"
    using force_match_ref [OF cw(1), of "''name=''" 7 hdr_demo True] by (auto simp: l cw m)
  have t: "fold_case True ''NAme='' = fold_case True ''name=''" by code_simp
  have ok: "\<exists>w rest. ''NAme=v'' = w @ rest \<and> fold_case True w = fold_case True ''name=''"
    using t by (intro exI [of _ "''NAme=''"] exI [of _ "''v''"]) simp
  show ?thesis
    using force_match_chunks [OF cw(1) abuf_on_str_init(1) [of "''me=v''"] abuf_on_str_init(1) [of "''NAme=v''"]
        _ l(2) cw(3) w] w ok by (auto simp: cw abuf_on_str_init)
qed

end
