(* ===== verification/InHdr.thy ===== *)
theory InHdr
  imports HttpHdr
begin

text \<open>
  The parser of HTTP request headers, \<^verbatim>\<open>http_inhdr_t\<close> of \<^verbatim>\<open>src/libahttp/inhdr.h\<close> and
  \<^verbatim>\<open>src/libahttp/inhdr.C\<close>: a state machine over the lexer of theory \<open>HttpHdr\<close> that hands the query
  string and the cookies to two form parsers (theory \<open>Cgi\<close>) on the same stream.  \<open>ih_step\<close> is
  one round of the loop of \<^verbatim>\<open>parse_guts\<close>, \<open>ih_loop\<close> the loop with the nested parses, and
  \<open>ih_guts\<close> what an arriving chunk runs: the nested parser while one is active (\<open>ih_sub\<close>), the loop
  otherwise.  A result carries the status given to \<^verbatim>\<open>finish_parse\<close>, or none while the parser waits.
\<close>

section \<open>Methods\<close>

datatype http_method =
    HTTP_MTHD_NONE | HTTP_MTHD_POST | HTTP_MTHD_PUT | HTTP_MTHD_DELETE
  | HTTP_MTHD_GET | HTTP_MTHD_HEAD | HTTP_MTHD_OPTIONS

datatype post_method = POST_MTHD_NONE | POST_MTHD_URLENCODED | POST_MTHD_MULTIPART_FORM

definition methodmap :: "(string \<times> http_method) list" where
  "methodmap =
     [(''GET'', HTTP_MTHD_GET), (''POST'', HTTP_MTHD_POST), (''PUT'', HTTP_MTHD_PUT),
      (''DELETE'', HTTP_MTHD_DELETE), (''HEAD'', HTTP_MTHD_HEAD), (''OPTIONS'', HTTP_MTHD_OPTIONS)]"

definition rev_methodmap :: "(http_method \<times> string) list" where
  "rev_methodmap =
     [(HTTP_MTHD_GET, ''GET''), (HTTP_MTHD_POST, ''POST''), (HTTP_MTHD_PUT, ''PUT''),
      (HTTP_MTHD_DELETE, ''DELETE''), (HTTP_MTHD_HEAD, ''HEAD''), (HTTP_MTHD_OPTIONS, ''OPTIONS'')]"

definition method_lookup :: "string \<Rightarrow> http_method" where
  "method_lookup s = (case map_of methodmap s of None \<Rightarrow> HTTP_MTHD_NONE | Some v \<Rightarrow> v)"

definition method_name :: "http_method \<Rightarrow> string option" where
  "method_name m = map_of rev_methodmap m"

definition post_methodmap :: "(string \<times> post_method) list" where
  "post_methodmap =
     [(''application/x-www-form-urlencoded'', POST_MTHD_URLENCODED),
      (''multipart/form-data'', POST_MTHD_MULTIPART_FORM)]"

section \<open>State\<close>

datatype inhdrst =
    INHDRST_START | INHDRST_SPC1 | INHDRST_TARGET | INHDRST_URIDAT | INHDRST_SPC2
  | INHDRST_OPTPARAM | INHDRST_EOL1 | INHDRST_KEY | INHDRST_SPC3 | INHDRST_VALUE
  | INHDRST_EOL2A | INHDRST_EOL2B | INHDRST_END

text \<open>\<^verbatim>\<open>INC_STATE\<close>; the value after the last state is not an enumerator.\<close>

fun inc_state :: "inhdrst \<Rightarrow> inhdrst" where
  "inc_state INHDRST_START = INHDRST_SPC1"
| "inc_state INHDRST_SPC1 = INHDRST_TARGET"
| "inc_state INHDRST_TARGET = INHDRST_URIDAT"
| "inc_state INHDRST_URIDAT = INHDRST_SPC2"
| "inc_state INHDRST_SPC2 = INHDRST_OPTPARAM"
| "inc_state INHDRST_OPTPARAM = INHDRST_EOL1"
| "inc_state INHDRST_EOL1 = INHDRST_KEY"
| "inc_state INHDRST_KEY = INHDRST_SPC3"
| "inc_state INHDRST_SPC3 = INHDRST_VALUE"
| "inc_state INHDRST_VALUE = INHDRST_EOL2A"
| "inc_state INHDRST_EOL2A = INHDRST_EOL2B"
| "inc_state INHDRST_EOL2B = INHDRST_END"
| "inc_state INHDRST_END = INHDRST_END"

datatype http_conn_mode = HTTP_CONN_NONE | HTTP_CONN_CLOSED | HTTP_CONN_KEEPALIVE

text \<open>A nested form parser: the object and the flags of its own \<^verbatim>\<open>async_parser_t\<close>.\<close>

record subparser =
  sp_cgi :: cgi
  sp_parsing :: bool
  sp_dataready :: bool

datatype sub = Sub_url | Sub_cookie

record http_inhdr = http_hdr +
  ih_tab :: pairtab
  ih_state :: inhdrst
  ih_tmthd :: "string option"
  ih_target :: "string option"
  ih_vers :: "string option"
  ih_line1 :: "string option"
  ih_mthd :: http_method
  ih_contlen :: int
  ih_conn_mode :: http_conn_mode
  ih_reqno :: nat
  ih_pipeline_eof_ok :: bool
  ih_parse_qs :: bool
  ih_url :: "subparser option"
  ih_cookie :: "subparser option"
  ih_sub :: "sub option"
  ih_xss :: xss_state

record inhdr_conf =
  ic_cgi :: ok_conf
  ic_parse_cookies :: bool
  ic_buflen_sml :: nat

text \<open>\<^verbatim>\<open>mthd\<close> is not set by the constructor (\<open>m0\<close>); the table of the headers has no filter.\<close>

definition inhdr_new :: "bool \<Rightarrow> nat option \<Rightarrow> nat option \<Rightarrow> string \<Rightarrow> http_method \<Rightarrow> xss_state \<Rightarrow> http_inhdr" where
  "inhdr_new pqs s cm fm m0 xs =
     http_hdr.extend (http_hdr_new s cm fm)
       \<lparr>ih_tab = pairtab_new False, ih_state = INHDRST_START, ih_tmthd = None, ih_target = None,
        ih_vers = None, ih_line1 = None, ih_mthd = m0, ih_contlen = - 1, ih_conn_mode = HTTP_CONN_NONE,
        ih_reqno = 0, ih_pipeline_eof_ok = False, ih_parse_qs = pqs, ih_url = None, ih_cookie = None,
        ih_sub = None, ih_xss = xs\<rparr>"

section \<open>Accessors\<close>

definition get_line1 :: "http_inhdr \<Rightarrow> string option" where
  "get_line1 h = ih_line1 h"

definition get_connection :: "http_inhdr \<Rightarrow> string option" where
  "get_connection h = pt_lookup ''connection'' (ih_tab h)"

definition get_referrer :: "bool \<Rightarrow> http_inhdr \<Rightarrow> string option" where
  "get_referrer null_ok h =
     (case pt_lookup ''referer'' (ih_tab h) of Some v \<Rightarrow> Some v | None \<Rightarrow> if null_ok then None else Some [])"

definition get_user_agent :: "bool \<Rightarrow> http_inhdr \<Rightarrow> string option" where
  "get_user_agent null_ok h =
     (case pt_lookup ''user-agent'' (ih_tab h) of Some v \<Rightarrow> Some v | None \<Rightarrow> if null_ok then None else Some [])"

text \<open>
  The regular expressions are an argument: \<open>gzip\<close> and \<open>netscape4\<close> say whether the expressions of the
  same name match somewhere in a string, \<open>chrome\<close> likewise, and \<open>safari\<close> returns the version
  captured, as \<^verbatim>\<open>convertint\<close> reads it.
\<close>

definition takes_gzip :: "(string \<Rightarrow> bool) \<Rightarrow> (string \<Rightarrow> bool) \<Rightarrow> http_inhdr \<Rightarrow> bool" where
  "takes_gzip gzip netscape4 h \<longleftrightarrow>
     0 < hh_nvers h
   \<and> (case pt_lookup ''accept-encoding'' (ih_tab h) of None \<Rightarrow> False | Some s \<Rightarrow> gzip s)
   \<and> (case get_user_agent True h of None \<Rightarrow> False | Some ua \<Rightarrow> \<not> netscape4 ua)"

definition has_broken_chunking ::
    "(string \<Rightarrow> bool) \<Rightarrow> (string \<Rightarrow> int option) \<Rightarrow> bool \<Rightarrow> http_inhdr \<Rightarrow> bool" where
  "has_broken_chunking chrome safari old_safaris h \<longleftrightarrow>
     (case get_user_agent True h of
        None \<Rightarrow> False
      | Some ua \<Rightarrow> \<not> old_safaris \<and> \<not> chrome ua \<and> (case safari ua of None \<Rightarrow> False | Some v \<Rightarrow> v \<le> 525))"

definition get_conn_mode :: "http_inhdr \<Rightarrow> http_conn_mode" where
  "get_conn_mode h = ih_conn_mode h"

definition set_reqno :: "nat \<Rightarrow> bool \<Rightarrow> nat \<Rightarrow> http_inhdr \<Rightarrow> http_inhdr" where
  "set_reqno i pipelining prev_vers h =
     h\<lparr>ih_reqno := i, ih_pipeline_eof_ok := (1 < i \<and> pipelining \<and> prev_vers = 1)\<rparr>"

definition clean_pipeline_eof_state :: "http_inhdr \<Rightarrow> bool" where
  "clean_pipeline_eof_state h \<longleftrightarrow> ih_state h = INHDRST_START \<and> ih_pipeline_eof_ok h"

definition timeout_status :: "http_inhdr \<Rightarrow> int" where
  "timeout_status h = (if clean_pipeline_eof_state h then HTTP_PIPELINE_CLEAN_TIMEOUT else HTTP_TIMEOUT)"

text \<open>\<^verbatim>\<open>get_cookie\<close> and \<^verbatim>\<open>get_url\<close> allocate the parser on first use.\<close>

definition get_sub :: "inhdr_conf \<Rightarrow> sub \<Rightarrow> http_inhdr \<Rightarrow> subparser" where
  "get_sub cfg k h =
     (case (case k of Sub_url \<Rightarrow> ih_url h | Sub_cookie \<Rightarrow> ih_cookie h) of
        Some s \<Rightarrow> s
      | None \<Rightarrow> \<lparr>sp_cgi = cgi_new (k = Sub_cookie) (ic_buflen_sml cfg) (ih_xss h), sp_parsing = False, sp_dataready = False\<rparr>)"

definition put_sub :: "sub \<Rightarrow> subparser \<Rightarrow> http_inhdr \<Rightarrow> http_inhdr" where
  "put_sub k s h =
     (let h1 = h\<lparr>ih_xss := cg_xss (sp_cgi s)\<rparr>
      in case k of Sub_url \<Rightarrow> h1\<lparr>ih_url := Some s\<rparr> | Sub_cookie \<Rightarrow> h1\<lparr>ih_cookie := Some s\<rparr>)"

section \<open>One round of the loop\<close>

text \<open>The variables of the loop, or the start of a nested parse.\<close>

datatype ih_round = Round abuf_stat bool int | Nested sub

abbreviation go :: "abuf_stat \<Rightarrow> ih_round" where
  "go r \<equiv> Round r True HTTP_BAD_REQUEST"

text \<open>The digit at the end of the version.\<close>

definition vers_digit :: "string option \<Rightarrow> nat option" where
  "vers_digit v =
     (case v of None \<Rightarrow> None
      | Some s \<Rightarrow> if 0 < length s \<and> isdigit (last s) then Some (code (last s) - 48) else None)"

definition ih_step :: "inhdr_conf \<Rightarrow> http_inhdr \<Rightarrow> abuf \<Rightarrow> (ih_round \<times> http_inhdr \<times> abuf) option" where
  "ih_step cfg h a =
     (case ih_state h of
        INHDRST_START \<Rightarrow>
          let (r, w, h1, a1) = delimit_word False h (abuf_mirror (hh_scr2 h) a)
          in Some (go r, if w = None then h1 else h1\<lparr>ih_tmthd := w\<rparr>, a1)
      | INHDRST_SPC1 \<Rightarrow> map_option (\<lambda>(r, a1). (go r, h, a1)) (skip_hws 1 a)
      | INHDRST_TARGET \<Rightarrow>
          let (r, w, h1, a1) = delimit_word (ih_parse_qs h) h a;
              h2 = (if w = None then h1 else h1\<lparr>ih_target := w\<rparr>)
          in if \<not> ih_parse_qs h \<and> r = ABUF_OK
             then Some (Round r False HTTP_BAD_REQUEST, h2\<lparr>ih_state := INHDRST_SPC2\<rparr>, a1)
             else Some (go r, h2, a1)
      | INHDRST_URIDAT \<Rightarrow>
          let (r, a1) = expectchar (CHR ''?'') a
          in if r = ABUF_OK
             then let s = get_sub cfg Sub_url h
                  in Some (Nested Sub_url,
                           put_sub Sub_url (s\<lparr>sp_cgi := cgi_set_uri_mode True (sp_cgi s)\<rparr>) h, a1)
             else Some (go (if r = ABUF_NOMATCH then ABUF_OK else r), h, a1)
      | INHDRST_SPC2 \<Rightarrow>
          let (r, a1) = eol a
          in if r \<noteq> ABUF_OK then map_option (\<lambda>(r', a2). (go r', h, a2)) (skip_hws 1 a1)
             else Some (go r, h, a1)
      | INHDRST_OPTPARAM \<Rightarrow>
          let (r, a1) = eol a
          in if r = ABUF_NOMATCH
             then let (r', w, h1, a2) = delimit_word False h a1;
                      h2 = (if w = None then h1 else h1\<lparr>ih_vers := w\<rparr>)
                  in Some (go r',
                           case vers_digit (ih_vers h2) of None \<Rightarrow> h2 | Some n \<Rightarrow> h2\<lparr>hh_nvers := n\<rparr>, a2)
             else Some (go r, h, a1)
      | INHDRST_EOL1 \<Rightarrow>
          let (l, a1) = end_mirror a; (r, h1, a2) = require_crlf (h\<lparr>ih_line1 := Some l\<rparr>) a1
          in Some (go r, h1, a2)
      | INHDRST_KEY \<Rightarrow>
          let (r, h1, a1) = gobble_crlf h a
          in if r = ABUF_OK then Some (Round ABUF_EOF True HTTP_OK, h1, a1)
             else if r = ABUF_NOMATCH
             then let (r', w, h2, a2) = delimit_key h1 a1
                  in Some (go r', if w = None then h2 else h2\<lparr>hh_key := w\<rparr>, a2)
             else Some (go r, h1, a1)
      | INHDRST_SPC3 \<Rightarrow> map_option (\<lambda>(r, a1). (go r, h, a1)) (skip_hws 0 a)
      | INHDRST_VALUE \<Rightarrow>
          let h0 = (if ic_parse_cookies cfg then put_sub Sub_cookie (get_sub cfg Sub_cookie h) h else h)
          in if ic_parse_cookies cfg \<and> iscookie h0
             then Some (Nested Sub_cookie, h0\<lparr>hh_noins := True\<rparr>, a)
             else let (r, w, h1, a1) = delimit_val h0 a
                  in Some (go r, if w = None then h1 else h1\<lparr>hh_val := w\<rparr>, a1)
      | INHDRST_EOL2A \<Rightarrow>
          let (r, h1) =
                (if hh_noins h then (ABUF_OK, h\<lparr>hh_noins := False\<rparr>)
                 else if hh_key h \<noteq> None
                 then (ABUF_OK, h\<lparr>ih_tab := pt_insert (hh_key h) (hh_val h) True True (ih_tab h)\<rparr>)
                 else (ABUF_PARSE_ERR, h))
          in Some (go r, h1\<lparr>hh_key := None, hh_val := None\<rparr>, a)
      | INHDRST_EOL2B \<Rightarrow>
          let (r, h1, a1) = require_crlf h a
          in if r = ABUF_OK then Some (Round r False HTTP_BAD_REQUEST, h1\<lparr>ih_state := INHDRST_KEY\<rparr>, a1)
             else Some (go r, h1, a1)
      | INHDRST_END \<Rightarrow> Some (go ABUF_PARSE_ERR, h, a))"

section \<open>The end of the parse\<close>

text \<open>Case-insensitive equality of C strings, \<^verbatim>\<open>cicmp\<close>.\<close>

definition cicmp :: "string \<Rightarrow> string \<Rightarrow> bool" where
  "cicmp s t \<longleftrightarrow> map tolower (cstr s) = map tolower (cstr t)"

definition fixup :: "http_inhdr \<Rightarrow> http_inhdr" where
  "fixup h =
     (let (r, t) = pt_lookup_int ''content-length'' (ih_tab h);
          h1 = h\<lparr>ih_tab := t, ih_contlen := (case r of Some n \<Rightarrow> signed_take_bit 31 n | None \<Rightarrow> - 1)\<rparr>
      in h1\<lparr>ih_mthd := (case ih_tmthd h1 of Some m \<Rightarrow> method_lookup m | None \<Rightarrow> HTTP_MTHD_NONE),
            ih_conn_mode := (case get_connection h1 of
                               Some c \<Rightarrow> if cicmp c ''keep-alive'' then HTTP_CONN_KEEPALIVE else HTTP_CONN_CLOSED
                             | None \<Rightarrow> HTTP_CONN_CLOSED)\<rparr>)"

text \<open>The code after the loop, for a status other than \<^verbatim>\<open>ABUF_OK\<close>.\<close>

definition ih_finish :: "abuf_stat \<Rightarrow> int \<Rightarrow> http_inhdr \<Rightarrow> abuf \<Rightarrow> int option \<times> http_inhdr \<times> abuf" where
  "ih_finish r status h a =
     (if r = ABUF_WAIT then (None, h, a)
      else
        let s1 = (if r = ABUF_OVERFLOW then HTTP_REQ_TOO_BIG
                  else if r = ABUF_EOF \<and> abuf_overflow a then HTTP_REQ_TOO_BIG else status);
            s2 = (if s1 = HTTP_BAD_REQUEST \<and> r = ABUF_EOF \<and> clean_pipeline_eof_state h
                  then HTTP_PIPELINE_EOF else s1)
        in (Some s2, if s2 = HTTP_OK then fixup h else h, a))"

section \<open>The loop\<close>

text \<open>\<^verbatim>\<open>async_parser_t::parse\<close> of the nested parser; a parse that is running already fails the assertion.\<close>

definition sub_parse :: "inhdr_conf \<Rightarrow> sub \<Rightarrow> http_inhdr \<Rightarrow> abuf \<Rightarrow> (bool \<times> http_inhdr \<times> abuf) option" where
  "sub_parse cfg k h a =
     (let s = get_sub cfg k h
      in if sp_parsing s then None
         else
           let (now, src) = src_init (ab_src a);
               a1 = a\<lparr>ab_src := src\<rparr>; a2 = (if now then abuf_can_read a1 else a1);
               s1 = s\<lparr>sp_dataready := sp_dataready s \<or> now, sp_parsing := True\<rparr>
           in if sp_dataready s1
              then Option.bind (cgi_parse_guts (ic_cgi cfg) ((sp_cgi s1)\<lparr>cg_xss := ih_xss h\<rparr>) a2) (\<lambda>(fin, c, a3).
                     Some (fin, put_sub k (s1\<lparr>sp_cgi := c, sp_parsing := \<not> fin\<rparr>) h, a3))
              else Some (False, put_sub k s1 h, a2))"

text \<open>
  The loop.  When the nested parser finishes, \<^verbatim>\<open>ext_parse_cb\<close> moves to the next state and \<^verbatim>\<open>resume\<close>
  goes on at once if the source has data, and waits otherwise.
\<close>

definition ih_resume_src :: "abuf \<Rightarrow> bool \<times> abuf" where
  "ih_resume_src a =
     (let (now, src) = src_init (ab_src a); a1 = a\<lparr>ab_src := src\<rparr>
      in (now, if now then abuf_can_read a1 else a1))"

definition ext_parse_cb :: "http_inhdr \<Rightarrow> http_inhdr" where
  "ext_parse_cb h = h\<lparr>ih_state := inc_state (ih_state h), ih_sub := None\<rparr>"

partial_function (option) ih_loop :: "inhdr_conf \<Rightarrow> http_inhdr \<Rightarrow> abuf \<Rightarrow> (int option \<times> http_inhdr \<times> abuf) option" where
  "ih_loop cfg h a =
     (case ih_step cfg h a of
        None \<Rightarrow> None
      | Some (Round r inc st, h1, a1) \<Rightarrow>
          if r = ABUF_OK
          then ih_loop cfg (if inc then h1\<lparr>ih_state := inc_state (ih_state h1)\<rparr> else h1) a1
          else Some (ih_finish r st h1 a1)
      | Some (Nested k, h1, a1) \<Rightarrow>
          (case sub_parse cfg k h1 a1 of
             None \<Rightarrow> None
           | Some (fin, h2, a2) \<Rightarrow>
               if fin
               then (case ih_resume_src a2 of
                       (now, a3) \<Rightarrow> if now then ih_loop cfg (ext_parse_cb h2) a3
                                    else Some (None, ext_parse_cb h2, a3))
               else Some (None, h2\<lparr>ih_sub := Some k\<rparr>, a2)))"

declare ih_loop.simps [code]

definition ih_guts :: "inhdr_conf \<Rightarrow> http_inhdr \<Rightarrow> abuf \<Rightarrow> (int option \<times> http_inhdr \<times> abuf) option" where
  "ih_guts cfg h a =
     (case ih_sub h of
        None \<Rightarrow> ih_loop cfg h a
      | Some k \<Rightarrow>
          let s = get_sub cfg k h
          in Option.bind (cgi_parse_guts (ic_cgi cfg) ((sp_cgi s)\<lparr>cg_xss := ih_xss h\<rparr>) a) (\<lambda>(fin, c, a1).
               let h1 = put_sub k (s\<lparr>sp_cgi := c, sp_parsing := \<not> fin\<rparr>) h
               in if fin
                  then (case ih_resume_src a1 of
                          (now, a2) \<Rightarrow> if now then ih_loop cfg (ext_parse_cb h1) a2
                                       else Some (None, ext_parse_cb h1, a2))
                  else Some (None, h1, a1)))"

section \<open>What reading leaves alone\<close>

text \<open>
  The flags of a source, and the bytes a mirror will hold when all that is to come has been read:
  no read changes them.
\<close>

fun src_flags :: "abuf_src \<Rightarrow> bool \<times> bool \<times> bool \<times> bool" where
  "src_flags (Src_con c) = (True, con_overflow c, con_selread c, con_eof c)"
| "src_flags (Src_str t) = (False, False, False, False)"

definition ab_unread :: "abuf \<Rightarrow> string" where
  "ab_unread a = (if ab_ccnt a \<le> ab_lim a then take (nat (ab_lim a - ab_ccnt a)) (ab_avail a) else ab_avail a)"

text \<open>A mirror holds the beginning of \<open>T\<close>, the text since it was set, up to its size.\<close>

definition mirror_of :: "string \<Rightarrow> nat \<Rightarrow> abuf \<Rightarrow> bool" where
  "mirror_of T room a \<longleftrightarrow> (\<exists>con. ab_mirror a = Some (take room con, room) \<and> T = con @ ab_unread a)"

definition ab_keeps :: "abuf \<Rightarrow> abuf \<Rightarrow> bool" where
  "ab_keeps a a' \<longleftrightarrow>
     src_flags (ab_src a') = src_flags (ab_src a) \<and> (\<forall>T room. mirror_of T room a \<longrightarrow> mirror_of T room a')"

lemma ab_keeps_refl [simp]: "ab_keeps a a"
  by (simp add: ab_keeps_def)

lemma ab_keeps_trans: "ab_keeps a b \<Longrightarrow> ab_keeps b c \<Longrightarrow> ab_keeps a c"
  by (simp add: ab_keeps_def)

lemma ab_pending_unread: "ab_pending a = ab_buffered a @ ab_unread a"
  by (simp add: ab_pending_def ab_unread_def)

lemma src_flags_overflow: "src_flags (ab_src a') = src_flags (ab_src a) \<Longrightarrow> abuf_overflow a' = abuf_overflow a"
  by (cases "ab_src a"; cases "ab_src a'") (auto simp: abuf_overflow_def)

lemma ab_unread_frame [simp]:
  "ab_unread (a\<lparr>ab_bc := b\<rparr>) = ab_unread a" "ab_unread (a\<lparr>ab_lch := x\<rparr>) = ab_unread a"
  "ab_unread (a\<lparr>ab_spcs := n\<rparr>) = ab_unread a" "ab_unread (a\<lparr>ab_mirror := m\<rparr>) = ab_unread a"
  by (simp_all add: ab_unread_def)

lemma mirror_of_frame [simp]:
  "mirror_of T r (a\<lparr>ab_bc := b\<rparr>) = mirror_of T r a" "mirror_of T r (a\<lparr>ab_lch := x\<rparr>) = mirror_of T r a"
  "mirror_of T r (a\<lparr>ab_spcs := n\<rparr>) = mirror_of T r a" "mirror_of T r (abuf_unget a) = mirror_of T r a"
  by (simp_all add: mirror_of_def abuf_unget_def)

lemma ab_keeps_frame [simp]:
  "ab_keeps a0 (a\<lparr>ab_bc := b\<rparr>) = ab_keeps a0 a" "ab_keeps a0 (a\<lparr>ab_lch := x\<rparr>) = ab_keeps a0 a"
  "ab_keeps a0 (a\<lparr>ab_spcs := n\<rparr>) = ab_keeps a0 a" "ab_keeps a0 (abuf_unget a) = ab_keeps a0 a"
  "ab_keeps (a\<lparr>ab_spcs := n\<rparr>) a0 = ab_keeps a a0"
  by (simp_all add: ab_keeps_def)

lemma src_flags_moredata: "src_flags (ab_src (moredata a)) = src_flags (ab_src a)"
  by (cases "ab_src a") (auto simp: moredata_def Let_def split: prod.splits if_splits)

lemma ab_keeps_moredata:
  assumes "abuf_inv a" "\<not> ab_bc a" "ab_erc a = ABUF_OK" "ab_cp a = length (ab_win a)"
  shows "ab_keeps a (moredata a)"
  using moredata_refill(2) [OF assms] by (simp add: ab_keeps_def mirror_of_def ab_unread_def src_flags_moredata)

lemma ab_keeps_got_char:
  assumes "ab_lim a \<noteq> ab_ccnt a" and "ab_cp a < length (ab_win a)" and "got_char a = (ch, a')"
  shows "ab_keeps a a'"
proof -
  define c where "c = ab_win a ! ab_cp a"
  have a': "a' = a\<lparr>ab_ccnt := ab_ccnt a + 1, ab_mirror := mirror_push c (ab_mirror a),
      ab_lch := CH c, ab_cp := Suc (ab_cp a)\<rparr>"
    using assms(3) by (auto simp: got_char_def Let_def c_def)
  have av: "ab_avail a = c # ab_avail a'"
    using assms(2) by (simp add: ab_avail_def a' c_def Cons_nth_drop_Suc [symmetric])
  have lim: "nat (ab_lim a - ab_ccnt a) = Suc (nat (ab_lim a - (ab_ccnt a + 1)))" if "ab_ccnt a \<le> ab_lim a"
    using that assms(1) by (simp add: Suc_nat_eq_nat_zadd1)
  have f: "ab_ccnt a' = ab_ccnt a + 1" "ab_lim a' = ab_lim a" "ab_src a' = ab_src a"
      "ab_mirror a' = mirror_push c (ab_mirror a)" by (simp_all add: a')
  have u: "ab_unread a = c # ab_unread a'"
    using assms(1) by (auto simp: ab_unread_def av f lim)
  show ?thesis
    unfolding ab_keeps_def
  proof (intro conjI allI impI)
    fix T room
    assume "mirror_of T room a"
    then obtain con where con: "ab_mirror a = Some (take room con, room)" "T = con @ c # ab_unread a'"
      by (auto simp: mirror_of_def u)
    have "ab_mirror a' = Some (take room (con @ [c]), room)"
      by (auto simp: f con mirror_push_def min_def not_less split: if_splits)
    then show "mirror_of T room a'" using con(2) by (auto simp: mirror_of_def)
  qed (simp add: f)
qed

lemma ab_keeps_get: "abuf_inv a \<Longrightarrow> abuf_get a = (ch, a') \<Longrightarrow> ab_keeps a a'"
proof -
  assume inv: "abuf_inv a" and g: "abuf_get a = (ch, a')"
  consider "ab_bc a \<or> ab_lim a = ab_ccnt a" | "\<not> ab_bc a" "ab_lim a \<noteq> ab_ccnt a" "ab_cp a < length (ab_win a)"
    | "\<not> ab_bc a" "ab_lim a \<noteq> ab_ccnt a" "ab_cp a = length (ab_win a)"
    using inv unfolding abuf_inv_def by linarith
  then show "ab_keeps a a'"
  proof cases
    case 1
    then show ?thesis using g by (auto simp: abuf_get_def split: if_splits)
  next
    case 2
    then show ?thesis using g ab_keeps_got_char by (simp add: abuf_get_def)
  next
    case 3
    have m: "ab_erc a = ABUF_OK \<Longrightarrow> ab_keeps a (moredata a)"
      using ab_keeps_moredata [OF inv] 3 by simp
    have "ab_lim (moredata a) \<noteq> ab_ccnt (moredata a)" using 3 by simp
    then show ?thesis using g 3 m ab_keeps_got_char [of "moredata a" ch a']
      by (auto simp: abuf_get_def Let_def split: if_splits intro: ab_keeps_trans)
  qed
qed

lemma abuf_inv_get: "abuf_inv a \<Longrightarrow> abuf_get a = (ch, a') \<Longrightarrow> abuf_inv a'"
  using abuf_get_spec [of a] by (auto simp: at_end_def split: list.splits)

lemma ab_keeps_pcp_loop:
  "pcp_loop body endp scr ret ch a = (scr', r, ch', a') \<Longrightarrow> abuf_inv a \<Longrightarrow> ab_keeps a a'"
proof (induction body endp scr ret ch a rule: pcp_loop.induct)
  case (1 body endp scr ret ch a)
  obtain ch1 a1 where g: "abuf_get a = (ch1, a1)" by (cases "abuf_get a")
  note v = ab_keeps_get [OF 1(3) g] abuf_inv_get [OF 1(3) g]
  show ?case
  proof (cases "length scr < endp")
    case True
    show ?thesis
    proof (cases "body ch1")
      case (Store c)
      then show ?thesis using 1(1) [OF True g [symmetric] refl Store] 1(2) True g v
        by (auto simp: pcp_loop.simps [of body endp scr] intro: ab_keeps_trans)
    next
      case (Halt r u)
      then show ?thesis using 1(2) True g v by (auto simp: pcp_loop.simps [of body endp scr])
    qed
  qed (use 1(2) in \<open>simp add: pcp_loop.simps [of body endp scr]\<close>)
qed

lemma ab_keeps_token:
  "end_token h (pcp_loop body (hh_endp h) scr ret ch a) = (r, w, h', a') \<Longrightarrow> abuf_inv a \<Longrightarrow> ab_keeps a a'"
  by (auto simp: end_token_def Let_def split: prod.splits if_splits dest: ab_keeps_pcp_loop)

lemma ab_keeps_tokens:
  "delimit_word q h a = (r, w, h', a') \<Longrightarrow> abuf_inv a \<Longrightarrow> ab_keeps a a'"
  "delimit_key h a = (r, w, h', a') \<Longrightarrow> abuf_inv a \<Longrightarrow> ab_keeps a a'"
  "delimit_val h a = (r, w, h', a') \<Longrightarrow> abuf_inv a \<Longrightarrow> ab_keeps a a'"
  by (auto simp: delimit_word_def delimit_key_def delimit_val_def Let_def
      split: prod.splits if_splits dest: ab_keeps_pcp_loop ab_keeps_token)

lemma ab_keeps_peek: "abuf_peek a = (ch, a') \<Longrightarrow> abuf_inv a \<Longrightarrow> ab_keeps a a'"
  by (auto simp: abuf_peek_def split: prod.splits dest: ab_keeps_get)

lemma ab_keeps_eol: "eol a = (r, a') \<Longrightarrow> abuf_inv a \<Longrightarrow> ab_keeps a a'"
  by (auto simp: eol_def split: prod.splits dest: ab_keeps_peek)

lemma ab_keeps_expectchar: "expectchar c a = (r, a') \<Longrightarrow> abuf_inv a \<Longrightarrow> ab_keeps a a'"
  by (auto simp: expectchar_def Let_def split: prod.splits if_splits dest: ab_keeps_get)

lemma ab_keeps_gobble: "gobble_crlf h a = (r, h', a') \<Longrightarrow> abuf_inv a \<Longrightarrow> ab_keeps a a'"
proof (induction h a rule: gobble_crlf.induct)
  case (1 h a)
  obtain ch1 a1 where g: "abuf_get a = (ch1, a1)" by (cases "abuf_get a")
  note v = ab_keeps_get [OF 1(3) g] abuf_inv_get [OF 1(3) g]
  show ?case
    using 1(1) [OF g [symmetric] refl] 1(2) g v
    by (auto simp: gobble_crlf.simps [of h a] split: abuf_ch.splits if_splits intro: ab_keeps_trans)
qed

lemma ab_keeps_require: "require_crlf h a = (r, h', a') \<Longrightarrow> abuf_inv a \<Longrightarrow> ab_keeps a a'"
  by (auto simp: require_crlf_def split: prod.splits dest: ab_keeps_gobble)

lemma ab_keeps_hws_loop: "skip_hws_loop a = Some (ch, a') \<Longrightarrow> abuf_inv a \<Longrightarrow> ab_keeps a a'"
proof (induction "length (takeWhile is_hws (ab_pending a))" arbitrary: a)
  case 0
  obtain ch1 a1 where g: "abuf_get a = (ch1, a1)" by (cases "abuf_get a")
  have "\<not> (ch1 = CH SPC \<or> ch1 = CH TAB)"
    using 0 g ab.get_CH_iff [OF 0(3)] by (auto simp: is_hws_def)
  then show ?case using 0(2) g ab_keeps_get [OF 0(3) g] by (auto simp: skip_hws_loop.simps [of a])
next
  case (Suc n)
  then obtain c cs where c: "ab_pending a = c # cs" "is_hws c"
    by (cases "ab_pending a") (auto split: if_splits)
  then obtain a1 where g: "abuf_get a = (CH c, a1)" "abuf_inv a1" "ab_pending a1 = cs"
    using abuf_get_CH [OF Suc.prems(2)] by metis
  let ?a2 = "a1\<lparr>ab_spcs := Suc (ab_spcs a1)\<rparr>"
  have "skip_hws_loop ?a2 = Some (ch, a')"
    using Suc.prems(1) g(1) c(2) by (auto simp: skip_hws_loop.simps [of a] is_hws_def)
  from Suc.hyps(1) [OF _ this] show ?case
    using Suc.hyps(2) c g ab_keeps_get [OF Suc.prems(2) g(1)] by (auto intro: ab_keeps_trans)
qed

lemma ab_keeps_skip_hws: "skip_hws n a = Some (r, a') \<Longrightarrow> abuf_inv a \<Longrightarrow> ab_keeps a a'"
  by (auto simp: skip_hws_def Let_def split: option.splits if_splits)
     (simp_all add: ab_keeps_hws_loop)

lemmas ab_keepss = ab_keeps_tokens ab_keeps_eol ab_keeps_expectchar ab_keeps_gobble ab_keeps_require ab_keeps_skip_hws

section \<open>Reading well-formed text\<close>

text \<open>The stream \<open>a\<close> stands before the text \<open>p\<close>; \<open>M\<close> is what a mirror is to hold.\<close>

definition at_text :: "abuf \<Rightarrow> string \<Rightarrow> abuf_ch \<Rightarrow> bool \<times> bool \<times> bool \<times> bool \<Rightarrow> (string \<times> nat) option \<Rightarrow> bool" where
  "at_text a p e f M \<longleftrightarrow> abuf_inv a \<and> ab_pending a = p \<and> ab_eos a = e \<and> ab_spcs a = 0
     \<and> src_flags (ab_src a) = f \<and> (case M of None \<Rightarrow> True | Some (T, room) \<Rightarrow> mirror_of T room a)"

lemma at_textI:
  "at_text a p e f M \<Longrightarrow> abuf_inv a' \<Longrightarrow> ab_pending a' = q \<Longrightarrow> ab_eos a' = ab_eos a \<Longrightarrow> ab_spcs a' = 0
     \<Longrightarrow> ab_keeps a a' \<Longrightarrow> at_text a' q e f M"
  by (auto simp: at_text_def ab_keeps_def split: option.splits)

lemma at_textD:
  "at_text a p e f M \<Longrightarrow> abuf_inv a \<and> ab_pending a = p \<and> ab_eos a = e \<and> ab_spcs a = 0"
  by (simp add: at_text_def)

lemma token_ref_stop:
  assumes "list_all (stores body) w" and "body (CH c) = Halt r u" and "length scr + length w < endp"
  shows "token_ref body endp scr (w @ c # cs) e = (r, scr @ map (stored body) w, if u then c # cs else cs)"
proof -
  have nc: "\<not> stores body c" using assms(2) by (simp add: stores_def)
  have w: "\<And>x. x \<in> set w \<Longrightarrow> stores body x" using assms(1) by (simp add: list_all_iff)
  have "takeWhile (stores body) (w @ c # cs) = w" "dropWhile (stores body) (w @ c # cs) = c # cs"
    using nc w by (simp_all add: takeWhile_append2 dropWhile_append2)
  then show ?thesis using assms by (simp add: token_ref_def)
qed

text \<open>A character that was pushed back is the one buffered.\<close>

lemma unget_buffered:
  assumes "ab_pending (abuf_unget a) = c # cs" and "ab_pending a = cs"
  shows "ab_buffered (abuf_unget a) = [c]"
proof -
  have "ab_unread (abuf_unget a) = ab_unread a" by (simp add: abuf_unget_def)
  then have "ab_buffered (abuf_unget a) @ ab_unread a = c # ab_buffered a @ ab_unread a"
    using assms by (simp add: ab_pending_unread)
  then have "ab_buffered (abuf_unget a) = c # ab_buffered a" by (metis append_Cons append_same_eq)
  moreover have "length (ab_buffered (abuf_unget a)) \<le> 1" by (simp add: ab_buffered_def split: abuf_ch.splits)
  ultimately show ?thesis by simp
qed

lemma text_word:
  assumes t: "at_text a (w @ c # cs) e f M" and w: "list_all (stores (word_char q)) w"
    and c: "\<not> stores (word_char q) c" and h: "hh_scr h = []" "length w < hh_endp h"
  shows "\<exists>a'. delimit_word q h a = (ABUF_OK, Some w, h, a') \<and> at_text a' (c # cs) e f M \<and> ab_buffered a' = [c]"
proof -
  note d = at_textD [OF t]
  have H: "word_char q (CH c) = Halt ABUF_OK False"
    using c by (auto simp: stores_char split: if_splits)
  have m: "map (stored (word_char q)) w = w"
    using w by (auto simp: list_all_iff stored_char intro: map_idI)
  from pcp_loop_run [OF conjunct1 [OF d] _ w, of "c # cs" "[]" "hh_endp h" ABUF_OK WAITCHAR] d h m
  obtain ch1 a1 where r: "pcp_loop (word_char q) (hh_endp h) [] ABUF_OK WAITCHAR a
        = pcp_loop (word_char q) (hh_endp h) w ABUF_OK ch1 a1"
      "abuf_inv a1" "ab_pending a1 = c # cs" "ab_eos a1 = ab_eos a" "ab_spcs a1 = 0" by auto
  from pcp_loop_stop [where body = "word_char q", OF r(2,3) H h(2), of ABUF_OK ch1]
  obtain a2 where s: "pcp_loop (word_char q) (hh_endp h) w ABUF_OK ch1 a1 = (w, ABUF_OK, CH c, a2)"
     "ab_eos a2 = ab_eos a1" "abuf_inv (abuf_unget a2)" "ab_pending (abuf_unget a2) = c # cs" "ab_spcs a2 = ab_spcs a1"
     "ab_pending a2 = cs"
    by auto
  have res: "delimit_word q h a = (ABUF_OK, Some w, h, abuf_unget a2)"
    using r(1) s(1) h by (simp add: delimit_word_def)
  have "at_text (abuf_unget a2) (c # cs) e f M"
    using t by (rule at_textI) (use s r ab_keeps_tokens(1) [OF res] d in simp_all)
  then show ?thesis using res unget_buffered [OF s(4,6)] by blast
qed

lemma text_token:
  assumes t: "at_text a (w @ c # cs) e f M" and w: "list_all (stores body) w" and lx: "lexes body"
    and c: "body (CH c) = Halt ABUF_OK u" and h: "hh_scr h = []" "length w < hh_endp h"
  shows "\<exists>a'. end_token h (pcp_loop body (hh_endp h) (hh_scr h) ABUF_OK WAITCHAR a)
      = (ABUF_OK, Some (map (stored body) w), h, a') \<and> at_text a' (if u then c # cs else cs) e f M"
proof -
  note d = at_textD [OF t]
  have tk: "token_ref body (hh_endp h) (hh_scr h) (ab_pending a) (ab_eos a)
      = (ABUF_OK, map (stored body) w, if u then c # cs else cs)"
    using token_ref_stop [of body w c ABUF_OK u "[]" "hh_endp h"] w c h d by simp
  obtain a' where a': "end_token h (pcp_loop body (hh_endp h) (hh_scr h) ABUF_OK WAITCHAR a)
      = (ABUF_OK, if ABUF_OK = ABUF_OK then Some (map (stored body) w) else None,
         h\<lparr>hh_scr := if ABUF_OK = ABUF_OK then [] else map (stored body) w\<rparr>, a')"
    "abuf_inv a'" "ab_pending a' = (if u then c # cs else cs)" "ab_eos a' = ab_eos a" "ab_spcs a' = ab_spcs a"
    using conjunct1 [OF d] _ lx tk by (rule end_token_ref) (simp add: h)
  have "h\<lparr>hh_scr := []\<rparr> = h" using h(1) by simp
  moreover have "at_text a' (if u then c # cs else cs) e f M"
    using t by (rule at_textI) (use a' ab_keeps_token [OF a'(1)] d in simp_all)
  ultimately show ?thesis using a'(1) by auto
qed

lemma text_key:
  assumes "at_text a (k @ CHR '':'' # cs) e f M" and "list_all (stores key_char) k"
    and "hh_scr h = []" "length k < hh_endp h"
  shows "\<exists>a'. delimit_key h a = (ABUF_OK, Some (map tolower k), h, a') \<and> at_text a' cs e f M"
proof -
  have m: "map (stored key_char) k = map tolower k"
    using assms(2) by (auto simp: list_all_iff stored_char)
  show ?thesis
    using text_token [OF assms(1,2) _ _ assms(3,4), of False, unfolded m] by (simp add: delimit_key_def)
qed

lemma text_val:
  assumes "at_text a (v @ CR # cs) e f M" and "list_all (stores val_char) v"
    and "hh_scr h = []" "length v < hh_endp h"
  shows "\<exists>a'. delimit_val h a = (ABUF_OK, Some v, h, a') \<and> at_text a' (CR # cs) e f M"
proof -
  have "map (stored val_char) v = v"
    using assms(2) by (auto simp: list_all_iff stored_char intro: map_idI)
  then show ?thesis
    using text_token [OF assms(1,2) _ _ assms(3,4), of True] by (simp add: delimit_val_def)
qed

lemma text_hws:
  assumes t: "at_text a (ws @ c # cs) e f M" and w: "list_all is_hws ws" "\<not> is_hws c" "mn \<le> length ws"
  shows "\<exists>a'. skip_hws mn a = Some (ABUF_OK, a') \<and> at_text a' (c # cs) e f M"
proof -
  note d = at_textD [OF t]
  from skip_hws_char [OF conjunct1 [OF d] _ w(1,2), of cs mn] d w(3)
  obtain a' where a': "skip_hws mn a = Some (ABUF_OK, a')" "abuf_inv a'" "ab_pending a' = c # cs"
      "ab_eos a' = ab_eos a" "ab_spcs a' = 0" by auto
  have "at_text a' (c # cs) e f M" using t by (rule at_textI) (use a' ab_keeps_skip_hws [OF a'(1)] d in simp_all)
  then show ?thesis using a'(1) by blast
qed

lemma text_eol:
  assumes t: "at_text a (c # cs) e f M"
  shows "\<exists>a'. eol a = (if c = CR \<or> c = LF then ABUF_OK else ABUF_NOMATCH, a') \<and> at_text a' (c # cs) e f M"
proof -
  note d = at_textD [OF t]
  from peek_spec [of a c cs] d
  obtain a' where a': "abuf_peek a = (CH c, a')" "abuf_inv a'" "ab_pending a' = c # cs" "ab_eos a' = ab_eos a"
     "ab_spcs a' = ab_spcs a" by auto
  have "at_text a' (c # cs) e f M" using t by (rule at_textI) (use a' ab_keeps_peek [OF a'(1)] d in simp_all)
  then show ?thesis using a'(1) by (auto simp: eol_def)
qed

lemma text_expect_other:
  assumes t: "at_text a (c # cs) e f M" and "c \<noteq> x"
  shows "\<exists>a'. expectchar x a = (ABUF_NOMATCH, a') \<and> at_text a' (c # cs) e f M"
proof -
  note d = at_textD [OF t]
  from expectchar_spec [of a c cs x] d assms(2)
  obtain a' where a': "expectchar x a = (ABUF_NOMATCH, a')" "abuf_inv a'" "ab_pending a' = c # cs"
     "ab_eos a' = ab_eos a" "ab_spcs a' = ab_spcs a" by auto
  have "at_text a' (c # cs) e f M" using t by (rule at_textI) (use a' ab_keeps_expectchar [OF a'(1)] d in simp_all)
  then show ?thesis using a'(1) by blast
qed

lemma text_gobble:
  assumes t: "at_text a p e f M" and h: "\<not> hh_need_lf h" and r: "crlf_ref False p e = (r, False, q)"
  shows "\<exists>a'. gobble_crlf h a = (r, h, a') \<and> at_text a' q e f M"
proof -
  note d = at_textD [OF t]
  from gobble_crlf_ref [of a h r False q] d h r
  obtain a' where a': "gobble_crlf h a = (r, h\<lparr>hh_need_lf := False\<rparr>, a')" "abuf_inv a'" "ab_pending a' = q"
     "ab_eos a' = ab_eos a" "ab_spcs a' = ab_spcs a" by auto
  have "at_text a' q e f M" using t by (rule at_textI) (use a' ab_keeps_gobble [OF a'(1)] d in simp_all)
  moreover have "h\<lparr>hh_need_lf := False\<rparr> = h" using h by simp
  ultimately show ?thesis using a'(1) by auto
qed

lemma text_crlf:
  assumes "at_text a (CR # LF # cs) e f M" and "\<not> hh_need_lf h"
  shows "\<exists>a'. gobble_crlf h a = (ABUF_OK, h, a') \<and> require_crlf h a = (ABUF_OK, h, a') \<and> at_text a' cs e f M"
  using text_gobble [OF assms, of ABUF_OK cs] by (auto simp: require_crlf_def)

lemma text_no_crlf:
  assumes "at_text a (c # cs) e f M" and "\<not> hh_need_lf h" and "c \<noteq> CR" "c \<noteq> LF"
  shows "\<exists>a'. gobble_crlf h a = (ABUF_NOMATCH, h, a') \<and> at_text a' (c # cs) e f M"
  using text_gobble [OF assms(1,2), of ABUF_NOMATCH "c # cs"] assms(3,4) by simp

section \<open>Parsing a request\<close>

text \<open>The text of a request head.\<close>

abbreviation CRLF :: string where "CRLF \<equiv> [CR, LF]"

definition header_line :: "string \<times> string \<Rightarrow> string" where
  "header_line kv = fst kv @ '': '' @ snd kv @ CRLF"

definition request_line :: "string \<Rightarrow> string \<Rightarrow> string \<Rightarrow> string" where
  "request_line m t v = m @ '' '' @ t @ '' '' @ v"

definition request_text :: "string \<Rightarrow> string \<Rightarrow> string \<Rightarrow> (string \<times> string) list \<Rightarrow> string" where
  "request_text m t v hs = request_line m t v @ CRLF @ concat (map header_line hs) @ CRLF"

text \<open>Tokens that fit in the scratch buffer and hold none of the characters that end them.\<close>

definition good_word :: "nat \<Rightarrow> bool \<Rightarrow> string \<Rightarrow> bool" where
  "good_word n q w \<longleftrightarrow> w \<noteq> [] \<and> list_all (stores (word_char q)) w \<and> length w < n"

definition good_header :: "inhdr_conf \<Rightarrow> nat \<Rightarrow> string \<times> string \<Rightarrow> bool" where
  "good_header cfg n kv \<longleftrightarrow>
     fst kv \<noteq> [] \<and> list_all (stores key_char) (fst kv) \<and> length (fst kv) < n
   \<and> list_all (stores val_char) (snd kv) \<and> length (snd kv) < n \<and> (snd kv \<noteq> [] \<longrightarrow> \<not> is_hws (hd (snd kv)))
   \<and> \<not> (ic_parse_cookies cfg \<and> map tolower (fst kv) = ''cookie'')"

text \<open>One round that goes on.\<close>

lemma ih_loop_round:
  "ih_step cfg h a = Some (Round ABUF_OK inc st, h1, a1) \<Longrightarrow>
     ih_loop cfg h a = ih_loop cfg (if inc then h1\<lparr>ih_state := inc_state (ih_state h1)\<rparr> else h1) a1"
  by (subst ih_loop.simps) simp

lemma good_word_hd: "good_word n q w \<Longrightarrow> \<exists>c cs. w = c # cs \<and> \<not> is_hws c \<and> c \<noteq> CR \<and> c \<noteq> LF \<and> (q \<longrightarrow> c \<noteq> CHR ''?'')"
  by (cases w) (auto simp: good_word_def stores_char is_hws_def)

lemma step_start:
  assumes "at_text a (m @ SPC # cs) e f None" and "\<not> ab_bc a" and "good_word (hh_endp h) False m"
    and "ih_state h = INHDRST_START" "hh_scr h = []"
  shows "\<exists>a'. ih_loop cfg h a = ih_loop cfg (h\<lparr>ih_tmthd := Some m, ih_state := INHDRST_SPC1\<rparr>) a'
    \<and> at_text a' (SPC # cs) e f (Some (m @ SPC # cs, hh_scr2 h))"
proof -
  have t: "at_text (abuf_mirror (hh_scr2 h) a) (m @ SPC # cs) e f (Some (m @ SPC # cs, hh_scr2 h))"
    using assms(1,2) by (simp add: at_text_def abuf_mirror_def mirror_of_def ab_pending_unread ab_buffered_def)
  obtain a' where a': "delimit_word False h (abuf_mirror (hh_scr2 h) a) = (ABUF_OK, Some m, h, a')"
      "at_text a' (SPC # cs) e f (Some (m @ SPC # cs, hh_scr2 h))"
    using text_word [OF t, of False h] assms(3,5) by (auto simp: good_word_def stores_char)
  then show ?thesis using assms(4) ih_loop_round [of cfg h a True] by (auto simp: ih_step_def)
qed

lemma step_spc1:
  assumes "at_text a (SPC # t @ cs) e f M" and "good_word n q t" and "ih_state h = INHDRST_SPC1"
  shows "\<exists>a'. ih_loop cfg h a = ih_loop cfg (h\<lparr>ih_state := INHDRST_TARGET\<rparr>) a' \<and> at_text a' (t @ cs) e f M"
proof -
  obtain c t' where c: "t = c # t'" "\<not> is_hws c" using good_word_hd [OF assms(2)] by blast
  from text_hws [of a "[SPC]" c "t' @ cs" e f M 1] assms(1) c obtain a' where
    "skip_hws 1 a = Some (ABUF_OK, a')" "at_text a' (t @ cs) e f M" by (auto simp: is_hws_def)
  then show ?thesis using assms(3) ih_loop_round [of cfg h a True] by (auto simp: ih_step_def)
qed

text \<open>A target with no query string: the state for the query string is passed through or skipped.\<close>

lemma step_target:
  assumes t: "at_text a (t @ SPC # cs) e f M" and g: "good_word (hh_endp h) (ih_parse_qs h) t"
    and h: "ih_state h = INHDRST_TARGET" "hh_scr h = []"
  shows "\<exists>a'. ih_loop cfg h a = ih_loop cfg (h\<lparr>ih_target := Some t, ih_state := INHDRST_SPC2\<rparr>) a'
    \<and> at_text a' (SPC # cs) e f M"
proof -
  obtain a1 where a1: "delimit_word (ih_parse_qs h) h a = (ABUF_OK, Some t, h, a1)" "at_text a1 (SPC # cs) e f M"
    using text_word [OF t, of "ih_parse_qs h" h] g h by (auto simp: good_word_def stores_char)
  show ?thesis
  proof (cases "ih_parse_qs h")
    case False
    then show ?thesis using a1 h ih_loop_round [of cfg h a False] by (auto simp: ih_step_def)
  next
    case True
    let ?h = "h\<lparr>ih_target := Some t, ih_state := INHDRST_URIDAT\<rparr>"
    have 1: "ih_loop cfg h a = ih_loop cfg ?h a1"
      using True a1 h ih_loop_round [of cfg h a True] by (simp add: ih_step_def)
    obtain a2 where a2: "expectchar CHR ''?'' a1 = (ABUF_NOMATCH, a2)" "at_text a2 (SPC # cs) e f M"
      using text_expect_other [OF a1(2), of "CHR ''?''"] by auto
    have "ih_loop cfg ?h a1 = ih_loop cfg (?h\<lparr>ih_state := INHDRST_SPC2\<rparr>) a2"
      using a2 ih_loop_round [of cfg ?h a1 True] by (simp add: ih_step_def)
    then show ?thesis using 1 a2 by auto
  qed
qed

lemma step_spc2:
  assumes t: "at_text a (SPC # v @ cs) e f M" and g: "good_word n q v" and h: "ih_state h = INHDRST_SPC2"
  shows "\<exists>a'. ih_loop cfg h a = ih_loop cfg (h\<lparr>ih_state := INHDRST_OPTPARAM\<rparr>) a' \<and> at_text a' (v @ cs) e f M"
proof -
  obtain c v' where c: "v = c # v'" "\<not> is_hws c" using good_word_hd [OF g] by blast
  obtain a1 where a1: "eol a = (ABUF_NOMATCH, a1)" "at_text a1 (SPC # v @ cs) e f M"
    using text_eol [OF t] by auto
  from text_hws [of a1 "[SPC]" c "v' @ cs" e f M 1] a1 c obtain a' where
    "skip_hws 1 a1 = Some (ABUF_OK, a')" "at_text a' (v @ cs) e f M" by (auto simp: is_hws_def)
  then show ?thesis using h a1 ih_loop_round [of cfg h a True] by (auto simp: ih_step_def)
qed

definition set_vers :: "string \<Rightarrow> http_inhdr \<Rightarrow> http_inhdr" where
  "set_vers v h =
     (case vers_digit (Some v) of
        None \<Rightarrow> h\<lparr>ih_vers := Some v\<rparr> | Some n \<Rightarrow> h\<lparr>ih_vers := Some v, hh_nvers := n\<rparr>)"

lemma step_optparam:
  assumes t: "at_text a (v @ CR # cs) e f M" and g: "good_word (hh_endp h) False v"
    and h: "ih_state h = INHDRST_OPTPARAM" "hh_scr h = []"
  shows "\<exists>a'. ih_loop cfg h a = ih_loop cfg ((set_vers v h)\<lparr>ih_state := INHDRST_EOL1\<rparr>) a' \<and> at_text a' (CR # cs) e f M
    \<and> ab_buffered a' = [CR]"
proof -
  obtain c v' where c: "v = c # v'" "c \<noteq> CR" "c \<noteq> LF" using good_word_hd [OF g] by blast
  obtain a1 where a1: "eol a = (ABUF_NOMATCH, a1)" "at_text a1 (v @ CR # cs) e f M"
    using text_eol [of a c "v' @ CR # cs" e f M] t c by auto
  obtain a2 where a2: "delimit_word False h a1 = (ABUF_OK, Some v, h, a2)" "at_text a2 (CR # cs) e f M" "ab_buffered a2 = [CR]"
    using text_word [OF a1(2), of False h] g h by (auto simp: good_word_def stores_char)
  show ?thesis
    using a1(1) a2 h ih_loop_round [of cfg h a True]
    by (auto simp: ih_step_def set_vers_def split: option.splits)
qed

lemma step_eol1:
  assumes t: "at_text a (CR # LF # cs) e f (Some (l @ CR # LF # cs, room))" and bc: "ab_buffered a = [CR]"
    and h: "ih_state h = INHDRST_EOL1" "\<not> hh_need_lf h"
  shows "\<exists>a'. ih_loop cfg h a
       = ih_loop cfg (h\<lparr>ih_line1 := Some (strip_crlf (take room (l @ [CR]))), ih_state := INHDRST_KEY\<rparr>) a'
    \<and> at_text a' cs e f None"
proof -
  obtain con where con: "ab_mirror a = Some (take room con, room)" "l @ CR # LF # cs = con @ ab_unread a"
    using t by (auto simp: at_text_def mirror_of_def)
  have "ab_unread a = LF # cs" using t bc by (simp add: at_text_def ab_pending_unread)
  then have "con = l @ [CR]" using con(2) by (metis append.assoc append_Cons append_Nil append_same_eq)
  then have em: "end_mirror a = (strip_crlf (take room (l @ [CR])), a\<lparr>ab_mirror := None\<rparr>)"
    using con(1) by (simp add: end_mirror_def)
  let ?h = "h\<lparr>ih_line1 := Some (strip_crlf (take room (l @ [CR])))\<rparr>"
  have "at_text (a\<lparr>ab_mirror := None\<rparr>) (CR # LF # cs) e f None" using t by (simp add: at_text_def)
  from text_crlf [OF this, of ?h] h(2) obtain a' where
    a': "require_crlf ?h (a\<lparr>ab_mirror := None\<rparr>) = (ABUF_OK, ?h, a')" "at_text a' cs e f None" by auto
  then show ?thesis using em h(1) ih_loop_round [of cfg h a True] by (auto simp: ih_step_def)
qed

lemma step_key:
  assumes t: "at_text a (k @ CHR '':'' # cs) e f M" and g: "k \<noteq> []" "list_all (stores key_char) k" "length k < hh_endp h"
    and h: "ih_state h = INHDRST_KEY" "hh_scr h = []" "\<not> hh_need_lf h"
  shows "\<exists>a'. ih_loop cfg h a = ih_loop cfg (h\<lparr>hh_key := Some (map tolower k), ih_state := INHDRST_SPC3\<rparr>) a'
    \<and> at_text a' cs e f M"
proof -
  obtain c k' where c: "k = c # k'" "c \<noteq> CR" "c \<noteq> LF" using g by (cases k) (auto simp: stores_char)
  obtain a1 where a1: "gobble_crlf h a = (ABUF_NOMATCH, h, a1)" "at_text a1 (k @ CHR '':'' # cs) e f M"
    using text_no_crlf [of a c "k' @ CHR '':'' # cs" e f M h] t c h(3) by auto
  obtain a2 where "delimit_key h a1 = (ABUF_OK, Some (map tolower k), h, a2)" "at_text a2 cs e f M"
    using text_key [OF a1(2) g(2) h(2) g(3)] by blast
  then show ?thesis using a1(1) h(1) ih_loop_round [of cfg h a True] by (auto simp: ih_step_def)
qed

lemma step_spc3:
  assumes t: "at_text a (SPC # c # cs) e f M" and c: "\<not> is_hws c" and h: "ih_state h = INHDRST_SPC3"
  shows "\<exists>a'. ih_loop cfg h a = ih_loop cfg (h\<lparr>ih_state := INHDRST_VALUE\<rparr>) a' \<and> at_text a' (c # cs) e f M"
proof -
  from text_hws [of a "[SPC]" c cs e f M 0] t c obtain a' where
    "skip_hws 0 a = Some (ABUF_OK, a')" "at_text a' (c # cs) e f M" by (auto simp: is_hws_def)
  then show ?thesis using h ih_loop_round [of cfg h a True] by (auto simp: ih_step_def)
qed

text \<open>The object \<open>get_cookie\<close> allocates on the way.\<close>

definition touch_cookie :: "inhdr_conf \<Rightarrow> http_inhdr \<Rightarrow> http_inhdr" where
  "touch_cookie cfg h =
     (if ic_parse_cookies cfg then put_sub Sub_cookie (get_sub cfg Sub_cookie h) h else h)"

lemma touch_cookie_sel [simp]:
  "hh_scr (touch_cookie cfg h) = hh_scr h" "hh_endp (touch_cookie cfg h) = hh_endp h"
  "hh_key (touch_cookie cfg h) = hh_key h" "hh_val (touch_cookie cfg h) = hh_val h"
  "hh_noins (touch_cookie cfg h) = hh_noins h" "hh_need_lf (touch_cookie cfg h) = hh_need_lf h"
  "hh_nvers (touch_cookie cfg h) = hh_nvers h" "ih_tab (touch_cookie cfg h) = ih_tab h"
  "ih_state (touch_cookie cfg h) = ih_state h" "ih_tmthd (touch_cookie cfg h) = ih_tmthd h"
  "ih_target (touch_cookie cfg h) = ih_target h" "ih_vers (touch_cookie cfg h) = ih_vers h"
  "ih_line1 (touch_cookie cfg h) = ih_line1 h" "ih_sub (touch_cookie cfg h) = ih_sub h"
  "iscookie (touch_cookie cfg h) = iscookie h"
  by (simp_all add: touch_cookie_def put_sub_def Let_def iscookie_def)

lemma step_value:
  assumes t: "at_text a (v @ CR # cs) e f M" and g: "list_all (stores val_char) v" "length v < hh_endp h"
    and h: "ih_state h = INHDRST_VALUE" "hh_scr h = []" "\<not> (ic_parse_cookies cfg \<and> iscookie h)"
  shows "\<exists>a'. ih_loop cfg h a = ih_loop cfg ((touch_cookie cfg h)\<lparr>hh_val := Some v, ih_state := INHDRST_EOL2A\<rparr>) a'
    \<and> at_text a' (CR # cs) e f M"
proof -
  obtain a' where "delimit_val (touch_cookie cfg h) a = (ABUF_OK, Some v, touch_cookie cfg h, a')" "at_text a' (CR # cs) e f M"
    using text_val [OF t g(1), of "touch_cookie cfg h"] g(2) h(2) by auto
  moreover have "\<not> (ic_parse_cookies cfg \<and> iscookie (touch_cookie cfg h))" using h(3) by simp
  ultimately show ?thesis using h(1) ih_loop_round [of cfg h a True]
    by (auto simp: ih_step_def Let_def simp flip: touch_cookie_def)
qed

lemma step_eol2:
  assumes t: "at_text a (CR # LF # cs) e f M"
    and h: "ih_state h = INHDRST_EOL2A" "\<not> hh_noins h" "hh_key h = Some k" "\<not> hh_need_lf h"
  shows "\<exists>a'. ih_loop cfg h a
       = ih_loop cfg (h\<lparr>ih_tab := pt_insert (Some k) (hh_val h) True True (ih_tab h), hh_key := None, hh_val := None,
                        ih_state := INHDRST_KEY\<rparr>) a'
    \<and> at_text a' cs e f M"
proof -
  let ?h = "h\<lparr>ih_tab := pt_insert (Some k) (hh_val h) True True (ih_tab h), hh_key := None, hh_val := None,
              ih_state := INHDRST_EOL2B\<rparr>"
  have 1: "ih_loop cfg h a = ih_loop cfg ?h a"
    using h ih_loop_round [of cfg h a True] by (simp add: ih_step_def)
  from text_crlf [OF t, of ?h] h(4) obtain a' where "require_crlf ?h a = (ABUF_OK, ?h, a')" "at_text a' cs e f M" by auto
  then show ?thesis using 1 ih_loop_round [of cfg ?h a False] by (auto simp: ih_step_def)
qed

definition key_ready :: "http_inhdr \<Rightarrow> bool" where
  "key_ready h \<longleftrightarrow> ih_state h = INHDRST_KEY \<and> hh_scr h = [] \<and> \<not> hh_need_lf h \<and> \<not> hh_noins h"

text \<open>What the request line left in the object.\<close>

definition line_part :: "http_inhdr \<Rightarrow> (string option \<times> string option \<times> string option \<times> string option) \<times> nat \<times> nat" where
  "line_part h = ((ih_tmthd h, ih_target h, ih_vers h, ih_line1 h), hh_nvers h, hh_endp h)"

lemma map_tolower_idem [simp]: "map tolower (map tolower s) = map tolower s"
  by simp

lemma tolower_cookie: "map tolower ''cookie'' = ''cookie''"
  by code_simp

lemma run_header:
  assumes t: "at_text a (header_line (k, v) @ cs) e f M" and g: "good_header cfg (hh_endp h) (k, v)" and h: "key_ready h"
  shows "\<exists>h' a'. ih_loop cfg h a = ih_loop cfg h' a' \<and> at_text a' cs e f M \<and> key_ready h' \<and> line_part h' = line_part h
     \<and> ih_tab h' = pt_insert (Some (map tolower k)) (Some v) True True (ih_tab h)"
proof -
  have kr: "ih_state h = INHDRST_KEY" "hh_scr h = []" "\<not> hh_need_lf h" "\<not> hh_noins h" using h by (simp_all add: key_ready_def)
  have gk: "k \<noteq> []" "list_all (stores key_char) k" "length k < hh_endp h" "list_all (stores val_char) v"
    "length v < hh_endp h" "v \<noteq> [] \<longrightarrow> \<not> is_hws (hd v)" "\<not> (ic_parse_cookies cfg \<and> map tolower k = ''cookie'')"
    using g by (auto simp: good_header_def)
  have t1: "at_text a (k @ CHR '':'' # SPC # v @ CR # LF # cs) e f M" using t by (simp add: header_line_def)
  let ?h1 = "h\<lparr>hh_key := Some (map tolower k), ih_state := INHDRST_SPC3\<rparr>"
  obtain a1 where a1: "ih_loop cfg h a = ih_loop cfg ?h1 a1" "at_text a1 (SPC # v @ CR # LF # cs) e f M"
    using step_key [OF t1 gk(1-3) kr(1-3)] by blast
  obtain c vs where c: "v @ CR # LF # cs = c # vs" "\<not> is_hws c"
    using gk(6) by (cases v) (auto simp: is_hws_def)
  let ?h2 = "?h1\<lparr>ih_state := INHDRST_VALUE\<rparr>"
  obtain a2 where a2: "ih_loop cfg ?h1 a1 = ih_loop cfg ?h2 a2" "at_text a2 (v @ CR # LF # cs) e f M"
    using step_spc3 [of a1 c vs e f M ?h1 cfg] a1(2) c by auto
  have nc: "\<not> (ic_parse_cookies cfg \<and> iscookie ?h2)"
    using gk(7) tolower_cookie by (auto simp: iscookie_def)
  let ?h3 = "(touch_cookie cfg ?h2)\<lparr>hh_val := Some v, ih_state := INHDRST_EOL2A\<rparr>"
  obtain a3 where a3: "ih_loop cfg ?h2 a2 = ih_loop cfg ?h3 a3" "at_text a3 (CR # LF # cs) e f M"
    using step_value [OF a2(2) gk(4), of ?h2 cfg] gk(5) kr nc by auto
  let ?h4 = "?h3\<lparr>ih_tab := pt_insert (Some (map tolower k)) (hh_val ?h3) True True (ih_tab ?h3), hh_key := None, hh_val := None,
                        ih_state := INHDRST_KEY\<rparr>"
  obtain a4 where a4: "ih_loop cfg ?h3 a3 = ih_loop cfg ?h4 a4" "at_text a4 cs e f M"
    using step_eol2 [OF a3(2), of ?h3 "map tolower k" cfg] kr by auto
  show ?thesis
  proof (intro exI conjI)
    show "ih_loop cfg h a = ih_loop cfg ?h4 a4" using a1(1) a2(1) a3(1) a4(1) by simp
    show "at_text a4 cs e f M" by (rule a4(2))
  qed (use kr in \<open>simp_all add: key_ready_def line_part_def\<close>)
qed

lemma run_headers:
  assumes "at_text a (concat (map header_line hs) @ cs) e f M" and "\<forall>kv \<in> set hs. good_header cfg (hh_endp h) kv"
    and "key_ready h"
  shows "\<exists>h' a'. ih_loop cfg h a = ih_loop cfg h' a' \<and> at_text a' cs e f M \<and> key_ready h' \<and> line_part h' = line_part h
     \<and> ih_tab h' = fold (\<lambda>(k, v). pt_insert (Some k) (Some v) True True) (map (apfst (map tolower)) hs) (ih_tab h)"
  using assms
proof (induction hs arbitrary: a h)
  case (Cons kv hs)
  obtain k v where kv: "kv = (k, v)" by (cases kv)
  have "at_text a (header_line (k, v) @ concat (map header_line hs) @ cs) e f M"
    "good_header cfg (hh_endp h) (k, v)" using Cons.prems(1,2) kv by simp_all
  from run_header [OF this Cons.prems(3)]
  obtain h1 a1 where 1: "ih_loop cfg h a = ih_loop cfg h1 a1" "at_text a1 (concat (map header_line hs) @ cs) e f M"
     "key_ready h1" "line_part h1 = line_part h"
     "ih_tab h1 = pt_insert (Some (map tolower k)) (Some v) True True (ih_tab h)" by blast
  have "hh_endp h1 = hh_endp h" using 1(4) by (simp add: line_part_def)
  then have "\<forall>kv \<in> set hs. good_header cfg (hh_endp h1) kv" using Cons.prems(2) by simp
  from Cons.IH [OF 1(2) this 1(3)] 1 kv show ?case by auto
qed auto

lemma run_request_line:
  assumes t: "at_text a (request_line m t v @ CRLF @ cs) e f None" and bc: "\<not> ab_bc a"
    and g: "good_word (hh_endp h) False m" "good_word (hh_endp h) (ih_parse_qs h) t" "good_word (hh_endp h) False v"
    and h: "ih_state h = INHDRST_START" "hh_scr h = []" "\<not> hh_need_lf h" "\<not> hh_noins h"
  shows "\<exists>h' a'. ih_loop cfg h a = ih_loop cfg h' a' \<and> at_text a' cs e f None \<and> key_ready h' \<and> ih_tab h' = ih_tab h
     \<and> line_part h' = ((Some m, Some t, Some v, Some (strip_crlf (take (hh_scr2 h) (request_line m t v @ [CR])))),
          case vers_digit (Some v) of Some n \<Rightarrow> n | None \<Rightarrow> hh_nvers h, hh_endp h)"
proof -
  let ?T = "m @ SPC # t @ SPC # v @ CR # LF # cs"
  let ?M = "Some (?T, hh_scr2 h)"
  let ?h1 = "h\<lparr>ih_tmthd := Some m, ih_state := INHDRST_SPC1\<rparr>"
  have t0: "at_text a (m @ SPC # t @ SPC # v @ CR # LF # cs) e f None" using t by (simp add: request_line_def)
  obtain a1 where a1: "ih_loop cfg h a = ih_loop cfg ?h1 a1" "at_text a1 (SPC # t @ SPC # v @ CR # LF # cs) e f ?M"
    using step_start [OF t0 bc g(1) h(1,2)] by blast
  let ?h2 = "?h1\<lparr>ih_state := INHDRST_TARGET\<rparr>"
  obtain a2 where a2: "ih_loop cfg ?h1 a1 = ih_loop cfg ?h2 a2" "at_text a2 (t @ SPC # v @ CR # LF # cs) e f ?M"
    using step_spc1 [OF a1(2) g(2), of ?h1 cfg] by auto
  let ?h3 = "?h2\<lparr>ih_target := Some t, ih_state := INHDRST_SPC2\<rparr>"
  obtain a3 where a3: "ih_loop cfg ?h2 a2 = ih_loop cfg ?h3 a3" "at_text a3 (SPC # v @ CR # LF # cs) e f ?M"
    using step_target [OF a2(2), of ?h2 cfg] g(2) h by auto
  let ?h4 = "?h3\<lparr>ih_state := INHDRST_OPTPARAM\<rparr>"
  obtain a4 where a4: "ih_loop cfg ?h3 a3 = ih_loop cfg ?h4 a4" "at_text a4 (v @ CR # LF # cs) e f ?M"
    using step_spc2 [OF a3(2) g(3), of ?h3 cfg] by auto
  let ?h5 = "(set_vers v ?h4)\<lparr>ih_state := INHDRST_EOL1\<rparr>"
  obtain a5 where a5: "ih_loop cfg ?h4 a4 = ih_loop cfg ?h5 a5" "at_text a5 (CR # LF # cs) e f ?M" "ab_buffered a5 = [CR]"
    using step_optparam [OF a4(2), of ?h4 cfg] g(3) h by auto
  have t5: "at_text a5 (CR # LF # cs) e f (Some (request_line m t v @ CR # LF # cs, hh_scr2 h))"
    using a5(2) by (simp add: request_line_def)
  have nlf: "\<not> hh_need_lf ?h5" using h(3) by (simp add: set_vers_def split: option.splits)
  let ?h6 = "?h5\<lparr>ih_line1 := Some (strip_crlf (take (hh_scr2 h) (request_line m t v @ [CR]))), ih_state := INHDRST_KEY\<rparr>"
  obtain a6 where a6: "ih_loop cfg ?h5 a5 = ih_loop cfg ?h6 a6" "at_text a6 cs e f None"
    using step_eol1 [OF t5 a5(3) _ nlf, of cfg] by auto
  show ?thesis
  proof (intro exI conjI)
    show "ih_loop cfg h a = ih_loop cfg ?h6 a6" using a1(1) a2(1) a3(1) a4(1) a5(1) a6(1) by simp
    show "at_text a6 cs e f None" by (rule a6(2))
  qed (use h in \<open>simp_all add: key_ready_def line_part_def set_vers_def split: option.splits\<close>)
qed

lemma run_end:
  assumes t: "at_text a (CR # LF # body) e f M" and h: "key_ready h" and o: "\<not> abuf_overflow a"
  shows "\<exists>a'. ih_loop cfg h a = Some (Some HTTP_OK, fixup h, a') \<and> at_text a' body e f M"
proof -
  obtain a' where a': "gobble_crlf h a = (ABUF_OK, h, a')" "at_text a' body e f M"
    using text_crlf [OF t, of h] h by (auto simp: key_ready_def)
  have "src_flags (ab_src a') = src_flags (ab_src a)" using a'(2) t by (simp add: at_text_def)
  then have "\<not> abuf_overflow a'" using o src_flags_overflow by blast
  then show ?thesis
    using a' h by (subst ih_loop.simps) (auto simp: ih_step_def key_ready_def ih_finish_def http_status_defs)
qed

lemma to_int_vals: "to_int p = (r, p') \<Longrightarrow> p_vals p' = p_vals p \<and> p_key p' = p_key p"
  by (auto simp: to_int_def to_ints_def Let_def split: iv_state.splits prod.splits if_splits list.splits option.splits)

lemma pt_vals_lookup_int: "pt_lookup_int k t = (r, t') \<Longrightarrow> pt_vals t' k' = pt_vals t k'"
proof (cases "tab_find k t")
  case (Some p)
  assume "pt_lookup_int k t = (r, t')"
  then obtain p' where p': "to_int p = (r, p')" "t' = tab_update p' t"
    using Some by (auto simp: pt_lookup_int_def split: prod.splits)
  have "p_vals p' = p_vals p" "p_key p' = k" using to_int_vals [OF p'(1)] tab_find_Some [OF Some] by auto
  then show ?thesis using Some p'(2) by (auto simp: pt_vals_def tab_find_update split: option.splits)
qed (simp add: pt_lookup_int_def)

lemma fixup_sel:
  "pt_vals (ih_tab (fixup h)) k = pt_vals (ih_tab h) k" "line_part (fixup h) = line_part h"
  "ih_mthd (fixup h) = (case ih_tmthd h of Some m \<Rightarrow> method_lookup m | None \<Rightarrow> HTTP_MTHD_NONE)"
  by (auto simp: fixup_def Let_def line_part_def split: prod.splits dest: pt_vals_lookup_int)


text \<open>A request with two headers on a connection.\<close>

definition cfg_demo :: inhdr_conf where
  "cfg_demo = \<lparr>ic_cgi = cgi_conf_plain, ic_parse_cookies = True, ic_buflen_sml = 0x1000\<rparr>"


section \<open>Failures\<close>

lemma ih_loop_stop:
  "ih_step cfg h a = Some (Round r inc st, h1, a1) \<Longrightarrow> r \<noteq> ABUF_OK \<Longrightarrow> ih_loop cfg h a = Some (ih_finish r st h1 a1)"
  by (subst ih_loop.simps) simp

text \<open>
  The end of the connection before the first byte of a request: an error, unless the request
  is a later one of an HTTP/1.1 pipeline, where it is the orderly end; a connection that was cut
  for its size reports that.
\<close>
theorem eof_before_request:
  assumes "abuf_inv a" "ab_pending a = []" "ab_eos a = EOFCHAR"
    and "ih_state h = INHDRST_START" "hh_scr h = []" "0 < hh_endp h" "ih_sub h = None"
  shows "\<exists>h' a'. ih_guts cfg (set_reqno n pipelining prev h) a =
     Some (Some (if abuf_overflow a then HTTP_REQ_TOO_BIG
                 else if 1 < n \<and> pipelining \<and> prev = 1 then HTTP_PIPELINE_EOF else HTTP_BAD_REQUEST), h', a')"
proof -
  let ?h = "set_reqno n pipelining prev h" and ?a = "abuf_mirror (hh_scr2 h) a"
  have h: "ih_state ?h = INHDRST_START" "hh_scr ?h = []" "hh_endp ?h = hh_endp h" "hh_scr2 ?h = hh_scr2 h"
      "ih_sub ?h = None" "ih_pipeline_eof_ok ?h = (1 < n \<and> pipelining \<and> prev = 1)"
    using assms by (simp_all add: set_reqno_def)
  have a: "abuf_inv ?a" "ab_pending ?a = []" "ab_eos ?a = EOFCHAR" "word_char False (ab_eos ?a) = Halt ABUF_OK False"
      "abuf_overflow ?a = abuf_overflow a"
    using assms(1-3) by (simp_all add: abuf_mirror_def abuf_overflow_def)
  from pcp_loop_end [where body = "word_char False", OF a(1,2,4), of "[]" "hh_endp h" ABUF_OK WAITCHAR] assms(6) a(3)
  obtain a1 where a1: "pcp_loop (word_char False) (hh_endp h) [] ABUF_OK WAITCHAR ?a = ([], ABUF_OK, EOFCHAR, a1)" by auto
  have d: "delimit_word False ?h ?a = (ABUF_EOF, None, ?h\<lparr>hh_scr := []\<rparr>, a1)"
    using a1 h by (simp add: delimit_word_def)
  have "ab_keeps ?a a1" by (rule ab_keeps_tokens(1) [OF d a(1)])
  then have o: "abuf_overflow a1 = abuf_overflow a" using src_flags_overflow [of a1 ?a] a(5) by (simp add: ab_keeps_def)
  have "ih_step cfg ?h a = Some (go ABUF_EOF, ?h\<lparr>hh_scr := []\<rparr>, a1)" using d h by (simp add: ih_step_def)
  from ih_loop_stop [OF this] h o show ?thesis
    by (auto simp: ih_guts_def ih_finish_def clean_pipeline_eof_state_def http_status_defs)
qed

theorem eof_before_request_witness:
  "\<exists>h' a'. ih_guts cfg_demo (set_reqno 2 True 1 (inhdr_new True None None [] HTTP_MTHD_NONE xss_init)) (abuf_on_str [])
     = Some (Some HTTP_PIPELINE_EOF, h', a')"
proof -
  let ?h = "inhdr_new True None None [] HTTP_MTHD_NONE xss_init"
  have h: "ih_state ?h = INHDRST_START" "hh_scr ?h = []" "0 < hh_endp ?h" "ih_sub ?h = None"
    by (simp_all add: inhdr_new_def http_hdr_new_def HTTPHDR_DEF_SCRATCH_def http_hdr.extend_def)
  have "\<not> abuf_overflow (abuf_on_str [])" by (simp add: abuf_on_str_def abuf_new_def abuf_overflow_def)
  then show ?thesis
    using eof_before_request [OF abuf_on_str_init h, of cfg_demo 2 True 1] by simp
qed

lemma gobble_hdr: "gobble_crlf h a = (r, h', a') \<Longrightarrow> \<exists>b. h' = h\<lparr>hh_need_lf := b\<rparr>"
proof (induction h a rule: gobble_crlf.induct)
  case (1 h a)
  obtain ch1 a1 where g: "abuf_get a = (ch1, a1)" by (cases "abuf_get a")
  show ?case
    using 1(1) [OF g [symmetric] refl] 1(2) g
    by (auto simp: gobble_crlf.simps [of h a] split: abuf_ch.splits if_splits intro: exI [of _ "hh_need_lf h"])
qed

lemma get_mirror_None: "abuf_get a = (ch, a') \<Longrightarrow> ab_mirror a = None \<Longrightarrow> ab_mirror a' = None"
  by (auto simp: abuf_get_def got_char_def mirror_push_def Let_def split: if_splits)

lemma gobble_mirror: "gobble_crlf h a = (r, h', a') \<Longrightarrow> ab_mirror a = None \<Longrightarrow> ab_mirror a' = None"
proof (induction h a rule: gobble_crlf.induct)
  case (1 h a)
  obtain ch1 a1 where g: "abuf_get a = (ch1, a1)" by (cases "abuf_get a")
  show ?case
    using 1(1) [OF g [symmetric] refl] 1(2,3) g get_mirror_None [OF g]
    by (auto simp: gobble_crlf.simps [of h a] abuf_unget_def split: abuf_ch.splits if_splits)
qed

text \<open>
  The first line of the request is lost when its carriage return and its line feed arrive apart:
  the state that reads the end of the line takes the mirrored text first, and takes it again, empty,
  when it is entered a second time after the wait.
\<close>
theorem line1_lost:
  assumes "abuf_inv a" "ab_pending a = [CR]" "ab_eos a = WAITCHAR"
    and "ih_state h = INHDRST_EOL1" "\<not> hh_need_lf h" "ih_sub h = None"
  shows "\<exists>h1 a1. ih_guts cfg h a = Some (None, h1, a1) \<and> ih_line1 h1 = Some (fst (end_mirror a))
    \<and> (\<exists>r h2 a2. ih_step cfg h1 (abuf_feed q a1) = Some (r, h2, a2) \<and> ih_line1 h2 = Some [])"
proof -
  let ?a = "a\<lparr>ab_mirror := None\<rparr>" and ?h = "h\<lparr>ih_line1 := Some (fst (end_mirror a))\<rparr>"
  have em: "end_mirror a = (fst (end_mirror a), ?a)" by (simp add: end_mirror_def)
  have "abuf_inv ?a" "crlf_ref (hh_need_lf ?h) (ab_pending ?a) (ab_eos ?a) = (ABUF_WAIT, True, [])"
    using assms by simp_all
  from gobble_crlf_ref [OF this] obtain a1 where g: "gobble_crlf ?h ?a = (ABUF_WAIT, ?h\<lparr>hh_need_lf := True\<rparr>, a1)" by blast
  let ?h1 = "?h\<lparr>hh_need_lf := True\<rparr>"
  have "ih_step cfg h a = Some (go ABUF_WAIT, ?h1, a1)"
    using em g assms(4) by (cases "end_mirror a") (simp add: ih_step_def require_crlf_def)
  from ih_loop_stop [OF this] have 1: "ih_guts cfg h a = Some (None, ?h1, a1)"
    using assms(6) by (simp add: ih_guts_def ih_finish_def)
  have m: "ab_mirror a1 = None" using gobble_mirror [OF g] by simp
  obtain l2 a2 where e2: "end_mirror (abuf_feed q a1) = ([], a2)"
    using m by (simp add: end_mirror_def abuf_feed_def abuf_can_read_def strip_crlf_def)
  obtain r h2 a3 where r2: "require_crlf (?h1\<lparr>ih_line1 := Some []\<rparr>) a2 = (r, h2, a3)" by (metis prod_cases3)
  then have "ih_line1 h2 = Some []" by (auto simp: require_crlf_def split: prod.splits dest: gobble_hdr)
  moreover have "ih_step cfg ?h1 (abuf_feed q a1) = Some (go r, h2, a3)"
    using e2 r2 assms(4) by (simp add: ih_step_def)
  ultimately show ?thesis using 1 by auto
qed

theorem line1_lost_witness:
  "\<exists>h1 a1. ih_guts cfg_demo ((inhdr_new True None None [] HTTP_MTHD_NONE xss_init)\<lparr>ih_state := INHDRST_EOL1\<rparr>)
        (con_with [CR]) = Some (None, h1, a1)
    \<and> (\<exists>r h2 a2. ih_step cfg_demo h1 (abuf_feed [LF] a1) = Some (r, h2, a2) \<and> ih_line1 h2 = Some [])"
proof -
  let ?h = "(inhdr_new True None None [] HTTP_MTHD_NONE xss_init)\<lparr>ih_state := INHDRST_EOL1\<rparr>"
  have h: "ih_state ?h = INHDRST_EOL1" "\<not> hh_need_lf ?h" "ih_sub ?h = None"
    by (simp_all add: inhdr_new_def http_hdr_new_def http_hdr.extend_def)
  show ?thesis
    using line1_lost [OF con_with_laws [of "[CR]", simplified] h, of cfg_demo "[LF]"] by blast
qed

lemma key_ref:
  assumes "abuf_inv a" and "length (hh_scr h) \<le> hh_endp h"
    and "token_ref key_char (hh_endp h) (hh_scr h) (ab_pending a) (ab_eos a) = (r, tok, rest)"
  shows "\<exists>a'. delimit_key h a
    = (r, if r = ABUF_OK then Some tok else None, h\<lparr>hh_scr := if r = ABUF_OK then [] else tok\<rparr>, a')"
  unfolding delimit_key_def
  using assms(1,2) lexes_tokens(2) assms(3) by (rule end_token_ref) blast

text \<open>
  A header line with no colon is a parse error, but not when the data stops inside the name:
  then the end of the line that comes next is taken for the empty line that ends the head, and the
  request is accepted.
\<close>
theorem cut_header_accepted:
  assumes a: "abuf_inv a" "ab_pending a = k" "ab_eos a = WAITCHAR"
    and b: "abuf_inv b" "ab_pending b = CR # LF # rest" "\<not> abuf_overflow b"
    and w: "abuf_inv w" "ab_pending w = k @ CR # LF # rest" "\<not> abuf_overflow w"
    and k: "k \<noteq> []" "list_all (stores key_char) k" "length k < hh_endp h"
    and h: "ih_state h = INHDRST_KEY" "hh_scr h = []" "\<not> hh_need_lf h" "ih_sub h = None"
  shows "(\<exists>h1 a1 h2 b2. ih_guts cfg h a = Some (None, h1, a1) \<and> ih_guts cfg h1 b = Some (Some HTTP_OK, h2, b2))
    \<and> (\<exists>h3 w3. ih_guts cfg h w = Some (Some HTTP_BAD_REQUEST, h3, w3))"
proof
  obtain c k' where c: "k = c # k'" "c \<noteq> CR" "c \<noteq> LF" using k(1,2) by (cases k) (auto simp: stores_char)
  have cr: "crlf_ref (hh_need_lf h) (c # x) e = (ABUF_NOMATCH, False, c # x)" for x e using c h(3) by simp
  have hn: "h\<lparr>hh_need_lf := False\<rparr> = h" using h(3) by simp
  have s: "\<And>x. x \<in> set k \<Longrightarrow> stores key_char x" using k(2) by (simp add: list_all_iff)
  have tw: "takeWhile (stores key_char) k = k" "dropWhile (stores key_char) k = []"
    using s by (simp_all add: takeWhile_eq_all_conv dropWhile_eq_Nil_conv)
  have le: "length (hh_scr h) \<le> hh_endp h" using h(2) by simp
  obtain a1 where a1: "gobble_crlf h a = (ABUF_NOMATCH, h, a1)" "abuf_inv a1" "ab_pending a1 = k" "ab_eos a1 = WAITCHAR"
    using gobble_crlf_ref [OF a(1), of h] cr a c hn by auto
  let ?tok = "map (stored key_char) k"
  have "token_ref key_char (hh_endp h) (hh_scr h) (ab_pending a1) (ab_eos a1) = (ABUF_WAIT, ?tok, [])"
    using a1(3,4) h(2) k(3) by (simp add: token_ref_def tw)
  from key_ref [OF a1(2) le this] obtain a2 where
    a2: "delimit_key h a1 = (ABUF_WAIT, None, h\<lparr>hh_scr := ?tok\<rparr>, a2)" by auto
  let ?h1 = "h\<lparr>hh_scr := ?tok\<rparr>"
  have "ih_step cfg h a = Some (go ABUF_WAIT, ?h1, a2)" using a1 a2 h(1) by (simp add: ih_step_def)
  from ih_loop_stop [OF this] h(4) have 1: "ih_guts cfg h a = Some (None, ?h1, a2)"
    by (simp add: ih_guts_def ih_finish_def)
  obtain b1 where b1: "gobble_crlf ?h1 b = (ABUF_OK, ?h1\<lparr>hh_need_lf := False\<rparr>, b1)"
    using gobble_crlf_ref [OF b(1), of ?h1 ABUF_OK False rest] b(2) h(3) by auto
  have "\<not> abuf_overflow b1"
    using ab_keeps_gobble [OF b1 b(1)] b(3) src_flags_overflow [of b1 b] by (simp add: ab_keeps_def)
  then have "ih_guts cfg ?h1 b = Some (Some HTTP_OK, fixup (?h1\<lparr>hh_need_lf := False\<rparr>), b1)"
    using b1 h(1,4) ih_loop_stop [of cfg ?h1 b ABUF_EOF True HTTP_OK]
    by (simp add: ih_guts_def ih_step_def ih_finish_def http_status_defs)
  with 1 show "\<exists>h1 a1 h2 b2. ih_guts cfg h a = Some (None, h1, a1) \<and> ih_guts cfg h1 b = Some (Some HTTP_OK, h2, b2)"
    by blast
  obtain w1 where w1: "gobble_crlf h w = (ABUF_NOMATCH, h, w1)" "abuf_inv w1" "ab_pending w1 = k @ CR # LF # rest"
    using gobble_crlf_ref [OF w(1), of h] cr w c hn by auto
  have "token_ref key_char (hh_endp h) (hh_scr h) (ab_pending w1) (ab_eos w1) = (ABUF_PARSE_ERR, ?tok, LF # rest)"
    using token_ref_stop [OF k(2), of CR ABUF_PARSE_ERR False "[]" "hh_endp h"] w1(3) h(2) k(3) by simp
  from key_ref [OF w1(2) le this] obtain w2 where
    w2: "delimit_key h w1 = (ABUF_PARSE_ERR, None, ?h1, w2)" by auto
  have "ih_step cfg h w = Some (go ABUF_PARSE_ERR, ?h1, w2)" using w1 w2 h(1) by (simp add: ih_step_def)
  from ih_loop_stop [OF this] h(4) show "\<exists>h3 w3. ih_guts cfg h w = Some (Some HTTP_BAD_REQUEST, h3, w3)"
    by (simp add: ih_guts_def ih_finish_def http_status_defs)
qed

theorem cut_header_accepted_witness:
  "let h = (inhdr_new True None None [] HTTP_MTHD_NONE xss_init)\<lparr>ih_state := INHDRST_KEY\<rparr>
   in (\<exists>h1 a1 h2 b2. ih_guts cfg_demo h (con_with ''hos'') = Some (None, h1, a1)
          \<and> ih_guts cfg_demo h1 (abuf_on_str [CR, LF]) = Some (Some HTTP_OK, h2, b2))
    \<and> (\<exists>h3 w3. ih_guts cfg_demo h (abuf_on_str (''hos'' @ [CR, LF])) = Some (Some HTTP_BAD_REQUEST, h3, w3))"
proof -
  let ?h = "(inhdr_new True None None [] HTTP_MTHD_NONE xss_init)\<lparr>ih_state := INHDRST_KEY\<rparr>"
  have h: "ih_state ?h = INHDRST_KEY" "hh_scr ?h = []" "\<not> hh_need_lf ?h" "ih_sub ?h = None"
    and k: "''hos'' \<noteq> []" "list_all (stores key_char) ''hos''" "length ''hos'' < hh_endp ?h"
    by (simp_all add: inhdr_new_def http_hdr_new_def http_hdr.extend_def stores_char HTTPHDR_DEF_SCRATCH_def)
  have o: "\<not> abuf_overflow (abuf_on_str x)" for x by (simp add: abuf_on_str_def abuf_new_def abuf_overflow_def)
  show ?thesis unfolding Let_def
    by (rule cut_header_accepted [OF con_with_laws [of "''hos''", simplified] abuf_on_str_init(1,2) o
          abuf_on_str_init(1) _ o k h]) (simp add: abuf_on_str_init)
qed

end
