(* ===== verification/Kmp.thy ===== *)
theory Kmp
  imports Prelude "HOL-Library.Sublist"
begin

text \<open>
  The streaming string matcher the multipart parser looks for boundaries with:
  \<^verbatim>\<open>src/libahttp/kmp.h\<close> and \<^verbatim>\<open>src/libahttp/kmp.C\<close>.  Reads of the pattern (a C string with its
  terminating NUL) and of the table \<^verbatim>\<open>_pi\<close> outside their bounds are the value \<open>None\<close>, as
  is a loop that does not end, so that a \<open>Some\<close> result says the matcher returned and stayed
  in bounds.
\<close>

section \<open>The matcher\<close>

record kmp_matcher =
  kmp_ci :: bool
  kmp_pattern :: string
  kmp_pi :: "nat list"
  kmp_q :: nat

definition pp_at :: "string \<Rightarrow> nat \<Rightarrow> char option" where
  "pp_at P i = (if i < length P then Some (P ! i) else if i = length P then Some NUL else None)"

definition pi_at :: "nat list \<Rightarrow> nat \<Rightarrow> nat option" where
  "pi_at pi i = (if i < length pi then Some (pi ! i) else None)"

text \<open>The loop that falls back along the table, shared by \<^verbatim>\<open>preproc\<close> and \<^verbatim>\<open>match\<close>.\<close>

partial_function (option) kmp_back :: "string \<Rightarrow> nat list \<Rightarrow> char \<Rightarrow> nat \<Rightarrow> nat option" where
  "kmp_back P pi c q =
     (if 0 < q then
        Option.bind (pp_at P q) (\<lambda>d.
          if d \<noteq> c then Option.bind (pi_at pi (q - 1)) (kmp_back P pi c) else Some q)
      else Some q)"

declare kmp_back.simps [code]

text \<open>The conditional increment after the loop.\<close>

definition kmp_advance :: "string \<Rightarrow> char \<Rightarrow> nat \<Rightarrow> nat option" where
  "kmp_advance P c q = Option.bind (pp_at P q) (\<lambda>d. Some (if d = c then q + 1 else q))"

function preproc_loop :: "string \<Rightarrow> nat \<Rightarrow> nat \<Rightarrow> nat list \<Rightarrow> nat list option" where
  "preproc_loop P q_tmp k pi =
     (if q_tmp < length P then
        Option.bind (pp_at P q_tmp) (\<lambda>c.
        Option.bind (kmp_back P pi c k) (\<lambda>k1.
        Option.bind (kmp_advance P c k1) (\<lambda>k2.
          preproc_loop P (q_tmp + 1) k2 (pi[q_tmp := k2]))))
      else Some pi)"
  by pat_completeness auto
termination by (relation "measure (\<lambda>(P, q_tmp, _, _). length P - q_tmp)") auto

declare preproc_loop.simps [simp del]

definition preproc :: "string \<Rightarrow> nat list option" where
  "preproc P = preproc_loop P 1 0 (replicate (length P) 0)"

definition kmp_fold :: "bool \<Rightarrow> char \<Rightarrow> char" where
  "kmp_fold ci c = (if ci then tolower c else c)"

definition kmp_new :: "bool \<Rightarrow> string \<Rightarrow> kmp_matcher option" where
  "kmp_new ci s =
     (let P = map (kmp_fold ci) s in
      Option.bind (preproc P) (\<lambda>pi.
        Some \<lparr>kmp_ci = ci, kmp_pattern = P, kmp_pi = pi, kmp_q = 0\<rparr>))"

definition kmp_reset :: "kmp_matcher \<Rightarrow> kmp_matcher" where
  "kmp_reset m = m\<lparr>kmp_q := 0\<rparr>"

definition kmp_match :: "char \<Rightarrow> kmp_matcher \<Rightarrow> (bool \<times> kmp_matcher) option" where
  "kmp_match c m =
     (let c = kmp_fold (kmp_ci m) c; P = kmp_pattern m in
      Option.bind (kmp_back P (kmp_pi m) c (kmp_q m)) (\<lambda>q1.
      Option.bind (kmp_advance P c q1) (\<lambda>q2.
        if q2 = length P
        then (if q2 = 0 then None
              else Option.bind (pi_at (kmp_pi m) (q2 - 1)) (\<lambda>q3. Some (True, m\<lparr>kmp_q := q3\<rparr>)))
        else Some (False, m\<lparr>kmp_q := q2\<rparr>))))"

text \<open>A text fed to the matcher one character at a time.\<close>

primrec kmp_run :: "string \<Rightarrow> kmp_matcher \<Rightarrow> (bool list \<times> kmp_matcher) option" where
  "kmp_run [] m = Some ([], m)"
| "kmp_run (c # cs) m =
     Option.bind (kmp_match c m) (\<lambda>(b, m').
     Option.bind (kmp_run cs m') (\<lambda>(bs, m''). Some (b # bs, m'')))"

section \<open>Longest matches\<close>

text \<open>\<open>k\<close> is the length of the longest proper prefix of \<open>P\<close> that the text \<open>t\<close> ends with.\<close>

definition longest :: "string \<Rightarrow> string \<Rightarrow> nat \<Rightarrow> bool" where
  "longest P t k \<longleftrightarrow> k < length P \<and> suffix (take k P) t
     \<and> (\<forall>j < length P. suffix (take j P) t \<longrightarrow> j \<le> k)"

text \<open>The first \<open>n\<close> entries of the table are the longest borders of the prefixes of \<open>P\<close>.\<close>

definition borders :: "string \<Rightarrow> nat list \<Rightarrow> nat \<Rightarrow> bool" where
  "borders P pi n \<longleftrightarrow> length pi = length P
     \<and> (\<forall>i < n. i < length P \<longrightarrow> longest P (drop 1 (take (i + 1) P)) (pi ! i))"

declare suffix_snoc [simp del]

lemma suffix_take_snoc:
  "j < length P \<Longrightarrow> suffix (take (Suc j) P) (t @ [c]) \<longleftrightarrow> suffix (take j P) t \<and> P ! j = c"
  by (auto simp: take_Suc_conv_app_nth suffix_snoc)

lemma suffix_within:
  assumes "suffix xs t" "suffix ys t" "length xs \<le> length ys"
  shows "suffix xs ys"
  using assms suffix_length_suffix by blast

lemma suffix_drop1:
  assumes "suffix xs ys" "length xs < length ys"
  shows "suffix xs (drop 1 ys)"
  using assms by (cases ys) (auto simp: suffix_Cons)

lemma longest_0: "P \<noteq> [] \<Longrightarrow> longest P [] 0"
  by (auto simp: longest_def)

lemma longest_short:
  assumes "longest P (drop 1 (take n P)) k" "0 < n"
  shows "k < n"
proof -
  have "length (take k P) \<le> length (drop 1 (take n P))"
    using assms(1) suffix_length_le unfolding longest_def by blast
  then show ?thesis
    using assms unfolding longest_def by simp
qed

text \<open>Two matches of the same text: the shorter is a border of the longer.\<close>

lemma border_of_match:
  assumes "suffix (take j P) t" "suffix (take q P) t" "j < q" "q \<le> length P"
  shows "suffix (take j P) (drop 1 (take q P))"
proof (rule suffix_drop1)
  show "suffix (take j P) (take q P)"
    by (rule suffix_within[OF assms(1,2)]) (use assms(3,4) in simp)
  show "length (take j P) < length (take q P)"
    using assms(3,4) by simp
qed

lemma kmp_back_spec:
  assumes "borders P pi q" "q < length P" "suffix (take q P) t"
    and "\<And>j. q < j \<Longrightarrow> j < length P \<Longrightarrow> suffix (take j P) t \<Longrightarrow> P ! j \<noteq> c"
  shows "\<exists>r. kmp_back P pi c q = Some r \<and> r \<le> q \<and> suffix (take r P) t \<and> (r = 0 \<or> P ! r = c)
    \<and> (\<forall>j. r < j \<and> j < length P \<and> suffix (take j P) t \<longrightarrow> P ! j \<noteq> c)"
  using assms
proof (induction q rule: less_induct)
  case (less q)
  show ?case
  proof (cases "0 < q \<and> P ! q \<noteq> c")
    case False
    then show ?thesis
      using less.prems by (subst kmp_back.simps) (auto simp: pp_at_def)
  next
    case True
    define r where "r = pi ! (q - 1)"
    have len: "length pi = length P" using less.prems(1) by (simp add: borders_def)
    have lng: "longest P (drop 1 (take q P)) r"
      using less.prems(1,2) True unfolding borders_def r_def by (metis Suc_eq_plus1 Suc_pred' diff_less less_imp_diff_less zero_less_one)
    then have "r < q" using longest_short True by blast
    have sub: "suffix (drop 1 (take q P)) (take q P)" by (simp add: suffix_drop)
    then have suf: "suffix (take r P) t"
      using lng less.prems(3) unfolding longest_def by (meson suffix_order.trans)
    have "\<And>j. r < j \<Longrightarrow> j < length P \<Longrightarrow> suffix (take j P) t \<Longrightarrow> P ! j \<noteq> c"
    proof -
      fix j assume j: "r < j" "j < length P" "suffix (take j P) t"
      have "\<not> j < q"
        using border_of_match[OF j(3) less.prems(3)] lng j less.prems(2) unfolding longest_def
        by (meson less_imp_le not_less)
      then show "P ! j \<noteq> c"
        using True j less.prems(4)[of j] by (cases "j = q") auto
    qed
    moreover have "borders P pi r" using less.prems(1) \<open>r < q\<close> by (auto simp: borders_def)
    moreover have "kmp_back P pi c q = kmp_back P pi c r"
      using True less.prems(2) len by (subst kmp_back.simps) (auto simp: pp_at_def pi_at_def r_def)
    ultimately show ?thesis
      using less.IH[OF \<open>r < q\<close>] suf \<open>r < q\<close> less.prems(2) by fastforce
  qed
qed

text \<open>One round of either loop: the match length for the text extended by \<open>c\<close>.\<close>

lemma kmp_round:
  assumes "borders P pi q" "longest P t q"
  obtains r k where "kmp_back P pi c q = Some r" "kmp_advance P c r = Some k"
    "k \<le> length P" "suffix (take k P) (t @ [c])"
    "\<And>j. j \<le> length P \<Longrightarrow> suffix (take j P) (t @ [c]) \<Longrightarrow> j \<le> k"
proof -
  have q: "q < length P" "suffix (take q P) t" "\<And>j. q < j \<Longrightarrow> j < length P \<Longrightarrow> \<not> suffix (take j P) t"
    using assms(2) by (auto simp: longest_def)
  obtain r where r: "kmp_back P pi c q = Some r" "r \<le> q" "suffix (take r P) t" "r = 0 \<or> P ! r = c"
      "\<forall>j. r < j \<and> j < length P \<and> suffix (take j P) t \<longrightarrow> P ! j \<noteq> c"
    using kmp_back_spec[OF assms(1) q(1,2)] q(3) by blast
  define k where "k = (if P ! r = c then r + 1 else r)"
  have "r < length P" using r(2) q(1) by simp
  then have adv: "kmp_advance P c r = Some k" by (simp add: kmp_advance_def pp_at_def k_def)
  have max: "j \<le> k" if "j \<le> length P" "suffix (take j P) (t @ [c])" for j
  proof (cases j)
    case (Suc i)
    then have "suffix (take i P) t" "P ! i = c" "i < length P"
      using that suffix_take_snoc[of i P t c] by auto
    then have "i \<le> r" using r(5) not_less by blast
    then show ?thesis using r(4) \<open>P ! i = c\<close> by (auto simp: Suc k_def)
  qed simp
  have "suffix (take k P) (t @ [c])"
    using r(3,4) \<open>r < length P\<close> by (auto simp: k_def suffix_take_snoc)
  then show ?thesis
    using that[OF r(1) adv] max \<open>r < length P\<close> by (simp add: k_def)
qed

lemma preproc_loop_spec:
  assumes "borders P pi n" "0 < n" "n \<le> length P" "longest P (drop 1 (take n P)) k"
  shows "\<exists>pi'. preproc_loop P n k pi = Some pi' \<and> borders P pi' (length P)"
  using assms
proof (induction "length P - n" arbitrary: n k pi)
  case 0
  then show ?case by (subst preproc_loop.simps) auto
next
  case (Suc m)
  then have n: "n < length P" by simp
  define c where "c = P ! n"
  have "k < n" using longest_short Suc.prems by blast
  then have "borders P pi k" using Suc.prems(1) by (auto simp: borders_def)
  then obtain r k' where rk: "kmp_back P pi c k = Some r" "kmp_advance P c r = Some k'"
      "k' \<le> length P" "suffix (take k' P) (drop 1 (take n P) @ [c])"
      "\<And>j. j \<le> length P \<Longrightarrow> suffix (take j P) (drop 1 (take n P) @ [c]) \<Longrightarrow> j \<le> k'"
    using kmp_round[OF _ Suc.prems(4)] by metis
  have t: "drop 1 (take n P) @ [c] = drop 1 (take (Suc n) P)"
    using n Suc.prems(2) by (simp add: take_Suc_conv_app_nth c_def)
  have "length (take k' P) \<le> length (drop 1 (take (Suc n) P))"
    using rk(4) suffix_length_le unfolding t by blast
  then have "k' < length P" using n rk(3) by simp
  then have lng: "longest P (drop 1 (take (Suc n) P)) k'"
    using rk(4,5) unfolding t by (simp add: longest_def)
  have "borders P (pi[n := k']) (Suc n)"
    using Suc.prems(1) lng n by (auto simp: borders_def nth_list_update less_Suc_eq)
  then have "\<exists>pi'. preproc_loop P (Suc n) k' (pi[n := k']) = Some pi' \<and> borders P pi' (length P)"
    using Suc.hyps n lng by auto
  moreover have "preproc_loop P n k pi = preproc_loop P (Suc n) k' (pi[n := k'])"
    using n rk(1,2) by (subst preproc_loop.simps) (simp add: pp_at_def c_def)
  ultimately show ?case by simp
qed

lemma preproc_spec:
  assumes "P \<noteq> []"
  shows "\<exists>pi. preproc P = Some pi \<and> borders P pi (length P)"
proof -
  have "borders P (replicate (length P) 0) 1"
    using assms longest_0 by (auto simp: borders_def)
  then show ?thesis
    unfolding preproc_def using assms longest_0
    by (intro preproc_loop_spec) (auto simp: Suc_le_eq take_Suc)
qed

section \<open>Invariant\<close>

text \<open>\<open>kmp_inv t m\<close>: the matcher \<open>m\<close> has read the (case-folded) text \<open>t\<close>.\<close>

definition kmp_inv :: "string \<Rightarrow> kmp_matcher \<Rightarrow> bool" where
  "kmp_inv t m \<longleftrightarrow> borders (kmp_pattern m) (kmp_pi m) (length (kmp_pattern m))
     \<and> longest (kmp_pattern m) t (kmp_q m)"

lemma kmp_match_inv:
  assumes "kmp_inv t m"
  shows "\<exists>m'. kmp_match c m = Some (suffix (kmp_pattern m) (t @ [kmp_fold (kmp_ci m) c]), m')
    \<and> kmp_inv (t @ [kmp_fold (kmp_ci m) c]) m'
    \<and> kmp_pattern m' = kmp_pattern m \<and> kmp_ci m' = kmp_ci m"
proof -
  let ?P = "kmp_pattern m" and ?pi = "kmp_pi m" and ?c = "kmp_fold (kmp_ci m) c"
  have b: "borders ?P ?pi (length ?P)" and l: "longest ?P t (kmp_q m)"
    using assms by (auto simp: kmp_inv_def)
  then have "borders ?P ?pi (kmp_q m)" "?P \<noteq> []" by (auto simp: borders_def longest_def)
  then obtain r k where rk: "kmp_back ?P ?pi ?c (kmp_q m) = Some r" "kmp_advance ?P ?c r = Some k"
      "k \<le> length ?P" "suffix (take k ?P) (t @ [?c])"
      "\<And>j. j \<le> length ?P \<Longrightarrow> suffix (take j ?P) (t @ [?c]) \<Longrightarrow> j \<le> k"
    using kmp_round[OF _ l] by metis
  show ?thesis
  proof (cases "k = length ?P")
    case False
    then have "\<not> suffix ?P (t @ [?c])" using rk(3) rk(5)[of "length ?P"] by auto
    moreover have "longest ?P (t @ [?c]) k" using rk False by (auto simp: longest_def)
    ultimately show ?thesis using rk(1,2) False b by (simp add: kmp_match_def kmp_inv_def)
  next
    case True
    let ?q = "?pi ! (length ?P - 1)"
    have "length ?P - 1 < length ?P" "length ?P - 1 + 1 = length ?P" using \<open>?P \<noteq> []\<close> by auto
    then have q: "longest ?P (drop 1 ?P) ?q"
      using b unfolding borders_def by (metis order_refl take_all)
    have sP: "suffix ?P (t @ [?c])" using rk(4) True by simp
    have "longest ?P (t @ [?c]) ?q"
      unfolding longest_def
    proof (intro conjI allI impI)
      show "?q < length ?P" using q by (simp add: longest_def)
      show "suffix (take ?q ?P) (t @ [?c])"
        using q sP unfolding longest_def by (meson suffix_drop suffix_order.trans)
      fix j assume "j < length ?P" "suffix (take j ?P) (t @ [?c])"
      then show "j \<le> ?q"
        using border_of_match[of j ?P "t @ [?c]" "length ?P"] sP q by (simp add: longest_def)
    qed
    then show ?thesis
      using rk(1,2) True b sP \<open>?P \<noteq> []\<close> by (simp add: kmp_match_def kmp_inv_def pi_at_def borders_def)
  qed
qed

lemma kmp_run_inv:
  assumes "kmp_inv t m"
  shows "\<exists>m'. kmp_run s m = Some (map (\<lambda>i. suffix (kmp_pattern m)
      (t @ map (kmp_fold (kmp_ci m)) (take (Suc i) s))) [0..<length s], m')
    \<and> kmp_inv (t @ map (kmp_fold (kmp_ci m)) s) m'"
  using assms
proof (induction s arbitrary: t m)
  case (Cons c s)
  obtain m' where m': "kmp_match c m = Some (suffix (kmp_pattern m) (t @ [kmp_fold (kmp_ci m) c]), m')"
      "kmp_inv (t @ [kmp_fold (kmp_ci m) c]) m'" "kmp_pattern m' = kmp_pattern m" "kmp_ci m' = kmp_ci m"
    using kmp_match_inv[OF Cons.prems] by blast
  show ?case
    using Cons.IH[OF m'(2)] m'(1,3,4) by (auto simp: upt_conv_Cons map_Suc_upt[symmetric] simp del: upt_Suc)
qed simp

lemma kmp_new_inv:
  assumes "s \<noteq> []"
  shows "\<exists>m. kmp_new ci s = Some m \<and> kmp_inv [] m
    \<and> kmp_pattern m = map (kmp_fold ci) s \<and> kmp_ci m = ci"
proof -
  obtain pi where "preproc (map (kmp_fold ci) s) = Some pi"
      "borders (map (kmp_fold ci) s) pi (length (map (kmp_fold ci) s))"
    using preproc_spec assms by blast
  then show ?thesis
    using assms longest_0 by (simp add: kmp_new_def kmp_inv_def)
qed

lemma kmp_reset_inv: "kmp_inv t m \<Longrightarrow> kmp_inv [] (kmp_reset m)"
  using longest_0 by (auto simp: kmp_inv_def kmp_reset_def longest_def)

section \<open>Properties\<close>

text \<open>
  C21.  For every non-empty pattern, the constructor builds its table, and feeding any text to
  \<^verbatim>\<open>match\<close> returns at every character, stays within the pattern and the table, and answers true
  exactly when the text read so far ends with the pattern (both case-folded in the
  case-insensitive mode).
\<close>

theorem kmp_match_iff_suffix:
  assumes "pat \<noteq> []"
  shows "\<exists>m m'. kmp_new ci pat = Some m \<and>
    kmp_run w m = Some (map (\<lambda>i. suffix (map (kmp_fold ci) pat)
      (map (kmp_fold ci) (take (Suc i) w))) [0..<length w], m')"
proof -
  obtain m where m: "kmp_new ci pat = Some m" "kmp_inv [] m"
      "kmp_pattern m = map (kmp_fold ci) pat" "kmp_ci m = ci"
    using kmp_new_inv[OF assms] by blast
  show ?thesis
    using kmp_run_inv[OF m(2), of w] m(1,3,4) by auto
qed

theorem kmp_match_iff_suffix_witness:
  "(\<exists>m'. Option.bind (kmp_new True ''AbA'') (kmp_run ''abABa'')
      = Some ([False, False, True, False, True], m'))"
proof -
  have "map (\<lambda>i. suffix (map (kmp_fold True) ''AbA'')
      (map (kmp_fold True) (take (Suc i) ''abABa''))) [0..<length ''abABa'']
    = [False, False, True, False, True]"
    by code_simp
  then show ?thesis
    using kmp_match_iff_suffix[of "''AbA''" True "''abABa''"] by force
qed

end
