(* ===== verification/Mpfd.thy ===== *)
theory Mpfd
  imports InHdr Kmp
begin

text \<open>
  Multipart form data, \<^verbatim>\<open>src/libahttp/mpfd.h\<close> and \<^verbatim>\<open>src/libahttp/mpfd.C\<close>: the parser of a
  \<^verbatim>\<open>Content-Disposition\<close> header (\<open>contdisp\<close>) nested in the parser of the parts (\<open>mpfd\<close>), which looks
  for boundaries with the matcher of theory \<open>Kmp\<close>.  The expression \<^verbatim>\<open>multipart_rxx\<close> is the argument \<open>rxx\<close>,
  its first group where it matches.  A result carries the status given to \<^verbatim>\<open>finish_parse\<close>, or none
  while the parser waits; \<open>None\<close> is a call that does not return, or a failed assertion.
\<close>

section \<open>Content-Disposition\<close>

datatype contdisp_type = CONTDISP_NONE | CONTDISP_FORMDAT | CONTDISP_ATTACH

datatype contdisp_state =
    CONTDISP_START | CONTDISP_SEP1 | CONTDISP_NAME_KEY | CONTDISP_NAME_VAL | CONTDISP_SEP2A
  | CONTDISP_SEP2B | CONTDISP_SEP2C | CONTDISP_FILENAME_KEY | CONTDISP_FILENAME_VAL | CONTDISP_PAST

fun cd_inc :: "contdisp_state \<Rightarrow> contdisp_state" where
  "cd_inc CONTDISP_START = CONTDISP_SEP1"
| "cd_inc CONTDISP_SEP1 = CONTDISP_NAME_KEY"
| "cd_inc CONTDISP_NAME_KEY = CONTDISP_NAME_VAL"
| "cd_inc CONTDISP_NAME_VAL = CONTDISP_SEP2A"
| "cd_inc CONTDISP_SEP2A = CONTDISP_SEP2B"
| "cd_inc CONTDISP_SEP2B = CONTDISP_SEP2C"
| "cd_inc CONTDISP_SEP2C = CONTDISP_FILENAME_KEY"
| "cd_inc CONTDISP_FILENAME_KEY = CONTDISP_FILENAME_VAL"
| "cd_inc CONTDISP_FILENAME_VAL = CONTDISP_PAST"
| "cd_inc CONTDISP_PAST = CONTDISP_PAST"

text \<open>\<open>cd_fail\<close>: a string was built with a length that is not one.\<close>

record contdisp = http_hdr +
  cd_typ :: contdisp_type
  cd_name :: "string option"
  cd_filename :: "string option"
  cd_state :: contdisp_state
  cd_typ_scr :: "string option"
  cd_filename_scr :: "string option"
  cd_parsing :: bool
  cd_dataready :: bool
  cd_fail :: bool

definition contdisp_new :: "nat \<Rightarrow> nat option \<Rightarrow> string \<Rightarrow> contdisp" where
  "contdisp_new s cm fm =
     http_hdr.extend (http_hdr_new (Some s) cm fm)
       \<lparr>cd_typ = CONTDISP_NONE, cd_name = None, cd_filename = None, cd_state = CONTDISP_START,
        cd_typ_scr = None, cd_filename_scr = None, cd_parsing = False, cd_dataready = False, cd_fail = False\<rparr>"

definition cd_reset :: "contdisp \<Rightarrow> abuf \<Rightarrow> contdisp \<times> abuf" where
  "cd_reset c a =
     (let (c1, a1) = hdr_reset c a
      in (c1\<lparr>cd_parsing := False, cd_dataready := False, cd_typ := CONTDISP_NONE, cd_name := None,
             cd_filename := None, cd_state := CONTDISP_START\<rparr>, a1))"

text \<open>\<^verbatim>\<open>mystrcmp\<close>: equality of C strings.\<close>

definition mystrcmp :: "string \<Rightarrow> string \<Rightarrow> bool" where
  "mystrcmp s t \<longleftrightarrow> cstr s = cstr t"

text \<open>The two literals, by address.\<close>

definition lit_name :: "nat \<times> string" where "lit_name = (1, ''name='' @ [DQ])"
definition lit_filename :: "nat \<times> string" where "lit_filename = (2, ''filename='' @ [DQ])"

text \<open>One round of the loop: the status, whether the loop is to go on, and the new state.\<close>

definition cd_step :: "contdisp \<Rightarrow> abuf \<Rightarrow> (abuf_stat \<times> bool \<times> contdisp \<times> abuf) option" where
  "cd_step c a =
     (case cd_state c of
        CONTDISP_START \<Rightarrow>
          let (r, w, c1, a1) = delimit (CHR '';'') True True c a
          in Some (r, True, if w = None then c1 else c1\<lparr>cd_typ_scr := w\<rparr>, a1)
      | CONTDISP_SEP1 \<Rightarrow>
          map_option (\<lambda>(r, a1).
            let t = (case cd_typ_scr c of Some s \<Rightarrow> s | None \<Rightarrow> [])
            in (r, True,
                if mystrcmp t ''form-data'' then c\<lparr>cd_typ := CONTDISP_FORMDAT\<rparr>
                else if mystrcmp t ''attachment''
                then c\<lparr>cd_state := CONTDISP_FILENAME_KEY, cd_typ := CONTDISP_ATTACH\<rparr>
                else c, a1)) (skip_hws 1 a)
      | CONTDISP_NAME_KEY \<Rightarrow>
          let (r, c1, a1) = force_match (fst lit_name) (snd lit_name) True c a in Some (r, True, c1, a1)
      | CONTDISP_NAME_VAL \<Rightarrow>
          let (r, w, c1, a1) = delimit DQ False True c a
          in Some (r, True, if w = None then c1 else c1\<lparr>cd_name := w\<rparr>, a1)
      | CONTDISP_SEP2A \<Rightarrow>
          let (r, a1) = eol a
          in Some (if r = ABUF_NOMATCH then ABUF_OK else r, r \<noteq> ABUF_OK, c, a1)
      | CONTDISP_SEP2B \<Rightarrow> let (r, a1) = requirechar (CHR '';'') a in Some (r, True, c, a1)
      | CONTDISP_SEP2C \<Rightarrow> map_option (\<lambda>(r, a1). (r, True, c, a1)) (skip_hws 0 a)
      | CONTDISP_FILENAME_KEY \<Rightarrow>
          let (r, c1, a1) = force_match (fst lit_filename) (snd lit_filename) True c a in Some (r, True, c1, a1)
      | CONTDISP_FILENAME_VAL \<Rightarrow>
          let (r, w, c1, a1) = delimit CR False False c a;
              c2 = (if w = None then c1 else c1\<lparr>cd_filename_scr := w\<rparr>);
              r' = (if r = ABUF_PARSE_ERR then ABUF_OK else r)
          in if r' = ABUF_OK
             then Some (r', False,
                        case cd_filename_scr c2 of
                          Some (x # xs) \<Rightarrow> c2\<lparr>cd_filename := Some (butlast (x # xs))\<rparr>
                        | _ \<Rightarrow> c2\<lparr>cd_fail := True\<rparr>, a1)
             else Some (r', True, c2, a1)
      | CONTDISP_PAST \<Rightarrow> Some (ABUF_OK, True, c, a))"

partial_function (option) cd_guts :: "contdisp \<Rightarrow> abuf \<Rightarrow> (int option \<times> contdisp \<times> abuf) option" where
  "cd_guts c a =
     (case cd_step c a of
        None \<Rightarrow> None
      | Some (r, flag, c1, a1) \<Rightarrow>
          if r = ABUF_OK
          then let c2 = c1\<lparr>cd_state := cd_inc (cd_state c1)\<rparr>
               in if flag then cd_guts c2 a1 else Some (Some HTTP_OK, c2, a1)
          else if r = ABUF_EOF \<or> r = ABUF_PARSE_ERR then Some (Some HTTP_BAD_REQUEST, c1, a1)
          else Some (None, c1, a1))"

declare cd_guts.simps [code]

section \<open>Parts\<close>

datatype mpfdst =
    MPFD_START | MPFD_EOL0 | MPFD_KEY | MPFD_SPC | MPFD_VALUE | MPFD_EOL1A | MPFD_EOL1B
  | MPFD_SEARCH | MPFD_SEARCH2 | MPFD_SEARCH3 | MPFD_EOF | MPFD_PAST

fun mpfd_inc :: "mpfdst \<Rightarrow> mpfdst" where
  "mpfd_inc MPFD_START = MPFD_EOL0"
| "mpfd_inc MPFD_EOL0 = MPFD_KEY"
| "mpfd_inc MPFD_KEY = MPFD_SPC"
| "mpfd_inc MPFD_SPC = MPFD_VALUE"
| "mpfd_inc MPFD_VALUE = MPFD_EOL1A"
| "mpfd_inc MPFD_EOL1A = MPFD_EOL1B"
| "mpfd_inc MPFD_EOL1B = MPFD_SEARCH"
| "mpfd_inc MPFD_SEARCH = MPFD_SEARCH2"
| "mpfd_inc MPFD_SEARCH2 = MPFD_SEARCH3"
| "mpfd_inc MPFD_SEARCH3 = MPFD_EOF"
| "mpfd_inc MPFD_EOF = MPFD_PAST"
| "mpfd_inc MPFD_PAST = MPFD_PAST"

datatype mpfdkt = MPFD_OTHER | MPFD_DISPOSITION | MPFD_TYPE

definition mpfd_ktmap :: "(string \<times> mpfdkt) list" where
  "mpfd_ktmap = [(''content-disposition'', MPFD_DISPOSITION), (''content-type'', MPFD_TYPE)]"

definition ktmap_lookup :: "string \<Rightarrow> mpfdkt" where
  "ktmap_lookup s = (case map_of mpfd_ktmap s of None \<Rightarrow> MPFD_OTHER | Some v \<Rightarrow> v)"

record cgi_file =
  cf_filename :: "string option"
  cf_type :: "string option"
  cf_dat :: "string option"

text \<open>
  The table of the form holds the plain values (\<open>mp_tab\<close>) and the uploaded files (\<open>mp_files\<close>, by key).
  \<open>mp_cbm\<close> is the matcher in use, by its place in \<open>mp_boundaries\<close>; \<open>mp_sub\<close> says that the nested parser is
  active.
\<close>

record mpfd = http_hdr +
  mp_tab :: pairtab
  mp_files :: "(string \<times> cgi_file list) list"
  mp_cdp :: contdisp
  mp_boundaries :: "kmp_matcher list"
  mp_cbm :: "nat option"
  mp_scratch :: nat
  mp_state :: mpfdst
  mp_kt :: mpfdkt
  mp_to_start :: bool
  mp_key :: "string option"
  mp_content_typ :: "string option"
  mp_cgi_key :: "string option"
  mp_dat :: "string option"
  mp_filename :: "string option"
  mp_nxt :: mpfdst
  mp_attach :: bool
  mp_match_ended :: bool
  mp_sub :: bool

definition mpfd_new :: "nat \<Rightarrow> nat option \<Rightarrow> string \<Rightarrow> mpfdkt \<Rightarrow> mpfdst \<Rightarrow> mpfd" where
  "mpfd_new s cm fm kt0 nx0 =
     http_hdr.extend (http_hdr_new (Some s) cm fm)
       \<lparr>mp_tab = pairtab_new True, mp_files = [], mp_cdp = contdisp_new s cm fm, mp_boundaries = [],
        mp_cbm = None, mp_scratch = s, mp_state = MPFD_START, mp_kt = kt0, mp_to_start = False,
        mp_key = None, mp_content_typ = None, mp_cgi_key = None, mp_dat = None, mp_filename = None,
        mp_nxt = nx0, mp_attach = False, mp_match_ended = False, mp_sub = False\<rparr>"

definition add_boundary :: "string \<Rightarrow> mpfd \<Rightarrow> mpfd option" where
  "add_boundary b m =
     map_option (\<lambda>k. m\<lparr>mp_boundaries := mp_boundaries m @ [k]\<rparr>) (kmp_new True (''--'' @ b))"

definition mpfd_alloc :: "nat \<Rightarrow> nat option \<Rightarrow> string \<Rightarrow> mpfdkt \<Rightarrow> mpfdst \<Rightarrow> string \<Rightarrow> mpfd option" where
  "mpfd_alloc len cm fm kt0 nx0 b = add_boundary b (mpfd_new len cm fm kt0 nx0)"

definition remove_boundary :: "mpfd \<Rightarrow> mpfd" where
  "remove_boundary m = m\<lparr>mp_boundaries := butlast (mp_boundaries m), mp_cbm := None\<rparr>"

text \<open>The boundary named in the headers of the request; their table is not filtered.\<close>

definition mpfd_match :: "(string \<Rightarrow> string option) \<Rightarrow> http_inhdr \<Rightarrow> string option" where
  "mpfd_match rxx hdr =
     rxx (case pt_lookup ''content-type'' (ih_tab hdr) of None \<Rightarrow> [] | Some s \<Rightarrow> cstr s)"

definition flookup :: "string \<Rightarrow> mpfd \<Rightarrow> cgi_file list option" where
  "flookup k m = (case tab_find k (mp_tab m) of None \<Rightarrow> None | Some p \<Rightarrow> map_of (mp_files m) k)"

definition add_file :: "string \<Rightarrow> cgi_file \<Rightarrow> (string \<times> cgi_file list) list \<Rightarrow> (string \<times> cgi_file list) list" where
  "add_file k f fs =
     (case map_of fs k of
        None \<Rightarrow> fs @ [(k, [f])]
      | Some l \<Rightarrow> map (\<lambda>(k', l'). if k' = k then (k', l' @ [f]) else (k', l')) fs)"

definition finsert :: "string \<Rightarrow> cgi_file \<Rightarrow> mpfd \<Rightarrow> mpfd" where
  "finsert k f m =
     (case tab_find k (mp_tab m) of
        Some p \<Rightarrow> m\<lparr>mp_files := add_file k f (mp_files m)\<rparr>
      | None \<Rightarrow> m\<lparr>mp_tab := insert_pair (pair_new k None True) (mp_tab m), mp_files := add_file k f (mp_files m)\<rparr>)"

text \<open>
  \<^verbatim>\<open>match_boundary\<close>: the loop reads until the matcher reports the boundary (\<open>None\<close> in the result) or a
  control character comes.
\<close>

partial_function (option) mb_loop :: "kmp_matcher \<Rightarrow> abuf \<Rightarrow> (abuf_ch option \<times> kmp_matcher \<times> abuf) option" where
  "mb_loop k a =
     (let (ch, a1) = abuf_get a
      in case ch of
           CH c \<Rightarrow>
             (case kmp_match c k of
                None \<Rightarrow> None
              | Some (hit, k1) \<Rightarrow> if hit then Some (None, k1, a1) else mb_loop k1 a1)
         | e \<Rightarrow> Some (Some e, k, a1))"

declare mb_loop.simps [code]

definition match_boundary :: "bool \<Rightarrow> mpfd \<Rightarrow> abuf \<Rightarrow> (abuf_stat \<times> mpfd \<times> abuf) option" where
  "match_boundary want m a =
     (if mp_boundaries m = [] then Some (ABUF_PARSE_ERR, m, a)
      else
        let i = length (mp_boundaries m) - 1; fresh = (mp_cbm m \<noteq> Some i \<or> mp_match_ended m);
            k = (if fresh then kmp_reset (last (mp_boundaries m)) else last (mp_boundaries m));
            m1 = (if fresh then m\<lparr>mp_match_ended := False, mp_cbm := Some i\<rparr> else m);
            a0 = (if fresh \<and> want then abuf_mirror (mp_scratch m) a else a)
        in case mb_loop k a0 of
             None \<Rightarrow> None
           | Some (res, k1, a1) \<Rightarrow>
               let m2 = m1\<lparr>mp_boundaries := butlast (mp_boundaries m) @ [k1]\<rparr>
               in Some (case res of
                    None \<Rightarrow>
                      if want
                      then let (d, a2) = end_mirror2 (length (kmp_pattern k1)) a1
                           in (ABUF_OK, m2\<lparr>mp_dat := Some d, mp_match_ended := True\<rparr>, a2)
                      else (ABUF_OK, m2\<lparr>mp_match_ended := True\<rparr>, a1)
                  | Some e \<Rightarrow>
                      if e = WAITCHAR then (ABUF_WAIT, m2, a1)
                      else (ABUF_EOF, m2\<lparr>mp_match_ended := True\<rparr>, a1)))"

fun dash_loop :: "nat \<Rightarrow> abuf \<Rightarrow> abuf_stat \<times> abuf" where
  "dash_loop 0 a = (ABUF_OK, a)"
| "dash_loop (Suc n) a =
     (let (ch, a1) = abuf_get a
      in case ch of
           CH c \<Rightarrow> if c = CHR ''-'' then dash_loop n a1 else (ABUF_NOMATCH, abuf_unget a1)
         | EOFCHAR \<Rightarrow> (ABUF_EOF, a1)
         | WAITCHAR \<Rightarrow> (ABUF_WAIT, a1))"

definition parse_2dash :: "abuf \<Rightarrow> abuf_stat \<times> abuf" where
  "parse_2dash a = dash_loop 2 a"

section \<open>The loop over the parts\<close>

datatype mp_round = Mp_round abuf_stat bool | Mp_nested

definition mp_step :: "(string \<Rightarrow> string option) \<Rightarrow> mpfd \<Rightarrow> abuf \<Rightarrow> (mp_round \<times> mpfd \<times> abuf) option" where
  "mp_step rxx m a =
     (case mp_state m of
        MPFD_START \<Rightarrow> map_option (\<lambda>(r, m1, a1). (Mp_round r True, m1, a1)) (match_boundary False m a)
      | MPFD_EOL0 \<Rightarrow> let (r, m1, a1) = require_crlf m a in Some (Mp_round r True, m1, a1)
      | MPFD_KEY \<Rightarrow>
          let (r, m1, a1) = gobble_crlf m a
          in if r = ABUF_OK
             then Some (Mp_round r False,
                        if mp_to_start m1 then m1\<lparr>mp_state := MPFD_START, mp_to_start := False\<rparr>
                        else m1\<lparr>mp_state := MPFD_SEARCH\<rparr>, a1)
             else if r = ABUF_NOMATCH
             then let (r', w, m2, a2) = delimit_key m1 a1
                  in Some (Mp_round r' True,
                           case w of None \<Rightarrow> m2 | Some k \<Rightarrow> m2\<lparr>mp_key := w, mp_kt := ktmap_lookup k\<rparr>, a2)
             else Some (Mp_round r True, m1, a1)
      | MPFD_SPC \<Rightarrow>
          map_option (\<lambda>(r, a1).
            let (c, a2) = cd_reset (mp_cdp m) a1 in (Mp_round r True, m\<lparr>mp_cdp := c\<rparr>, a2)) (skip_hws 1 a)
      | MPFD_VALUE \<Rightarrow>
          if mp_kt m = MPFD_DISPOSITION then Some (Mp_nested, m, a)
          else
            let (r, w, m1, a1) = delimit_val m a
            in if mp_kt m = MPFD_TYPE
               then (case w of
                       None \<Rightarrow> Some (Mp_round r True, m1, a1)
                     | Some t \<Rightarrow>
                         let m2 = m1\<lparr>mp_content_typ := Some t\<rparr>
                         in (case rxx t of
                               None \<Rightarrow> Some (Mp_round r True, m2, a1)
                             | Some b \<Rightarrow>
                                 map_option (\<lambda>m3. (Mp_round r True, m3\<lparr>mp_to_start := True\<rparr>, a1)) (add_boundary b m2)))
               else Some (Mp_round r True, m1, a1)
      | MPFD_EOL1A \<Rightarrow> let (r, m1, a1) = require_crlf m a in Some (Mp_round r True, m1, a1)
      | MPFD_EOL1B \<Rightarrow>
          let (r, m1) =
            (if mp_kt m = MPFD_DISPOSITION then
               (case cd_typ (mp_cdp m) of
                  CONTDISP_FORMDAT \<Rightarrow>
                    (ABUF_OK, m\<lparr>mp_cgi_key := cd_name (mp_cdp m), mp_filename := cd_filename (mp_cdp m),
                                mp_attach := (cd_filename (mp_cdp m) \<noteq> None)\<rparr>)
                | CONTDISP_ATTACH \<Rightarrow> (ABUF_OK, m\<lparr>mp_filename := cd_filename (mp_cdp m), mp_attach := True\<rparr>)
                | CONTDISP_NONE \<Rightarrow> (ABUF_PARSE_ERR, m))
             else (ABUF_OK, m))
          in Some (Mp_round r False, m1\<lparr>mp_state := MPFD_KEY\<rparr>, a)
      | MPFD_SEARCH \<Rightarrow>
          map_option (\<lambda>(r, m1, a1).
            if r = ABUF_OK
            then (Mp_round r True,
                  case mp_cgi_key m1 of
                    None \<Rightarrow> m1
                  | Some k \<Rightarrow>
                      (if mp_attach m1
                       then finsert k \<lparr>cf_filename = mp_filename m1, cf_type = mp_content_typ m1, cf_dat = mp_dat m1\<rparr> m1
                       else m1\<lparr>mp_tab := pt_insert (Some k) (mp_dat m1) True True (mp_tab m1)\<rparr>)\<lparr>mp_cgi_key := None\<rparr>, a1)
            else if r = ABUF_PARSE_ERR then (Mp_round ABUF_OK False, m1\<lparr>mp_state := MPFD_EOF\<rparr>, a1)
            else (Mp_round r True, m1, a1)) (match_boundary True m a)
      | MPFD_SEARCH2 \<Rightarrow>
          let (r, a1) = parse_2dash a
          in if r = ABUF_OK then Some (Mp_round r True, (remove_boundary m)\<lparr>mp_nxt := MPFD_SEARCH\<rparr>, a1)
             else if r = ABUF_NOMATCH then Some (Mp_round ABUF_OK True, m\<lparr>mp_nxt := MPFD_KEY\<rparr>, a1)
             else Some (Mp_round r True, m, a1)
      | MPFD_SEARCH3 \<Rightarrow>
          let (r, m1, a1) = require_crlf m a
          in if r = ABUF_OK then Some (Mp_round r False, m1\<lparr>mp_state := mp_nxt m1\<rparr>, a1)
             else Some (Mp_round r True, m1, a1)
      | MPFD_EOF \<Rightarrow> map_option (\<lambda>(r, a1). (Mp_round r True, m, a1)) (skip_ws a)
      | MPFD_PAST \<Rightarrow> Some (Mp_round ABUF_OK True, m, a))"

definition mp_finish :: "abuf_stat \<Rightarrow> mpfd \<Rightarrow> int option" where
  "mp_finish r m =
     (case r of
        ABUF_EOF \<Rightarrow> Some (if mp_state m = MPFD_EOF then HTTP_OK else HTTP_UNEXPECTED_EOF)
      | ABUF_PARSE_ERR \<Rightarrow> Some HTTP_BAD_REQUEST
      | _ \<Rightarrow> None)"

definition cdp_parse :: "mpfd \<Rightarrow> abuf \<Rightarrow> (int option \<times> mpfd \<times> abuf) option" where
  "cdp_parse m a =
     (let c = mp_cdp m
      in if cd_parsing c then None
         else
           let (now, src) = src_init (ab_src a);
               a1 = a\<lparr>ab_src := src\<rparr>; a2 = (if now then abuf_can_read a1 else a1);
               c1 = c\<lparr>cd_dataready := cd_dataready c \<or> now, cd_parsing := True\<rparr>
           in if cd_dataready c1
              then Option.bind (cd_guts c1 a2) (\<lambda>(fin, c2, a3).
                     Some (fin, m\<lparr>mp_cdp := c2\<lparr>cd_parsing := (fin = None)\<rparr>\<rparr>, a3))
              else Some (None, m\<lparr>mp_cdp := c1\<rparr>, a2))"

text \<open>
  \<^verbatim>\<open>ext_parse_cb\<close>: a nested parse that failed ends this one with its status; one that succeeded moves
  to the next state and resumes.
\<close>

partial_function (option) mp_loop :: "(string \<Rightarrow> string option) \<Rightarrow> mpfd \<Rightarrow> abuf \<Rightarrow> (int option \<times> mpfd \<times> abuf) option" where
  "mp_loop rxx m a =
     (case mp_step rxx m a of
        None \<Rightarrow> None
      | Some (Mp_round r inc, m1, a1) \<Rightarrow>
          if r = ABUF_OK
          then mp_loop rxx (if inc then m1\<lparr>mp_state := mpfd_inc (mp_state m1)\<rparr> else m1) a1
          else Some (mp_finish r m1, m1, a1)
      | Some (Mp_nested, m1, a1) \<Rightarrow>
          (case cdp_parse m1 a1 of
             None \<Rightarrow> None
           | Some (None, m2, a2) \<Rightarrow> Some (None, m2\<lparr>mp_sub := True\<rparr>, a2)
           | Some (Some st, m2, a2) \<Rightarrow>
               if st = HTTP_OK
               then (case ih_resume_src a2 of
                       (now, a3) \<Rightarrow>
                         let m3 = m2\<lparr>mp_state := mpfd_inc (mp_state m2), mp_sub := False\<rparr>
                         in if now then mp_loop rxx m3 a3 else Some (None, m3, a3))
               else Some (Some st, m2\<lparr>mp_sub := False\<rparr>, a2)))"

declare mp_loop.simps [code]

definition mp_guts :: "(string \<Rightarrow> string option) \<Rightarrow> mpfd \<Rightarrow> abuf \<Rightarrow> (int option \<times> mpfd \<times> abuf) option" where
  "mp_guts rxx m a =
     (if \<not> mp_sub m then mp_loop rxx m a
      else Option.bind (cd_guts (mp_cdp m) a) (\<lambda>(fin, c, a1).
             let m1 = m\<lparr>mp_cdp := c\<lparr>cd_parsing := (fin = None)\<rparr>\<rparr>
             in case fin of
                  None \<Rightarrow> Some (None, m1, a1)
                | Some st \<Rightarrow>
                    if st = HTTP_OK
                    then (case ih_resume_src a1 of
                            (now, a2) \<Rightarrow>
                              let m2 = m1\<lparr>mp_state := mpfd_inc (mp_state m1), mp_sub := False\<rparr>
                              in if now then mp_loop rxx m2 a2 else Some (None, m2, a2))
                    else Some (Some st, m1\<lparr>mp_sub := False\<rparr>, a1)))"

section \<open>Finding a boundary\<close>

lemma get_not_bc: "abuf_get a = (CH c, a') \<Longrightarrow> abuf_inv a \<Longrightarrow> \<not> ab_bc a'"
  using abuf_get_spec [of a] ab_eos_control [of a] by (auto split: list.splits)

text \<open>
  The search loop stops behind the first place where the text read so far ends with the pattern.
\<close>

lemma mb_loop_hit:
  assumes "abuf_inv a" and "ab_pending a = w @ c # rest" and "kmp_inv t k"
    and "\<forall>i \<le> length w. suffix (kmp_pattern k) (t @ map (kmp_fold (kmp_ci k)) (take i (w @ [c]))) \<longrightarrow> i = 0"
    and "suffix (kmp_pattern k) (t @ map (kmp_fold (kmp_ci k)) (w @ [c]))"
  shows "\<exists>k' a'. mb_loop k a = Some (None, k', a') \<and> abuf_inv a' \<and> ab_pending a' = rest \<and> ab_keeps a a'
     \<and> \<not> ab_bc a' \<and> kmp_pattern k' = kmp_pattern k \<and> kmp_ci k' = kmp_ci k \<and> (\<exists>t'. kmp_inv t' k')"
  using assms
proof (induction w arbitrary: a k t)
  case Nil
  obtain a' where g: "abuf_get a = (CH c, a')" "abuf_inv a'" "ab_pending a' = rest"
    using abuf_get_CH [OF Nil.prems(1), of c rest] Nil.prems(2) by auto
  obtain k' where "kmp_match c k = Some (True, k')" "kmp_inv (t @ [kmp_fold (kmp_ci k) c]) k'"
      "kmp_pattern k' = kmp_pattern k" "kmp_ci k' = kmp_ci k"
    using kmp_match_inv [OF Nil.prems(3), of c] Nil.prems(5) by auto
  then show ?case
    using g ab_keeps_get [OF Nil.prems(1) g(1)] get_not_bc [OF g(1) Nil.prems(1)]
    by (auto simp: mb_loop.simps [of k a])
next
  case (Cons d w)
  obtain a1 where g: "abuf_get a = (CH d, a1)" "abuf_inv a1" "ab_pending a1 = w @ c # rest"
    using abuf_get_CH [OF Cons.prems(1), of d "w @ c # rest"] Cons.prems(2) by auto
  let ?d = "kmp_fold (kmp_ci k) d"
  have "\<not> suffix (kmp_pattern k) (t @ [?d])" using Cons.prems(4) [rule_format, of 1] by auto
  then obtain k1 where k1: "kmp_match d k = Some (False, k1)" "kmp_inv (t @ [?d]) k1"
      "kmp_pattern k1 = kmp_pattern k" "kmp_ci k1 = kmp_ci k"
    using kmp_match_inv [OF Cons.prems(3), of d] by auto
  have no: "\<forall>i \<le> length w. suffix (kmp_pattern k1)
      ((t @ [?d]) @ map (kmp_fold (kmp_ci k1)) (take i (w @ [c]))) \<longrightarrow> i = 0"
  proof (intro allI impI)
    fix i assume "i \<le> length w" "suffix (kmp_pattern k1) ((t @ [?d]) @ map (kmp_fold (kmp_ci k1)) (take i (w @ [c])))"
    then show "i = 0" using Cons.prems(4) [rule_format, of "Suc i"] by (simp add: k1(3,4))
  qed
  have hit: "suffix (kmp_pattern k1) ((t @ [?d]) @ map (kmp_fold (kmp_ci k1)) (w @ [c]))"
    using Cons.prems(5) by (simp add: k1(3,4))
  obtain k' a' where r: "mb_loop k1 a1 = Some (None, k', a')" "abuf_inv a'" "ab_pending a' = rest" "ab_keeps a1 a'"
      "\<not> ab_bc a'" "kmp_pattern k' = kmp_pattern k" "kmp_ci k' = kmp_ci k" "\<exists>t'. kmp_inv t' k'"
    using Cons.IH [OF g(2,3) k1(2) no hit] by (auto simp: k1(3,4))
  have "mb_loop k a = mb_loop k1 a1" using g(1) k1(1) by (simp add: mb_loop.simps [of k a])
  then show ?case using r ab_keeps_trans [OF ab_keeps_get [OF Cons.prems(1) g(1)] r(4)] by auto
qed

text \<open>The matcher of a boundary, whatever text it has seen.\<close>

definition boundary_matcher :: "string \<Rightarrow> kmp_matcher \<Rightarrow> bool" where
  "boundary_matcher b k \<longleftrightarrow> (\<exists>t. kmp_inv t k) \<and> kmp_ci k \<and> kmp_pattern k = map tolower (''--'' @ b)"

lemma add_boundary_matcher:
  "\<exists>k. add_boundary b m = Some (m\<lparr>mp_boundaries := mp_boundaries m @ [k]\<rparr>) \<and> boundary_matcher b k"
  using kmp_new_inv [of "''--'' @ b" True]
  by (auto simp: add_boundary_def boundary_matcher_def kmp_fold_def)

lemma no_early_hit:
  assumes "\<forall>u v. d = u @ v \<and> v \<noteq> [] \<longrightarrow> \<not> suffix P (f u)" and "i < length d"
  shows "\<not> suffix P (f (take i d))"
  using assms(1) [rule_format, of "take i d" "drop i d"] assms(2) by auto

text \<open>
  C20.  The value of a part is the text up to the line end before the next boundary: on a stream that
  holds data, a line end and a delimiter of the innermost boundary (case ignored), where the delimiter
  does not occur earlier, the search succeeds, takes exactly that data, and leaves the stream
  behind the delimiter.
\<close>
theorem boundary_found:
  assumes a: "abuf_inv a" "\<not> ab_bc a" "ab_pending a = d @ CRLF @ B @ rest"
    and B: "map tolower B = map tolower (''--'' @ b)"
    and first: "\<forall>u v. d @ CRLF @ B = u @ v \<and> v \<noteq> [] \<longrightarrow> \<not> suffix (map tolower B) (map tolower u)"
    and room: "length (d @ CRLF @ B) \<le> mp_scratch m"
    and m: "mp_boundaries m = bs @ [k]" "boundary_matcher b k" "mp_cbm m = None \<or> mp_match_ended m"
  shows "\<exists>m' a'. match_boundary True m a = Some (ABUF_OK, m', a') \<and> mp_dat m' = Some d
     \<and> abuf_inv a' \<and> ab_pending a' = rest \<and> (\<exists>k'. mp_boundaries m' = bs @ [k'] \<and> boundary_matcher b k')"
proof -
  have bn: "B \<noteq> []" using B by auto
  let ?T = "d @ CRLF @ B" and ?P = "map tolower B"
  let ?k = "kmp_reset k" and ?a = "abuf_mirror (mp_scratch m) a"
  have k: "kmp_inv [] ?k" "kmp_pattern ?k = ?P" "kmp_ci ?k"
    using m(2) B kmp_reset_inv by (auto simp: boundary_matcher_def kmp_reset_def)
  have fold: "map (kmp_fold (kmp_ci ?k)) = map tolower" using k(3) by (auto simp: kmp_fold_def)
  define c w where "c = last ?T" and "w = butlast ?T"
  have "?T \<noteq> []" using bn by simp
  then have T: "?T = w @ [c]" unfolding w_def c_def by (rule append_butlast_last_id [symmetric])
  have a0: "abuf_inv ?a" "ab_pending ?a = w @ c # rest"
    using a T [THEN arg_cong, of "\<lambda>x. x @ rest"] by (simp_all add: abuf_mirror_def)
  have mir: "mirror_of (?T @ rest) (mp_scratch m) ?a"
    using a by (simp add: mirror_of_def abuf_mirror_def ab_pending_unread ab_buffered_def)
  have no: "\<forall>i \<le> length w. suffix (kmp_pattern ?k) ([] @ map (kmp_fold (kmp_ci ?k)) (take i (w @ [c]))) \<longrightarrow> i = 0"
  proof (intro allI impI)
    fix i assume i: "i \<le> length w" and s: "suffix (kmp_pattern ?k) ([] @ map (kmp_fold (kmp_ci ?k)) (take i (w @ [c])))"
    have "i < length ?T" using i T by (metis le_imp_less_Suc length_append_singleton)
    from no_early_hit [OF first this] s show "i = 0" unfolding k(2) fold T [symmetric] by simp
  qed
  have hit: "suffix (kmp_pattern ?k) ([] @ map (kmp_fold (kmp_ci ?k)) (w @ [c]))"
    unfolding k(2) fold T [symmetric] by (simp add: suffix_def)
  obtain k' a' where r: "mb_loop ?k ?a = Some (None, k', a')" "abuf_inv a'" "ab_pending a' = rest" "ab_keeps ?a a'"
      "\<not> ab_bc a'" "kmp_pattern k' = ?P" "kmp_ci k'" "\<exists>t'. kmp_inv t' k'"
    using mb_loop_hit [OF a0 k(1) no hit] k by auto
  have "mirror_of (?T @ rest) (mp_scratch m) a'" using mir r(4) by (simp add: ab_keeps_def)
  moreover have "ab_unread a' = rest" using r(3,5) by (simp add: ab_pending_unread ab_buffered_def)
  ultimately have "ab_mirror a' = Some (?T, mp_scratch m)" using room by (auto simp: mirror_of_def)
  then have em: "end_mirror2 (length (kmp_pattern k')) a' = (d, a'\<lparr>ab_mirror := None\<rparr>)"
    by (simp add: end_mirror2_def r(6))
  have fresh: "mp_cbm m \<noteq> Some (length (mp_boundaries m) - 1) \<or> mp_match_ended m" using m(3) by auto
  have "boundary_matcher b k'" using r(6-8) B by (simp add: boundary_matcher_def)
  then show ?thesis using r em m(1) fresh by (auto simp: match_boundary_def Let_def)
qed

theorem boundary_found_witness:
  "\<exists>m k m' a'. add_boundary ''XY'' (mpfd_new 64 None [] MPFD_OTHER MPFD_KEY) = Some m \<and> mp_boundaries m = [k]
    \<and> match_boundary True m (abuf_on_str (''v1'' @ CRLF @ ''--xY'' @ ''z'')) = Some (ABUF_OK, m', a')
    \<and> mp_dat m' = Some ''v1'' \<and> ab_pending a' = ''z''"
proof -
  let ?m0 = "mpfd_new 64 None [] MPFD_OTHER MPFD_KEY"
  have m0: "mp_boundaries ?m0 = []" "mp_cbm ?m0 = None" "mp_scratch ?m0 = 64"
    by (simp_all add: mpfd_new_def http_hdr.extend_def http_hdr_new_def)
  obtain k where k: "add_boundary ''XY'' ?m0 = Some (?m0\<lparr>mp_boundaries := [] @ [k]\<rparr>)" "boundary_matcher ''XY'' k"
    using add_boundary_matcher [of "''XY''" ?m0] m0 by auto
  let ?m = "?m0\<lparr>mp_boundaries := [] @ [k]\<rparr>" and ?a = "abuf_on_str (''v1'' @ CRLF @ ''--xY'' @ ''z'')"
  have a: "abuf_inv ?a" "\<not> ab_bc ?a" "ab_pending ?a = ''v1'' @ CRLF @ ''--xY'' @ ''z''"
    by (rule abuf_on_str_init, simp add: abuf_on_str_def abuf_new_def, rule abuf_on_str_init)
  have B: "map tolower ''--xY'' = map tolower (''--'' @ ''XY'')" by code_simp
  let ?T = "''v1'' @ CRLF @ ''--xY''"
  have "\<forall>i < length ?T. \<not> suffix (map tolower ''--xY'') (map tolower (take i ?T))" by code_simp
  then have first: "\<forall>u v. ?T = u @ v \<and> v \<noteq> [] \<longrightarrow> \<not> suffix (map tolower ''--xY'') (map tolower u)"
    by (metis append_eq_conv_conj length_append length_greater_0_conv less_add_same_cancel1)
  have "length ?T \<le> mp_scratch ?m" using m0 by simp
  from boundary_found [OF a B first this _ k(2), of "[]"] m0 k(1) show ?thesis by auto
qed

section \<open>After the last boundary\<close>

text \<open>The state behind the last enumerator is never left.\<close>

lemma mp_loop_past: "mp_loop rxx m a = Some y \<Longrightarrow> mp_state m \<noteq> MPFD_PAST"
proof (rule mp_loop.raw_induct [where P = "\<lambda>rxx m a y. mp_state m \<noteq> MPFD_PAST"])
  fix loop and rxx :: "string \<Rightarrow> string option" and m :: mpfd and a :: abuf and y
  assume IH: "\<And>rxx m a y. loop rxx m a = Some y \<Longrightarrow> mp_state m \<noteq> MPFD_PAST"
    and step: "(case mp_step rxx m a of None \<Rightarrow> None
      | Some (Mp_round r inc, m1, a1) \<Rightarrow>
          if r = ABUF_OK then loop rxx (if inc then m1\<lparr>mp_state := mpfd_inc (mp_state m1)\<rparr> else m1) a1
          else Some (mp_finish r m1, m1, a1)
      | Some (Mp_nested, m1, a1) \<Rightarrow>
          case cdp_parse m1 a1 of None \<Rightarrow> None
          | Some (None, m2, a2) \<Rightarrow> Some (None, m2\<lparr>mp_sub := True\<rparr>, a2)
          | Some (Some st, m2, a2) \<Rightarrow>
              if st = HTTP_OK
              then case ih_resume_src a2 of
                   (now, a3) \<Rightarrow>
                     let m3 = m2\<lparr>mp_state := mpfd_inc (mp_state m2), mp_sub := False\<rparr>
                     in if now then loop rxx m3 a3 else Some (None, m3, a3)
              else Some (Some st, m2\<lparr>mp_sub := False\<rparr>, a2)) = Some y"
  show "mp_state m \<noteq> MPFD_PAST"
  proof
    assume p: "mp_state m = MPFD_PAST"
    then have "loop rxx (m\<lparr>mp_state := mpfd_inc (mp_state m)\<rparr>) a = Some y" using step by (simp add: mp_step_def)
    then show False using IH p by fastforce
  qed
qed

lemma skip_ws_stop:
  assumes "abuf_inv a" and "ab_pending a = ws @ c # rest" and "list_all (\<lambda>c. 0 < schar c \<and> isspace c) ws"
    and "\<not> (0 < schar c \<and> isspace c)"
  shows "\<exists>a'. skip_ws a = Some (ABUF_OK, a')"
  using assms
proof (induction ws arbitrary: a)
  case Nil
  then obtain a' where "abuf_get a = (CH c, a')" using abuf_get_CH [of a c rest] by auto
  then show ?case using Nil.prems(4) by (auto simp: skip_ws.simps [of a])
next
  case (Cons w ws)
  then obtain a' where "abuf_get a = (CH w, a')" "abuf_inv a'" "ab_pending a' = ws @ c # rest"
    using abuf_get_CH [of a w "ws @ c # rest"] by auto
  then show ?case using Cons.IH [of a'] Cons.prems by (auto simp: skip_ws.simps [of a])
qed

lemma mp_loop_round:
  "mp_step rxx m a = Some (Mp_round ABUF_OK inc, m1, a1) \<Longrightarrow>
     mp_loop rxx m a = mp_loop rxx (if inc then m1\<lparr>mp_state := mpfd_inc (mp_state m1)\<rparr> else m1) a1"
  by (subst mp_loop.simps) simp

lemma mp_loop_eof_text:
  assumes "mp_state m = MPFD_EOF" and "skip_ws a = Some (ABUF_OK, a')"
  shows "mp_loop rxx m a = None"
proof -
  have "mp_step rxx m a = Some (Mp_round ABUF_OK True, m, a')" using assms by (simp add: mp_step_def)
  from mp_loop_round [OF this] assms(1)
  have "mp_loop rxx m a = mp_loop rxx (m\<lparr>mp_state := MPFD_PAST\<rparr>) a'" by simp
  then show ?thesis using mp_loop_past [of rxx "m\<lparr>mp_state := MPFD_PAST\<rparr>" a']
    by (cases "mp_loop rxx (m\<lparr>mp_state := MPFD_PAST\<rparr>) a'") auto
qed

lemma parse_2dash_yes:
  assumes "abuf_inv a" and "ab_pending a = CHR ''-'' # CHR ''-'' # cs"
  shows "\<exists>a'. parse_2dash a = (ABUF_OK, a') \<and> abuf_inv a' \<and> ab_pending a' = cs"
proof -
  obtain a1 where a1: "abuf_get a = (CH CHR ''-'', a1)" "abuf_inv a1" "ab_pending a1 = CHR ''-'' # cs"
    using abuf_get_CH [OF assms] by auto
  obtain a2 where "abuf_get a1 = (CH CHR ''-'', a2)" "abuf_inv a2" "ab_pending a2 = cs"
    using abuf_get_CH [OF a1(2,3)] by auto
  then show ?thesis using a1 by (simp add: parse_2dash_def numeral_2_eq_2)
qed



text \<open>
  The two dashes of a closing delimiter are counted in a local variable: when they arrive apart, the
  second call starts from none and takes the delimiter for an inner one.
\<close>

lemma split_dashes_missed:
  assumes "abuf_inv a" "ab_pending a = ''-''" "ab_eos a = WAITCHAR"
    and "abuf_inv b" "ab_pending b = CHR ''-'' # CR # cs"
  shows "(\<exists>a'. parse_2dash a = (ABUF_WAIT, a')) \<and> (\<exists>b'. parse_2dash b = (ABUF_NOMATCH, b'))"
proof
  obtain a1 where a1: "abuf_get a = (CH CHR ''-'', a1)" "abuf_inv a1" "ab_pending a1 = []" "ab_eos a1 = WAITCHAR"
    using abuf_get_CH [of a "CHR ''-''" "[]"] assms by auto
  moreover obtain a2 where "abuf_get a1 = (ab_eos a1, a2)" using a1(2,3) by (rule abuf_get_end)
  ultimately show "\<exists>a'. parse_2dash a = (ABUF_WAIT, a')" by (simp add: parse_2dash_def numeral_2_eq_2)
  obtain b1 where b1: "abuf_get b = (CH CHR ''-'', b1)" "abuf_inv b1" "ab_pending b1 = CR # cs"
    using abuf_get_CH [OF assms(4,5)] by auto
  moreover obtain b2 where "abuf_get b1 = (CH CR, b2)" using abuf_get_CH [OF b1(2,3)] by auto
  ultimately show "\<exists>b'. parse_2dash b = (ABUF_NOMATCH, b')" by (simp add: parse_2dash_def numeral_2_eq_2)
qed

text \<open>An empty file name: the string is built with the length 0 - 1.\<close>

lemma empty_filename_fails:
  assumes "abuf_inv a" "ab_pending a = CR # cs"
    and "cd_state c = CONTDISP_FILENAME_VAL" "hh_scr c = []" "0 < hh_endp c"
  shows "\<exists>r fl c' a'. cd_step c a = Some (r, fl, c', a') \<and> cd_fail c'"
proof -
  have t: "token_ref (delim_char CR False False) (hh_endp c) (hh_scr c) (ab_pending a) (ab_eos a) = (ABUF_OK, [], CR # cs)"
    using token_ref_stop [of "delim_char CR False False" "[]" CR ABUF_OK True "[]" "hh_endp c" cs] assms by simp
  have le: "length (hh_scr c) \<le> hh_endp c" using assms(4) by simp
  obtain a' where "end_token c (pcp_loop (delim_char CR False False) (hh_endp c) (hh_scr c) ABUF_CONTINUE WAITCHAR a)
      = (ABUF_OK, if ABUF_OK = ABUF_OK then Some [] else None, c\<lparr>hh_scr := if ABUF_OK = ABUF_OK then [] else []\<rparr>, a')"
    using assms(1) le lexes_tokens(3) t by (rule end_token_ref)
  then have "delimit CR False False c a = (ABUF_OK, Some [], c\<lparr>hh_scr := []\<rparr>, a')" by (simp add: delimit_def)
  then show ?thesis using assms(3) by (auto simp: cd_step_def)
qed

text \<open>An attachment's parameter name is skipped over: the state is advanced past its own successor.\<close>

lemma attachment_skips_key:
  assumes "cd_state c = CONTDISP_SEP1" "cd_typ_scr c = Some ''attachment''" "skip_hws 1 a = Some (ABUF_OK, a')"
  shows "cd_guts c a = cd_guts (c\<lparr>cd_typ := CONTDISP_ATTACH, cd_state := CONTDISP_FILENAME_VAL\<rparr>) a'"
proof -
  have "cstr ''attachment'' \<noteq> cstr ''form-data''" by code_simp
  then have "cd_step c a = Some (ABUF_OK, True, c\<lparr>cd_state := CONTDISP_FILENAME_KEY, cd_typ := CONTDISP_ATTACH\<rparr>, a')"
    using assms by (simp add: cd_step_def mystrcmp_def)
  then show ?thesis by (subst cd_guts.simps) (simp add: Let_def)
qed

end
