(* ===== verification/Aparse.thy ===== *)
theory Aparse
  imports Abuf
begin

text \<open>
  The skeleton of the asynchronous parsers, \<^verbatim>\<open>async_parser_t\<close> of \<^verbatim>\<open>src/libahttp/aparse.h\<close> and
  \<^verbatim>\<open>src/libahttp/aparse.C\<close>, and its two block readers.  The virtual \<^verbatim>\<open>parse_guts\<close> is an argument
  \<open>guts\<close>: it works on the state of the derived parser and the stream, and says with which status it
  called \<^verbatim>\<open>finish_parse\<close>, or that it waits; \<open>None\<close> is a call that does not return.  The callback
  given to \<^verbatim>\<open>parse\<close> is only known by the statuses it has been called with, the list \<open>ap_log\<close>.
\<close>

section \<open>State and operations\<close>

type_synonym 's guts = "'s \<Rightarrow> abuf \<Rightarrow> (int option \<times> 's \<times> abuf) option"

text \<open>\<open>ap_srccb\<close>: the source still has the callback \<^verbatim>\<open>can_read_cb\<close>.\<close>

record 's async_parser =
  ap_abuf :: abuf
  ap_pcb :: bool
  ap_parsing :: bool
  ap_dataready :: bool
  ap_srccb :: bool
  ap_log :: "int list"
  ap_st :: 's

definition async_parser_new :: "'s \<Rightarrow> abuf \<Rightarrow> 's async_parser" where
  "async_parser_new s a = \<lparr>ap_abuf = a, ap_pcb = False, ap_parsing = False, ap_dataready = False,
     ap_srccb = False, ap_log = [], ap_st = s\<rparr>"

definition finish_parse :: "int \<Rightarrow> 's async_parser \<Rightarrow> 's async_parser" where
  "finish_parse r p =
     (let p1 = p\<lparr>ap_parsing := False\<rparr>
      in if ap_pcb p1 then p1\<lparr>ap_pcb := False, ap_log := ap_log p1 @ [r]\<rparr> else p1)"

text \<open>A call of the virtual function; \<^verbatim>\<open>finish_parse\<close> is the last thing it does.\<close>

definition ap_guts :: "'s guts \<Rightarrow> 's async_parser \<Rightarrow> 's async_parser option" where
  "ap_guts guts p =
     (case guts (ap_st p) (ap_abuf p) of
        None \<Rightarrow> None
      | Some (fin, s, a) \<Rightarrow>
          let p1 = p\<lparr>ap_st := s, ap_abuf := a\<rparr>
          in Some (case fin of None \<Rightarrow> p1 | Some r \<Rightarrow> finish_parse r p1))"

definition can_read_cb :: "'s guts \<Rightarrow> 's async_parser \<Rightarrow> 's async_parser option" where
  "can_read_cb guts p =
     (let p1 = p\<lparr>ap_abuf := abuf_can_read (ap_abuf p)\<rparr>
      in if ap_parsing p1 then ap_guts guts p1 else Some (p1\<lparr>ap_dataready := True\<rparr>))"

text \<open>\<^verbatim>\<open>abuf->init\<close>: the source may call \<^verbatim>\<open>can_read_cb\<close> before it returns.\<close>

definition ap_init :: "'s guts \<Rightarrow> 's async_parser \<Rightarrow> 's async_parser option" where
  "ap_init guts p =
     (let (now, s) = src_init (ab_src (ap_abuf p));
          p1 = p\<lparr>ap_abuf := (ap_abuf p)\<lparr>ab_src := s\<rparr>, ap_srccb := True\<rparr>
      in if now then can_read_cb guts p1 else Some p1)"

text \<open>\<^verbatim>\<open>parse\<close>; the assertion that no parse is running is the first case.\<close>

definition ap_parse :: "'s guts \<Rightarrow> bool \<Rightarrow> 's async_parser \<Rightarrow> 's async_parser option" where
  "ap_parse guts cb p =
     (if ap_parsing p then None
      else case ap_init guts (p\<lparr>ap_pcb := cb\<rparr>) of
             None \<Rightarrow> None
           | Some p1 \<Rightarrow>
               let p2 = p1\<lparr>ap_parsing := True\<rparr>
               in if ap_dataready p2 then ap_guts guts p2 else Some p2)"

definition ap_resume :: "'s guts \<Rightarrow> 's async_parser \<Rightarrow> 's async_parser option" where
  "ap_resume guts p =
     (case ap_init guts (p\<lparr>ap_parsing := False, ap_dataready := False\<rparr>) of
        None \<Rightarrow> None
      | Some p1 \<Rightarrow>
          let p2 = p1\<lparr>ap_parsing := True\<rparr>
          in if ap_dataready p2 then ap_guts guts p2 else Some p2)"

definition ap_cancel :: "'s async_parser \<Rightarrow> 's async_parser" where
  "ap_cancel p = p\<lparr>ap_srccb := False, ap_pcb := False\<rparr>"

definition ap_reset :: "'s async_parser \<Rightarrow> 's async_parser" where
  "ap_reset p = p\<lparr>ap_abuf := abuf_reset (ap_abuf p), ap_parsing := False, ap_dataready := False\<rparr>"

text \<open>The source has new bytes, or has reached its end (no bytes), and tells the parser if it is asked to.\<close>

definition ap_readable :: "'s guts \<Rightarrow> string \<Rightarrow> 's async_parser \<Rightarrow> 's async_parser option" where
  "ap_readable guts q p =
     (let p1 = p\<lparr>ap_abuf := (ap_abuf p)\<lparr>ab_src := src_feed q (ab_src (ap_abuf p))\<rparr>\<rparr>
      in if ap_srccb p1 then can_read_cb guts p1 else Some p1)"

text \<open>A run over arriving chunks, with the bytes the source had room for.\<close>

fun ap_run :: "'s guts \<Rightarrow> string list \<Rightarrow> 's async_parser \<Rightarrow> (string \<times> 's async_parser) option" where
  "ap_run guts [] p = Some ([], p)"
| "ap_run guts (q # qs) p =
     (case ap_readable guts q p of
        None \<Rightarrow> None
      | Some p1 \<Rightarrow>
          case ap_run guts qs p1 of
            None \<Rightarrow> None
          | Some (acc, p2) \<Rightarrow> Some (take (src_room (ab_src (ap_abuf p))) q @ acc, p2))"

section \<open>Block readers\<close>

text \<open>\<^verbatim>\<open>async_raw_post_parser_t\<close>: \<open>[m_body, m_bp)\<close> and the length asked for.\<close>

record raw_post =
  rp_body :: string
  rp_len :: nat
  rp_ok :: bool

definition raw_post_new :: "nat \<Rightarrow> raw_post" where
  "raw_post_new len = \<lparr>rp_body = [], rp_len = len, rp_ok = False\<rparr>"

definition rp_contents :: "raw_post \<Rightarrow> string option" where
  "rp_contents r = (if rp_ok r then Some (rp_body r) else None)"

text \<open>
  The loop of \<^verbatim>\<open>parse_guts\<close>; it is entered with \<^verbatim>\<open>rc = 0\<close>, here \<open>None\<close>.  The result is the control
  character that ended it, if one did, and the bytes of the body.
\<close>

partial_function (option) rp_loop :: "nat \<Rightarrow> string \<Rightarrow> abuf \<Rightarrow> (abuf_ch option \<times> string \<times> abuf) option" where
  "rp_loop len body a =
     (if length body < len
      then case abuf_dump (len - length body) a of
             None \<Rightarrow> None
           | Some (Inl e, a') \<Rightarrow> Some (Some e, body, a')
           | Some (Inr d, a') \<Rightarrow> rp_loop len (body @ d) a'
      else Some (None, body, a))"

declare rp_loop.simps [code]

definition rp_guts :: "raw_post guts" where
  "rp_guts r a =
     (case rp_loop (rp_len r) (rp_body r) a of
        None \<Rightarrow> None
      | Some (rc, body, a') \<Rightarrow>
          if length body = rp_len r \<or> rc = Some EOFCHAR
          then Some (Some HTTP_OK, r\<lparr>rp_body := body, rp_ok := True\<rparr>, a')
          else Some (None, r\<lparr>rp_body := body\<rparr>, a'))"

text \<open>
  \<^verbatim>\<open>async_dumper_t\<close>: \<^verbatim>\<open>dump\<close> allocates the buffer and starts the parse, \<^verbatim>\<open>parse_done_cb\<close> hands the
  bytes \<open>[buf, bp)\<close> to the caller when the status is 0 and the whole buffer otherwise, with
  whatever \<open>junk\<close> its unwritten end holds; \<open>ad_out\<close> is what the caller has got.
\<close>

record async_dumper =
  ad_body :: string
  ad_len :: nat
  ad_out :: "string list"

definition dumper_start :: "nat \<Rightarrow> async_dumper \<Rightarrow> async_dumper" where
  "dumper_start len d = d\<lparr>ad_body := [], ad_len := len\<rparr>"

definition dumper_guts :: "async_dumper guts" where
  "dumper_guts d a =
     (case rp_loop (ad_len d) (ad_body d) a of
        None \<Rightarrow> None
      | Some (rc, body, a') \<Rightarrow>
          if length body = ad_len d \<or> rc = Some EOFCHAR
          then Some (Some 0, d\<lparr>ad_body := body\<rparr>, a')
          else Some (None, d\<lparr>ad_body := body\<rparr>, a'))"

definition dumper_done :: "string \<Rightarrow> int \<Rightarrow> async_dumper \<Rightarrow> async_dumper" where
  "dumper_done junk dummy d =
     d\<lparr>ad_out := ad_out d @ [if dummy = 0 then ad_body d else take (ad_len d) (ad_body d @ junk)]\<rparr>"

definition dumper_dump :: "nat \<Rightarrow> async_dumper async_parser \<Rightarrow> async_dumper async_parser option" where
  "dumper_dump len p = ap_parse dumper_guts True (p\<lparr>ap_st := dumper_start len (ap_st p)\<rparr>)"

section \<open>What a block read delivers\<close>

definition plain :: "abuf \<Rightarrow> bool" where
  "plain a \<longleftrightarrow> abuf_inv a \<and> \<not> ab_bc a \<and> ab_lim a < 0 \<and> 0 \<le> ab_ccnt a"

definition on_con :: "abuf \<Rightarrow> bool" where
  "on_con a \<longleftrightarrow> (\<exists>c. ab_src a = Src_con c)"

lemma open_con_plain: "plain a \<Longrightarrow> open_con a \<longleftrightarrow> on_con a \<and> ab_end a = WAITCHAR"
  by (auto simp: plain_def open_con_def on_con_def ab_end_def abuf_inv_def split: abuf_stat.splits)

lemma plain_pending: "plain a \<Longrightarrow> ab_pending a = ab_avail a \<and> ab_eos a = ab_end a"
  by (auto simp: plain_def ab_pending_def ab_buffered_def ab_eos_def)

lemma src_getdata_ateof: "src_ateof s \<Longrightarrow> src_getdata s = ((ABUF_EOF, []), s)"
  by (cases s) simp_all

lemma src_rembytes_ateof: "src_ateof (src_rembytes n s) = src_ateof s"
  by (cases s) simp_all

lemma flush_plain:
  assumes "plain a" and "0 < n" and "ab_cp a < length (ab_win a)"
  shows "\<exists>a'. abuf_flush n a = (take n (drop (ab_cp a) (ab_win a)), a') \<and> plain a'
     \<and> ab_avail a' = drop (length (take n (drop (ab_cp a) (ab_win a)))) (ab_avail a)
     \<and> ab_end a' = ab_end a \<and> ab_erc a' = ab_erc a
     \<and> ab_cp a' = ab_cp a + min n (length (ab_win a) - ab_cp a) \<and> ab_win a' = ab_win a
     \<and> on_con a' = on_con a"
  using assms
  by (auto simp: on_con_def abuf_flush_def Let_def plain_def abuf_inv_def ab_avail_def ab_end_def min_def add.commute)

lemma dump_step:
  assumes pl: "plain a" and erc: "ab_erc a = ABUF_OK" and n: "0 < n"
  obtains d a1 where "abuf_flush n a = (d, a1)" "plain a1" "ab_erc a1 = ABUF_OK" "ab_end a1 = ab_end a"
    "ab_avail a = d @ ab_avail a1" "length d \<le> n" "length d < n \<longrightarrow> ab_cp a1 = length (ab_win a1)"
    "ab_cp a < length (ab_win a) \<longrightarrow> d \<noteq> []"
    "on_con a1 = on_con a"
proof (cases "ab_cp a < length (ab_win a)")
  case True
  let ?d = "take n (drop (ab_cp a) (ab_win a))"
  have ne: "?d \<noteq> []" using True n by simp
  have "take (length ?d) (ab_avail a) = ?d" by (simp add: ab_avail_def min_def)
  then have av: "ab_avail a = ?d @ drop (length ?d) (ab_avail a)" by (metis append_take_drop_id)
  obtain a' where f: "abuf_flush n a = (?d, a')" "plain a'" "ab_avail a' = drop (length ?d) (ab_avail a)"
      "ab_end a' = ab_end a" "ab_erc a' = ab_erc a" "ab_win a' = ab_win a"
      "ab_cp a' = ab_cp a + min n (length (ab_win a) - ab_cp a)" "on_con a' = on_con a"
    using flush_plain [OF pl n True] by blast
  show thesis
  proof (rule that [OF f(1,2)])
    show "ab_avail a = ?d @ ab_avail a'" using av f(3) by simp
    show "length ?d < n \<longrightarrow> ab_cp a' = length (ab_win a')" using f(6,7) True by simp
  qed (use f erc ne in auto)
next
  case False
  then have "ab_cp a = length (ab_win a)" using pl by (simp add: plain_def abuf_inv_def)
  then show thesis using that [of "[]" a] pl erc by (simp add: abuf_flush_def)
qed

lemma dump_loop_0: "dump_loop 0 out a = Some (out, a)"
  by (simp add: dump_loop.simps [of 0])

lemma dump_loop_stop: "ab_erc a \<noteq> ABUF_OK \<Longrightarrow> dump_loop n out a = Some (out, a)"
  by (simp add: dump_loop.simps [of n])

lemma moredata_plain:
  assumes "plain a" and "ab_erc a = ABUF_OK" and "ab_cp a = length (ab_win a)"
  shows "plain (moredata a)" "ab_avail (moredata a) = ab_avail a" "ab_end (moredata a) = ab_end a"
    "ab_avail a \<noteq> [] \<Longrightarrow> ab_erc (moredata a) = ABUF_OK \<and> ab_win (moredata a) \<noteq> []"
    "ab_cp (moredata a) = 0" "on_con (moredata a) = on_con a"
proof -
  have inv: "abuf_inv a" "\<not> ab_bc a" using assms(1) by (auto simp: plain_def)
  note m = moredata_refill [OF inv assms(2,3)]
  show "plain (moredata a)" using m(1) assms(1) by (auto simp: plain_def)
  show "on_con (moredata a) = on_con a"
    by (cases "ab_src a") (auto simp: on_con_def moredata_def Let_def split: prod.splits if_splits)
qed (use moredata_refill [OF _ _ assms(2,3)] assms(1) in \<open>auto simp: plain_def\<close>)

text \<open>The loop of \<^verbatim>\<open>dump\<close> behind an exhausted window.\<close>

lemma dump_loop_refill:
  assumes "plain a" and "ab_erc a = ABUF_OK" and "ab_cp a = length (ab_win a)" and "0 < n"
  shows "\<exists>a'. dump_loop n out (moredata a) = Some (out @ take n (ab_avail a), a') \<and> plain a'
     \<and> ab_avail a' = drop n (ab_avail a) \<and> ab_end a' = ab_end a
     \<and> (length (ab_avail a) < n \<longrightarrow> ab_erc a' \<noteq> ABUF_OK) \<and> on_con a' = on_con a"
  using assms
proof (induction "length (ab_avail a)" arbitrary: a n out rule: less_induct)
  case less
  let ?b = "moredata a"
  note m = moredata_plain [OF less.prems(1-3)]
  show ?case
  proof (cases "ab_erc ?b = ABUF_OK")
    case False
    then have "ab_avail a = []" using m(4) by blast
    then show ?thesis using False m less.prems(4) by (simp add: dump_loop_stop)
  next
    case True
    obtain d b1 where f: "abuf_flush n ?b = (d, b1)" "plain b1" "ab_erc b1 = ABUF_OK" "ab_end b1 = ab_end ?b"
      "ab_avail ?b = d @ ab_avail b1" "length d \<le> n" "length d < n \<longrightarrow> ab_cp b1 = length (ab_win b1)"
      "ab_cp ?b < length (ab_win ?b) \<longrightarrow> d \<noteq> []" "on_con b1 = on_con ?b"
      using m(1) True less.prems(4) by (rule dump_step)
    have step: "dump_loop n out ?b
        = dump_loop (n - length d) (out @ d) (if 0 < n - length d then moredata b1 else b1)"
      using True less.prems(4) f(1) by (simp add: dump_loop.simps [of n])
    show ?thesis
    proof (cases "length d = n")
      case True
      then show ?thesis using step f m by (auto simp: dump_loop_0)
    next
      case False
      then have lt: "length d < n" using f(6) by simp
      show ?thesis
      proof (cases "ab_avail a = []")
        case True
        then have e: "d = []" "ab_avail b1 = []" "ab_win ?b = []" using f(5,8) m(2,5) by auto
        then have b1: "b1 = ?b" using f(1) m(5) less.prems(4) by (simp add: abuf_flush_def)
        have "src_ateof (ab_src ?b)" using moredata_empty_eof [OF e(3)] \<open>ab_erc ?b = ABUF_OK\<close> by simp
        then have stop: "ab_erc (moredata ?b) = ABUF_EOF"
          using e(3) by (simp add: moredata_def src_getdata_ateof)
        note m2 = moredata_plain [OF f(2,3) mp [OF f(7) lt]]
        show ?thesis using step e b1 stop m m2 True lt by (auto simp: dump_loop_stop)
      next
        case False
        then have "d \<noteq> []" using m(4,5) f(8) by simp
        then have "length (ab_avail b1) < length (ab_avail a)" using f(5) m(2) by simp
        from less.hyps [OF this f(2,3) mp [OF f(7) lt], of "n - length d" "out @ d"] lt step f(4,5,9) m
        show ?thesis by auto
      qed
    qed
  qed
qed

lemma abuf_dump_plain:
  assumes pl: "plain a" and n: "0 < n" and erc: "ab_erc a = ABUF_OK"
  shows "\<exists>a'. abuf_dump n a = Some (Inr (take n (ab_avail a)), a') \<and> plain a'
     \<and> ab_avail a' = drop n (ab_avail a) \<and> ab_end a' = ab_end a
     \<and> (length (ab_avail a) < n \<longrightarrow> ab_erc a' \<noteq> ABUF_OK) \<and> on_con a' = on_con a"
proof -
  obtain d b1 where f: "abuf_flush n a = (d, b1)" "plain b1" "ab_erc b1 = ABUF_OK" "ab_end b1 = ab_end a"
    "ab_avail a = d @ ab_avail b1" "length d \<le> n" "length d < n \<longrightarrow> ab_cp b1 = length (ab_win b1)"
    "ab_cp a < length (ab_win a) \<longrightarrow> d \<noteq> []" "on_con b1 = on_con a"
    using pl erc n by (rule dump_step)
  have step: "dump_loop n [] a = dump_loop (n - length d) d (if 0 < n - length d then moredata b1 else b1)"
    using erc n f(1) by (simp add: dump_loop.simps [of n])
  have ge: "get_errchar a = None" using pl erc by (simp add: get_errchar_def plain_def)
  show ?thesis
  proof (cases "length d = n")
    case True
    then show ?thesis using step f ge by (auto simp: dump_loop_0 abuf_dump_def)
  next
    case False
    then have lt: "length d < n" using f(6) by simp
    from dump_loop_refill [OF f(2,3) mp [OF f(7) lt], of "n - length d" d] lt step f(4,5,9) ge
    show ?thesis by (auto simp: abuf_dump_def)
  qed
qed

lemma abuf_dump_stopped:
  assumes "plain a" and "ab_erc a \<noteq> ABUF_OK" and "ab_avail a = []"
  shows "abuf_dump n a = Some (Inl (ab_end a), a)"
  using assms
  by (auto simp: abuf_dump_def get_errchar_def plain_def abuf_inv_def ab_end_def split: abuf_stat.splits)

text \<open>
  The read loop takes what is there, up to the length asked for, and stops on the control
  character behind it when that is not enough.
\<close>

lemma rp_loop_done:
  "length body = len \<Longrightarrow> rp_loop len body a = Some (None, body, a)"
  by (simp add: rp_loop.simps [of len])

lemma rp_loop_spec:
  assumes pl: "plain a" and erc: "ab_erc a = ABUF_OK" and le: "length body \<le> len"
  shows "\<exists>a'. rp_loop len body a = Some (if len \<le> length body + length (ab_avail a) then None else Some (ab_end a),
       body @ take (len - length body) (ab_avail a), a') \<and> plain a'
     \<and> ab_avail a' = drop (len - length body) (ab_avail a) \<and> ab_end a' = ab_end a
     \<and> on_con a' = on_con a"
proof (cases "length body = len")
  case True
  then show ?thesis using pl by (simp add: rp_loop_done)
next
  case False
  then have lt: "length body < len" using le by simp
  let ?n = "len - length body"
  obtain a1 where d: "abuf_dump ?n a = Some (Inr (take ?n (ab_avail a)), a1)" "plain a1"
     "ab_avail a1 = drop ?n (ab_avail a)" "ab_end a1 = ab_end a"
     "length (ab_avail a) < ?n \<longrightarrow> ab_erc a1 \<noteq> ABUF_OK" "on_con a1 = on_con a"
    using abuf_dump_plain [OF pl _ erc, of ?n] lt by auto
  have step: "rp_loop len body a = rp_loop len (body @ take ?n (ab_avail a)) a1"
    using lt d(1) by (simp add: rp_loop.simps [of len body])
  show ?thesis
  proof (cases "?n \<le> length (ab_avail a)")
    case True
    then have "len \<le> length body + length (ab_avail a)" by simp
    then show ?thesis using step d lt True by (simp add: rp_loop_done)
  next
    case F: False
    then have "abuf_dump (?n - length (ab_avail a)) a1 = Some (Inl (ab_end a), a1)"
      using abuf_dump_stopped [OF d(2)] d by simp
    then have "rp_loop len (body @ ab_avail a) a1 = Some (Some (ab_end a), body @ ab_avail a, a1)"
      using F lt by (simp add: rp_loop.simps [of len "body @ ab_avail a"])
    then show ?thesis using step d F lt by simp
  qed
qed

section \<open>One callback per parse\<close>

text \<open>The parser is waiting and has reported nothing, or has stopped and has reported one status.\<close>

definition ap_settled :: "int list \<Rightarrow> 's async_parser \<Rightarrow> bool" where
  "ap_settled l p \<longleftrightarrow>
     (ap_parsing p \<and> ap_pcb p \<and> ap_log p = l) \<or> (\<not> ap_parsing p \<and> \<not> ap_pcb p \<and> (\<exists>r. ap_log p = l @ [r]))"

lemma ap_guts_settled:
  "ap_guts guts p = Some p' \<Longrightarrow> ap_parsing p \<Longrightarrow> ap_pcb p \<Longrightarrow> ap_log p = l \<Longrightarrow> ap_settled l p'"
  by (auto simp: ap_guts_def finish_parse_def ap_settled_def Let_def split: option.splits)

lemma ap_readable_settled:
  "ap_readable guts q p = Some p' \<Longrightarrow> ap_settled l p \<Longrightarrow> ap_settled l p'"
  by (auto simp: ap_readable_def can_read_cb_def Let_def ap_settled_def [of l p] split: if_splits
      intro: ap_guts_settled) (auto simp: ap_settled_def)

lemma ap_run_settled:
  "ap_run guts qs p = Some (acc, p') \<Longrightarrow> ap_settled l p \<Longrightarrow> ap_settled l p'"
  by (induction qs arbitrary: p acc) (auto split: option.splits dest: ap_readable_settled)

lemma ap_init_idle:
  "ap_init guts p = Some p1 \<Longrightarrow> \<not> ap_parsing p \<Longrightarrow> ap_pcb p1 = ap_pcb p \<and> ap_log p1 = ap_log p"
  by (auto simp: ap_init_def can_read_cb_def Let_def split: if_splits prod.splits)

lemma ap_parse_settled:
  "ap_parse guts True p = Some p1 \<Longrightarrow> ap_settled (ap_log p) p1"
  by (auto simp: ap_parse_def Let_def split: if_splits option.splits dest!: ap_init_idle
      intro: ap_guts_settled) (auto simp: ap_settled_def)


section \<open>The request body\<close>

definition rp_state :: "nat \<Rightarrow> string \<Rightarrow> raw_post async_parser \<Rightarrow> bool" where
  "rp_state len S p \<longleftrightarrow>
     plain (ap_abuf p) \<and> open_con (ap_abuf p) \<and> ap_srccb p \<and> rp_len (ap_st p) = len
   \<and> (if length S < len
      then ap_parsing p \<and> ap_pcb p \<and> ap_log p = [] \<and> \<not> rp_ok (ap_st p) \<and> rp_body (ap_st p) = S
         \<and> ab_avail (ap_abuf p) = []
      else \<not> ap_parsing p \<and> \<not> ap_pcb p \<and> ap_log p = [HTTP_OK] \<and> rp_ok (ap_st p)
         \<and> rp_body (ap_st p) = take len S)"

lemma rp_guts_spec:
  assumes "plain a" and "ab_erc a = ABUF_OK" and "length (rp_body r) < rp_len r"
  defines "S \<equiv> rp_body r @ ab_avail a"
  shows "\<exists>a'. plain a' \<and> ab_avail a' = drop (rp_len r - length (rp_body r)) (ab_avail a) \<and> ab_end a' = ab_end a
     \<and> on_con a' = on_con a
     \<and> rp_guts r a = Some
          (if rp_len r \<le> length S \<or> ab_end a = EOFCHAR
           then (Some HTTP_OK, r\<lparr>rp_body := take (rp_len r) S, rp_ok := True\<rparr>, a')
           else (None, r\<lparr>rp_body := S\<rparr>, a'))"
proof -
  obtain a' where l: "rp_loop (rp_len r) (rp_body r) a
        = Some (if rp_len r \<le> length (rp_body r) + length (ab_avail a) then None else Some (ab_end a),
       rp_body r @ take (rp_len r - length (rp_body r)) (ab_avail a), a')" "plain a'"
     "ab_avail a' = drop (rp_len r - length (rp_body r)) (ab_avail a)" "ab_end a' = ab_end a" "on_con a' = on_con a"
    using rp_loop_spec [OF assms(1,2), of "rp_body r" "rp_len r"] assms(3) by auto
  have "rp_body r @ take (rp_len r - length (rp_body r)) (ab_avail a) = take (rp_len r) S"
    using assms(3) by (simp add: S_def)
  then show ?thesis using l assms(3) by (auto simp: rp_guts_def S_def)
qed

lemma rp_run_guts:
  assumes p: "plain (ap_abuf p)" "open_con (ap_abuf p)" "ab_erc (ap_abuf p) = ABUF_OK"
    and s: "ap_srccb p" "ap_parsing p" "ap_pcb p" "ap_log p = []" "\<not> rp_ok (ap_st p)" "rp_len (ap_st p) = len"
      "length (rp_body (ap_st p)) < len"
  shows "\<exists>p'. ap_guts rp_guts p = Some p' \<and> rp_state len (rp_body (ap_st p) @ ab_avail (ap_abuf p)) p'"
proof -
  let ?S = "rp_body (ap_st p) @ ab_avail (ap_abuf p)"
  have e: "ab_end (ap_abuf p) = WAITCHAR" and oc: "on_con (ap_abuf p)" using p open_con_plain by auto
  obtain a' where g: "plain a'" "ab_avail a' = drop (len - length (rp_body (ap_st p))) (ab_avail (ap_abuf p))"
     "ab_end a' = WAITCHAR" "on_con a'"
     "rp_guts (ap_st p) (ap_abuf p) = Some
          (if len \<le> length ?S then (Some HTTP_OK, (ap_st p)\<lparr>rp_body := take len ?S, rp_ok := True\<rparr>, a')
           else (None, (ap_st p)\<lparr>rp_body := ?S\<rparr>, a'))"
    using rp_guts_spec [OF p(1,3), of "ap_st p"] s e oc by auto
  have "open_con a'" using g open_con_plain by blast
  then show ?thesis using g s
    by (auto simp: ap_guts_def finish_parse_def rp_state_def Let_def)
qed

lemma feed_plain:
  assumes "plain a" and "open_con a" and "q \<noteq> []"
  shows "plain (abuf_feed q a)" "open_con (abuf_feed q a)" "ab_erc (abuf_feed q a) = ABUF_OK"
    "ab_avail (abuf_feed q a) = ab_avail a @ take (src_room (ab_src a)) q"
proof -
  have inv: "abuf_inv a" using assms(1) by (simp add: plain_def)
  note f = abuf_feed_law [OF inv assms(2,3)]
  show pl: "plain (abuf_feed q a)"
    using f(1) assms(1) by (simp add: plain_def abuf_feed_def abuf_can_read_def)
  show "open_con (abuf_feed q a)" by (rule f(2))
  show "ab_erc (abuf_feed q a) = ABUF_OK" by (simp add: abuf_feed_def abuf_can_read_def)
  show "ab_avail (abuf_feed q a) = ab_avail a @ take (src_room (ab_src a)) q"
    using f(3) plain_pending [OF pl] plain_pending [OF assms(1)] by simp
qed

lemma rp_readable:
  assumes st: "rp_state len S p" and q: "q \<noteq> []"
  shows "\<exists>p'. ap_readable rp_guts q p = Some p' \<and> rp_state len (S @ take (src_room (ab_src (ap_abuf p))) q) p'"
proof -
  let ?b = "abuf_feed q (ap_abuf p)"
  have pl: "plain (ap_abuf p)" "open_con (ap_abuf p)" using st by (auto simp: rp_state_def)
  note f = feed_plain [OF pl q]
  have r: "ap_readable rp_guts q p
      = (let p1 = p\<lparr>ap_abuf := ?b\<rparr> in if ap_parsing p then ap_guts rp_guts p1 else Some (p1\<lparr>ap_dataready := True\<rparr>))"
    using st by (simp add: ap_readable_def can_read_cb_def rp_state_def abuf_feed_def Let_def)
  show ?thesis
  proof (cases "length S < len")
    case True
    then show ?thesis
      using st f r rp_run_guts [of "p\<lparr>ap_abuf := ?b\<rparr>" len] by (auto simp: rp_state_def Let_def)
  next
    case False
    then show ?thesis using st f r by (auto simp: rp_state_def Let_def)
  qed
qed

lemma rp_run:
  assumes "rp_state len S p" and "\<forall>q \<in> set qs. q \<noteq> []"
  shows "\<exists>acc p'. ap_run rp_guts qs p = Some (acc, p') \<and> rp_state len (S @ acc) p'"
  using assms
proof (induction qs arbitrary: S p)
  case (Cons q qs)
  obtain p1 where p1: "ap_readable rp_guts q p = Some p1" "rp_state len (S @ take (src_room (ab_src (ap_abuf p))) q) p1"
    using rp_readable [OF Cons.prems(1)] Cons.prems(2) by auto
  with Cons.IH [OF p1(2)] Cons.prems(2) show ?case by auto
qed simp

lemma rp_start:
  assumes a: "plain a" "ab_src a = Src_con c" "\<not> con_eof c" "con_selread c" "ab_erc a = ABUF_OK" and len: "0 < len"
  shows "\<exists>p1. ap_parse rp_guts True (async_parser_new (raw_post_new len) a) = Some p1 \<and> rp_state len (ab_avail a) p1"
proof (cases "resid (con_in c) = 0")
  case True
  have inv: "suiolite_inv (con_in c)" "take (length (ab_win a)) (sl_content (con_in c)) = ab_win a"
    using a by (auto simp: plain_def abuf_inv_def)
  then have "sl_content (con_in c) = []" using True by (metis length_0_conv resid_content)
  then have "ab_avail a = []" using inv(2) a by (simp add: ab_avail_def)
  moreover have "open_con a" using a by (simp add: open_con_def plain_def)
  moreover have upd: "a\<lparr>ab_src := Src_con c\<rparr> = a" using a(2) by simp
  ultimately show ?thesis
    using True a len by (simp add: upd ap_parse_def ap_init_def async_parser_new_def raw_post_new_def rp_state_def)
next
  case False
  have upd: "abuf_can_read a = a" "a\<lparr>ab_src := Src_con c\<rparr> = a" using a(2,5) by (simp_all add: abuf_can_read_def)
  then have "ap_parse rp_guts True (async_parser_new (raw_post_new len) a)
     = ap_guts rp_guts \<lparr>ap_abuf = a, ap_pcb = True, ap_parsing = True, ap_dataready = True,
     ap_srccb = True, ap_log = [], ap_st = raw_post_new len\<rparr>"
    using False a by (simp add: upd ap_parse_def ap_init_def async_parser_new_def can_read_cb_def con_readcb_def Let_def)
  then show ?thesis
    using rp_run_guts [of "\<lparr>ap_abuf = a, ap_pcb = True, ap_parsing = True, ap_dataready = True,
     ap_srccb = True, ap_log = [], ap_st = raw_post_new len\<rparr>" len] a len
    by (auto simp: raw_post_new_def open_con_def plain_def)
qed

text \<open>
  C19.  The raw body reader delivers the body: on an open connection, over every sequence of arriving
  chunks, it calls back with success as soon as the stream holds the length asked for and not before,
  and what it delivers are the first bytes of the stream, in order, to that length.
\<close>
theorem raw_post_whole_body:
  assumes "plain a" "ab_src a = Src_con c" "\<not> con_eof c" "con_selread c" "ab_erc a = ABUF_OK"
    and "0 < len" and "\<forall>q \<in> set qs. q \<noteq> []"
  shows "\<exists>p1 acc p2. ap_parse rp_guts True (async_parser_new (raw_post_new len) a) = Some p1
     \<and> ap_run rp_guts qs p1 = Some (acc, p2)
     \<and> (if len \<le> length (ab_pending a @ acc)
        then ap_log p2 = [HTTP_OK] \<and> rp_contents (ap_st p2) = Some (take len (ab_pending a @ acc))
        else ap_log p2 = [] \<and> rp_contents (ap_st p2) = None \<and> rp_body (ap_st p2) = ab_pending a @ acc)"
proof -
  obtain p1 where p1: "ap_parse rp_guts True (async_parser_new (raw_post_new len) a) = Some p1"
      "rp_state len (ab_avail a) p1"
    using rp_start [OF assms(1-6)] by blast
  obtain acc p2 where "ap_run rp_guts qs p1 = Some (acc, p2)" "rp_state len (ab_avail a @ acc) p2"
    using rp_run [OF p1(2) assms(7)] by blast
  then show ?thesis using p1 plain_pending [OF assms(1)]
    by (auto simp: rp_state_def rp_contents_def split: if_splits)
qed

lemma con64_start:
  "plain (abuf_on_con 64)" "ab_src (abuf_on_con 64) = Src_con (abuf_con_new (suiolite_new 64 False) False)"
  "ab_erc (abuf_on_con 64) = ABUF_OK"
  using abuf_on_con_init(1) [of 64] by (simp_all add: plain_def abuf_on_con_def abuf_new_def)

theorem raw_post_whole_body_witness:
  "\<exists>p1 acc p2. ap_parse rp_guts True (async_parser_new (raw_post_new 5) (abuf_on_con 64)) = Some p1
     \<and> ap_run rp_guts [''he'', ''llo world''] p1 = Some (acc, p2)
     \<and> (if 5 \<le> length (ab_pending (abuf_on_con 64) @ acc)
        then ap_log p2 = [HTTP_OK] \<and> rp_contents (ap_st p2) = Some (take 5 (ab_pending (abuf_on_con 64) @ acc))
        else ap_log p2 = [] \<and> rp_contents (ap_st p2) = None
           \<and> rp_body (ap_st p2) = ab_pending (abuf_on_con 64) @ acc)"
  by (rule raw_post_whole_body [OF con64_start(1,2) _ _ con64_start(3)]) (simp_all add: abuf_con_new_def)


end
