(* ===== verification/Clist.thy ===== *)
theory Clist
  imports Prelude
begin

text \<open>
  The intrusive doubly linked list of \<^verbatim>\<open>src/libpub/clist.h\<close>, on an explicit heap: an address maps
  to the \<^verbatim>\<open>clist_entry\<close> embedded in the object there, a null pointer is \<open>None\<close>.  Every
  operation is the pointer code; the refinement relates the heap and the list head to the abstract
  list of the addresses linked.  Reading through a null pointer does not occur in any operation
  (each dereference is behind a test), so the operations are total.
\<close>

section \<open>Lists in the heap\<close>

type_synonym addr = nat

record clist_entry =
  nxt :: "addr option"
  prv :: "addr option"

type_synonym clist_heap = "addr \<Rightarrow> clist_entry"

record clist =
  cl_first :: "addr option"
  cl_last :: "addr option"
  cl_nelem :: nat

definition clist_new :: clist where
  "clist_new = \<lparr>cl_first = None, cl_last = None, cl_nelem = 0\<rparr>"

definition cl_is_empty :: "clist \<Rightarrow> bool" where
  "cl_is_empty l \<longleftrightarrow> cl_first l = None"

definition set_nxt :: "addr \<Rightarrow> addr option \<Rightarrow> clist_heap \<Rightarrow> clist_heap" where
  "set_nxt a v h = h(a := (h a)\<lparr>nxt := v\<rparr>)"

definition set_prv :: "addr \<Rightarrow> addr option \<Rightarrow> clist_heap \<Rightarrow> clist_heap" where
  "set_prv a v h = h(a := (h a)\<lparr>prv := v\<rparr>)"

definition insert_head :: "addr \<Rightarrow> clist_heap \<times> clist \<Rightarrow> clist_heap \<times> clist" where
  "insert_head elm = (\<lambda>(h, l).
     let h = set_nxt elm (cl_first l) h;
         (h, l) = (case cl_first l of
                     Some f \<Rightarrow> (set_prv f (Some elm) h, l)
                   | None \<Rightarrow> (h, l\<lparr>cl_last := Some elm\<rparr>));
         l = l\<lparr>cl_first := Some elm\<rparr>;
         h = set_prv elm None h in
     (h, l\<lparr>cl_nelem := cl_nelem l + 1\<rparr>))"

definition insert_tail :: "addr \<Rightarrow> clist_heap \<times> clist \<Rightarrow> clist_heap \<times> clist" where
  "insert_tail elm = (\<lambda>(h, l).
     let h = set_prv elm (cl_last l) (set_nxt elm None h);
         (h, l) = (case cl_last l of
                     Some e \<Rightarrow> (set_nxt e (Some elm) h, l)
                   | None \<Rightarrow> (h, l\<lparr>cl_first := Some elm\<rparr>)) in
     (h, l\<lparr>cl_last := Some elm, cl_nelem := cl_nelem l + 1\<rparr>))"

definition cl_remove :: "addr \<Rightarrow> clist_heap \<times> clist \<Rightarrow> clist_heap \<times> clist" where
  "cl_remove elm = (\<lambda>(h, l).
     let (h, l) = (case nxt (h elm) of
                     Some n \<Rightarrow> (set_prv n (prv (h elm)) h, l)
                   | None \<Rightarrow> (h, l\<lparr>cl_last := prv (h elm)\<rparr>));
         (h, l) = (case prv (h elm) of
                     Some p \<Rightarrow> (set_nxt p (nxt (h elm)) h, l)
                   | None \<Rightarrow> (h, l\<lparr>cl_first := nxt (h elm)\<rparr>)) in
     (h, l\<lparr>cl_nelem := cl_nelem l - 1\<rparr>))"

definition pop_front :: "clist_heap \<times> clist \<Rightarrow> addr option \<times> (clist_heap \<times> clist)" where
  "pop_front s = (case cl_first (snd s) of Some e \<Rightarrow> (Some e, cl_remove e s) | None \<Rightarrow> (None, s))"

definition pop_tail :: "clist_heap \<times> clist \<Rightarrow> addr option \<times> (clist_heap \<times> clist)" where
  "pop_tail s = (case cl_last (snd s) of Some e \<Rightarrow> (Some e, cl_remove e s) | None \<Rightarrow> (None, s))"

definition cl_replace :: "addr \<Rightarrow> addr \<Rightarrow> clist_heap \<times> clist \<Rightarrow> clist_heap \<times> clist" where
  "cl_replace what w = (\<lambda>(h, l).
     let h = set_prv w (prv (h what)) h;
         h = set_nxt w (nxt (h what)) h;
         (h, l) = (case prv (h w) of
                     Some p \<Rightarrow> (set_nxt p (Some w) h, l)
                   | None \<Rightarrow> (h, l\<lparr>cl_first := Some w\<rparr>));
         (h, l) = (case nxt (h w) of
                     Some n \<Rightarrow> (set_prv n (Some w) h, l)
                   | None \<Rightarrow> (h, l\<lparr>cl_last := Some w\<rparr>)) in
     (h, l))"

text \<open>\<^verbatim>\<open>append_list\<close> changes both list heads: this list and its argument.\<close>

definition append_list ::
    "clist_heap \<Rightarrow> clist \<Rightarrow> clist \<Rightarrow> clist_heap \<times> clist \<times> clist" where
  "append_list h this l =
     (let this = this\<lparr>cl_nelem := cl_nelem this + cl_nelem l\<rparr> in
      case cl_first l of
        None \<Rightarrow> (h, this, l)
      | Some lf \<Rightarrow>
          (case (cl_first this, cl_last this) of
             (Some f, Some e) \<Rightarrow>
               (set_prv lf (Some e) (set_nxt e (Some lf) h),
                this\<lparr>cl_last := cl_last l\<rparr>, l\<lparr>cl_first := Some f\<rparr>)
           | _ \<Rightarrow> (h, l, l)))"

text \<open>The order in which \<^verbatim>\<open>traverse\<close> calls back; the next pointer is read before the call.\<close>

partial_function (option) cl_traverse :: "clist_heap \<Rightarrow> addr option \<Rightarrow> addr list option" where
  "cl_traverse h p =
     (case p of
        None \<Rightarrow> Some []
      | Some a \<Rightarrow> Option.bind (cl_traverse h (nxt (h a))) (\<lambda>as. Some (a # as)))"

declare cl_traverse.simps [code]

definition deleteall :: "clist_heap \<Rightarrow> clist \<Rightarrow> (addr list \<times> clist) option" where
  "deleteall h l = Option.bind (cl_traverse h (cl_first l)) (\<lambda>as. Some (as, clist_new))"

section \<open>Abstraction\<close>

definition hdo :: "addr list \<Rightarrow> addr option \<Rightarrow> addr option" where
  "hdo xs n = (case xs of [] \<Rightarrow> n | x # _ \<Rightarrow> Some x)"

definition lasto :: "addr list \<Rightarrow> addr option \<Rightarrow> addr option" where
  "lasto xs p = (if xs = [] then p else Some (last xs))"

text \<open>A segment of linked cells between the neighbours \<open>p\<close> and \<open>n\<close>.\<close>

fun dseg :: "clist_heap \<Rightarrow> addr option \<Rightarrow> addr list \<Rightarrow> addr option \<Rightarrow> bool" where
  "dseg h p [] n \<longleftrightarrow> True"
| "dseg h p (x # xs) n \<longleftrightarrow> prv (h x) = p \<and> nxt (h x) = hdo xs n \<and> dseg h (Some x) xs n"

definition cl_rep :: "clist_heap \<times> clist \<Rightarrow> addr list \<Rightarrow> bool" where
  "cl_rep s xs \<longleftrightarrow> distinct xs \<and> dseg (fst s) None xs None \<and>
     snd s = \<lparr>cl_first = hdo xs None, cl_last = lasto xs None, cl_nelem = length xs\<rparr>"

lemma hdo_simps [simp]: "hdo [] n = n" "hdo (x # xs) n = Some x"
  by (simp_all add: hdo_def)

lemma hdo_append: "hdo (xs @ ys) n = hdo xs (hdo ys n)"
  by (cases xs) auto

lemma lasto_simps [simp]: "lasto [] p = p" "lasto (xs @ [x]) p = Some x" "lasto (x # xs) p = lasto xs (Some x)"
  by (simp_all add: lasto_def)

lemma lasto_append: "lasto (xs @ ys) p = lasto ys (lasto xs p)"
  by (simp add: lasto_def)

lemma dseg_append: "dseg h p (xs @ ys) n \<longleftrightarrow> dseg h p xs (hdo ys n) \<and> dseg h (lasto xs p) ys n"
  by (induction xs arbitrary: p) (auto simp: hdo_append)

lemma dseg_frame: "x \<notin> set xs \<Longrightarrow> dseg (h(x := e)) p xs n = dseg h p xs n"
  by (induction xs arbitrary: p) auto

lemma dseg_set_nxt [simp]: "x \<notin> set xs \<Longrightarrow> dseg (set_nxt x v h) p xs n = dseg h p xs n"
  by (simp add: set_nxt_def dseg_frame)

lemma dseg_set_prv [simp]: "x \<notin> set xs \<Longrightarrow> dseg (set_prv x v h) p xs n = dseg h p xs n"
  by (simp add: set_prv_def dseg_frame)

lemma set_nxt_sel [simp]:
  "nxt (set_nxt a v h b) = (if b = a then v else nxt (h b))" "prv (set_nxt a v h b) = prv (h b)"
  by (simp_all add: set_nxt_def)

lemma set_prv_sel [simp]:
  "prv (set_prv a v h b) = (if b = a then v else prv (h b))" "nxt (set_prv a v h b) = nxt (h b)"
  by (simp_all add: set_prv_def)

text \<open>Re-linking the last cell of a segment, and the first.\<close>

lemma dseg_relink_last:
  assumes "dseg h p xs n" "distinct xs" "lasto xs None = Some e"
  shows "dseg (set_nxt e m h) p xs m"
  using assms by (cases xs rule: rev_cases) (auto simp: dseg_append lasto_def)

lemma dseg_relink_first:
  assumes "dseg h p xs n" "distinct xs" "hdo xs None = Some f"
  shows "dseg (set_prv f q h) q xs n"
  using assms by (cases xs) auto

lemma cl_rep_new: "cl_rep (h, clist_new) []"
  by (simp add: cl_rep_def clist_new_def)

lemma insert_head_rep:
  assumes "cl_rep s xs" "a \<notin> set xs"
  shows "cl_rep (insert_head a s) (a # xs)"
proof (cases xs)
  case Nil
  then show ?thesis using assms by (cases s) (simp add: cl_rep_def insert_head_def)
next
  case (Cons x ys)
  then show ?thesis
    using assms by (cases s) (auto simp: cl_rep_def insert_head_def lasto_def)
qed

lemma insert_tail_rep:
  assumes "cl_rep s xs" "a \<notin> set xs"
  shows "cl_rep (insert_tail a s) (xs @ [a])"
proof (cases xs rule: rev_cases)
  case Nil
  then show ?thesis using assms by (cases s) (simp add: cl_rep_def insert_tail_def)
next
  case (snoc ys y)
  then show ?thesis
    using assms by (cases s) (auto simp: cl_rep_def insert_tail_def dseg_append hdo_append lasto_append)
qed

text \<open>The cell between two segments.\<close>

lemma cl_rep_split:
  assumes "cl_rep (h, l) (as @ a # bs)"
  shows "distinct (as @ bs)" "a \<notin> set as" "a \<notin> set bs" "prv (h a) = lasto as None" "nxt (h a) = hdo bs None"
    "dseg h None as (Some a)" "dseg h (Some a) bs None"
    "l = \<lparr>cl_first = hdo as (Some a), cl_last = lasto bs (Some a), cl_nelem = Suc (length as + length bs)\<rparr>"
  using assms by (auto simp: cl_rep_def dseg_append hdo_append lasto_append)

lemma cl_remove_rep:
  assumes "cl_rep s (as @ a # bs)"
  shows "cl_rep (cl_remove a s) (as @ bs)"
proof (cases s)
  case (Pair h l)
  note f = cl_rep_split[OF assms[unfolded Pair]]
  show ?thesis
  proof (cases as rule: rev_cases)
    case Nil
    then show ?thesis
      using f Pair by (cases bs) (auto simp: cl_rep_def cl_remove_def lasto_def)
  next
    case (snoc as' p)
    then show ?thesis
      using f Pair
      by (cases bs) (auto simp: cl_rep_def cl_remove_def dseg_append hdo_append lasto_append lasto_def)
  qed
qed

lemma cl_replace_rep:
  assumes "cl_rep s (as @ a # bs)" "w \<notin> set (as @ a # bs)"
  shows "cl_rep (cl_replace a w s) (as @ w # bs)"
proof (cases s)
  case (Pair h l)
  note f = cl_rep_split[OF assms(1)[unfolded Pair]]
  show ?thesis
  proof (cases as rule: rev_cases)
    case Nil
    then show ?thesis
      using f Pair assms(2) by (cases bs) (auto simp: cl_rep_def cl_replace_def lasto_def)
  next
    case (snoc as' p)
    then show ?thesis
      using f Pair assms(2)
      by (cases bs) (auto simp: cl_rep_def cl_replace_def dseg_append hdo_append lasto_append lasto_def)
  qed
qed

lemma append_list_rep:
  assumes "cl_rep (h, this) xs" "cl_rep (h, l) ys" "set xs \<inter> set ys = {}"
  shows "case append_list h this l of (h', this', _) \<Rightarrow> cl_rep (h', this') (xs @ ys)"
proof (cases ys)
  case Nil
  then show ?thesis using assms by (simp add: append_list_def cl_rep_def)
next
  case (Cons y ys')
  show ?thesis
  proof (cases xs rule: rev_cases)
    case Nil
    then show ?thesis using assms Cons by (simp add: append_list_def cl_rep_def)
  next
    case (snoc xs' x)
    then have "hdo (xs' @ [x]) None = Some (hd xs)" by (cases xs') auto
    then show ?thesis
      using assms Cons snoc
      by (auto simp: append_list_def cl_rep_def dseg_append hdo_append lasto_append lasto_def Let_def)
  qed
qed

lemma cl_traverse_seg: "dseg h p xs None \<Longrightarrow> cl_traverse h (hdo xs None) = Some xs"
proof (induction xs arbitrary: p)
  case Nil
  show ?case by (subst cl_traverse.simps) simp
next
  case (Cons x xs)
  then show ?case by (subst cl_traverse.simps) auto
qed

section \<open>The list as an ordered container\<close>

text \<open>
  What the users of the list (the pair table, the connection and timeout queues) rely on:
  \<open>rep s xs\<close> says the container \<open>s\<close> links \<open>xs\<close> in that order.
\<close>

locale ordered_container =
  fixes rep :: "'s \<Rightarrow> 'a list \<Rightarrow> bool"
    and add :: "'a \<Rightarrow> 's \<Rightarrow> 's"
    and del :: "'a \<Rightarrow> 's \<Rightarrow> 's"
    and trav :: "'s \<Rightarrow> 'a list option"
  assumes add_rep: "rep s xs \<Longrightarrow> a \<notin> set xs \<Longrightarrow> rep (add a s) (xs @ [a])"
    and del_rep: "rep s (as @ a # bs) \<Longrightarrow> rep (del a s) (as @ bs)"
    and trav_rep: "rep s xs \<Longrightarrow> trav s = Some xs"
    and rep_distinct: "rep s xs \<Longrightarrow> distinct xs"
begin

lemma del_remove1:
  assumes "rep s xs" "a \<in> set xs"
  shows "rep (del a s) (remove1 a xs)"
proof -
  obtain as bs where "xs = as @ a # bs" "a \<notin> set as" using assms(2) by (meson split_list_first)
  then show ?thesis using del_rep assms(1) by (simp add: remove1_append)
qed

lemma fold_add_rep:
  "rep s xs \<Longrightarrow> distinct ys \<Longrightarrow> set xs \<inter> set ys = {} \<Longrightarrow> rep (fold add ys s) (xs @ ys)"
proof (induction ys arbitrary: s xs)
  case (Cons y ys)
  then have "rep (add y s) (xs @ [y])" using add_rep by simp
  from Cons.IH[OF this] show ?case using Cons.prems by auto
qed simp

lemma fold_del_rep:
  "rep s xs \<Longrightarrow> distinct ys \<Longrightarrow> set ys \<subseteq> set xs \<Longrightarrow> rep (fold del ys s) (filter (\<lambda>x. x \<notin> set ys) xs)"
proof (induction ys arbitrary: s xs)
  case (Cons y ys)
  have d: "distinct xs" using Cons.prems rep_distinct by blast
  have "rep (del y s) (remove1 y xs)" using Cons.prems del_remove1 by simp
  moreover have "set ys \<subseteq> set (remove1 y xs)" using Cons.prems d by auto
  ultimately have "rep (fold del ys (del y s)) (filter (\<lambda>x. x \<notin> set ys) (remove1 y xs))"
    using Cons.IH Cons.prems by simp
  moreover have "filter (\<lambda>x. x \<notin> set ys) (remove1 y xs) = filter (\<lambda>x. x \<notin> set (y # ys)) xs"
    using d by (auto simp: distinct_remove1_removeAll removeAll_filter_not_eq intro: filter_cong)
  ultimately show ?case by simp
qed simp

lemma add_all_del_some:
  assumes "rep s []" "distinct xs" "distinct ys" "set ys \<subseteq> set xs"
  shows "trav (fold del ys (fold add xs s)) = Some (filter (\<lambda>x. x \<notin> set ys) xs)"
  using fold_del_rep[OF fold_add_rep[OF assms(1,2)]] assms by (intro trav_rep) auto

end

interpretation cl: ordered_container cl_rep insert_tail cl_remove "\<lambda>(h, l). cl_traverse h (cl_first l)"
proof
  fix s :: "clist_heap \<times> clist" and xs
  assume "cl_rep s xs"
  then show "(case s of (h, l) \<Rightarrow> cl_traverse h (cl_first l)) = Some xs"
    using cl_traverse_seg[of "fst s" None xs] by (cases s) (simp add: cl_rep_def)
qed (simp_all add: insert_tail_rep cl_remove_rep, simp add: cl_rep_def)

section \<open>Every operation\<close>

datatype cl_cmd = InsHead addr | InsTail addr | Remove addr | Replace addr addr | PopFront | PopTail

fun cl_exec :: "cl_cmd \<Rightarrow> clist_heap \<times> clist \<Rightarrow> addr option \<times> (clist_heap \<times> clist)" where
  "cl_exec (InsHead a) s = (None, insert_head a s)"
| "cl_exec (InsTail a) s = (None, insert_tail a s)"
| "cl_exec (Remove a) s = (Some a, cl_remove a s)"
| "cl_exec (Replace a b) s = (None, cl_replace a b s)"
| "cl_exec PopFront s = pop_front s"
| "cl_exec PopTail s = pop_tail s"

fun cl_run :: "cl_cmd list \<Rightarrow> clist_heap \<times> clist \<Rightarrow> addr option list \<times> (clist_heap \<times> clist)" where
  "cl_run [] s = ([], s)"
| "cl_run (c # cs) s = (let (r, s') = cl_exec c s; (rs, s'') = cl_run cs s' in (r # rs, s''))"

text \<open>The abstract list; \<open>None\<close> when the caller breaks the contract of the operation.\<close>

fun seq_exec :: "cl_cmd \<Rightarrow> addr list \<Rightarrow> (addr option \<times> addr list) option" where
  "seq_exec (InsHead a) xs = (if a \<in> set xs then None else Some (None, a # xs))"
| "seq_exec (InsTail a) xs = (if a \<in> set xs then None else Some (None, xs @ [a]))"
| "seq_exec (Remove a) xs = (if a \<in> set xs then Some (Some a, remove1 a xs) else None)"
| "seq_exec (Replace a b) xs =
     (if a \<in> set xs \<and> b \<notin> set xs then Some (None, map (\<lambda>x. if x = a then b else x) xs) else None)"
| "seq_exec PopFront xs = (case xs of [] \<Rightarrow> Some (None, []) | x # ys \<Rightarrow> Some (Some x, ys))"
| "seq_exec PopTail xs = (if xs = [] then Some (None, []) else Some (Some (last xs), butlast xs))"

fun seq_run :: "cl_cmd list \<Rightarrow> addr list \<Rightarrow> (addr option list \<times> addr list) option" where
  "seq_run [] xs = Some ([], xs)"
| "seq_run (c # cs) xs =
     Option.bind (seq_exec c xs) (\<lambda>(r, xs').
     Option.bind (seq_run cs xs') (\<lambda>(rs, xs''). Some (r # rs, xs'')))"

lemma pop_front_rep:
  assumes "cl_rep s xs"
  shows "fst (pop_front s) = hdo xs None \<and> cl_rep (snd (pop_front s)) (tl xs)"
proof (cases xs)
  case Nil
  then show ?thesis using assms by (auto simp: pop_front_def cl_rep_def)
next
  case (Cons x ys)
  then show ?thesis
    using assms cl_remove_rep[of s "[]" x ys] by (auto simp: pop_front_def cl_rep_def)
qed

lemma pop_tail_rep:
  assumes "cl_rep s xs"
  shows "fst (pop_tail s) = lasto xs None \<and> cl_rep (snd (pop_tail s)) (butlast xs)"
proof (cases xs rule: rev_cases)
  case Nil
  then show ?thesis using assms by (auto simp: pop_tail_def cl_rep_def)
next
  case (snoc ys y)
  then have "cl_last (snd s) = Some y" using assms by (simp add: cl_rep_def lasto_append)
  then show ?thesis
    using assms snoc cl_remove_rep[of s ys y "[]"] by (simp add: pop_tail_def lasto_append)
qed

lemma replace_map:
  assumes "distinct (as @ a # bs)"
  shows "map (\<lambda>x. if x = a then b else x) (as @ a # bs) = as @ b # bs"
  using assms by (auto intro!: map_idI)

lemma cl_exec_rep:
  assumes "cl_rep s xs" "seq_exec c xs = Some (r, xs')"
  shows "fst (cl_exec c s) = r \<and> cl_rep (snd (cl_exec c s)) xs'"
proof (cases c)
  case (Replace a b)
  then have ab: "a \<in> set xs" "b \<notin> set xs" "r = None" "xs' = map (\<lambda>x. if x = a then b else x) xs"
    using assms(2) by (auto split: if_splits)
  obtain as bs where xs: "xs = as @ a # bs" using ab(1) by (meson split_list)
  moreover have "distinct xs" using assms(1) by (simp add: cl_rep_def)
  ultimately have "xs' = as @ b # bs" using ab(4) replace_map[of as a bs b] by simp
  then show ?thesis using cl_replace_rep assms(1) ab Replace xs by auto
next
  case PopTail
  then show ?thesis using assms pop_tail_rep[OF assms(1)] by (auto simp: lasto_def split: if_splits)
next
  case PopFront
  then show ?thesis using assms pop_front_rep[OF assms(1)] by (auto split: list.splits)
qed (use assms in \<open>auto intro: insert_head_rep insert_tail_rep cl.del_remove1 split: if_splits\<close>)

lemma cl_run_rep:
  "cl_rep s xs \<Longrightarrow> seq_run cs xs = Some (rs, xs') \<Longrightarrow> fst (cl_run cs s) = rs \<and> cl_rep (snd (cl_run cs s)) xs'"
proof (induction cs arbitrary: s xs rs)
  case (Cons c cs)
  obtain r ys rs' where st: "seq_exec c xs = Some (r, ys)" "seq_run cs ys = Some (rs', xs')" "rs = r # rs'"
    using Cons.prems(2) by (auto simp: bind_eq_Some_conv)
  then have "fst (cl_exec c s) = r" "cl_rep (snd (cl_exec c s)) ys"
    using cl_exec_rep Cons.prems(1) by blast+
  with Cons.IH[OF _ st(2)] show ?case using st(3) by (simp add: case_prod_beta Let_def)
qed simp

section \<open>Properties\<close>

text \<open>
  C24.  The pointer code of the list implements abstract sequences: whatever the initial contents
  of the heap, after any sequence of insertions, removals, replacements and pops that respects the
  callers' contract (insert only unlinked objects, remove only linked ones), the heap holds exactly
  the abstract list, forwards and backwards, with its length; the pops returned the same
  objects, and \<^verbatim>\<open>traverse\<close> visits the objects in order and returns.
\<close>

theorem clist_refines_sequences:
  assumes "seq_run cmds [] = Some (rs, xs)"
  shows "\<exists>h l. cl_run cmds (h0, clist_new) = (rs, h, l) \<and> cl_rep (h, l) xs
    \<and> cl_traverse h (cl_first l) = Some xs \<and> cl_nelem l = length xs"
proof -
  obtain h l where run: "cl_run cmds (h0, clist_new) = (rs, h, l)" and rep: "cl_rep (h, l) xs"
    using cl_run_rep[OF cl_rep_new[of h0] assms] by (cases "cl_run cmds (h0, clist_new)") auto
  then show ?thesis using cl.trav_rep[OF rep] by (auto simp: cl_rep_def)
qed

theorem clist_refines_sequences_witness:
  "\<exists>h l. cl_run [InsTail 1, InsHead 2, InsTail 3, Remove 1, Replace 3 4, PopFront]
      ((\<lambda>_. \<lparr>nxt = None, prv = None\<rparr>), clist_new)
    = ([None, None, None, Some 1, None, Some 2], h, l) \<and> cl_rep (h, l) [4]
    \<and> cl_traverse h (cl_first l) = Some [4] \<and> cl_nelem l = length [4 :: nat]"
  by (rule clist_refines_sequences) code_simp

text \<open>
  \<^verbatim>\<open>append_list\<close> splices two disjoint lists of one heap into their concatenation.
\<close>

theorem clist_append_list:
  assumes "cl_rep (h, this) xs" "cl_rep (h, l) ys" "set xs \<inter> set ys = {}"
    and "append_list h this l = (h', this', l')"
  shows "cl_rep (h', this') (xs @ ys)"
  using append_list_rep[OF assms(1-3)] assms(4) by simp

theorem clist_append_list_witness:
  "\<exists>h' this' l'. append_list
      (\<lambda>a. if a = 1 then \<lparr>nxt = Some 2, prv = None\<rparr> else if a = 2 then \<lparr>nxt = None, prv = Some 1\<rparr>
           else \<lparr>nxt = None, prv = None\<rparr>)
      \<lparr>cl_first = Some 1, cl_last = Some 2, cl_nelem = 2\<rparr> \<lparr>cl_first = Some 3, cl_last = Some 3, cl_nelem = 1\<rparr>
    = (h', this', l') \<and> cl_rep (h', this') ([1, 2] @ [3])"
proof -
  let ?h = "\<lambda>a :: nat. if a = 1 then \<lparr>nxt = Some 2, prv = None\<rparr> else if a = 2 then \<lparr>nxt = None, prv = Some 1\<rparr>
           else \<lparr>nxt = None, prv = None\<rparr>"
  have "cl_rep (?h, \<lparr>cl_first = Some 1, cl_last = Some 2, cl_nelem = 2\<rparr>) [1, 2]"
    "cl_rep (?h, \<lparr>cl_first = Some 3, cl_last = Some 3, cl_nelem = 1\<rparr>) [3]"
    by (simp_all add: cl_rep_def)
  from clist_append_list[OF this] show ?thesis
    by (cases "append_list ?h \<lparr>cl_first = Some 1, cl_last = Some 2, cl_nelem = 2\<rparr> \<lparr>cl_first = Some 3, cl_last = Some 3, cl_nelem = 1\<rparr>") simp
qed

end
