(* ===== verification/Scalar.thy ===== *)
theory Scalar
  imports Clib "HOL-Library.Signed_Division"
begin

text \<open>
  The scalars of the template language, \<^verbatim>\<open>scalar_obj_t\<close> of \<^verbatim>\<open>src/libpub/pscalar.h\<close> and
  \<^verbatim>\<open>src/libpub/scalar.C\<close>: a string with cached conversions to the integers and to \<^verbatim>\<open>double\<close>, and the
  arithmetic and comparison on them.  A member that was never assigned is \<open>None\<close>.  The operations on
  \<^verbatim>\<open>double\<close> and the order of sfslite's strings are arguments, collected in the record \<open>sc_env\<close>.
\<close>

section \<open>Integers of 64 bits\<close>

definition to_i64 :: "int \<Rightarrow> int" where
  "to_i64 v = (v + 2 ^ 63) mod 2 ^ 64 - 2 ^ 63"

definition to_u64 :: "int \<Rightarrow> int" where
  "to_u64 v = v mod 2 ^ 64"

definition fits_i64 :: "int \<Rightarrow> bool" where
  "fits_i64 v \<longleftrightarrow> INT64_MIN \<le> v \<and> v \<le> INT64_MAX"

section \<open>Strings as integers\<close>

text \<open>\<^verbatim>\<open>convertuint\<close> and \<^verbatim>\<open>my_convertint\<close>: base 0, the whole C string.\<close>

definition convertuint :: "string \<Rightarrow> int option" where
  "convertuint s =
     (if s = [] then None
      else if hd s = CHR ''-'' then None
      else let (v, r, e) = strtoull (cstr s) in if e then None else if r = [] then Some v else None)"

definition my_convertint :: "string \<Rightarrow> int option" where
  "my_convertint s =
     (if s = [] then None
      else let (v, r, e) = strtoll (cstr s) in if e then None else if r = [] then Some v else None)"

section \<open>The state\<close>

datatype sc_type = TYPE_NONE | TYPE_STR | TYPE_INT | TYPE_UINT | TYPE_DOUBLE | TYPE_INF

datatype cnv_status = CNV_NONE | CNV_OK | CNV_BAD

record 'd scalar =
  sp_s :: "string option"
  sp_double_cnv :: cnv_status
  sp_int_cnv :: cnv_status
  sp_uint_cnv :: cnv_status
  sp_d :: "'d option"
  sp_i :: "int option"
  sp_u :: "int option"
  sp_natural_type :: sc_type

text \<open>
  \<open>fp_strtod\<close> gives the value and what follows the number, \<open>fp_fmt\<close> is \<^verbatim>\<open>snprintf\<close> with the
  configured format, \<open>str_cmp\<close> the order of strings.
\<close>

record 'd sc_env =
  fp_of_int :: "int \<Rightarrow> 'd"
  fp_add :: "'d \<Rightarrow> 'd \<Rightarrow> 'd"
  fp_sub :: "'d \<Rightarrow> 'd \<Rightarrow> 'd"
  fp_mul :: "'d \<Rightarrow> 'd \<Rightarrow> 'd"
  fp_div :: "'d \<Rightarrow> 'd \<Rightarrow> 'd"
  fp_fmod :: "'d \<Rightarrow> 'd \<Rightarrow> 'd"
  fp_less :: "'d \<Rightarrow> 'd \<Rightarrow> bool"
  fp_is_zero :: "'d \<Rightarrow> bool"
  fp_strtod :: "string \<Rightarrow> 'd \<times> string"
  fp_fmt :: "'d \<Rightarrow> string"
  str_cmp :: "string \<Rightarrow> string \<Rightarrow> int"

definition sc_new :: "'d scalar" where
  "sc_new = \<lparr>sp_s = None, sp_double_cnv = CNV_NONE, sp_int_cnv = CNV_NONE, sp_uint_cnv = CNV_NONE,
     sp_d = None, sp_i = None, sp_u = None, sp_natural_type = TYPE_NONE\<rparr>"

definition sc_of_str :: "string option \<Rightarrow> 'd scalar" where
  "sc_of_str s = sc_new\<lparr>sp_s := s, sp_natural_type := TYPE_STR\<rparr>"

section \<open>Setting\<close>

definition sc_set_inf :: "'d sc_env \<Rightarrow> 'd scalar \<Rightarrow> 'd scalar" where
  "sc_set_inf E p = p\<lparr>sp_s := None, sp_double_cnv := CNV_BAD, sp_int_cnv := CNV_BAD, sp_uint_cnv := CNV_BAD,
     sp_d := Some (fp_of_int E 0), sp_i := Some 0, sp_u := Some 0, sp_natural_type := TYPE_INF\<rparr>"

definition sc_set_str :: "string option \<Rightarrow> 'd scalar \<Rightarrow> 'd scalar" where
  "sc_set_str s p = p\<lparr>sp_s := s, sp_natural_type := TYPE_STR, sp_double_cnv := CNV_NONE, sp_int_cnv := CNV_NONE,
     sp_uint_cnv := CNV_NONE\<rparr>"

definition sc_set_double :: "'d sc_env \<Rightarrow> 'd \<Rightarrow> 'd scalar \<Rightarrow> 'd scalar" where
  "sc_set_double E d p = p\<lparr>sp_s := Some (take 1022 (fp_fmt E d)), sp_d := Some d, sp_double_cnv := CNV_OK,
     sp_int_cnv := CNV_BAD, sp_natural_type := TYPE_DOUBLE\<rparr>"

definition sc_set_i :: "'d sc_env \<Rightarrow> int \<Rightarrow> 'd scalar \<Rightarrow> 'd scalar" where
  "sc_set_i E i p =
     (let p1 = p\<lparr>sp_s := Some (dec_int i), sp_i := Some i, sp_d := Some (fp_of_int E i)\<rparr>;
          p2 = (if 0 \<le> i then p1\<lparr>sp_u := Some i, sp_uint_cnv := CNV_OK\<rparr> else p1\<lparr>sp_uint_cnv := CNV_BAD\<rparr>)
      in p2\<lparr>sp_double_cnv := CNV_OK, sp_int_cnv := CNV_OK, sp_natural_type := TYPE_INT\<rparr>)"

definition sc_set_u :: "'d sc_env \<Rightarrow> int \<Rightarrow> 'd scalar \<Rightarrow> 'd scalar" where
  "sc_set_u E i p =
     (let p1 = p\<lparr>sp_s := Some (dec_int i), sp_u := Some i, sp_d := Some (fp_of_int E i)\<rparr>;
          p2 = (if i \<le> INT64_MAX then p1\<lparr>sp_i := Some i, sp_int_cnv := CNV_OK\<rparr> else p1\<lparr>sp_int_cnv := CNV_BAD\<rparr>)
      in p2\<lparr>sp_double_cnv := CNV_OK, sp_uint_cnv := CNV_OK, sp_natural_type := TYPE_UINT\<rparr>)"

definition sc_clear :: "'d sc_env \<Rightarrow> 'd scalar \<Rightarrow> 'd scalar" where
  "sc_clear E p = p\<lparr>sp_s := None, sp_d := Some (fp_of_int E 0), sp_i := Some 0, sp_uint_cnv := CNV_NONE,
     sp_double_cnv := CNV_NONE, sp_int_cnv := CNV_NONE\<rparr>"

section \<open>Conversions\<close>

text \<open>The value the code returns, \<open>None\<close> when the member was never assigned, and the object with its caches.\<close>

definition sc_to_int64 :: "'d scalar \<Rightarrow> int option \<times> 'd scalar" where
  "sc_to_int64 p =
     (let p1 =
        (if sp_int_cnv p = CNV_NONE then
           (if sp_uint_cnv p = CNV_OK then
              (if the (sp_u p) \<le> INT64_MAX then p\<lparr>sp_i := sp_u p, sp_int_cnv := CNV_OK\<rparr>
               else p\<lparr>sp_i := Some 0, sp_int_cnv := CNV_BAD\<rparr>)
            else (case Option.bind (sp_s p) my_convertint of
                    Some i \<Rightarrow> p\<lparr>sp_i := Some i, sp_int_cnv := CNV_OK\<rparr>
                  | None \<Rightarrow> p\<lparr>sp_i := Some 0, sp_int_cnv := CNV_BAD\<rparr>))
         else p)
      in (sp_i p1, p1))"

definition sc_to_uint64 :: "'d scalar \<Rightarrow> int option \<times> 'd scalar" where
  "sc_to_uint64 p =
     (let p1 =
        (if sp_uint_cnv p = CNV_NONE then
           (if sp_int_cnv p = CNV_OK then
              (if 0 \<le> the (sp_i p) then p\<lparr>sp_u := sp_i p, sp_uint_cnv := CNV_OK\<rparr>
               else p\<lparr>sp_u := Some 0, sp_uint_cnv := CNV_BAD\<rparr>)
            else (case Option.bind (sp_s p) convertuint of
                    Some u \<Rightarrow> p\<lparr>sp_u := Some u, sp_uint_cnv := CNV_OK\<rparr>
                  | None \<Rightarrow> p\<lparr>sp_u := Some 0, sp_uint_cnv := CNV_BAD\<rparr>))
         else p)
      in (sp_u p1, p1))"

text \<open>The forms with an output argument: \<open>Some\<close> what is written there.\<close>

definition sc_int64 :: "'d scalar \<Rightarrow> int option \<times> 'd scalar" where
  "sc_int64 p = (let (t, p1) = sc_to_int64 p in (if sp_int_cnv p1 = CNV_OK then t else None, p1))"

definition sc_uint64 :: "'d scalar \<Rightarrow> int option \<times> 'd scalar" where
  "sc_uint64 p = (let (u, p1) = sc_to_uint64 p in (if sp_uint_cnv p1 = CNV_OK then u else None, p1))"

definition sc_to_int :: "'d scalar \<Rightarrow> int option \<times> 'd scalar" where
  "sc_to_int p = (let (i, p1) = sc_to_int64 p in (map_option (\<lambda>i. (i + 2 ^ 31) mod 2 ^ 32 - 2 ^ 31) i, p1))"

definition convertdouble :: "'d sc_env \<Rightarrow> string \<Rightarrow> 'd option" where
  "convertdouble E x = (let (d, r) = fp_strtod E (cstr x) in if r \<noteq> [] then None else Some d)"

definition sc_to_double :: "'d sc_env \<Rightarrow> 'd scalar \<Rightarrow> 'd option \<times> 'd scalar" where
  "sc_to_double E p =
     (let p1 =
        (if sp_double_cnv p = CNV_NONE then
           (case Option.bind (sp_s p) (convertdouble E) of
              Some d \<Rightarrow> p\<lparr>sp_d := Some d, sp_double_cnv := CNV_OK\<rparr>
            | None \<Rightarrow> p\<lparr>sp_d := Some (fp_of_int E 0), sp_double_cnv := CNV_BAD\<rparr>)
         else p)
      in (sp_d p1, p1))"

definition sc_double :: "'d sc_env \<Rightarrow> 'd scalar \<Rightarrow> 'd option \<times> 'd scalar" where
  "sc_double E p = (let (d, p1) = sc_to_double E p in (if sp_double_cnv p1 = CNV_OK then d else None, p1))"

definition sc_to_str :: "'d scalar \<Rightarrow> string" where
  "sc_to_str p = (case sp_s p of None \<Rightarrow> [] | Some s \<Rightarrow> s)"

definition sc_to_bool :: "'d scalar \<Rightarrow> bool \<times> 'd scalar" where
  "sc_to_bool p =
     (let (i, p1) = sc_int64 p
      in (case i of Some i \<Rightarrow> i \<noteq> 0 | None \<Rightarrow> 0 < length (sc_to_str p1), p1))"

section \<open>Trimming and appending\<close>

text \<open>The loops of \<^verbatim>\<open>trim\<close>: from the front while in range, from the back while above the front.\<close>

fun trim_back :: "string \<Rightarrow> string" where
  "trim_back s = (if 1 < length s \<and> isspace (last s) then trim_back (butlast s) else s)"

declare trim_back.simps [simp del]

definition sc_trim :: "'d scalar \<Rightarrow> string" where
  "sc_trim p =
     (let s = sc_to_str p
      in if length s = 0 then s
         else let b = dropWhile isspace s in if b = [] then [] else trim_back b)"

record 'd scalar_obj =
  so_b :: "string option"
  so_p :: "'d scalar"
  so_frozen :: bool

definition so_new :: "'d scalar_obj" where
  "so_new = \<lparr>so_b = None, so_p = sc_new, so_frozen = False\<rparr>"

definition so_add :: "'d sc_env \<Rightarrow> string \<Rightarrow> 'd scalar_obj \<Rightarrow> 'd scalar_obj" where
  "so_add E s x =
     (let x1 = (if so_b x = None then x\<lparr>so_p := sc_clear E (so_p x), so_b := Some []\<rparr> else x)
      in x1\<lparr>so_b := Some (the (so_b x1) @ s)\<rparr>)"

definition so_freeze :: "'d scalar_obj \<Rightarrow> 'd scalar_obj" where
  "so_freeze x =
     (case so_b x of
        None \<Rightarrow> x
      | Some s \<Rightarrow> x\<lparr>so_p := sc_set_str (Some s) (so_p x), so_b := None, so_frozen := True\<rparr>)"

section \<open>Arithmetic\<close>

text \<open>
  Two conversions joined by \<^verbatim>\<open>&&\<close>: the second is not made when the first fails.  An operator gives its
  result and the two operands with their caches; \<open>None\<close> is undefined behaviour (a signed overflow, a
  trapping division, a member that was never assigned).  The operands are different objects.
\<close>

type_synonym 'd sc_conv = "'d scalar \<Rightarrow> int option \<times> 'd scalar"

type_synonym 'd sc_result = "('d scalar \<times> 'd scalar \<times> 'd scalar) option"

definition sc_both :: "'d sc_conv \<Rightarrow> 'd sc_conv \<Rightarrow> 'd scalar \<Rightarrow> 'd scalar \<Rightarrow> (int \<times> int) option \<times> 'd scalar \<times> 'd scalar" where
  "sc_both f g a b =
     (let (x, a1) = f a
      in case x of
           None \<Rightarrow> (None, a1, b)
         | Some i \<Rightarrow> let (y, b1) = g b in (map_option (Pair i) y, a1, b1))"

definition sc_try :: "'d sc_conv \<Rightarrow> 'd sc_conv \<Rightarrow> (int \<Rightarrow> int \<Rightarrow> 'd scalar option) \<Rightarrow> ('d scalar \<Rightarrow> 'd scalar \<Rightarrow> 'd sc_result)
    \<Rightarrow> 'd scalar \<Rightarrow> 'd scalar \<Rightarrow> 'd sc_result" where
  "sc_try f g act next a b =
     (let (r, a1, b1) = sc_both f g a b
      in case r of
           Some (x, y) \<Rightarrow> map_option (\<lambda>out. (out, a1, b1)) (act x y)
         | None \<Rightarrow> next a1 b1)"

definition sc_doubles :: "'d sc_env \<Rightarrow> ('d \<Rightarrow> 'd \<Rightarrow> 'd scalar) \<Rightarrow> 'd scalar \<Rightarrow> 'd scalar \<Rightarrow> 'd sc_result" where
  "sc_doubles E act a b =
     (let (d1, a1) = sc_to_double E a; (d2, b1) = sc_to_double E b
      in Option.bind d1 (\<lambda>x. map_option (\<lambda>y. (act x y, a1, b1)) d2))"

text \<open>A sum, difference or product of type \<^verbatim>\<open>int64_t\<close>.\<close>

definition set_checked :: "'d sc_env \<Rightarrow> int \<Rightarrow> 'd scalar option" where
  "set_checked E v = (if fits_i64 v then Some (sc_set_i E v sc_new) else None)"

definition sc_plus :: "'d sc_env \<Rightarrow> 'd scalar \<Rightarrow> 'd scalar \<Rightarrow> 'd sc_result" where
  "sc_plus E a b =
     (if sp_natural_type a = TYPE_STR \<or> sp_natural_type b = TYPE_STR
      then Some (sc_set_str (Some (sc_to_str a @ sc_to_str b)) sc_new, a, b)
      else if sp_natural_type a = TYPE_DOUBLE \<or> sp_natural_type b = TYPE_DOUBLE
      then sc_doubles E (\<lambda>x y. sc_set_double E (fp_add E x y) sc_new) a b
      else sc_try sc_int64 sc_int64 (\<lambda>x y. set_checked E (x + y))
          (sc_try sc_uint64 sc_uint64 (\<lambda>x y. Some (sc_set_u E (to_u64 (x + y)) sc_new))
          (sc_try sc_int64 sc_uint64 (\<lambda>x y. Some (sc_set_i E (to_i64 (x + y)) sc_new))
          (sc_try sc_uint64 sc_int64 (\<lambda>x y. Some (sc_set_i E (to_i64 (x + y)) sc_new))
          (\<lambda>a b. Some (sc_new, a, b))))) a b)"

definition sc_minus :: "'d sc_env \<Rightarrow> 'd scalar \<Rightarrow> 'd scalar \<Rightarrow> 'd sc_result" where
  "sc_minus E a b =
     (if sp_natural_type a = TYPE_STR \<or> sp_natural_type b = TYPE_STR then Some (sc_new, a, b)
      else if sp_natural_type a = TYPE_DOUBLE \<or> sp_natural_type b = TYPE_DOUBLE
      then sc_doubles E (\<lambda>x y. sc_set_double E (fp_sub E x y) sc_new) a b
      else sc_try sc_int64 sc_int64 (\<lambda>x y. set_checked E (x - y))
          (sc_try sc_uint64 sc_uint64 (\<lambda>x y. Some (sc_set_i E (to_i64 (x - y)) sc_new))
          (sc_try sc_int64 sc_uint64 (\<lambda>x y. Some (sc_set_i E (to_i64 (x - y)) sc_new))
          (sc_try sc_uint64 sc_int64 (\<lambda>x y. Some (sc_set_i E (to_i64 (x - y)) sc_new))
          (\<lambda>a b. Some (sc_new, a, b))))) a b)"

definition sc_repeat :: "'d scalar \<Rightarrow> 'd scalar \<Rightarrow> 'd sc_result" where
  "sc_repeat a b =
     (let (y, b1) = sc_int64 b
      in case y of
           Some i2 \<Rightarrow>
             if i2 < 0x100 then Some (sc_set_str (Some (concat (replicate (nat i2) (sc_to_str a)))) sc_new, a, b1)
             else Some (sc_new, a, b1)
         | None \<Rightarrow> Some (sc_new, a, b1))"

definition sc_times :: "'d sc_env \<Rightarrow> 'd scalar \<Rightarrow> 'd scalar \<Rightarrow> 'd sc_result" where
  "sc_times E a b =
     (if sp_natural_type a = TYPE_STR then sc_repeat a b
      else if sp_natural_type b = TYPE_STR then Some (sc_new, a, b)
      else if sp_natural_type a = TYPE_DOUBLE \<or> sp_natural_type b = TYPE_DOUBLE
      then sc_doubles E (\<lambda>x y. sc_set_double E (fp_mul E x y) sc_new) a b
      else sc_try sc_int64 sc_int64 (\<lambda>x y. set_checked E (x * y))
          (sc_try sc_uint64 sc_uint64 (\<lambda>x y. Some (sc_set_u E (to_u64 (x * y)) sc_new))
          (sc_try sc_int64 sc_uint64 (\<lambda>x y. Some (sc_set_i E (to_i64 (x * y)) sc_new))
          (sc_try sc_uint64 sc_int64 (\<lambda>x y. Some (sc_set_i E (to_i64 (x * y)) sc_new))
          (\<lambda>a b. Some (sc_new, a, b))))) a b)"

text \<open>
  \<^verbatim>\<open>div_or_mod\<close>: a zero divisor is recorded in \<open>ok\<close> and the next combination of types is tried.
\<close>

definition sc_try_div :: "'d sc_conv \<Rightarrow> 'd sc_conv \<Rightarrow> (int \<Rightarrow> int \<Rightarrow> 'd scalar option)
    \<Rightarrow> (bool \<Rightarrow> 'd scalar \<Rightarrow> 'd scalar \<Rightarrow> 'd sc_result) \<Rightarrow> bool \<Rightarrow> 'd scalar \<Rightarrow> 'd scalar \<Rightarrow> 'd sc_result" where
  "sc_try_div f g act next ok a b =
     (let (r, a1, b1) = sc_both f g a b
      in case r of
           Some (x, y) \<Rightarrow> if y \<noteq> 0 then map_option (\<lambda>out. (out, a1, b1)) (act x y) else next False a1 b1
         | None \<Rightarrow> next ok a1 b1)"

definition op_i64 :: "bool \<Rightarrow> int \<Rightarrow> int \<Rightarrow> int option" where
  "op_i64 dv x y = (if x = INT64_MIN \<and> y = - 1 then None else Some (if dv then x sdiv y else x smod y))"

definition op_u64 :: "bool \<Rightarrow> int \<Rightarrow> int \<Rightarrow> int" where
  "op_u64 dv x y = (if dv then to_u64 x div to_u64 y else to_u64 x mod to_u64 y)"

definition div_or_mod :: "'d sc_env \<Rightarrow> bool \<Rightarrow> 'd scalar \<Rightarrow> 'd scalar \<Rightarrow> 'd sc_result" where
  "div_or_mod E dv a b =
     (if sp_natural_type a = TYPE_STR \<or> sp_natural_type b = TYPE_STR then Some (sc_new, a, b)
      else if sp_natural_type a = TYPE_DOUBLE \<or> sp_natural_type b = TYPE_DOUBLE
      then sc_doubles E (\<lambda>x y. if fp_is_zero E y then sc_set_inf E sc_new
                               else sc_set_double E (if dv then fp_div E x y else fp_fmod E x y) sc_new) a b
      else sc_try_div sc_int64 sc_int64 (\<lambda>x y. map_option (\<lambda>v. sc_set_i E v sc_new) (op_i64 dv x y))
          (sc_try_div sc_uint64 sc_uint64 (\<lambda>x y. Some (sc_set_u E (op_u64 dv x y) sc_new))
          (sc_try_div sc_int64 sc_uint64 (\<lambda>x y. Some (sc_set_i E (to_i64 (op_u64 dv x y)) sc_new))
          (sc_try_div sc_uint64 sc_int64 (\<lambda>x y. Some (sc_set_i E (to_i64 (op_u64 dv x y)) sc_new))
          (\<lambda>ok a b. Some (if ok then sc_new else sc_set_inf E sc_new, a, b))))) True a b)"

section \<open>Comparison\<close>

definition cmp3 :: "int \<Rightarrow> int \<Rightarrow> int" where
  "cmp3 x y = (if y < x then 1 else if x < y then - 1 else 0)"

definition sc_try_cmp :: "'d sc_conv \<Rightarrow> 'd sc_conv \<Rightarrow> (int \<Rightarrow> int \<Rightarrow> int)
    \<Rightarrow> ('d scalar \<Rightarrow> 'd scalar \<Rightarrow> (int \<times> 'd scalar \<times> 'd scalar) option)
    \<Rightarrow> 'd scalar \<Rightarrow> 'd scalar \<Rightarrow> (int \<times> 'd scalar \<times> 'd scalar) option" where
  "sc_try_cmp f g act next a b =
     (let (r, a1, b1) = sc_both f g a b
      in case r of Some (x, y) \<Rightarrow> Some (act x y, a1, b1) | None \<Rightarrow> next a1 b1)"

definition sc_cmp :: "'d sc_env \<Rightarrow> 'd scalar \<Rightarrow> 'd scalar \<Rightarrow> (int \<times> 'd scalar \<times> 'd scalar) option" where
  "sc_cmp E a b =
     (if sp_natural_type a = TYPE_DOUBLE \<or> sp_natural_type b = TYPE_DOUBLE then
        (let (d1, a1) = sc_to_double E a; (d2, b1) = sc_to_double E b
         in Option.bind d1 (\<lambda>x. map_option (\<lambda>y.
              (if fp_less E y x then 1 else if fp_less E x y then - 1 else 0, a1, b1)) d2))
      else sc_try_cmp sc_uint64 sc_uint64 cmp3
          (sc_try_cmp sc_int64 sc_int64 cmp3
          (sc_try_cmp sc_uint64 sc_int64 (\<lambda>x y. cmp3 1 (- 1))
          (sc_try_cmp sc_int64 sc_uint64 (\<lambda>x y. cmp3 (- 1) 1)
          (\<lambda>a b. Some (str_cmp E (sc_to_str a) (sc_to_str b), a, b))))) a b)"

section \<open>Integer scalars\<close>

text \<open>A scalar that is the integer \<open>x\<close>, with both conversions made.\<close>

definition sc_is :: "int \<Rightarrow> 'd scalar \<Rightarrow> bool" where
  "sc_is x p \<longleftrightarrow> sp_natural_type p \<in> {TYPE_INT, TYPE_UINT} \<and> INT64_MIN \<le> x \<and> x \<le> UINT64_MAX
     \<and> sp_s p = Some (dec_int x)
     \<and> (if x \<le> INT64_MAX then sp_int_cnv p = CNV_OK \<and> sp_i p = Some x else sp_int_cnv p = CNV_BAD)
     \<and> (if 0 \<le> x then sp_uint_cnv p = CNV_OK \<and> sp_u p = Some x else sp_uint_cnv p = CNV_BAD)"

lemma set_i_is: "fits_i64 i \<Longrightarrow> sc_is i (sc_set_i E i p)"
  by (simp add: sc_is_def sc_set_i_def fits_i64_def INT64_MAX_def UINT64_MAX_def)

lemma set_u_is: "0 \<le> u \<Longrightarrow> u \<le> UINT64_MAX \<Longrightarrow> sc_is u (sc_set_u E u p)"
  by (simp add: sc_is_def sc_set_u_def INT64_MIN_def)

lemma is_int64: "sc_is x p \<Longrightarrow> sc_int64 p = (if x \<le> INT64_MAX then Some x else None, p)"
  by (auto simp: sc_is_def sc_int64_def sc_to_int64_def split: if_splits)

lemma is_uint64: "sc_is x p \<Longrightarrow> sc_uint64 p = (if 0 \<le> x then Some x else None, p)"
  by (auto simp: sc_is_def sc_uint64_def sc_to_uint64_def split: if_splits)

lemma is_type: "sc_is x p \<Longrightarrow> sp_natural_type p \<noteq> TYPE_STR \<and> sp_natural_type p \<noteq> TYPE_DOUBLE"
  by (auto simp: sc_is_def)

lemma is_range: "sc_is x p \<Longrightarrow> INT64_MIN \<le> x \<and> x \<le> UINT64_MAX"
  by (simp add: sc_is_def)

lemmas is_conv = is_int64 is_uint64 is_type

lemma to_i64_id: "fits_i64 v \<Longrightarrow> to_i64 v = v"
  by (simp add: fits_i64_def to_i64_def INT64_MIN_def INT64_MAX_def)

lemma fits_to_i64: "fits_i64 (to_i64 v)"
  by (simp add: fits_i64_def to_i64_def INT64_MIN_def INT64_MAX_def)

lemmas int64_limits = INT64_MIN_def INT64_MAX_def UINT64_MAX_def

lemma sc_both_is:
  "sc_is x a \<Longrightarrow> sc_is y b \<Longrightarrow>
     sc_both sc_int64 sc_int64 a b = (if x \<le> INT64_MAX \<and> y \<le> INT64_MAX then Some (x, y) else None, a, b)"
  "sc_is x a \<Longrightarrow> sc_is y b \<Longrightarrow>
     sc_both sc_uint64 sc_uint64 a b = (if 0 \<le> x \<and> 0 \<le> y then Some (x, y) else None, a, b)"
  "sc_is x a \<Longrightarrow> sc_is y b \<Longrightarrow>
     sc_both sc_int64 sc_uint64 a b = (if x \<le> INT64_MAX \<and> 0 \<le> y then Some (x, y) else None, a, b)"
  "sc_is x a \<Longrightarrow> sc_is y b \<Longrightarrow>
     sc_both sc_uint64 sc_int64 a b = (if 0 \<le> x \<and> y \<le> INT64_MAX then Some (x, y) else None, a, b)"
  by (simp_all add: sc_both_def is_int64 is_uint64)

lemma u64_id: "0 \<le> x \<Longrightarrow> x \<le> UINT64_MAX \<Longrightarrow> to_u64 x = x"
  by (simp add: to_u64_def UINT64_MAX_def)

lemma fitsD: "fits_i64 v \<Longrightarrow> v \<le> INT64_MAX" "fits_i64 v \<Longrightarrow> INT64_MIN \<le> v"
  by (simp_all add: fits_i64_def)

lemma plus_is:
  assumes a: "sc_is x a" and b: "sc_is y b" and f: "fits_i64 (x + y)"
  shows "\<exists>r. sc_plus E a b = Some (r, a, b) \<and> sc_is (x + y) r"
proof -
  have neg: "\<not> (INT64_MAX < x \<and> 0 \<le> y)" "\<not> (INT64_MAX < y \<and> 0 \<le> x)"
    using fitsD(1) [OF f] by (auto simp: int64_limits)
  have big: "0 \<le> x" if "INT64_MAX < x" using that by (simp add: int64_limits)
  have big': "0 \<le> y" if "INT64_MAX < y" using that by (simp add: int64_limits)
  show ?thesis
    using is_type [OF a] is_type [OF b] neg big big' f
    by (auto simp: sc_plus_def sc_try_def sc_both_is [OF a b] set_checked_def to_i64_id set_i_is not_le)
qed

lemma minus_is:
  assumes a: "sc_is x a" and b: "sc_is y b" and f: "fits_i64 (x - y)"
  shows "\<exists>r. sc_minus E a b = Some (r, a, b) \<and> sc_is (x - y) r"
proof -
  have neg: "\<not> (INT64_MAX < x \<and> y < 0)" "\<not> (INT64_MAX < y \<and> x < 0)"
    using fitsD [OF f] by (auto simp: int64_limits)
  have big: "0 \<le> x" if "INT64_MAX < x" using that by (simp add: int64_limits)
  have big': "0 \<le> y" if "INT64_MAX < y" using that by (simp add: int64_limits)
  show ?thesis
    using is_type [OF a] is_type [OF b] neg big big' f
    by (auto simp: sc_minus_def sc_try_def sc_both_is [OF a b] set_checked_def to_i64_id set_i_is not_le)
qed

lemma times_is:
  assumes a: "sc_is x a" and b: "sc_is y b" and f: "fits_i64 (x * y)"
  shows "\<exists>r. sc_times E a b = Some (r, a, b) \<and> sc_is (x * y) r"
proof -
  have big: "0 \<le> x" if "INT64_MAX < x" using that by (simp add: int64_limits)
  have big': "0 \<le> y" if "INT64_MAX < y" using that by (simp add: int64_limits)
  have u: "sc_is (x * y) (sc_set_u E (to_u64 (x * y)) sc_new)" if "0 \<le> x" "0 \<le> y"
  proof -
    have "0 \<le> x * y" "x * y \<le> UINT64_MAX" using that fitsD(1) [OF f] by (auto simp: int64_limits)
    then show ?thesis by (simp add: u64_id set_u_is)
  qed
  show ?thesis
    using is_type [OF a] is_type [OF b] big big' f u
    by (auto simp: sc_times_def sc_try_def sc_both_is [OF a b] set_checked_def to_i64_id set_i_is not_le)
qed

lemma signed_nonneg: "0 \<le> x \<Longrightarrow> 0 < y \<Longrightarrow> x sdiv y = x div y \<and> x smod y = x mod y" for x y :: int
  by (simp add: signed_divide_int_def signed_modulo_int_def sgn_if)

lemma sdiv_fits:
  assumes "fits_i64 x" "\<not> (x = INT64_MIN \<and> y = - 1)"
  shows "fits_i64 (x sdiv y)"
proof (cases "x = INT64_MIN")
  case True
  then have "x sdiv y \<noteq> 2 ^ 63" using assms int_sdiv_negated_is_minus1 [of x y] by (simp add: INT64_MIN_def)
  then show ?thesis using True sdiv_int_range [of x y] by (auto simp: fits_i64_def int64_limits)
next
  case False
  then show ?thesis using assms sdiv_int_range [of x y] by (auto simp: fits_i64_def int64_limits)
qed

lemma smod_fits: "fits_i64 y \<Longrightarrow> y \<noteq> 0 \<Longrightarrow> fits_i64 (x smod y)"
  using smod_int_range [of y x] by (auto simp: fits_i64_def int64_limits)

lemma op_u64_range: "0 \<le> op_u64 dv x y \<and> op_u64 dv x y \<le> UINT64_MAX"
proof -
  let ?x = "to_u64 x" and ?y = "to_u64 y"
  have r: "0 \<le> ?x" "?x \<le> UINT64_MAX" "0 \<le> ?y" "?y \<le> UINT64_MAX" by (auto simp: to_u64_def UINT64_MAX_def)
  have "0 \<le> ?x div ?y" "0 \<le> ?x mod ?y" using r by (cases "?y = 0"; simp add: pos_imp_zdiv_nonneg_iff)+
  moreover have "?x div ?y \<le> UINT64_MAX" using r zdiv_mono2 [of ?x 1 ?y] by (cases "?y = 0") auto
  moreover have "?x mod ?y \<le> UINT64_MAX" using r pos_mod_bound [of ?y ?x] by (cases "?y = 0") (simp, linarith)
  ultimately show ?thesis by (simp add: op_u64_def)
qed

lemma op_u64_nonneg:
  assumes "0 \<le> x" "x \<le> UINT64_MAX" "0 < y" "y \<le> UINT64_MAX"
  shows "op_u64 dv x y = (if dv then x sdiv y else x smod y) \<and> 0 \<le> op_u64 dv x y \<and> op_u64 dv x y \<le> UINT64_MAX"
  using assms op_u64_range by (auto simp: op_u64_def u64_id signed_nonneg)

lemma div_is_zero:
  assumes a: "sc_is x a" and b: "sc_is 0 b"
  shows "div_or_mod E dv a b = Some (sc_set_inf E sc_new, a, b)"
proof -
  have big: "0 \<le> x" if "INT64_MAX < x" using that by (simp add: int64_limits)
  have z: "(0::int) \<le> INT64_MAX" by (simp add: int64_limits)
  show ?thesis
    using is_type [OF a] is_type [OF b] big z
    by (cases "x \<le> INT64_MAX"; cases "0 \<le> x") (auto simp: div_or_mod_def sc_try_div_def sc_both_is [OF a b])
qed

lemma div_is_trap:
  "sc_is INT64_MIN a \<Longrightarrow> sc_is (- 1) b \<Longrightarrow> div_or_mod E dv a b = None"
  using is_type [of INT64_MIN a] is_type [of "- 1" b]
  by (auto simp: div_or_mod_def sc_try_div_def sc_both_is op_i64_def int64_limits)

lemma div_is:
  assumes a: "sc_is x a" and b: "sc_is y b" and y: "y \<noteq> 0" and t: "\<not> (x = INT64_MIN \<and> y = - 1)"
    and r: "0 \<le> x \<and> 0 \<le> y \<or> x \<le> INT64_MAX \<and> y \<le> INT64_MAX"
  shows "\<exists>r. div_or_mod E dv a b = Some (r, a, b) \<and> sc_is (if dv then x sdiv y else x smod y) r"
proof (cases "x \<le> INT64_MAX \<and> y \<le> INT64_MAX")
  case True
  then have "fits_i64 x" "fits_i64 y" using is_range [OF a] is_range [OF b] by (simp_all add: fits_i64_def)
  then have "fits_i64 (if dv then x sdiv y else x smod y)" using sdiv_fits smod_fits t y by simp
  then show ?thesis
    using is_type [OF a] is_type [OF b] True y t set_i_is
    by (auto simp: div_or_mod_def sc_try_div_def sc_both_is [OF a b] op_i64_def)
next
  case False
  then have "0 \<le> x" "0 < y" using r y by auto
  moreover from this have "op_u64 dv x y = (if dv then x sdiv y else x smod y) \<and> 0 \<le> op_u64 dv x y \<and> op_u64 dv x y \<le> UINT64_MAX"
    using is_range [OF a] is_range [OF b] by (intro op_u64_nonneg) auto
  ultimately show ?thesis
    using is_type [OF a] is_type [OF b] False y set_u_is [of "op_u64 dv x y" E sc_new]
    by (auto simp: div_or_mod_def sc_try_div_def sc_both_is [OF a b])
qed

lemma cmp_is:
  assumes a: "sc_is x a" and b: "sc_is y b"
  shows "sc_cmp E a b = Some (cmp3 x y, a, b)"
proof -
  have big: "0 \<le> x" if "INT64_MAX < x" using that by (simp add: int64_limits)
  have big': "0 \<le> y" if "INT64_MAX < y" using that by (simp add: int64_limits)
  show ?thesis
    using is_type [OF a] is_type [OF b] big big'
    by (cases "0 \<le> x"; cases "0 \<le> y"; cases "x \<le> INT64_MAX"; cases "y \<le> INT64_MAX")
      (auto simp: sc_cmp_def sc_try_cmp_def sc_both_is [OF a b] cmp3_def)
qed

section \<open>The type of a scalar\<close>

text \<open>What a successful conversion left is assigned and within the range of its type.\<close>

definition sc_ok :: "'d scalar \<Rightarrow> bool" where
  "sc_ok p \<longleftrightarrow> (sp_int_cnv p = CNV_OK \<longrightarrow> (\<exists>i. sp_i p = Some i \<and> fits_i64 i))
     \<and> (sp_uint_cnv p = CNV_OK \<longrightarrow> (\<exists>u. sp_u p = Some u \<and> 0 \<le> u \<and> u \<le> UINT64_MAX))
     \<and> (sp_double_cnv p \<noteq> CNV_NONE \<longrightarrow> sp_d p \<noteq> None)"

lemma convertuint_range: "convertuint k = Some u \<Longrightarrow> 0 \<le> u \<and> u \<le> UINT64_MAX"
  by (auto simp: convertuint_def strtoull_def UINT64_MAX_def Let_def split: if_splits prod.splits option.splits)

lemma my_convertint_range: "my_convertint k = Some i \<Longrightarrow> fits_i64 i"
  by (auto simp: my_convertint_def strtoll_def fits_i64_def int64_limits Let_def split: if_splits prod.splits option.splits)

lemma sc_ok_new [simp]: "sc_ok sc_new"
  by (simp add: sc_ok_def sc_new_def)

lemma sc_ok_sets:
  "sc_ok (sc_of_str s)" "sc_ok (sc_set_str s p)" "sc_ok (sc_set_inf E p)" "sc_ok (sc_clear E p)"
  "fits_i64 i \<Longrightarrow> sc_ok (sc_set_i E i p)" "0 \<le> u \<Longrightarrow> u \<le> UINT64_MAX \<Longrightarrow> sc_ok (sc_set_u E u p)"
  "sc_ok p \<Longrightarrow> sc_ok (sc_set_double E d p)"
  by (auto simp: sc_ok_def sc_of_str_def sc_new_def sc_set_str_def sc_set_inf_def sc_clear_def sc_set_i_def sc_set_u_def
      sc_set_double_def fits_i64_def int64_limits Let_def)

lemma sc_ok_to_int64: "sc_ok p \<Longrightarrow> sc_ok (snd (sc_to_int64 p))"
  by (auto simp: sc_ok_def sc_to_int64_def fits_i64_def int64_limits Let_def bind_eq_Some_conv
      dest!: my_convertint_range split: option.splits)

lemma sc_ok_to_uint64: "sc_ok p \<Longrightarrow> sc_ok (snd (sc_to_uint64 p))"
  by (auto simp: sc_ok_def sc_to_uint64_def fits_i64_def int64_limits Let_def bind_eq_Some_conv
      dest!: convertuint_range split: option.splits)

lemma sc_ok_to_double: "sc_ok p \<Longrightarrow> sc_ok (snd (sc_to_double E p)) \<and> fst (sc_to_double E p) \<noteq> None"
  by (cases "sp_double_cnv p") (auto simp: sc_ok_def sc_to_double_def Let_def split: option.splits)

lemma sc_ok_int64:
  assumes "sc_ok p" "sc_int64 p = (x, q)"
  shows "sc_ok q \<and> (\<forall>i. x = Some i \<longrightarrow> fits_i64 i)"
proof -
  have "sc_ok (snd (sc_to_int64 p))" by (rule sc_ok_to_int64 [OF assms(1)])
  moreover have "fst (sc_to_int64 p) = sp_i (snd (sc_to_int64 p))" by (simp add: sc_to_int64_def Let_def)
  ultimately show ?thesis using assms(2) by (auto simp: sc_int64_def sc_ok_def split: prod.splits if_splits)
qed

lemma sc_ok_uint64:
  assumes "sc_ok p" "sc_uint64 p = (x, q)"
  shows "sc_ok q \<and> (\<forall>i. x = Some i \<longrightarrow> 0 \<le> i \<and> i \<le> UINT64_MAX)"
proof -
  have "sc_ok (snd (sc_to_uint64 p))" by (rule sc_ok_to_uint64 [OF assms(1)])
  moreover have "fst (sc_to_uint64 p) = sp_u (snd (sc_to_uint64 p))" by (simp add: sc_to_uint64_def Let_def)
  ultimately show ?thesis using assms(2) by (auto simp: sc_uint64_def sc_ok_def split: prod.splits if_splits)
qed

text \<open>A conversion with its range, and a pair of them.\<close>

definition sc_ranged :: "'d sc_conv \<Rightarrow> (int \<Rightarrow> bool) \<Rightarrow> bool" where
  "sc_ranged f P \<longleftrightarrow> (\<forall>p x q. sc_ok p \<longrightarrow> f p = (x, q) \<longrightarrow> sc_ok q \<and> (\<forall>i. x = Some i \<longrightarrow> P i))"

abbreviation fits_u64 :: "int \<Rightarrow> bool" where
  "fits_u64 u \<equiv> 0 \<le> u \<and> u \<le> UINT64_MAX"

lemma ranged_int64: "sc_ranged sc_int64 fits_i64"
  unfolding sc_ranged_def using sc_ok_int64 by blast

lemma ranged_uint64: "sc_ranged sc_uint64 fits_u64"
  unfolding sc_ranged_def using sc_ok_uint64 by blast

lemma both_ok:
  assumes "sc_ranged f P" "sc_ranged g Q" "sc_ok a" "sc_ok b" "sc_both f g a b = (r, a1, b1)"
  shows "sc_ok a1 \<and> sc_ok b1 \<and> (\<forall>x y. r = Some (x, y) \<longrightarrow> P x \<and> Q y)"
proof -
  obtain x a2 where x: "f a = (x, a2)" by (cases "f a")
  obtain y b2 where y: "g b = (y, b2)" by (cases "g b")
  have "sc_ok a2 \<and> (\<forall>i. x = Some i \<longrightarrow> P i)" "sc_ok b2 \<and> (\<forall>i. y = Some i \<longrightarrow> Q i)"
    using assms(1,3) x assms(2,4) y unfolding sc_ranged_def by blast+
  then show ?thesis using assms(4,5) x y by (cases x; cases y) (auto simp: sc_both_def)
qed

definition res_ok :: "'d sc_result \<Rightarrow> bool" where
  "res_ok r \<longleftrightarrow> (\<forall>x a b. r = Some (x, a, b) \<longrightarrow> sc_ok x \<and> sc_ok a \<and> sc_ok b)"

lemma try_ok:
  assumes "sc_ranged f P" "sc_ranged g Q" "sc_ok a" "sc_ok b"
    and act: "\<And>x y out. P x \<Longrightarrow> Q y \<Longrightarrow> act x y = Some out \<Longrightarrow> sc_ok out"
    and nxt: "\<And>a b. sc_ok a \<Longrightarrow> sc_ok b \<Longrightarrow> res_ok (next a b)"
  shows "res_ok (sc_try f g act next a b)"
proof -
  obtain r a1 b1 where e: "sc_both f g a b = (r, a1, b1)" by (cases "sc_both f g a b")
  note bo = both_ok [OF assms(1-4) e]
  show ?thesis
  proof (cases r)
    case None
    then show ?thesis using bo e nxt by (simp add: sc_try_def)
  next
    case (Some p)
    then obtain x y where xy: "r = Some (x, y)" by (cases p) auto
    then have "P x" "Q y" "sc_ok a1" "sc_ok b1" using bo by blast+
    then show ?thesis using xy e act [of x y] by (cases "act x y") (simp_all add: sc_try_def res_ok_def)
  qed
qed

lemma try_div_ok:
  assumes "sc_ranged f P" "sc_ranged g Q" "sc_ok a" "sc_ok b"
    and act: "\<And>x y out. P x \<Longrightarrow> Q y \<Longrightarrow> y \<noteq> 0 \<Longrightarrow> act x y = Some out \<Longrightarrow> sc_ok out"
    and nxt: "\<And>ok a b. sc_ok a \<Longrightarrow> sc_ok b \<Longrightarrow> res_ok (next ok a b)"
  shows "res_ok (sc_try_div f g act next ok a b)"
proof -
  obtain r a1 b1 where e: "sc_both f g a b = (r, a1, b1)" by (cases "sc_both f g a b")
  note bo = both_ok [OF assms(1-4) e]
  show ?thesis
  proof (cases r)
    case None
    then show ?thesis using bo e nxt by (simp add: sc_try_div_def)
  next
    case (Some p)
    then obtain x y where xy: "r = Some (x, y)" by (cases p) auto
    then have "P x" "Q y" "sc_ok a1" "sc_ok b1" using bo by blast+
    then show ?thesis using xy e act [of x y] nxt [of a1 b1 False]
      by (cases "act x y"; cases "y = 0") (simp_all add: sc_try_div_def res_ok_def)
  qed
qed

lemma doubles_ok:
  assumes "sc_ok a" "sc_ok b" "\<And>x y. sc_ok (act x y)"
  shows "res_ok (sc_doubles E act a b) \<and> sc_doubles E act a b \<noteq> None"
  using sc_ok_to_double [OF assms(1), of E] sc_ok_to_double [OF assms(2), of E] assms(3)
  by (auto simp: sc_doubles_def res_ok_def split: prod.splits)

lemma sc_ok_results:
  "sc_ok (sc_set_i E (to_i64 v) sc_new)" "sc_ok (sc_set_u E (to_u64 v) sc_new)"
  "set_checked E v = Some out \<Longrightarrow> sc_ok out"
  by (auto simp: sc_ok_sets fits_to_i64 to_u64_def UINT64_MAX_def set_checked_def split: if_splits)

lemmas try_int_int = try_ok [OF ranged_int64 ranged_int64] 
lemmas try_rest = try_ok [OF ranged_uint64 ranged_uint64] try_ok [OF ranged_int64 ranged_uint64]
  try_ok [OF ranged_uint64 ranged_int64]

lemma res_ok_Some: "sc_ok r \<Longrightarrow> sc_ok a \<Longrightarrow> sc_ok b \<Longrightarrow> res_ok (Some (r, a, b))"
  by (simp add: res_ok_def)

lemma plus_ok: "sc_ok a \<Longrightarrow> sc_ok b \<Longrightarrow> res_ok (sc_plus E a b)"
  unfolding sc_plus_def
  by (auto intro!: try_int_int try_rest doubles_ok [THEN conjunct1] res_ok_Some sc_ok_sets(1,2,3,4,7) simp: sc_ok_results)

lemma minus_ok: "sc_ok a \<Longrightarrow> sc_ok b \<Longrightarrow> res_ok (sc_minus E a b)"
  unfolding sc_minus_def
  by (auto intro!: try_int_int try_rest doubles_ok [THEN conjunct1] res_ok_Some sc_ok_sets(1,2,3,4,7) simp: sc_ok_results)

lemma times_ok: "sc_ok a \<Longrightarrow> sc_ok b \<Longrightarrow> res_ok (sc_times E a b)"
  unfolding sc_times_def sc_repeat_def
  by (auto intro!: try_int_int try_rest doubles_ok [THEN conjunct1] res_ok_Some sc_ok_sets(1,2,3,4,7) simp: sc_ok_results
      dest: sc_ok_int64 split: prod.splits option.splits)

lemma div_ok: "sc_ok a \<Longrightarrow> sc_ok b \<Longrightarrow> res_ok (div_or_mod E dv a b)"
  unfolding div_or_mod_def
  by (auto intro!: try_div_ok [OF ranged_int64 ranged_int64] try_div_ok [OF ranged_uint64 ranged_uint64]
      try_div_ok [OF ranged_int64 ranged_uint64] try_div_ok [OF ranged_uint64 ranged_int64]
      doubles_ok [THEN conjunct1] res_ok_Some sc_ok_sets sdiv_fits smod_fits fits_to_i64
      simp: sc_ok_results op_u64_range op_i64_def split: if_splits)

text \<open>The scalars the operations of the class produce, and the objects they leave behind.\<close>

inductive sc_reach :: "'d sc_env \<Rightarrow> 'd scalar \<Rightarrow> bool" for E :: "'d sc_env" where
  reach_new: "sc_reach E sc_new"
| reach_of_str: "sc_reach E (sc_of_str s)"
| reach_set_str: "sc_reach E p \<Longrightarrow> sc_reach E (sc_set_str s p)"
| reach_set_double: "sc_reach E p \<Longrightarrow> sc_reach E (sc_set_double E d p)"
| reach_set_i: "sc_reach E p \<Longrightarrow> fits_i64 i \<Longrightarrow> sc_reach E (sc_set_i E i p)"
| reach_set_u: "sc_reach E p \<Longrightarrow> 0 \<le> u \<Longrightarrow> u \<le> UINT64_MAX \<Longrightarrow> sc_reach E (sc_set_u E u p)"
| reach_set_inf: "sc_reach E p \<Longrightarrow> sc_reach E (sc_set_inf E p)"
| reach_clear: "sc_reach E p \<Longrightarrow> sc_reach E (sc_clear E p)"
| reach_to_int64: "sc_reach E p \<Longrightarrow> sc_reach E (snd (sc_to_int64 p))"
| reach_to_uint64: "sc_reach E p \<Longrightarrow> sc_reach E (snd (sc_to_uint64 p))"
| reach_to_double: "sc_reach E p \<Longrightarrow> sc_reach E (snd (sc_to_double E p))"
| reach_op: "sc_reach E a \<Longrightarrow> sc_reach E b
    \<Longrightarrow> res \<in> {sc_plus E a b, sc_minus E a b, sc_times E a b, div_or_mod E True a b, div_or_mod E False a b}
    \<Longrightarrow> res = Some (r, a', b') \<Longrightarrow> p \<in> {r, a', b'} \<Longrightarrow> sc_reach E p"

lemma reach_ok: "sc_reach E p \<Longrightarrow> sc_ok p"
proof (induction rule: sc_reach.induct)
  case (reach_op a b res r a' b' p)
  then have "res_ok res" using plus_ok minus_ok times_ok div_ok by auto
  then show ?case using reach_op by (auto simp: res_ok_def)
qed (simp_all add: sc_ok_sets sc_ok_to_int64 sc_ok_to_uint64 sc_ok_to_double)

section \<open>Conversions in either order\<close>

lemma sign_plain: "CHR ''-'' \<notin> set s \<Longrightarrow> fst (strto_sign (dropWhile isspace (cstr s))) = False"
proof -
  assume "CHR ''-'' \<notin> set s"
  then have "CHR ''-'' \<notin> set (dropWhile isspace (cstr s))"
    by (auto simp: cstr_def dest!: set_dropWhileD set_takeWhileD)
  moreover have "CHR ''-'' \<notin> set d \<Longrightarrow> fst (strto_sign d) = False" for d by (cases d) (auto simp: strto_sign_def)
  ultimately show ?thesis by blast
qed

lemma convert_agree:
  assumes "CHR ''-'' \<notin> set s"
  shows "my_convertint s = (case convertuint s of Some u \<Rightarrow> if u \<le> INT64_MAX then Some u else None | None \<Rightarrow> None)"
proof (cases "s = []")
  case False
  obtain cs where cs: "strto_sign (dropWhile isspace (cstr s)) = (False, cs)"
    using sign_plain [OF assms] by (cases "strto_sign (dropWhile isspace (cstr s))") auto
  have h: "hd s \<noteq> CHR ''-''" using assms False by (cases s) auto
  show ?thesis
    using False h cs
    by (auto simp: my_convertint_def convertuint_def strtoll_def strtoull_def int64_limits split: option.splits prod.splits)
qed (simp add: my_convertint_def convertuint_def)

lemma convertuint_minus: "hd s = CHR ''-'' \<Longrightarrow> convertuint s = None"
  by (simp add: convertuint_def)

text \<open>For a string that begins with a minus sign the number is not positive.\<close>

lemma convertint_minus: "s \<noteq> [] \<Longrightarrow> hd s = CHR ''-'' \<Longrightarrow> my_convertint s = Some i \<Longrightarrow> i \<le> 0"
proof (cases s)
  case (Cons c t)
  assume h: "hd s = CHR ''-''" and i: "my_convertint s = Some i"
  have "cstr s = CHR ''-'' # cstr t" using Cons h by (simp add: cstr_def)
  moreover have "\<not> isspace (CHR ''-'')" by code_simp
  ultimately have "strto_sign (dropWhile isspace (cstr s)) = (True, cstr t)" by (simp add: strto_sign_def)
  then show ?thesis using i
    by (auto simp: my_convertint_def strtoll_def INT64_MIN_def Let_def split: option.splits prod.splits if_splits)
qed simp

lemma int_uint_fresh:
  "fst (sc_int64 (sc_of_str (Some s))) = my_convertint s" "fst (sc_uint64 (sc_of_str (Some s))) = convertuint s"
  by (auto simp: sc_int64_def sc_uint64_def sc_to_int64_def sc_to_uint64_def sc_of_str_def sc_new_def split: option.splits)

lemma int_after_uint:
  "fst (sc_int64 (snd (sc_uint64 (sc_of_str (Some s))))) =
     (case convertuint s of Some u \<Rightarrow> if u \<le> INT64_MAX then Some u else None | None \<Rightarrow> my_convertint s)"
  by (auto simp: sc_int64_def sc_uint64_def sc_to_int64_def sc_to_uint64_def sc_of_str_def sc_new_def split: option.splits)

lemma uint_after_int:
  "fst (sc_uint64 (snd (sc_int64 (sc_of_str (Some s))))) =
     (case my_convertint s of Some i \<Rightarrow> if 0 \<le> i then Some i else None | None \<Rightarrow> convertuint s)"
  by (auto simp: sc_int64_def sc_uint64_def sc_to_int64_def sc_to_uint64_def sc_of_str_def sc_new_def split: option.splits)

lemma convert_orders:
  assumes "CHR ''-'' \<notin> set s \<or> s \<noteq> [] \<and> hd s = CHR ''-'' \<and> my_convertint s \<noteq> Some 0"
  shows "fst (sc_int64 (snd (sc_uint64 (sc_of_str (Some s))))) = fst (sc_int64 (sc_of_str (Some s))) \<and>
    fst (sc_uint64 (snd (sc_int64 (sc_of_str (Some s))))) = fst (sc_uint64 (sc_of_str (Some s)))"
  unfolding int_after_uint uint_after_int int_uint_fresh
proof (cases "CHR ''-'' \<in> set s")
  case False
  then show "(case convertuint s of Some u \<Rightarrow> if u \<le> INT64_MAX then Some u else None | None \<Rightarrow> my_convertint s) = my_convertint s
    \<and> (case my_convertint s of Some i \<Rightarrow> if 0 \<le> i then Some i else None | None \<Rightarrow> convertuint s) = convertuint s"
    using convert_agree [OF False] convertuint_range [of s] by (auto split: option.splits)
next
  case True
  then have s: "s \<noteq> []" "hd s = CHR ''-''" "my_convertint s \<noteq> Some 0" using assms by auto
  then show "(case convertuint s of Some u \<Rightarrow> if u \<le> INT64_MAX then Some u else None | None \<Rightarrow> my_convertint s) = my_convertint s
    \<and> (case my_convertint s of Some i \<Rightarrow> if 0 \<le> i then Some i else None | None \<Rightarrow> convertuint s) = convertuint s"
    using convertuint_minus [OF s(2)] convertint_minus [OF s(1,2)] by (force split: option.splits)
qed

section \<open>Trimming\<close>

lemma trim_back_spec:
  "s \<noteq> [] \<Longrightarrow> \<not> isspace (hd s) \<Longrightarrow> \<exists>r. s = trim_back s @ r \<and> (\<forall>c \<in> set r. isspace c)
     \<and> trim_back s \<noteq> [] \<and> \<not> isspace (last (trim_back s)) \<and> hd (trim_back s) = hd s"
proof (induction s rule: trim_back.induct)
  case (1 s)
  show ?case
  proof (cases "1 < length s \<and> isspace (last s)")
    case True
    then have b: "butlast s \<noteq> []" "hd (butlast s) = hd s" by (cases s; cases "butlast s"; auto)+
    then obtain r where r: "butlast s = trim_back (butlast s) @ r" "\<forall>c \<in> set r. isspace c"
      "trim_back (butlast s) \<noteq> []" "\<not> isspace (last (trim_back (butlast s)))" "hd (trim_back (butlast s)) = hd s"
      using 1 True by auto
    have "s = trim_back (butlast s) @ r @ [last s]" using r(1) \<open>s \<noteq> []\<close> by (metis append.assoc append_butlast_last_id)
    moreover have "trim_back s = trim_back (butlast s)" using True by (subst trim_back.simps) simp
    ultimately show ?thesis using r True by (intro exI [of _ "r @ [last s]"]) auto
  next
    case False
    then have t: "trim_back s = s" by (subst trim_back.simps) auto
    have "\<not> isspace (last s)" using False 1(2,3) by (cases s) auto
    then show ?thesis using t 1(2) by simp
  qed
qed

lemma trim_spec:
  "\<exists>l r. sc_to_str p = l @ sc_trim p @ r \<and> (\<forall>c \<in> set l. isspace c) \<and> (\<forall>c \<in> set r. isspace c)
     \<and> (sc_trim p = [] \<or> \<not> isspace (hd (sc_trim p)) \<and> \<not> isspace (last (sc_trim p)))"
proof -
  obtain l b where b: "b = dropWhile isspace (sc_to_str p)" and l: "sc_to_str p = l @ b" "\<forall>c \<in> set l. isspace c"
    by (metis takeWhile_dropWhile_id set_takeWhileD)
  show ?thesis
  proof (cases "b = []")
    case True
    then have "sc_trim p = []" using b by (auto simp: sc_trim_def Let_def)
    then show ?thesis using l True by (intro exI [of _ l] exI [of _ "[]"]) auto
  next
    case False
    then have t: "sc_trim p = trim_back b" using b by (auto simp: sc_trim_def Let_def)
    have h: "\<not> isspace (hd b)" using False b hd_dropWhile by metis
    obtain r where "b = trim_back b @ r" "\<forall>c \<in> set r. isspace c" "\<not> isspace (last (trim_back b))"
      "hd (trim_back b) = hd b" using trim_back_spec [OF False h] by blast
    then show ?thesis using l t h by (intro exI [of _ l] exI [of _ r]) auto
  qed
qed

section \<open>Properties\<close>

text \<open>
  A concrete instance of what the code takes from outside, for the examples: the integers in place of the
  \<^verbatim>\<open>double\<close>s, and the lexicographic order of bytes.
\<close>

fun lex_cmp :: "string \<Rightarrow> string \<Rightarrow> int" where
  "lex_cmp [] [] = 0"
| "lex_cmp [] (_ # _) = - 1"
| "lex_cmp (_ # _) [] = 1"
| "lex_cmp (c # s) (d # t) = (if c = d then lex_cmp s t else int (code c) - int (code d))"

definition int_env :: "int sc_env" where
  "int_env = \<lparr>fp_of_int = id, fp_add = (+), fp_sub = (-), fp_mul = (*), fp_div = (sdiv), fp_fmod = (smod), fp_less = (<),
     fp_is_zero = (\<lambda>d. d = 0), fp_strtod = (\<lambda>s. (0, s)), fp_fmt = dec_int, str_cmp = lex_cmp\<rparr>"

text \<open>
  C31.  Integer arithmetic of the template language is exact as long as the result fits 64 bits with
  sign, whatever the signedness of the operands: the sum, difference and product of two integer scalars
  (up to the largest unsigned one) are the integer scalars of the exact results, and no undefined
  behaviour is met.
\<close>

theorem scalar_arith_exact:
  assumes "sc_is x a" "sc_is y b"
  shows "(fits_i64 (x + y) \<longrightarrow> (\<exists>r. sc_plus E a b = Some (r, a, b) \<and> sc_is (x + y) r))
    \<and> (fits_i64 (x - y) \<longrightarrow> (\<exists>r. sc_minus E a b = Some (r, a, b) \<and> sc_is (x - y) r))
    \<and> (fits_i64 (x * y) \<longrightarrow> (\<exists>r. sc_times E a b = Some (r, a, b) \<and> sc_is (x * y) r))"
  using plus_is [OF assms] minus_is [OF assms] times_is [OF assms] by blast

theorem scalar_arith_exact_witness:
  "\<exists>r. sc_plus int_env (sc_set_u int_env (2 ^ 63) sc_new) (sc_set_i int_env (- 1) sc_new)
     = Some (r, sc_set_u int_env (2 ^ 63) sc_new, sc_set_i int_env (- 1) sc_new) \<and> sc_is INT64_MAX r"
proof -
  have a: "sc_is (2 ^ 63) (sc_set_u int_env (2 ^ 63) sc_new)" by (rule set_u_is) (simp_all add: int64_limits)
  have b: "sc_is (- 1) (sc_set_i int_env (- 1) sc_new)" by (rule set_i_is) (simp add: fits_i64_def int64_limits)
  have "fits_i64 (2 ^ 63 + - 1)" "INT64_MAX = 2 ^ 63 + - 1" by (simp_all add: fits_i64_def int64_limits)
  then show ?thesis using scalar_arith_exact [OF a b, of int_env] by metis
qed

text \<open>
  Division and remainder: a zero divisor gives the infinite scalar; when neither operand needs the
  other's signedness (both fit the signed or both the unsigned type) the result is the quotient or the
  remainder rounded to zero; and the smallest integer divided by minus one is undefined behaviour (the
  processor traps).
\<close>

theorem scalar_division:
  assumes "sc_is x a" "sc_is y b"
  shows "(y = 0 \<longrightarrow> div_or_mod E dv a b = Some (sc_set_inf E sc_new, a, b))
    \<and> (y \<noteq> 0 \<longrightarrow> \<not> (x = INT64_MIN \<and> y = - 1) \<longrightarrow> 0 \<le> x \<and> 0 \<le> y \<or> x \<le> INT64_MAX \<and> y \<le> INT64_MAX \<longrightarrow>
        (\<exists>r. div_or_mod E dv a b = Some (r, a, b) \<and> sc_is (if dv then x sdiv y else x smod y) r))
    \<and> (x = INT64_MIN \<and> y = - 1 \<longrightarrow> div_or_mod E dv a b = None)"
  using div_is_zero [of x a b E dv] div_is [OF assms] div_is_trap [of a b E dv] assms by blast

theorem scalar_division_witness:
  "div_or_mod int_env True (sc_set_i int_env INT64_MIN sc_new) (sc_set_i int_env (- 1) sc_new) = None"
proof -
  have a: "sc_is INT64_MIN (sc_set_i int_env INT64_MIN sc_new)" by (rule set_i_is) (simp add: fits_i64_def int64_limits)
  have b: "sc_is (- 1) (sc_set_i int_env (- 1) sc_new)" by (rule set_i_is) (simp add: fits_i64_def int64_limits)
  show ?thesis using scalar_division [OF a b, of int_env True] by blast
qed

text \<open>
  C36.  The comparison of two integer scalars is that of the integers, also between a negative one
  and one that only fits the unsigned type.
\<close>

theorem scalar_cmp_exact:
  assumes "sc_is x a" "sc_is y b"
  shows "sc_cmp E a b = Some (if y < x then 1 else if x < y then - 1 else 0, a, b)"
  using cmp_is [OF assms] by (simp add: cmp3_def)

theorem scalar_cmp_exact_witness:
  "sc_cmp int_env (sc_set_i int_env (- 1) sc_new) (sc_set_u int_env UINT64_MAX sc_new)
     = Some (- 1, sc_set_i int_env (- 1) sc_new, sc_set_u int_env UINT64_MAX sc_new)"
proof -
  have a: "sc_is (- 1) (sc_set_i int_env (- 1) sc_new)" by (rule set_i_is) (simp add: fits_i64_def int64_limits)
  have b: "sc_is UINT64_MAX (sc_set_u int_env UINT64_MAX sc_new)" by (rule set_u_is) (simp_all add: int64_limits)
  show ?thesis using scalar_cmp_exact [OF a b, of int_env] by (simp add: UINT64_MAX_def)
qed



text \<open>
  The cached conversions to the signed and the unsigned integers do not depend on which of them
  is made first, for strings with no minus sign and for those that begin with one and are no zero.
\<close>

theorem conversions_commute:
  assumes "CHR ''-'' \<notin> set s \<or> s \<noteq> [] \<and> hd s = CHR ''-'' \<and> my_convertint s \<noteq> Some 0"
  shows "fst (sc_int64 (snd (sc_uint64 (sc_of_str (Some s) :: 'd scalar)))) = fst (sc_int64 (sc_of_str (Some s) :: 'd scalar)) \<and>
    fst (sc_uint64 (snd (sc_int64 (sc_of_str (Some s) :: 'd scalar)))) = fst (sc_uint64 (sc_of_str (Some s) :: 'd scalar))"
  by (rule convert_orders [OF assms])

theorem conversions_commute_witness:
  "fst (sc_uint64 (snd (sc_int64 (sc_of_str (Some ''0x10'') :: int scalar)))) = Some 16"
proof -
  have "CHR ''-'' \<notin> set ''0x10''" by simp
  moreover have "convertuint ''0x10'' = Some 16" by code_simp
  ultimately show ?thesis using conversions_commute [of "''0x10''", where ?'d = int] by (simp add: int_uint_fresh)
qed

text \<open>With a space before the sign the order matters: the unsigned conversion takes the negative number modulo \<open>2 ^ 64\<close>.\<close>

lemma spaced_minus_order:
  "fst (sc_int64 (sc_of_str (Some '' -5''))) = Some (- 5)"
  "fst (sc_uint64 (sc_of_str (Some '' -5''))) = Some (2 ^ 64 - 5)"
  "fst (sc_int64 (snd (sc_uint64 (sc_of_str (Some '' -5''))))) = None"
  "fst (sc_uint64 (snd (sc_int64 (sc_of_str (Some '' -5''))))) = None"
proof -
  have c: "my_convertint '' -5'' = Some (- 5)" "convertuint '' -5'' = Some (2 ^ 64 - 5)" by code_simp+
  show "fst (sc_int64 (sc_of_str (Some '' -5''))) = Some (- 5)"
    "fst (sc_uint64 (sc_of_str (Some '' -5''))) = Some (2 ^ 64 - 5)"
    "fst (sc_int64 (snd (sc_uint64 (sc_of_str (Some '' -5''))))) = None"
    "fst (sc_uint64 (snd (sc_int64 (sc_of_str (Some '' -5''))))) = None"
    unfolding int_uint_fresh int_after_uint uint_after_int using c by (simp_all add: int64_limits)
qed

text \<open>The comparison is not transitive: 9 before 10 as numbers, "10" before "1a" before "9" as strings.\<close>

lemma cmp_cycle:
  "map_option fst (sc_cmp int_env (sc_of_str (Some ''9'')) (sc_of_str (Some ''10''))) = Some (- 1)"
  "map_option fst (sc_cmp int_env (sc_of_str (Some ''10'')) (sc_of_str (Some ''1a''))) = Some (- 49)"
  "map_option fst (sc_cmp int_env (sc_of_str (Some ''1a'')) (sc_of_str (Some ''9''))) = Some (- 8)"
  by code_simp+

text \<open>A mixed division goes wrong: the largest unsigned integer divided by minus one is one.\<close>

lemma div_mixed:
  assumes a: "sc_is x a" and b: "sc_is y b" and r: "INT64_MAX < x" "y < 0"
  shows "div_or_mod E dv a b = Some (sc_set_i E (to_i64 (op_u64 dv x y)) sc_new, a, b)"
proof -
  have "0 \<le> x" "y \<le> INT64_MAX" using r by (simp_all add: int64_limits)
  then show ?thesis
    using is_type [OF a] is_type [OF b] r by (simp add: div_or_mod_def sc_try_div_def sc_both_is [OF a b])
qed

lemma mixed_division_wrong:
  "div_or_mod E True (sc_set_u E UINT64_MAX sc_new) (sc_set_i E (- 1) sc_new)
     = Some (sc_set_i E 1 sc_new, sc_set_u E UINT64_MAX sc_new, sc_set_i E (- 1) sc_new)"
proof -
  have a: "sc_is UINT64_MAX (sc_set_u E UINT64_MAX sc_new)" by (rule set_u_is) (simp_all add: int64_limits)
  have b: "sc_is (- 1) (sc_set_i E (- 1) sc_new)" by (rule set_i_is) (simp add: fits_i64_def int64_limits)
  have "to_i64 (op_u64 True UINT64_MAX (- 1)) = 1" by (simp add: op_u64_def to_u64_def to_i64_def int64_limits)
  moreover have "INT64_MAX < UINT64_MAX" by (simp add: int64_limits)
  ultimately show ?thesis using div_mixed [OF a b, of E True] by simp
qed

text \<open>
  A \<^verbatim>\<open>double\<close> printed as "0" is true; it keeps the unsigned value the object had before; and its signed
  value is a member that was never assigned.
\<close>

lemma zero_double_true: "fp_fmt E d = ''0'' \<Longrightarrow> fst (sc_to_bool (sc_set_double E d sc_new)) = True"
  by (simp add: sc_to_bool_def sc_int64_def sc_to_int64_def sc_set_double_def sc_to_str_def)

lemma double_stale_uint: "0 \<le> i \<Longrightarrow> fst (sc_uint64 (sc_set_double E d (sc_set_i E i sc_new))) = Some i"
  by (simp add: sc_uint64_def sc_to_uint64_def sc_set_double_def sc_set_i_def)

lemma double_int_unassigned: "fst (sc_to_int64 (sc_set_double E d sc_new)) = None"
  by (simp add: sc_to_int64_def sc_set_double_def sc_new_def)

end
