(* ===== verification/MsgPack.thy ===== *)
theory MsgPack
  imports Scalar
begin

text \<open>
  The MessagePack codec of the template language's values, \<^verbatim>\<open>src/libpub/pub3msgpack.h\<close> and
  \<^verbatim>\<open>src/libpub/pub3msgpack.C\<close>, with the scalars for the integer keys of dictionaries.  Of the classes of values those with an encoding of their own
  are constructors of \<open>expr\<close>; the others, whose \<^verbatim>\<open>to_msgpack\<close> is the inherited one, are \<open>E_other\<close>.  A
  dictionary is the list of its entries in the order its iterator gives them.  A \<^verbatim>\<open>double\<close> is the
  string of its eight bytes in memory.
\<close>

section \<open>Values\<close>

datatype expr =
    E_null
  | E_bool bool
  | E_int int
  | E_uint int
  | E_double string
  | E_str "string option"
  | E_list "expr list"
  | E_dict "(string \<times> expr) list"
  | E_cow "expr option"
  | E_other

section \<open>The output buffer\<close>

text \<open>
  \<open>ob_tmp\<close> is the part of the temporary buffer that is written, \<open>None\<close> when there is none; its size is
  \<open>ob_tlen\<close>.  A failed assertion sets \<open>ob_abort\<close>.
\<close>

record outbuf =
  ob_b :: string
  ob_tlen :: nat
  ob_tmp :: "string option"
  ob_jsmode :: bool
  ob_abort :: bool

definition outbuf_new :: outbuf where
  "outbuf_new = \<lparr>ob_b = [], ob_tlen = 0x100, ob_tmp = Some [], ob_jsmode = False, ob_abort = False\<rparr>"

definition set_js_mode :: "outbuf \<Rightarrow> outbuf" where
  "set_js_mode ob = ob\<lparr>ob_jsmode := True\<rparr>"

definition ob_ready :: "outbuf \<Rightarrow> outbuf" where
  "ob_ready ob = (if ob_tmp ob = None then ob\<lparr>ob_tmp := Some []\<rparr> else ob)"

definition ob_flush :: "bool \<Rightarrow> outbuf \<Rightarrow> outbuf" where
  "ob_flush r ob =
     (case ob_tmp ob of
        Some (x # t) \<Rightarrow>
          let o1 = ob\<lparr>ob_b := ob_b ob @ x # t, ob_tmp := None\<rparr> in if r then ob_ready o1 else o1
      | _ \<Rightarrow> ob)"

definition put_str :: "string \<Rightarrow> outbuf \<Rightarrow> outbuf" where
  "put_str s ob = (let o1 = ob_flush True ob in o1\<lparr>ob_b := ob_b o1 @ s\<rparr>)"

definition put_byte :: "char \<Rightarrow> outbuf \<Rightarrow> outbuf" where
  "put_byte b ob =
     (let o1 = ob_ready ob; t = the (ob_tmp o1)
      in if \<not> length t < ob_tlen o1 then o1\<lparr>ob_abort := True\<rparr>
         else let o2 = o1\<lparr>ob_tmp := Some (t @ [b])\<rparr>
              in if length (t @ [b]) = ob_tlen o2 then ob_flush True o2 else o2)"

definition put_bytes :: "string \<Rightarrow> outbuf \<Rightarrow> outbuf" where
  "put_bytes bs ob = fold put_byte bs ob"

text \<open>The low byte of an integer, and \<^verbatim>\<open>put_int\<close> for an integer of \<open>n\<close> bytes, high byte first.\<close>

definition byte_of :: "int \<Rightarrow> char" where
  "byte_of i = char_of (nat (i mod 256))"

fun put_int :: "nat \<Rightarrow> int \<Rightarrow> outbuf \<Rightarrow> outbuf" where
  "put_int 0 i ob = ob"
| "put_int (Suc n) i ob = put_int n i (put_byte (byte_of (i div 256 ^ n)) ob)"

definition ob_to_str :: "outbuf \<Rightarrow> string" where
  "ob_to_str ob = ob_b (ob_flush False ob)"

section \<open>Encoding\<close>

definition encode_raw_len :: "nat \<Rightarrow> int \<Rightarrow> int \<Rightarrow> int \<Rightarrow> outbuf \<Rightarrow> outbuf" where
  "encode_raw_len len b s l ob =
     (if len \<le> 0x1f then put_byte (byte_of (or b (int len))) ob
      else if len \<le> 0xffff then put_int 2 (int len) (put_byte (byte_of s) ob)
      else put_int 4 (int len) (put_byte (byte_of l) ob))"

definition encode_len :: "nat \<Rightarrow> int \<Rightarrow> int \<Rightarrow> int \<Rightarrow> outbuf \<Rightarrow> outbuf" where
  "encode_len len b s l ob =
     (if len \<le> 0xf then put_byte (byte_of (or b (int len))) ob
      else if len \<le> 0xffff then put_int 2 (int len) (put_byte (byte_of s) ob)
      else put_int 4 (int len) (put_byte (byte_of l) ob))"

definition encode_str :: "string \<Rightarrow> outbuf \<Rightarrow> outbuf" where
  "encode_str s ob = put_str s (encode_raw_len (length s) 0xa0 0xda 0xdb ob)"

definition encode_negative_int :: "int \<Rightarrow> outbuf \<Rightarrow> outbuf" where
  "encode_negative_int i ob =
     (if \<not> i < 0 then ob\<lparr>ob_abort := True\<rparr>
      else if - 32 \<le> i then put_byte (byte_of i) ob
      else if - 128 \<le> i then put_byte (byte_of i) (put_byte (byte_of 0xd0) ob)
      else if - 32768 \<le> i then put_int 2 i (put_byte (byte_of 0xd1) ob)
      else if - 2147483648 \<le> i then put_int 4 i (put_byte (byte_of 0xd2) ob)
      else let o1 = put_byte (byte_of 0xd3) ob
           in if ob_jsmode o1 then encode_str (dec_int i) o1 else put_int 8 i o1)"

definition encode_positive_int :: "int \<Rightarrow> outbuf \<Rightarrow> outbuf" where
  "encode_positive_int i ob =
     (if i \<le> 0x7f then put_byte (byte_of i) ob
      else if i \<le> 0xff then put_byte (byte_of i) (put_byte (byte_of 0xcc) ob)
      else if i \<le> 0xffff then put_int 2 i (put_byte (byte_of 0xcd) ob)
      else if i \<le> 0xffffffff then put_int 4 i (put_byte (byte_of 0xce) ob)
      else if ob_jsmode ob then encode_str (dec_int i) ob
      else put_int 8 i (put_byte (byte_of 0xcf) ob))"

definition encode_key :: "string \<Rightarrow> outbuf \<Rightarrow> outbuf" where
  "encode_key k ob =
     (let (u, so) = sc_uint64 (sc_of_str (Some k) :: unit scalar)
      in case u of
           Some ku \<Rightarrow> encode_positive_int ku ob
         | None \<Rightarrow>
             (case fst (sc_int64 so) of
                Some ki \<Rightarrow> encode_negative_int ki ob
              | None \<Rightarrow> encode_str k ob))"

text \<open>The virtual \<^verbatim>\<open>to_msgpack\<close>; the results for the elements of lists and dictionaries are not looked at.\<close>

primrec to_msgpack :: "expr \<Rightarrow> outbuf \<Rightarrow> bool \<times> outbuf" where
  "to_msgpack E_null = (\<lambda>ob. (True, put_byte (byte_of 0xc0) ob))"
| "to_msgpack (E_bool b) = (\<lambda>ob. (True, put_byte (byte_of (if b then 0xc3 else 0xc2)) ob))"
| "to_msgpack (E_str v) = (\<lambda>ob. case v of None \<Rightarrow> (False, ob) | Some s \<Rightarrow> (True, encode_str s ob))"
| "to_msgpack (E_int i) = (\<lambda>ob. (True, if i < 0 then encode_negative_int i ob else encode_positive_int i ob))"
| "to_msgpack (E_uint u) = (\<lambda>ob. (True, encode_positive_int u ob))"
| "to_msgpack (E_double d) = (\<lambda>ob. (True, put_bytes (rev d) (put_byte (byte_of 0xcb) ob)))"
| "to_msgpack (E_list xs) = (\<lambda>ob.
     (True, fold (\<lambda>f ob. snd (f ob)) (map to_msgpack xs) (encode_len (length xs) 0x90 0xdc 0xdd ob)))"
| "to_msgpack (E_dict d) = (\<lambda>ob.
     (True, fold (\<lambda>(k, f) ob. snd (f (encode_key k ob))) (map (map_prod id to_msgpack) d)
              (encode_len (length d) 0x80 0xde 0xdf ob)))"
| "to_msgpack (E_cow x) = (\<lambda>ob. case map_option to_msgpack x of None \<Rightarrow> (False, ob) | Some f \<Rightarrow> f ob)"
| "to_msgpack E_other = (\<lambda>ob. (False, ob))"

text \<open>\<^verbatim>\<open>encode\<close>: \<open>None\<close> is a failed assertion.\<close>

definition mp_encode :: "bool \<Rightarrow> expr \<Rightarrow> string option option" where
  "mp_encode js x =
     (let ob = (if js then set_js_mode outbuf_new else outbuf_new); (ok, ob1) = to_msgpack x ob
      in if ob_abort ob1 then None else Some (if ok then Some (ob_to_str ob1) else None))"

section \<open>Decoding\<close>

datatype mp_errno = MP_NONE | MP_EAGAIN | MP_EINVAL

text \<open>
  \<open>ms_rest\<close> is the unread part \<open>[_cp, _ep)\<close>.  The recursion of \<^verbatim>\<open>unpack\<close> is bounded by fuel, and
  \<open>ms_stuck\<close> says that it ran out.
\<close>

record msgpack =
  ms_rest :: string
  ms_errno :: mp_errno
  ms_stuck :: bool

definition get_bytes :: "nat \<Rightarrow> msgpack \<Rightarrow> string option \<times> msgpack" where
  "get_bytes n s =
     (if n \<le> length (ms_rest s) then (Some (take n (ms_rest s)), s\<lparr>ms_rest := drop n (ms_rest s)\<rparr>)
      else (None, s\<lparr>ms_errno := MP_EAGAIN\<rparr>))"

definition peek_byte :: "msgpack \<Rightarrow> char option" where
  "peek_byte s = (case ms_rest s of [] \<Rightarrow> None | b # _ \<Rightarrow> Some b)"

definition consume_byte :: "msgpack \<Rightarrow> msgpack" where
  "consume_byte s = s\<lparr>ms_rest := tl (ms_rest s)\<rparr>"

definition big_endian :: "string \<Rightarrow> int" where
  "big_endian bs = foldl (\<lambda>v b. v * 256 + int (code b)) 0 bs"

text \<open>\<^verbatim>\<open>unpack_int\<close> for a type of \<open>n\<close> bytes, unsigned or signed.\<close>

definition unpack_int :: "bool \<Rightarrow> nat \<Rightarrow> msgpack \<Rightarrow> int option \<times> msgpack" where
  "unpack_int sg n s =
     (let (bs, s1) = get_bytes n s
      in (map_option (\<lambda>bs. let v = big_endian bs in
            if sg \<and> 2 ^ (8 * n - 1) \<le> v then v - 2 ^ (8 * n) else v) bs, s1))"

definition unpack_raw :: "nat \<Rightarrow> msgpack \<Rightarrow> expr option \<times> msgpack" where
  "unpack_raw n s = (let (bs, s1) = get_bytes n s in (map_option (\<lambda>b. E_str (Some b)) bs, s1))"

text \<open>
  \<open>to_str\<close> is the virtual \<^verbatim>\<open>to_str\<close>, with no quoting: here for the scalars; the text of the others is an
  argument.
\<close>

fun to_str :: "(expr \<Rightarrow> string option) \<Rightarrow> expr \<Rightarrow> string option" where
  "to_str f E_null = Some ''null''"
| "to_str f (E_bool b) = Some (if b then ''true'' else ''false'')"
| "to_str f (E_int i) = Some (dec_int i)"
| "to_str f (E_uint u) = Some (dec_int u)"
| "to_str f (E_str v) = v"
| "to_str f x = f x"

definition dict_insert :: "string \<Rightarrow> expr \<Rightarrow> (string \<times> expr) list \<Rightarrow> (string \<times> expr) list" where
  "dict_insert k v d =
     (if k \<in> fst ` set d then map (\<lambda>(k', v'). if k' = k then (k', v) else (k', v')) d else d @ [(k, v)])"

fun unpack_array :: "(msgpack \<Rightarrow> expr option \<times> msgpack) \<Rightarrow> nat \<Rightarrow> expr list \<Rightarrow> msgpack \<Rightarrow> expr option \<times> msgpack" where
  "unpack_array u 0 xs s = (Some (E_list xs), s)"
| "unpack_array u (Suc n) xs s =
     (let (x, s1) = u s
      in case x of None \<Rightarrow> (None, s1) | Some v \<Rightarrow> unpack_array u n (xs @ [v]) s1)"

fun unpack_map :: "(expr \<Rightarrow> string option) \<Rightarrow> (msgpack \<Rightarrow> expr option \<times> msgpack) \<Rightarrow> nat
    \<Rightarrow> (string \<times> expr) list \<Rightarrow> msgpack \<Rightarrow> expr option \<times> msgpack" where
  "unpack_map f u 0 d s = (Some (E_dict d), s)"
| "unpack_map f u (Suc n) d s =
     (let (k, s1) = u s
      in case k of
           None \<Rightarrow> (None, s1)
         | Some k \<Rightarrow>
             (case to_str f k of
                None \<Rightarrow> unpack_map f u n d s1
              | Some ks \<Rightarrow>
                  let (v, s2) = u s1
                  in case v of None \<Rightarrow> (None, s2) | Some v \<Rightarrow> unpack_map f u n (dict_insert ks v d) s2))"

text \<open>A length or an integer after the code, and what is made of it.\<close>

definition with_int :: "bool \<Rightarrow> nat \<Rightarrow> (int \<Rightarrow> msgpack \<Rightarrow> expr option \<times> msgpack) \<Rightarrow> msgpack \<Rightarrow> expr option \<times> msgpack" where
  "with_int sg n k s =
     (let (v, s1) = unpack_int sg n (consume_byte s)
      in case v of None \<Rightarrow> (None, s1) | Some i \<Rightarrow> k i s1)"

abbreviation just :: "(int \<Rightarrow> expr) \<Rightarrow> int \<Rightarrow> msgpack \<Rightarrow> expr option \<times> msgpack" where
  "just e \<equiv> \<lambda>i s. (Some (e i), s)"

section \<open>The readers of the table\<close>

text \<open>
  The first argument of a reader is the byte it is called for, which the code reads again from the
  message; the exclusive or of that byte with the base of its range is the difference.
\<close>

definition unpack_positive_fixnum :: "nat \<Rightarrow> msgpack \<Rightarrow> expr option \<times> msgpack" where
  "unpack_positive_fixnum b s = (Some (E_int (int b)), consume_byte s)"

definition unpack_negative_fixnum :: "nat \<Rightarrow> msgpack \<Rightarrow> expr option \<times> msgpack" where
  "unpack_negative_fixnum b s = (Some (E_int (int b - 256)), consume_byte s)"

definition unpack_fix_map :: "(expr \<Rightarrow> string option) \<Rightarrow> (msgpack \<Rightarrow> expr option \<times> msgpack) \<Rightarrow> nat \<Rightarrow> msgpack \<Rightarrow> expr option \<times> msgpack" where
  "unpack_fix_map f u b s = unpack_map f u (b - 0x80) [] (consume_byte s)"

definition unpack_fix_array :: "(msgpack \<Rightarrow> expr option \<times> msgpack) \<Rightarrow> nat \<Rightarrow> msgpack \<Rightarrow> expr option \<times> msgpack" where
  "unpack_fix_array u b s = unpack_array u (b - 0x90) [] (consume_byte s)"

definition unpack_fix_raw :: "nat \<Rightarrow> msgpack \<Rightarrow> expr option \<times> msgpack" where
  "unpack_fix_raw b s = unpack_raw (b - 0xa0) (consume_byte s)"

definition unpack_nil :: "msgpack \<Rightarrow> expr option \<times> msgpack" where
  "unpack_nil s = (Some E_null, consume_byte s)"

definition unpack_false :: "msgpack \<Rightarrow> expr option \<times> msgpack" where
  "unpack_false s = (Some (E_bool False), consume_byte s)"

definition unpack_true :: "msgpack \<Rightarrow> expr option \<times> msgpack" where
  "unpack_true s = (Some (E_bool True), consume_byte s)"

text \<open>The argument \<open>widen\<close> turns the bytes of a \<^verbatim>\<open>float\<close> into those of the \<^verbatim>\<open>double\<close> of the same value.\<close>

definition unpack_float :: "(string \<Rightarrow> string) \<Rightarrow> msgpack \<Rightarrow> expr option \<times> msgpack" where
  "unpack_float widen s =
     (let (bs, s1) = get_bytes 4 (consume_byte s) in (map_option (\<lambda>x. E_double (widen (rev x))) bs, s1))"

definition unpack_double :: "msgpack \<Rightarrow> expr option \<times> msgpack" where
  "unpack_double s =
     (let (bs, s1) = get_bytes 8 (consume_byte s) in (map_option (\<lambda>x. E_double (rev x)) bs, s1))"

text \<open>The macro \<^verbatim>\<open>UPI\<close>, for each of the integer types.\<close>

definition upi :: "bool \<Rightarrow> nat \<Rightarrow> (int \<Rightarrow> expr) \<Rightarrow> msgpack \<Rightarrow> expr option \<times> msgpack" where
  "upi sg n e s = with_int sg n (just e) s"

definition unpack_raw16 :: "msgpack \<Rightarrow> expr option \<times> msgpack" where
  "unpack_raw16 s = with_int False 2 (\<lambda>n. unpack_raw (nat n)) s"

definition unpack_raw32 :: "msgpack \<Rightarrow> expr option \<times> msgpack" where
  "unpack_raw32 s = with_int False 4 (\<lambda>n. unpack_raw (nat n)) s"

definition unpack_array16 :: "(msgpack \<Rightarrow> expr option \<times> msgpack) \<Rightarrow> msgpack \<Rightarrow> expr option \<times> msgpack" where
  "unpack_array16 u s = with_int False 2 (\<lambda>n. unpack_array u (nat n) []) s"

definition unpack_array32 :: "(msgpack \<Rightarrow> expr option \<times> msgpack) \<Rightarrow> msgpack \<Rightarrow> expr option \<times> msgpack" where
  "unpack_array32 u s = with_int False 4 (\<lambda>n. unpack_array u (nat n) []) s"

definition unpack_map16 :: "(expr \<Rightarrow> string option) \<Rightarrow> (msgpack \<Rightarrow> expr option \<times> msgpack) \<Rightarrow> msgpack \<Rightarrow> expr option \<times> msgpack" where
  "unpack_map16 f u s = with_int False 2 (\<lambda>n. unpack_map f u (nat n) []) s"

definition unpack_map32 :: "(expr \<Rightarrow> string option) \<Rightarrow> (msgpack \<Rightarrow> expr option \<times> msgpack) \<Rightarrow> msgpack \<Rightarrow> expr option \<times> msgpack" where
  "unpack_map32 f u s = with_int False 4 (\<lambda>n. unpack_map f u (nat n) []) s"

text \<open>The table, with the branch of \<^verbatim>\<open>unpack\<close> for the codes that have no entry.\<close>

definition unpack_tab :: "(string \<Rightarrow> string) \<Rightarrow> (expr \<Rightarrow> string option) \<Rightarrow> (msgpack \<Rightarrow> expr option \<times> msgpack) \<Rightarrow> nat \<Rightarrow> msgpack \<Rightarrow> expr option \<times> msgpack" where
  "unpack_tab widen f u b s =
     (if b \<le> 0x7f then unpack_positive_fixnum b s
      else if b \<le> 0x8f then unpack_fix_map f u b s
      else if b \<le> 0x9f then unpack_fix_array u b s
      else if b \<le> 0xbf then unpack_fix_raw b s
      else if b = 0xc0 then unpack_nil s
      else if b = 0xc2 then unpack_false s
      else if b = 0xc3 then unpack_true s
      else if b = 0xca then unpack_float widen s
      else if b = 0xcb then unpack_double s
      else if b = 0xcc then upi False 1 E_int s
      else if b = 0xcd then upi False 2 E_int s
      else if b = 0xce then upi False 4 E_int s
      else if b = 0xcf then upi False 8 E_uint s
      else if b = 0xd0 then upi True 1 E_int s
      else if b = 0xd1 then upi True 2 E_int s
      else if b = 0xd2 then upi True 4 E_int s
      else if b = 0xd3 then upi True 8 E_int s
      else if b = 0xda then unpack_raw16 s
      else if b = 0xdb then unpack_raw32 s
      else if b = 0xdc then unpack_array16 u s
      else if b = 0xdd then unpack_array32 u s
      else if b = 0xde then unpack_map16 f u s
      else if b = 0xdf then unpack_map32 f u s
      else if 0xe0 \<le> b then unpack_negative_fixnum b s
      else (None, s\<lparr>ms_errno := MP_EINVAL\<rparr>))"

lemmas unpack_defs = unpack_tab_def unpack_positive_fixnum_def unpack_negative_fixnum_def unpack_fix_map_def
  unpack_fix_array_def unpack_fix_raw_def unpack_nil_def unpack_false_def unpack_true_def unpack_float_def
  unpack_double_def upi_def unpack_raw16_def unpack_raw32_def unpack_array16_def unpack_array32_def
  unpack_map16_def unpack_map32_def

primrec unpack :: "(string \<Rightarrow> string) \<Rightarrow> (expr \<Rightarrow> string option) \<Rightarrow> nat \<Rightarrow> msgpack \<Rightarrow> expr option \<times> msgpack" where
  "unpack widen f 0 s = (None, s\<lparr>ms_stuck := True\<rparr>)"
| "unpack widen f (Suc n) s =
     (case peek_byte s of
        None \<Rightarrow> (None, s)
      | Some b \<Rightarrow> unpack_tab widen f (unpack widen f n) (code b) s)"

text \<open>
  \<^verbatim>\<open>decode\<close>: the value, the error, the number of bytes read.  Every level of the recursion has consumed
  a byte, so that the length of the message is fuel enough.
\<close>

definition mp_decode :: "(string \<Rightarrow> string) \<Rightarrow> (expr \<Rightarrow> string option) \<Rightarrow> string \<Rightarrow> (expr option \<times> mp_errno \<times> nat) option" where
  "mp_decode widen f m =
     (let (x, s) = unpack widen f (Suc (length m)) \<lparr>ms_rest = m, ms_errno = MP_NONE, ms_stuck = False\<rparr>
      in if ms_stuck s then None else Some (x, ms_errno s, length m - length (ms_rest s)))"

section \<open>The buffer as a sequence of bytes\<close>

definition ob_inv :: "outbuf \<Rightarrow> bool" where
  "ob_inv ob \<longleftrightarrow> \<not> ob_abort ob \<and> \<not> ob_jsmode ob \<and> 0 < ob_tlen ob
     \<and> (case ob_tmp ob of None \<Rightarrow> True | Some t \<Rightarrow> length t < ob_tlen ob)"

definition ob_out :: "outbuf \<Rightarrow> string" where
  "ob_out ob = ob_b ob @ (case ob_tmp ob of None \<Rightarrow> [] | Some t \<Rightarrow> t)"

text \<open>What an operation appends, whatever the state of the buffer.\<close>

definition emits :: "(outbuf \<Rightarrow> outbuf) \<Rightarrow> string \<Rightarrow> bool" where
  "emits g bs \<longleftrightarrow> (\<forall>ob. ob_inv ob \<longrightarrow> ob_inv (g ob) \<and> ob_out (g ob) = ob_out ob @ bs)"

lemma emits_comp: "emits g a \<Longrightarrow> emits h b \<Longrightarrow> emits (\<lambda>ob. h (g ob)) (a @ b)"
  by (simp add: emits_def)

lemma emits_id [simp]: "emits (\<lambda>ob. ob) []"
  by (simp add: emits_def)

lemma flush_out [simp]: "ob_inv ob \<Longrightarrow> ob_inv (ob_flush r ob) \<and> ob_out (ob_flush r ob) = ob_out ob"
  by (auto simp: ob_inv_def ob_flush_def ob_ready_def ob_out_def Let_def split: option.splits list.splits)

lemma flush_all: "ob_inv ob \<Longrightarrow> case ob_tmp (ob_flush r ob) of None \<Rightarrow> True | Some t \<Rightarrow> t = []"
  by (auto simp: ob_flush_def ob_ready_def Let_def split: option.splits list.splits)

lemma emits_put_byte [simp]: "emits (put_byte b) [b]"
  unfolding emits_def
proof (intro allI impI)
  fix ob assume inv: "ob_inv ob"
  let ?o = "ob_ready ob"
  obtain t where t: "ob_tmp ?o = Some t" "length t < ob_tlen ?o"
    using inv by (cases "ob_tmp ob") (auto simp: ob_ready_def ob_inv_def)
  have out: "ob_out ?o = ob_out ob" and f: "\<not> ob_abort ?o" "\<not> ob_jsmode ?o" "0 < ob_tlen ?o"
    using inv by (auto simp: ob_ready_def ob_out_def ob_inv_def)
  show "ob_inv (put_byte b ob) \<and> ob_out (put_byte b ob) = ob_out ob @ [b]"
    using t f unfolding out [symmetric]
    by (auto simp: put_byte_def Let_def ob_flush_def ob_ready_def [of "_\<lparr>ob_b := _, ob_tmp := None\<rparr>"]
        ob_inv_def ob_out_def split: list.splits)
qed

lemma emits_put_str [simp]: "emits (put_str s) s"
  unfolding emits_def
proof (intro allI impI)
  fix ob assume inv: "ob_inv ob"
  have f: "ob_inv (ob_flush True ob)" "ob_out (ob_flush True ob) = ob_out ob" using inv flush_out by blast+
  show "ob_inv (put_str s ob) \<and> ob_out (put_str s ob) = ob_out ob @ s"
    using f(1) flush_all [OF inv, of True] unfolding f(2) [symmetric]
    by (auto simp: put_str_def Let_def ob_inv_def ob_out_def split: option.splits)
qed

lemma emits_put_bytes [simp]: "emits (put_bytes bs) bs"
proof (induction bs)
  case (Cons b bs)
  have "put_bytes (b # bs) = (\<lambda>ob. put_bytes bs (put_byte b ob))" by (auto simp: put_bytes_def)
  then show ?case using emits_comp [OF emits_put_byte Cons, of b] by simp
qed (simp add: put_bytes_def emits_def)

fun be_bytes :: "nat \<Rightarrow> int \<Rightarrow> string" where
  "be_bytes 0 i = []"
| "be_bytes (Suc n) i = byte_of (i div 256 ^ n) # be_bytes n i"

lemma length_be_bytes [simp]: "length (be_bytes n i) = n"
  by (induction n) auto

lemma emits_put_int [simp]: "emits (put_int n i) (be_bytes n i)"
proof (induction n)
  case (Suc n)
  have "put_int (Suc n) i = (\<lambda>ob. put_int n i (put_byte (byte_of (i div 256 ^ n)) ob))" by auto
  then show ?case using emits_comp [OF emits_put_byte Suc, of "byte_of (i div 256 ^ n)"] by simp
qed (simp add: emits_def)

lemma emits_coded: "emits g bs \<Longrightarrow> emits (\<lambda>ob. g (put_byte b ob)) (b # bs)"
  using emits_comp [OF emits_put_byte] by fastforce

text \<open>The encodings as byte strings.\<close>

definition len_bytes :: "nat \<Rightarrow> nat \<Rightarrow> int \<Rightarrow> int \<Rightarrow> int \<Rightarrow> string" where
  "len_bytes small len b s l =
     (if len \<le> small then [byte_of (or b (int len))]
      else if len \<le> 0xffff then byte_of s # be_bytes 2 (int len)
      else byte_of l # be_bytes 4 (int len))"

definition str_bytes :: "string \<Rightarrow> string" where
  "str_bytes s = len_bytes 0x1f (length s) 0xa0 0xda 0xdb @ s"

definition neg_bytes :: "int \<Rightarrow> string" where
  "neg_bytes i =
     (if - 32 \<le> i then [byte_of i]
      else if - 128 \<le> i then [byte_of 0xd0, byte_of i]
      else if - 32768 \<le> i then byte_of 0xd1 # be_bytes 2 i
      else if - 2147483648 \<le> i then byte_of 0xd2 # be_bytes 4 i
      else byte_of 0xd3 # be_bytes 8 i)"

definition pos_bytes :: "int \<Rightarrow> string" where
  "pos_bytes i =
     (if i \<le> 0x7f then [byte_of i]
      else if i \<le> 0xff then [byte_of 0xcc, byte_of i]
      else if i \<le> 0xffff then byte_of 0xcd # be_bytes 2 i
      else if i \<le> 0xffffffff then byte_of 0xce # be_bytes 4 i
      else byte_of 0xcf # be_bytes 8 i)"

definition key_bytes :: "string \<Rightarrow> string" where
  "key_bytes k =
     (case convertuint k of
        Some u \<Rightarrow> pos_bytes u
      | None \<Rightarrow> (case my_convertint k of Some i \<Rightarrow> neg_bytes i | None \<Rightarrow> str_bytes k))"

primrec mp_bytes :: "expr \<Rightarrow> string" where
  "mp_bytes E_null = [byte_of 0xc0]"
| "mp_bytes (E_bool b) = [byte_of (if b then 0xc3 else 0xc2)]"
| "mp_bytes (E_str v) = (case v of None \<Rightarrow> [] | Some s \<Rightarrow> str_bytes s)"
| "mp_bytes (E_int i) = (if i < 0 then neg_bytes i else pos_bytes i)"
| "mp_bytes (E_uint u) = pos_bytes u"
| "mp_bytes (E_double d) = byte_of 0xcb # rev d"
| "mp_bytes (E_list xs) = len_bytes 0xf (length xs) 0x90 0xdc 0xdd @ concat (map mp_bytes xs)"
| "mp_bytes (E_dict d) = len_bytes 0xf (length d) 0x80 0xde 0xdf
     @ concat (map (\<lambda>(k, e). key_bytes k @ e) (map (map_prod id mp_bytes) d))"
| "mp_bytes (E_cow x) = (case map_option mp_bytes x of None \<Rightarrow> [] | Some e \<Rightarrow> e)"
| "mp_bytes E_other = []"

text \<open>The keys that survive: those that are no number, or are written as the number is printed.\<close>

definition key_ok :: "string \<Rightarrow> bool" where
  "key_ok k \<longleftrightarrow> length k < 2 ^ 32 \<and>
     (case convertuint k of
        Some u \<Rightarrow> k = dec_int u
      | None \<Rightarrow> (case my_convertint k of Some i \<Rightarrow> i < 0 \<and> k = dec_int i | None \<Rightarrow> True))"

text \<open>The values that can be encoded: within the ranges of their types, no null string or object inside.\<close>

primrec mp_ok :: "expr \<Rightarrow> bool" where
  "mp_ok E_null = True"
| "mp_ok (E_bool b) = True"
| "mp_ok (E_str v) = (case v of None \<Rightarrow> False | Some s \<Rightarrow> length s < 2 ^ 32)"
| "mp_ok (E_int i) = (INT64_MIN \<le> i \<and> i \<le> INT64_MAX)"
| "mp_ok (E_uint u) = (0 \<le> u \<and> u \<le> UINT64_MAX)"
| "mp_ok (E_double d) = (length d = 8)"
| "mp_ok (E_list xs) = (length xs < 2 ^ 32 \<and> list_all id (map mp_ok xs))"
| "mp_ok (E_dict d) = (length d < 2 ^ 32 \<and> distinct (map fst d) \<and> list_all key_ok (map fst d)
     \<and> list_all snd (map (map_prod id mp_ok) d))"
| "mp_ok (E_cow x) = (case map_option mp_ok x of None \<Rightarrow> False | Some b \<Rightarrow> b)"
| "mp_ok E_other = False"

lemma emits_coded_int: "emits (\<lambda>ob. put_int n i (put_byte b ob)) (b # be_bytes n i)"
  by (rule emits_coded) simp

lemma emits_two_bytes: "emits (\<lambda>ob. put_byte c (put_byte b ob)) [b, c]"
  by (rule emits_coded) simp

lemma emits_cong: "(\<And>ob. ob_inv ob \<Longrightarrow> g ob = h ob) \<Longrightarrow> emits h bs \<Longrightarrow> emits g bs"
  by (simp add: emits_def)

lemma inv_jsmode: "ob_inv ob \<Longrightarrow> \<not> ob_jsmode ob"
  by (simp add: ob_inv_def)

lemma put_byte_jsmode: "ob_inv ob \<Longrightarrow> \<not> ob_jsmode (put_byte b ob)"
  using emits_put_byte [of b] by (simp add: emits_def inv_jsmode)

lemmas emits_codes = emits_put_byte emits_coded_int emits_two_bytes

lemma emits_raw_len: "emits (encode_raw_len n b s l) (len_bytes 0x1f n b s l)"
  unfolding encode_raw_len_def [abs_def] len_bytes_def by (simp add: emits_codes)

lemma emits_len: "emits (encode_len n b s l) (len_bytes 0xf n b s l)"
  unfolding encode_len_def [abs_def] len_bytes_def by (simp add: emits_codes)

lemma emits_str: "emits (encode_str s) (str_bytes s)"
  using emits_comp [OF emits_raw_len emits_put_str]
  by (simp add: encode_str_def [abs_def] str_bytes_def)

lemma emits_pos: "emits (encode_positive_int i) (pos_bytes i)"
proof (rule emits_cong)
  let ?h = "\<lambda>ob. if i \<le> 0x7f then put_byte (byte_of i) ob
      else if i \<le> 0xff then put_byte (byte_of i) (put_byte (byte_of 0xcc) ob)
      else if i \<le> 0xffff then put_int 2 i (put_byte (byte_of 0xcd) ob)
      else if i \<le> 0xffffffff then put_int 4 i (put_byte (byte_of 0xce) ob)
      else put_int 8 i (put_byte (byte_of 0xcf) ob)"
  show "encode_positive_int i ob = ?h ob" if "ob_inv ob" for ob
    using that by (simp add: encode_positive_int_def inv_jsmode)
  show "emits ?h (pos_bytes i)" unfolding pos_bytes_def by (simp add: emits_codes)
qed

lemma emits_neg: "i < 0 \<Longrightarrow> emits (encode_negative_int i) (neg_bytes i)"
proof (rule emits_cong)
  let ?h = "\<lambda>ob. if - 32 \<le> i then put_byte (byte_of i) ob
      else if - 128 \<le> i then put_byte (byte_of i) (put_byte (byte_of 0xd0) ob)
      else if - 32768 \<le> i then put_int 2 i (put_byte (byte_of 0xd1) ob)
      else if - 2147483648 \<le> i then put_int 4 i (put_byte (byte_of 0xd2) ob)
      else put_int 8 i (put_byte (byte_of 0xd3) ob)"
  show "encode_negative_int i ob = ?h ob" if "i < 0" "ob_inv ob" for ob
    using that by (simp add: encode_negative_int_def put_byte_jsmode)
  show "emits ?h (neg_bytes i)" unfolding neg_bytes_def by (simp add: emits_codes)
qed

lemma encode_key_conv:
  "encode_key k ob = (case convertuint k of
      Some u \<Rightarrow> encode_positive_int u ob
    | None \<Rightarrow> (case my_convertint k of Some i \<Rightarrow> encode_negative_int i ob | None \<Rightarrow> encode_str k ob))"
  using int_uint_fresh(2) [of k, where ?'b = unit] int_after_uint [of k, where ?'a = unit]
  by (auto simp: encode_key_def split: prod.splits option.splits)

lemma emits_key: "key_ok k \<Longrightarrow> emits (encode_key k) (key_bytes k)"
  using emits_pos emits_neg emits_str
  by (auto simp: encode_key_conv [abs_def] key_bytes_def key_ok_def split: option.splits)

lemma emits_key_then:
  "key_ok k \<Longrightarrow> emits h bs \<Longrightarrow> emits (\<lambda>ob. h (encode_key k ob)) (key_bytes k @ bs)"
  by (rule emits_comp [OF emits_key])

lemma emits_fold:
  "\<forall>g \<in> set gs. emits (fst g) (snd g) \<Longrightarrow> emits (fold (\<lambda>g ob. fst g ob) gs) (concat (map snd gs))"
proof (induction gs)
  case (Cons g gs)
  then have "emits (\<lambda>ob. fold (\<lambda>g ob. fst g ob) gs (fst g ob)) (snd g @ concat (map snd gs))"
    by (intro emits_comp) auto
  then show ?case by (simp add: comp_def)
qed (simp add: emits_def id_def)

lemma emits_msgpack:
  "mp_ok x \<Longrightarrow> emits (\<lambda>ob. snd (to_msgpack x ob)) (mp_bytes x) \<and> (\<forall>ob. fst (to_msgpack x ob))"
proof (induction x)
  case (E_list xs)
  let ?gs = "map (\<lambda>x. (\<lambda>ob. snd (to_msgpack x ob), mp_bytes x)) xs"
  have "emits (fold (\<lambda>g ob. fst g ob) ?gs) (concat (map snd ?gs))"
    using E_list by (intro emits_fold) (auto simp: list_all_iff)
  moreover have "fold (\<lambda>f ob. snd (f ob)) (map to_msgpack xs) = fold (\<lambda>g ob. fst g ob) ?gs"
    by (induction xs) auto
  ultimately show ?case
    using emits_comp [OF emits_len] by (simp add: comp_def)
next
  case (E_dict d)
  let ?gs = "map (\<lambda>(k, x). (\<lambda>ob. snd (to_msgpack x (encode_key k ob)), key_bytes k @ mp_bytes x)) d"
  have "\<forall>(k, x) \<in> set d. emits (\<lambda>ob. snd (to_msgpack x ob)) (mp_bytes x) \<and> key_ok k"
    using E_dict by (force simp: list_all_iff)
  then have "emits (fold (\<lambda>g ob. fst g ob) ?gs) (concat (map snd ?gs))"
    by (intro emits_fold) (auto intro!: emits_key_then)
  moreover have "fold (\<lambda>(k, f) ob. snd (f (encode_key k ob))) (map (map_prod id to_msgpack) d) = fold (\<lambda>g ob. fst g ob) ?gs"
    by (induction d) auto
  moreover have "map snd ?gs = map (\<lambda>(k, e). key_bytes k @ e) (map (map_prod id mp_bytes) d)" by auto
  ultimately have "emits (fold (\<lambda>(k, f) ob. snd (f (encode_key k ob))) (map (map_prod id to_msgpack) d))
      (concat (map (\<lambda>(k, e). key_bytes k @ e) (map (map_prod id mp_bytes) d)))" by (simp only:)
  from emits_comp [OF emits_len this] show ?case by simp
next
  case (E_double d)
  then show ?case using emits_coded [OF emits_put_bytes] by simp
next
  case (E_int i)
  then show ?case using emits_pos emits_neg by (simp add: emits_def)
next
  case (E_uint u)
  then show ?case using emits_pos by (simp add: emits_def)
next
  case (E_str v)
  then show ?case using emits_str by (cases v) (simp_all add: emits_def)
next
  case (E_cow x)
  then show ?case by (cases x) auto
qed simp_all

lemma mp_encode_bytes: "mp_ok x \<Longrightarrow> mp_encode False x = Some (Some (mp_bytes x))"
proof -
  assume ok: "mp_ok x"
  obtain b ob where r: "to_msgpack x outbuf_new = (b, ob)" by (cases "to_msgpack x outbuf_new")
  have n: "ob_inv outbuf_new" "ob_out outbuf_new = []" by (simp_all add: ob_inv_def outbuf_new_def ob_out_def)
  have o: "ob_inv ob" "ob_out ob = mp_bytes x" "b"
    using emits_msgpack [OF ok] r n unfolding emits_def by (metis append_Nil snd_conv, metis append_Nil snd_conv, metis fst_conv)
  have "ob_tmp (ob_flush False ob) = None \<or> ob_tmp (ob_flush False ob) = Some []"
    using flush_all [OF o(1), of False] by (auto split: option.splits)
  moreover have "ob_out (ob_flush False ob) = mp_bytes x" using flush_out [OF o(1)] o(2) by simp
  ultimately have "ob_to_str ob = mp_bytes x" by (auto simp: ob_to_str_def ob_out_def)
  then show ?thesis using r o by (simp add: mp_encode_def ob_inv_def)
qed

section \<open>Decoding what was encoded\<close>

declare unpack.simps [simp del]

text \<open>The integers without a class of their own on the wire, and no copy-on-write layer.\<close>

primrec mp_norm :: "expr \<Rightarrow> expr" where
  "mp_norm E_null = E_null"
| "mp_norm (E_bool b) = E_bool b"
| "mp_norm (E_str v) = E_str v"
| "mp_norm (E_int i) = (if i \<le> 0xffffffff then E_int i else E_uint i)"
| "mp_norm (E_uint i) = (if i \<le> 0xffffffff then E_int i else E_uint i)"
| "mp_norm (E_double d) = E_double d"
| "mp_norm (E_list xs) = E_list (map mp_norm xs)"
| "mp_norm (E_dict d) = E_dict (map (map_prod id mp_norm) d)"
| "mp_norm (E_cow x) = (case map_option mp_norm x of None \<Rightarrow> E_cow None | Some y \<Rightarrow> y)"
| "mp_norm E_other = E_other"

text \<open>A reader takes the bytes for the value, whatever follows them.\<close>

definition decodes :: "(msgpack \<Rightarrow> expr option \<times> msgpack) \<Rightarrow> string \<Rightarrow> expr \<Rightarrow> bool" where
  "decodes u bs v \<longleftrightarrow> (\<forall>s r. ms_rest s = bs @ r \<longrightarrow> u s = (Some v, s\<lparr>ms_rest := r\<rparr>))"

lemma code_byte_of [simp]: "int (code (byte_of i)) = i mod 256" "code (byte_of i) = nat (i mod 256)"
  by (simp_all add: byte_of_def code_def)

lemma be_bytes_fold:
  "foldl (\<lambda>v b. v * 256 + int (code b)) a (be_bytes n i) = a * 256 ^ n + i mod 256 ^ n"
proof (induction n arbitrary: a)
  case (Suc n)
  have "i mod 256 ^ Suc n = 256 ^ n * (i div 256 ^ n mod 256) + i mod 256 ^ n"
    using mod_mult2_eq' [of i "256 ^ n" 256] by (simp add: zmod_zmult2_eq mult.commute)
  then show ?case by (simp add: Suc) (simp add: algebra_simps)
qed simp

lemma big_endian_be [simp]: "big_endian (be_bytes n i) = i mod 256 ^ n"
  by (simp add: big_endian_def be_bytes_fold)

lemma be_bytes_1: "be_bytes 1 i = [byte_of i]"
  by simp

lemma get_bytes_app: "ms_rest s = bs @ r \<Longrightarrow> length bs = n \<Longrightarrow> get_bytes n s = (Some bs, s\<lparr>ms_rest := r\<rparr>)"
  by (auto simp: get_bytes_def)

lemma with_int_be:
  "ms_rest s = b # be_bytes n i @ r \<Longrightarrow> 0 \<le> i \<Longrightarrow> i < 256 ^ n \<Longrightarrow> with_int False n k s = k i (s\<lparr>ms_rest := r\<rparr>)"
  using get_bytes_app [of "consume_byte s" "be_bytes n i" r n]
  by (simp add: with_int_def unpack_int_def consume_byte_def)

lemma with_int_neg:
  assumes r: "ms_rest s = b # be_bytes n i @ r" and n: "0 < n" and i: "i < 0" "- (2 ^ (8 * n - 1)) \<le> i"
  shows "with_int True n k s = k i (s\<lparr>ms_rest := r\<rparr>)"
proof -
  have p: "(2::int) ^ (8 * n) = 256 ^ n" by (simp add: power_mult)
  have q: "(2::int) ^ (8 * n) = 2 * 2 ^ (8 * n - 1)" using n by (cases n) (simp_all add: power_add)
  have "i mod 2 ^ (8 * n) = i + 2 ^ (8 * n)"
    using i q by (intro mod_pos_pos_trivial [of "i + 2 ^ (8 * n)" "2 ^ (8 * n)", simplified]) auto
  then have "i mod 256 ^ n = i + 2 ^ (8 * n)" using p by simp
  then show ?thesis
    using get_bytes_app [of "consume_byte s" "be_bytes n i" r n] r q i
    by (simp add: with_int_def unpack_int_def consume_byte_def Let_def)
qed

lemmas with_int_byte = with_int_be [where n = "Suc 0", simplified] with_int_neg [where n = "Suc 0", simplified]

lemma decodes_code:
  assumes "\<And>s r. ms_rest s = byte_of c # bs @ r \<Longrightarrow>
     unpack_tab w f (unpack w f n) (nat (c mod 256)) s = (Some v, s\<lparr>ms_rest := r\<rparr>)"
  shows "decodes (unpack w f (Suc n)) (byte_of c # bs) v"
  using assms by (simp add: decodes_def peek_byte_def unpack.simps)

lemma decodes_raw: "length t = n \<Longrightarrow> decodes (unpack_raw n) t (E_str (Some t))"
  by (simp add: decodes_def unpack_raw_def get_bytes_app)

lemma decodes_fixint:
  assumes "- 32 \<le> i" "i \<le> 0x7f"
  shows "decodes (unpack w f (Suc n)) [byte_of i] (E_int i)"
proof (rule decodes_code)
  fix s :: msgpack and r assume r: "ms_rest s = byte_of i # [] @ r"
  show "unpack_tab w f (unpack w f n) (nat (i mod 256)) s = (Some (E_int i), s\<lparr>ms_rest := r\<rparr>)"
  proof (cases "i < 0")
    case True
    then have "i mod 256 = i + 256" using assms mod_pos_pos_trivial [of "i + 256" 256] by simp
    moreover obtain m where "i + 256 = int m" "0xe0 \<le> m" using assms True zero_le_imp_eq_int [of "i + 256"] by auto
    moreover from this have "i = int m - 256" by simp
    ultimately show ?thesis using r by (simp add: unpack_defs consume_byte_def)
  next
    case False
    then show ?thesis using assms r by (simp add: unpack_defs consume_byte_def)
  qed
qed

lemma decodes_pos:
  assumes i: "0 \<le> i" "i \<le> UINT64_MAX"
  shows "decodes (unpack w f (Suc n)) (pos_bytes i) (if i \<le> 0xffffffff then E_int i else E_uint i)"
proof -
  consider (a) "i \<le> 0x7f" | (b) "\<not> i \<le> 0x7f" "i \<le> 0xff" | (c) "\<not> i \<le> 0xff" "i \<le> 0xffff"
    | (d) "\<not> i \<le> 0xffff" "i \<le> 0xffffffff" | (e) "\<not> i \<le> 0xffffffff" by linarith
  then show ?thesis
  proof cases
    case a
    then show ?thesis using decodes_fixint [of i w f n] i by (simp add: pos_bytes_def)
  next
    case b
    then have "decodes (unpack w f (Suc n)) (byte_of 0xcc # be_bytes 1 i) (E_int i)"
      using i by (intro decodes_code) (simp add: unpack_defs with_int_byte)
    then show ?thesis using b by (simp add: pos_bytes_def)
  next
    case c
    then have "decodes (unpack w f (Suc n)) (byte_of 0xcd # be_bytes 2 i) (E_int i)"
      using i by (intro decodes_code) (simp add: unpack_defs with_int_be)
    then show ?thesis using c by (simp add: pos_bytes_def)
  next
    case d
    then have "decodes (unpack w f (Suc n)) (byte_of 0xce # be_bytes 4 i) (E_int i)"
      using i by (intro decodes_code) (simp add: unpack_defs with_int_be)
    then show ?thesis using d by (simp add: pos_bytes_def)
  next
    case e
    then have "decodes (unpack w f (Suc n)) (byte_of 0xcf # be_bytes 8 i) (E_uint i)"
      using i by (intro decodes_code) (simp add: unpack_defs with_int_be UINT64_MAX_def)
    then show ?thesis using e by (simp add: pos_bytes_def)
  qed
qed

lemma decodes_neg:
  assumes i: "i < 0" "INT64_MIN \<le> i"
  shows "decodes (unpack w f (Suc n)) (neg_bytes i) (E_int i)"
proof -
  consider (a) "- 32 \<le> i" | (b) "\<not> - 32 \<le> i" "- 128 \<le> i" | (c) "\<not> - 128 \<le> i" "- 32768 \<le> i"
    | (d) "\<not> - 32768 \<le> i" "- 2147483648 \<le> i" | (e) "\<not> - 2147483648 \<le> i" by linarith
  then show ?thesis
  proof cases
    case a
    then show ?thesis using decodes_fixint [of i w f n] i by (simp add: neg_bytes_def)
  next
    case b
    then have "decodes (unpack w f (Suc n)) (byte_of 0xd0 # be_bytes 1 i) (E_int i)"
      using i by (intro decodes_code) (simp add: unpack_defs with_int_byte)
    then show ?thesis using b by (simp add: neg_bytes_def)
  next
    case c
    then have "decodes (unpack w f (Suc n)) (byte_of 0xd1 # be_bytes 2 i) (E_int i)"
      using i by (intro decodes_code) (simp add: unpack_defs with_int_neg)
    then show ?thesis using c by (simp add: neg_bytes_def)
  next
    case d
    then have "decodes (unpack w f (Suc n)) (byte_of 0xd2 # be_bytes 4 i) (E_int i)"
      using i by (intro decodes_code) (simp add: unpack_defs with_int_neg)
    then show ?thesis using d by (simp add: neg_bytes_def)
  next
    case e
    then have "decodes (unpack w f (Suc n)) (byte_of 0xd3 # be_bytes 8 i) (E_int i)"
      using i by (intro decodes_code) (simp add: unpack_defs with_int_neg INT64_MIN_def)
    then show ?thesis using e by (simp add: neg_bytes_def)
  qed
qed

lemma or_len:
  "m \<le> 0xf \<Longrightarrow> or 0x80 (int m) = 0x80 + int m" "m \<le> 0xf \<Longrightarrow> or 0x90 (int m) = 0x90 + int m"
  "m \<le> 0x1f \<Longrightarrow> or 0xa0 (int m) = 0xa0 + int m"
proof -
  have "\<forall>m \<in> set [0..<16]. or 0x80 (int m) = 0x80 + int m"
    and "\<forall>m \<in> set [0..<16]. or 0x90 (int m) = 0x90 + int m"
    and "\<forall>m \<in> set [0..<32]. or 0xa0 (int m) = 0xa0 + int m" by code_simp+
  then show "m \<le> 0xf \<Longrightarrow> or 0x80 (int m) = 0x80 + int m" "m \<le> 0xf \<Longrightarrow> or 0x90 (int m) = 0x90 + int m"
    "m \<le> 0x1f \<Longrightarrow> or 0xa0 (int m) = 0xa0 + int m" by simp_all
qed

text \<open>A length, in each of its three forms, and what it is the length of.\<close>

lemma decodes_sized:
  assumes body: "decodes (g m) bs v" and m: "m < 2 ^ 32" and sm: "small \<le> 0x1f"
    and short: "\<And>s. m \<le> small \<Longrightarrow> unpack_tab w f (unpack w f n) (nat (b + int m)) s = g m (consume_byte s)"
    and b: "m \<le> small \<Longrightarrow> or b (int m) = b + int m" "0 \<le> b" "b + 0x1f < 256"
    and two: "\<And>s. unpack_tab w f (unpack w f n) (nat c) s = with_int False 2 (\<lambda>k. g (nat k)) s" "0 \<le> c" "c < 256"
    and four: "\<And>s. unpack_tab w f (unpack w f n) (nat d) s = with_int False 4 (\<lambda>k. g (nat k)) s" "0 \<le> d" "d < 256"
  shows "decodes (unpack w f (Suc n)) (len_bytes small m b c d @ bs) v"
proof -
  have g: "g m (s\<lparr>ms_rest := bs @ r\<rparr>) = (Some v, s\<lparr>ms_rest := r\<rparr>)" for s :: msgpack and r
    using body by (simp add: decodes_def)
  consider (a) "m \<le> small" | (b) "\<not> m \<le> small" "m \<le> 0xffff" | (c) "\<not> m \<le> small" "\<not> m \<le> 0xffff" by linarith
  then show ?thesis
  proof cases
    case a
    have "decodes (unpack w f (Suc n)) (byte_of (b + int m) # bs) v"
      using a sm b g short by (intro decodes_code) (simp add: consume_byte_def)
    then show ?thesis using a b by (simp add: len_bytes_def)
  next
    case b
    have "decodes (unpack w f (Suc n)) (byte_of c # be_bytes 2 (int m) @ bs) v"
      using b two g by (intro decodes_code) (simp add: with_int_be [where i = "int m"])
    then show ?thesis using b by (simp add: len_bytes_def)
  next
    case c
    have "decodes (unpack w f (Suc n)) (byte_of d # be_bytes 4 (int m) @ bs) v"
      using c m four g by (intro decodes_code) (simp add: with_int_be [where i = "int m"])
    then show ?thesis using c by (simp add: len_bytes_def)
  qed
qed

lemma decodes_str: "length t < 2 ^ 32 \<Longrightarrow> decodes (unpack w f (Suc n)) (str_bytes t) (E_str (Some t))"
  unfolding str_bytes_def
  by (rule decodes_sized [where g = unpack_raw]) (auto simp: decodes_raw or_len unpack_defs nat_add_distrib)

lemma decodes_sized_array:
  "decodes (unpack_array (unpack w f n) m []) bs v \<Longrightarrow> m < 2 ^ 32
    \<Longrightarrow> decodes (unpack w f (Suc n)) (len_bytes 0xf m 0x90 0xdc 0xdd @ bs) v"
  by (rule decodes_sized [where g = "\<lambda>m. unpack_array (unpack w f n) m []"])
     (auto simp: or_len unpack_defs nat_add_distrib)

lemma decodes_sized_map:
  "decodes (unpack_map f (unpack w f n) m []) bs v \<Longrightarrow> m < 2 ^ 32
    \<Longrightarrow> decodes (unpack w f (Suc n)) (len_bytes 0xf m 0x80 0xde 0xdf @ bs) v"
  by (rule decodes_sized [where g = "\<lambda>m. unpack_map f (unpack w f n) m []"])
     (auto simp: or_len unpack_defs nat_add_distrib)

lemma decodes_double: "length d = 8 \<Longrightarrow> decodes (unpack w f (Suc n)) (byte_of 0xcb # rev d) (E_double d)"
  by (rule decodes_code) (simp add: unpack_defs get_bytes_app consume_byte_def)

lemma decodes_elems:
  "\<forall>x \<in> set xs. decodes u (g x) (h x)
    \<Longrightarrow> decodes (unpack_array u (length xs) ys) (concat (map g xs)) (E_list (ys @ map h xs))"
proof (induction xs arbitrary: ys)
  case (Cons x xs)
  then show ?case using Cons.IH [of "ys @ [h x]"] by (simp add: decodes_def)
qed (simp add: decodes_def)

lemma decodes_entries:
  assumes "\<forall>(k, x) \<in> set d. (\<exists>kx. decodes u (g k) kx \<and> to_str f kx = Some k) \<and> decodes u (h x) (v x)"
    "distinct (map fst (e @ d))"
  shows "decodes (unpack_map f u (length d) e) (concat (map (\<lambda>(k, x). g k @ h x) d)) (E_dict (e @ map (map_prod id v) d))"
  using assms
proof (induction d arbitrary: e)
  case (Cons p d)
  obtain k x where p: "p = (k, x)" by (cases p)
  obtain kx where k: "decodes u (g k) kx" "to_str f kx = Some k" and x: "decodes u (h x) (v x)"
    using Cons.prems p by auto
  have "dict_insert k (v x) e = e @ [(k, v x)]" using Cons.prems(2) p by (auto simp: dict_insert_def)
  moreover have "decodes (unpack_map f u (length d) (e @ [(k, v x)])) (concat (map (\<lambda>(k, x). g k @ h x) d))
      (E_dict (e @ [(k, v x)] @ map (map_prod id v) d))"
    using Cons.IH [of "e @ [(k, v x)]", simplified append.assoc] Cons.prems p by (simp only: append.assoc) simp
  ultimately show ?case using k x p by (simp add: decodes_def id_def)
qed (simp add: decodes_def)

lemma len_bytes_pos: "0 < length (len_bytes sm m b c d)"
  by (simp add: len_bytes_def)

lemma scalar_bytes_pos: "0 < length (str_bytes t)" "0 < length (pos_bytes i)" "0 < length (neg_bytes i)"
  by (simp_all add: str_bytes_def len_bytes_def pos_bytes_def neg_bytes_def)

lemma key_bytes_pos: "0 < length (key_bytes k)"
  using scalar_bytes_pos by (auto simp: key_bytes_def split: option.splits)

lemma decodes_key:
  assumes "key_ok k"
  shows "\<exists>kx. decodes (unpack w f (Suc n)) (key_bytes k) kx \<and> to_str f kx = Some k"
proof (cases "convertuint k")
  case (Some u)
  then show ?thesis using assms decodes_pos [of u w f n] convertuint_range [OF Some]
    by (intro exI [of _ "if u \<le> 0xffffffff then E_int u else E_uint u"]) (simp add: key_ok_def key_bytes_def)
next
  case None
  note u = None
  show ?thesis
  proof (cases "my_convertint k")
    case (Some i)
    then show ?thesis using u assms decodes_neg [of i w f n] fitsD(2) [OF my_convertint_range [OF Some]]
      by (intro exI [of _ "E_int i"]) (simp add: key_ok_def key_bytes_def)
  next
    case None
    then show ?thesis using u assms decodes_str [of k w f n]
      by (intro exI [of _ "E_str (Some k)"]) (simp add: key_ok_def key_bytes_def)
  qed
qed

lemma sum_bound: "x \<in> set xs \<Longrightarrow> length (g x) \<le> length (concat (map g xs))"
  by (induction xs) auto

lemma decodes_msgpack:
  "mp_ok x \<Longrightarrow> length (mp_bytes x) \<le> n \<Longrightarrow> decodes (unpack w f n) (mp_bytes x) (mp_norm x)"
proof (induction x arbitrary: n)
  case (E_list xs)
  then obtain m where n: "n = Suc m" using len_bytes_pos by (cases n) auto
  have "length (mp_bytes x) \<le> m" if "x \<in> set xs" for x
    using E_list.prems(2) len_bytes_pos [of "0xf" "length xs" "0x90" "0xdc" "0xdd"] sum_bound [OF that, where g = mp_bytes] n
    by (simp del: length_greater_0_conv)
  then have "decodes (unpack_array (unpack w f m) (length xs) []) (concat (map mp_bytes xs)) (E_list (map mp_norm xs))"
    using decodes_elems [of xs "unpack w f m" mp_bytes mp_norm "[]"] E_list by (auto simp: list_all_iff)
  then show ?case using decodes_sized_array E_list.prems(1) n by simp
next
  case (E_dict d)
  then obtain m where n: "n = Suc m" using len_bytes_pos by (cases n) auto
  let ?g = "\<lambda>(k, x). key_bytes k @ mp_bytes x"
  have g: "map (\<lambda>(k, e). key_bytes k @ e) (map (map_prod id mp_bytes) d) = map ?g d" by auto
  have len: "length (key_bytes k) \<le> m \<and> length (mp_bytes x) \<le> m" if "(k, x) \<in> set d" for k x
    using E_dict.prems(2) len_bytes_pos [of "0xf" "length d" "0x80" "0xde" "0xdf"] sum_bound [OF that, where g = ?g] n g
    by (simp del: map_map length_greater_0_conv)
  have "\<forall>(k, x) \<in> set d. (\<exists>kx. decodes (unpack w f m) (key_bytes k) kx \<and> to_str f kx = Some k)
      \<and> decodes (unpack w f m) (mp_bytes x) (mp_norm x)"
  proof clarify
    fix k x assume kx: "(k, x) \<in> set d"
    then have "key_ok k" "mp_ok x" using E_dict.prems(1) by (force simp: list_all_iff)+
    moreover obtain l where "m = Suc l" using len [OF kx] key_bytes_pos [of k] by (cases m) auto
    ultimately show "(\<exists>kx. decodes (unpack w f m) (key_bytes k) kx \<and> to_str f kx = Some k)
      \<and> decodes (unpack w f m) (mp_bytes x) (mp_norm x)"
      using decodes_key E_dict.IH [OF kx] len [OF kx] by simp
  qed
  then have "decodes (unpack_map f (unpack w f m) (length d) []) (concat (map ?g d)) (E_dict (map (map_prod id mp_norm) d))"
    using decodes_entries [of d "unpack w f m" key_bytes f mp_bytes mp_norm "[]"] E_dict.prems(1) by simp
  then show ?case using decodes_sized_map E_dict.prems(1) n g by (simp del: map_map)
next
  case E_null
  then obtain m where "n = Suc m" by (cases n) auto
  then show ?case using decodes_code [of "0xc0" "[]" w f m E_null] by (simp add: unpack_defs consume_byte_def)
next
  case (E_bool b)
  then obtain m where "n = Suc m" by (cases n) auto
  then show ?case using decodes_code [of "if b then 0xc3 else 0xc2" "[]" w f m "E_bool b"]
    by (simp add: unpack_defs consume_byte_def split: if_splits)
next
  case (E_int i)
  then obtain m where "n = Suc m" using scalar_bytes_pos(2,3) [of i] by (cases n) (auto split: if_splits)
  then show ?case using E_int decodes_pos [of i w f m] decodes_neg [of i w f m]
    by (auto simp: INT64_MAX_def UINT64_MAX_def)
next
  case (E_uint i)
  then obtain m where "n = Suc m" using scalar_bytes_pos(2) [of i] by (cases n) auto
  then show ?case using E_uint decodes_pos [of i w f m] by simp
next
  case (E_double d)
  then obtain m where "n = Suc m" by (cases n) auto
  then show ?case using E_double decodes_double by simp
next
  case (E_str v)
  then obtain s m where "v = Some s" "n = Suc m" using scalar_bytes_pos(1) by (cases v; cases n) auto
  then show ?case using E_str decodes_str by simp
next
  case (E_cow x)
  then show ?case by (cases x) auto
qed simp

lemma mp_decode_bytes:
  "mp_ok x \<Longrightarrow> mp_decode w f (mp_bytes x @ r) = Some (Some (mp_norm x), MP_NONE, length (mp_bytes x))"
  using decodes_msgpack [of x "Suc (length (mp_bytes x @ r))" w f] by (simp add: decodes_def mp_decode_def Let_def)

section \<open>Decoding anything\<close>

text \<open>
  A reader with fuel for \<open>n\<close> bytes does not run out of it, reads forward only, and records an error only
  when it gives no value.
\<close>

definition sound_reader :: "nat \<Rightarrow> (msgpack \<Rightarrow> expr option \<times> msgpack) \<Rightarrow> bool" where
  "sound_reader n u \<longleftrightarrow> (\<forall>s. \<not> ms_stuck s \<longrightarrow> length (ms_rest s) < n \<longrightarrow>
     \<not> ms_stuck (snd (u s)) \<and> length (ms_rest (snd (u s))) \<le> length (ms_rest s)
     \<and> (fst (u s) \<noteq> None \<longrightarrow> ms_errno (snd (u s)) = ms_errno s))"

lemma sound_readerI:
  assumes "\<And>s x s1. u s = (x, s1) \<Longrightarrow> \<not> ms_stuck s \<Longrightarrow> length (ms_rest s) < n
    \<Longrightarrow> \<not> ms_stuck s1 \<and> length (ms_rest s1) \<le> length (ms_rest s) \<and> (x \<noteq> None \<longrightarrow> ms_errno s1 = ms_errno s)"
  shows "sound_reader n u"
  unfolding sound_reader_def using assms by (metis prod.collapse)

lemma sound_readerD:
  "sound_reader n u \<Longrightarrow> u s = (x, s1) \<Longrightarrow> \<not> ms_stuck s \<Longrightarrow> length (ms_rest s) < n
    \<Longrightarrow> \<not> ms_stuck s1 \<and> length (ms_rest s1) \<le> length (ms_rest s) \<and> (x \<noteq> None \<longrightarrow> ms_errno s1 = ms_errno s)"
  unfolding sound_reader_def by (metis fst_conv snd_conv)

lemma sound_bind:
  assumes u: "sound_reader n u" and k: "\<And>v. sound_reader n (k v)"
  shows "sound_reader n (\<lambda>s. let (y, s1) = u s in case y of None \<Rightarrow> (None, s1) | Some v \<Rightarrow> k v s1)"
proof (rule sound_readerI)
  fix s x s1
  assume e: "(let (y, s1) = u s in case y of None \<Rightarrow> (None, s1) | Some v \<Rightarrow> k v s1) = (x, s1)"
    and s: "\<not> ms_stuck s" "length (ms_rest s) < n"
  obtain y s2 where y: "u s = (y, s2)" by (cases "u s")
  note sy = sound_readerD [OF u y s]
  show "\<not> ms_stuck s1 \<and> length (ms_rest s1) \<le> length (ms_rest s) \<and> (x \<noteq> None \<longrightarrow> ms_errno s1 = ms_errno s)"
  proof (cases y)
    case None
    then show ?thesis using e y sy by auto
  next
    case (Some v)
    then have "k v s2 = (x, s1)" using e y by simp
    from sound_readerD [OF k this] show ?thesis using sy s Some by auto
  qed
qed

lemma sound_return: "sound_reader n (\<lambda>s. (Some v, s))"
  by (rule sound_readerI) auto

lemma sound_array: "sound_reader n u \<Longrightarrow> sound_reader n (unpack_array u k xs)"
proof (induction k arbitrary: xs)
  case (Suc k)
  then show ?case using sound_bind [of n u "\<lambda>v. unpack_array u k (xs @ [v])"] by (simp cong: option.case_cong)
qed (simp add: sound_reader_def)

lemma sound_map: "sound_reader n u \<Longrightarrow> sound_reader n (unpack_map f u k d)"
proof (induction k arbitrary: d)
  case (Suc k)
  let ?entry = "\<lambda>kx s1. case to_str f kx of None \<Rightarrow> unpack_map f u k d s1
    | Some ks \<Rightarrow> let (v, s2) = u s1 in case v of None \<Rightarrow> (None, s2) | Some v \<Rightarrow> unpack_map f u k (dict_insert ks v d) s2"
  have "sound_reader n (?entry kx)" for kx
    using Suc.IH [OF Suc.prems] sound_bind [OF Suc.prems] by (cases "to_str f kx") simp_all
  then show ?case using sound_bind [of n u ?entry] Suc.prems by (simp cong: option.case_cong)
qed (simp add: sound_reader_def)

lemma sound_get_bytes:
  "get_bytes k s = (x, s1) \<Longrightarrow>
     ms_stuck s1 = ms_stuck s \<and> length (ms_rest s1) \<le> length (ms_rest s) \<and> (x \<noteq> None \<longrightarrow> ms_errno s1 = ms_errno s)"
  by (auto simp: get_bytes_def split: if_splits)

lemma sound_got: "sound_reader n (\<lambda>s. let (bs, s1) = get_bytes k s in (map_option e bs, s1))"
  by (rule sound_readerI) (auto dest!: sound_get_bytes split: prod.splits)

lemma sound_raw: "sound_reader n (unpack_raw k)"
  using sound_got unfolding unpack_raw_def [abs_def] by simp

text \<open>After the code of a value one byte less is left.\<close>

definition after_code :: "nat \<Rightarrow> (msgpack \<Rightarrow> expr option \<times> msgpack) \<Rightarrow> bool" where
  "after_code n h \<longleftrightarrow> (\<forall>s. ms_rest s \<noteq> [] \<longrightarrow> \<not> ms_stuck s \<longrightarrow> length (ms_rest s) < Suc n \<longrightarrow>
     \<not> ms_stuck (snd (h s)) \<and> length (ms_rest (snd (h s))) \<le> length (ms_rest s)
     \<and> (fst (h s) \<noteq> None \<longrightarrow> ms_errno (snd (h s)) = ms_errno s \<and> length (ms_rest (snd (h s))) < length (ms_rest s)))"

lemma after_code_consume: "sound_reader n u \<Longrightarrow> after_code n (\<lambda>s. u (consume_byte s))"
  unfolding after_code_def
proof (intro allI impI)
  fix s :: msgpack
  assume u: "sound_reader n u" and s: "ms_rest s \<noteq> []" "\<not> ms_stuck s" "length (ms_rest s) < Suc n"
  obtain x s1 where x: "u (consume_byte s) = (x, s1)" by (cases "u (consume_byte s)")
  from sound_readerD [OF u x] s
  show "\<not> ms_stuck (snd (u (consume_byte s))) \<and> length (ms_rest (snd (u (consume_byte s)))) \<le> length (ms_rest s)
     \<and> (fst (u (consume_byte s)) \<noteq> None \<longrightarrow> ms_errno (snd (u (consume_byte s))) = ms_errno s
          \<and> length (ms_rest (snd (u (consume_byte s)))) < length (ms_rest s))"
    unfolding x by (cases "ms_rest s") (auto simp: consume_byte_def)
qed

lemma after_code_with_int:
  assumes "\<And>i. sound_reader n (k i)"
  shows "after_code n (with_int sg m k)"
proof -
  let ?v = "\<lambda>bs. let v = big_endian bs in if sg \<and> 2 ^ (8 * m - 1) \<le> v then v - 2 ^ (8 * m) else v"
  let ?u = "\<lambda>s. let (y, s1) = unpack_int sg m s in case y of None \<Rightarrow> (None, s1) | Some i \<Rightarrow> k i s1"
  have "sound_reader n ?u"
  proof (rule sound_readerI)
    fix s x s1
    assume e: "?u s = (x, s1)" and s: "\<not> ms_stuck s" "length (ms_rest s) < n"
    obtain y s2 where y: "get_bytes m s = (y, s2)" by (cases "get_bytes m s")
    show "\<not> ms_stuck s1 \<and> length (ms_rest s1) \<le> length (ms_rest s) \<and> (x \<noteq> None \<longrightarrow> ms_errno s1 = ms_errno s)"
      using e y s sound_get_bytes [OF y] sound_readerD [OF assms, of "?v (the y)" s2 x s1]
      by (cases y) (auto simp: unpack_int_def)
  qed
  from after_code_consume [OF this] show ?thesis by (simp add: with_int_def [abs_def])
qed

lemma after_code_bad: "after_code n (\<lambda>s. (None, s\<lparr>ms_errno := e\<rparr>))"
  by (simp add: after_code_def)

lemmas after_codes = after_code_consume [OF sound_return] after_code_consume [OF sound_raw]
  after_code_consume [OF sound_array] after_code_consume [OF sound_map] after_code_consume [OF sound_got]
  after_code_with_int [OF sound_return] after_code_with_int [OF sound_raw]
  after_code_with_int [OF sound_array] after_code_with_int [OF sound_map] after_code_bad

lemma after_code_if: "after_code n g \<Longrightarrow> after_code n h \<Longrightarrow> after_code n (\<lambda>s. if c then g s else h s)"
  by (simp add: after_code_def)

lemma after_code_unpack: "sound_reader n u \<Longrightarrow> after_code n (unpack_tab w f u b)"
  unfolding unpack_defs [abs_def] by (intro after_code_if after_codes)

lemma unpack_after_code: "sound_reader n (unpack w f n) \<Longrightarrow> ms_rest s \<noteq> [] \<Longrightarrow> \<not> ms_stuck s
    \<Longrightarrow> length (ms_rest s) < Suc n \<Longrightarrow> unpack w f (Suc n) s = (x, s1)
    \<Longrightarrow> \<not> ms_stuck s1 \<and> length (ms_rest s1) \<le> length (ms_rest s)
      \<and> (x \<noteq> None \<longrightarrow> ms_errno s1 = ms_errno s \<and> length (ms_rest s1) < length (ms_rest s))"
  using after_code_unpack [of n "unpack w f n" w f "code (hd (ms_rest s))"] unfolding after_code_def
  by (drule spec [where x = s]) (auto simp: peek_byte_def unpack.simps neq_Nil_conv)

lemma sound_unpack: "sound_reader n (unpack w f n)"
proof (induction n)
  case (Suc n)
  show ?case
  proof (rule sound_readerI)
    fix s x s1
    assume e: "unpack w f (Suc n) s = (x, s1)" and s: "\<not> ms_stuck s" "length (ms_rest s) < Suc n"
    show "\<not> ms_stuck s1 \<and> length (ms_rest s1) \<le> length (ms_rest s) \<and> (x \<noteq> None \<longrightarrow> ms_errno s1 = ms_errno s)"
    proof (cases "ms_rest s = []")
      case True
      then show ?thesis using e s by (auto simp: peek_byte_def unpack.simps)
    next
      case False
      from unpack_after_code [OF Suc this s e] show ?thesis by blast
    qed
  qed
qed (simp add: sound_reader_def)

lemma decode_returns:
  "\<exists>v e n. mp_decode w f m = Some (v, e, n) \<and> n \<le> length m \<and> (v \<noteq> None \<longrightarrow> e = MP_NONE \<and> 0 < n)"
proof (cases "m = []")
  case True
  then show ?thesis by (simp add: mp_decode_def unpack.simps peek_byte_def)
next
  case False
  let ?s = "\<lparr>ms_rest = m, ms_errno = MP_NONE, ms_stuck = False\<rparr>"
  obtain x s1 where e: "unpack w f (Suc (length m)) ?s = (x, s1)" by (cases "unpack w f (Suc (length m)) ?s")
  from unpack_after_code [OF sound_unpack, of ?s "length m" w f x s1] e False
  show ?thesis by (auto simp: mp_decode_def)
qed

section \<open>Properties\<close>





text \<open>Keys that look like numbers in another notation do not survive, and one fails an assertion.\<close>

lemma octal_key_changed:
  "mp_encode False (E_dict [(''010'', E_null)]) = Some (Some (map char_of [0x81 :: nat, 8, 0xc0]))"
  "mp_decode w f (map char_of [0x81 :: nat, 8, 0xc0]) = Some (Some (E_dict [(''8'', E_null)]), MP_NONE, 3)"
proof -
  have "convertuint ''010'' = Some 8" by code_simp
  moreover have "dec_int 8 = ''8''" by code_simp
  ultimately show "mp_encode False (E_dict [(''010'', E_null)]) = Some (Some (map char_of [0x81 :: nat, 8, 0xc0]))"
    "mp_decode w f (map char_of [0x81 :: nat, 8, 0xc0]) = Some (Some (E_dict [(''8'', E_null)]), MP_NONE, 3)"
    by (simp_all add: mp_encode_def outbuf_new_def encode_len_def encode_key_conv encode_positive_int_def put_byte_def
        ob_ready_def ob_to_str_def ob_flush_def byte_of_def mp_decode_def unpack.simps unpack_defs peek_byte_def
        consume_byte_def dict_insert_def code_def)
qed

lemma minus_zero_key_aborts: "mp_encode False (E_dict [(''-0'', E_null)]) = None"
  by code_simp

text \<open>In the JavaScript mode the code of a 64-bit integer is followed by a string.\<close>

lemma js_negative_garbled:
  "mp_encode True (E_int (- 5000000000)) = Some (Some (char_of (0xd3 :: nat) # str_bytes ''-5000000000''))"
proof -
  have "char_of (48 + (5 :: nat)) = CHR ''5''" "char_of (48 :: nat) = CHR ''0''" by code_simp+
  then have "dec_int (- 5000000000) = ''-5000000000''" by (simp add: dec_int_def dec_nat.simps decdig_def)
  then show ?thesis
    by (simp add: mp_encode_def outbuf_new_def set_js_mode_def encode_negative_int_def encode_str_def encode_raw_len_def
        put_byte_def put_str_def ob_ready_def ob_to_str_def ob_flush_def byte_of_def str_bytes_def len_bytes_def)
qed

text \<open>A message cut between two elements gives no value and no error.\<close>

lemma cut_without_error: "mp_decode w f [char_of (0x92 :: nat), char_of (1 :: nat)] = Some (None, MP_NONE, 2)"
  by (simp add: mp_decode_def unpack.simps unpack_defs peek_byte_def consume_byte_def
      numeral_2_eq_2)

end
