(* ===== verification/Env.thy ===== *)
theory Env
  imports Prelude "HOL-Library.AList"
begin

text \<open>
  The environment of the template language: the stack of binding tables that names are looked up in,
  \<^verbatim>\<open>src/libpub/pub3env.h\<close> and \<^verbatim>\<open>src/libpub/pub3env.C\<close>, with the tables themselves (\<^verbatim>\<open>bindtab_t\<close>,
  \<^verbatim>\<open>cow_bindtab_t\<close>, \<^verbatim>\<open>bindlist_t\<close>) and the references to their slots (\<^verbatim>\<open>mref_dict_t\<close>) of
  \<^verbatim>\<open>src/libpub/pub3expr.C\<close>.  Tables are shared between layers, closures and the caller, so they live in a
  store and are named by their address.  The expressions bound in them are an abstract type \<open>'v\<close>, with
  \<open>None\<close> for a null pointer; \<^verbatim>\<open>copy\<close> of an expression has the same content and is the identity.
\<close>

section \<open>Tables\<close>

record 'v store =
  st_tab :: "nat \<Rightarrow> (string \<times> 'v option) list"
  st_next :: nat
  st_cow :: "nat \<Rightarrow> nat \<times> nat option"
  st_cow_next :: nat

datatype bind_interface = BI_tab nat | BI_cow nat

definition bindtab_alloc :: "'v store \<Rightarrow> nat \<times> 'v store" where
  "bindtab_alloc w = (st_next w, w\<lparr>st_tab := (st_tab w)(st_next w := []), st_next := Suc (st_next w)\<rparr>)"

definition bindtab_lookup :: "'v store \<Rightarrow> nat \<Rightarrow> string \<Rightarrow> 'v option option" where
  "bindtab_lookup w a nm = map_of (st_tab w a) nm"

definition bindtab_insert :: "nat \<Rightarrow> string \<Rightarrow> 'v option \<Rightarrow> 'v store \<Rightarrow> 'v store" where
  "bindtab_insert a k v w = w\<lparr>st_tab := (st_tab w)(a := AList.update k v (st_tab w a))\<rparr>"

text \<open>\<^verbatim>\<open>overwrite_with\<close> and the two assignment operators, with the contents of the other table.\<close>

definition overwrite_with :: "nat \<Rightarrow> (string \<times> 'v option) list \<Rightarrow> 'v store \<Rightarrow> 'v store" where
  "overwrite_with a t w = fold (\<lambda>(k, v). bindtab_insert a k v) t w"

definition bindtab_add :: "nat \<Rightarrow> nat \<Rightarrow> 'v store \<Rightarrow> 'v store" where
  "bindtab_add a b w = overwrite_with a (st_tab w b) w"

definition bindtab_sub :: "nat \<Rightarrow> nat \<Rightarrow> 'v store \<Rightarrow> 'v store" where
  "bindtab_sub a b w = fold (\<lambda>(k, v) w. w\<lparr>st_tab := (st_tab w)(a := AList.delete k (st_tab w a))\<rparr>) (st_tab w b) w"

text \<open>Tables that are copied when they are first written.\<close>

definition cow_alloc :: "nat \<Rightarrow> 'v store \<Rightarrow> bind_interface \<times> 'v store" where
  "cow_alloc t w =
     (BI_cow (st_cow_next w), w\<lparr>st_cow := (st_cow w)(st_cow_next w := (t, None)), st_cow_next := Suc (st_cow_next w)\<rparr>)"

definition cow_tab :: "'v store \<Rightarrow> nat \<Rightarrow> nat" where
  "cow_tab w c = (case st_cow w c of (t, None) \<Rightarrow> t | (t, Some a) \<Rightarrow> a)"

definition cow_mutate :: "nat \<Rightarrow> 'v store \<Rightarrow> nat \<times> 'v store" where
  "cow_mutate c w =
     (case st_cow w c of
        (t, Some a) \<Rightarrow> (a, w)
      | (t, None) \<Rightarrow>
          let (a, w1) = bindtab_alloc w; w2 = overwrite_with a (st_tab w1 t) w1
          in (a, w2\<lparr>st_cow := (st_cow w2)(c := (t, Some a))\<rparr>))"

text \<open>The interface \<^verbatim>\<open>bind_interface_t\<close>: both kinds of tables.\<close>

definition bi_table :: "'v store \<Rightarrow> bind_interface \<Rightarrow> nat" where
  "bi_table w b = (case b of BI_tab a \<Rightarrow> a | BI_cow c \<Rightarrow> cow_tab w c)"

definition bi_lookup :: "'v store \<Rightarrow> bind_interface \<Rightarrow> string \<Rightarrow> 'v option option" where
  "bi_lookup w b nm = bindtab_lookup w (bi_table w b) nm"

definition bi_mutate :: "bind_interface \<Rightarrow> 'v store \<Rightarrow> nat \<times> 'v store" where
  "bi_mutate b w = (case b of BI_tab a \<Rightarrow> (a, w) | BI_cow c \<Rightarrow> cow_mutate c w)"

definition copy_to_dict :: "'v store \<Rightarrow> bind_interface \<Rightarrow> (string \<times> 'v option) list" where
  "copy_to_dict w b = fold (\<lambda>(k, v). AList.update k v) (st_tab w (bi_table w b)) []"

definition keys_only :: "string list \<Rightarrow> 'v store \<Rightarrow> nat \<times> 'v store" where
  "keys_only names w = (let (a, w1) = bindtab_alloc w in (a, fold (\<lambda>n. bindtab_insert a n None) names w1))"

section \<open>The stack of layers\<close>

datatype layer_type = LAYER_NONE | LAYER_UNIVERSALS | LAYER_GLOBALS | LAYER_LOCALS | LAYER_LOCALS_BARRIER
  | LAYER_LOCALS_BARRIER_WEAK | LAYER_UNIREFS | LAYER_LIBRARY

record stack_layer =
  sl_bindings :: "bind_interface option"
  sl_typ :: layer_type

definition layer :: "bind_interface option \<Rightarrow> layer_type \<Rightarrow> stack_layer" where
  "layer b t = \<lparr>sl_bindings = b, sl_typ = t\<rparr>"

definition is_local :: "stack_layer \<Rightarrow> bool" where
  "is_local l \<longleftrightarrow> sl_typ l = LAYER_LOCALS \<or> sl_typ l = LAYER_LOCALS_BARRIER \<or> sl_typ l = LAYER_LOCALS_BARRIER_WEAK"

definition is_barrier :: "stack_layer \<Rightarrow> bool" where
  "is_barrier l \<longleftrightarrow> sl_typ l = LAYER_LOCALS_BARRIER"

fun layer_type_to_str :: "layer_type \<Rightarrow> string" where
  "layer_type_to_str LAYER_NONE = ''none''"
| "layer_type_to_str LAYER_UNIVERSALS = ''universals''"
| "layer_type_to_str LAYER_GLOBALS = ''globals''"
| "layer_type_to_str LAYER_LOCALS = ''locals''"
| "layer_type_to_str LAYER_LOCALS_BARRIER = ''locals_barrier''"
| "layer_type_to_str LAYER_LOCALS_BARRIER_WEAK = ''locals_barrier_weak''"
| "layer_type_to_str LAYER_UNIREFS = ''unirefs''"
| "layer_type_to_str LAYER_LIBRARY = ''library''"

text \<open>A layer as a list: the name of its type and the contents of its table, nothing for a null table.\<close>

definition layer_to_list :: "'v store \<Rightarrow> stack_layer \<Rightarrow> string \<times> (string \<times> 'v option) list option" where
  "layer_to_list w l = (layer_type_to_str (sl_typ l), map_option (copy_to_dict w) (sl_bindings l))"

record env =
  en_library :: "nat option"
  en_universals :: nat
  en_globals :: nat
  en_stack :: "stack_layer list"
  en_global_frames :: nat

definition env_to_list :: "'v store \<Rightarrow> env \<Rightarrow> (string \<times> (string \<times> 'v option) list option) list" where
  "env_to_list w e = map (layer_to_list w) (en_stack e)"

text \<open>The constructor, with the libraries of \<^verbatim>\<open>singleton_t\<close>.\<close>

fun push_libraries :: "nat list \<Rightarrow> stack_layer list \<Rightarrow> 'v store \<Rightarrow> stack_layer list \<times> 'v store" where
  "push_libraries [] stk w = (stk, w)"
| "push_libraries (t # ts) stk w =
     (let (b, w1) = cow_alloc t w in push_libraries ts (stk @ [layer (Some b) LAYER_LIBRARY]) w1)"

definition env_new :: "nat list \<Rightarrow> nat \<Rightarrow> nat option \<Rightarrow> 'v store \<Rightarrow> env \<times> 'v store" where
  "env_new libs u g w =
     (let (ga, w1) = (case g of Some a \<Rightarrow> (a, w) | None \<Rightarrow> bindtab_alloc w);
          (stk, w2) = push_libraries libs [] w1;
          stk = stk @ [layer (Some (BI_tab u)) LAYER_UNIVERSALS, layer (Some (BI_tab ga)) LAYER_GLOBALS]
      in (\<lparr>en_library = None, en_universals = u, en_globals = ga, en_stack = stk,
           en_global_frames = length stk - 1\<rparr>, w2))"

definition add_global_binding :: "string \<Rightarrow> 'v option \<Rightarrow> env \<Rightarrow> 'v store \<Rightarrow> 'v store" where
  "add_global_binding n x e w = bindtab_insert (en_globals e) n x w"

definition push_locals :: "bind_interface option \<Rightarrow> layer_type \<Rightarrow> env \<Rightarrow> nat \<times> env" where
  "push_locals t lt e =
     (length (en_stack e),
      case t of None \<Rightarrow> e | Some b \<Rightarrow> e\<lparr>en_stack := en_stack e @ [layer (Some b) lt]\<rparr>)"

definition bind_globals :: "nat option \<Rightarrow> env \<Rightarrow> 'v store \<Rightarrow> nat \<times> env \<times> 'v store" where
  "bind_globals t e w =
     (length (en_stack e),
      case t of
        None \<Rightarrow> (e, w)
      | Some a \<Rightarrow>
          if length (st_tab w (en_globals e)) = 0
          then (e\<lparr>en_globals := a,
                  en_stack := (en_stack e)[en_global_frames e := (en_stack e ! en_global_frames e)\<lparr>sl_bindings := Some (BI_tab a)\<rparr>]\<rparr>, w)
          else (e, bindtab_add (en_globals e) a w))"

definition push_barrier :: "env \<Rightarrow> nat \<times> env" where
  "push_barrier e = (length (en_stack e), e\<lparr>en_stack := en_stack e @ [layer None LAYER_LOCALS_BARRIER]\<rparr>)"

definition push_lambda :: "bind_interface option \<Rightarrow> stack_layer list option \<Rightarrow> env \<Rightarrow> nat \<times> env" where
  "push_lambda bi cls e =
     (let e1 = (case cls of
          None \<Rightarrow> e
        | Some stk \<Rightarrow>
            let e0 = (if length stk = 0 \<or> sl_typ (stk ! 0) \<noteq> LAYER_LOCALS_BARRIER then snd (push_barrier e) else e)
            in e0\<lparr>en_stack := en_stack e0 @ stk\<rparr>)
      in (length (en_stack e), snd (push_locals bi LAYER_LOCALS e1)))"

text \<open>\<^verbatim>\<open>push_bindings\<close>: the table the bindings go to; \<open>None\<close> for the types that are fatal.\<close>

definition push_bindings :: "layer_type \<Rightarrow> bool \<Rightarrow> env \<Rightarrow> 'v store \<Rightarrow> (nat option \<times> env \<times> 'v store) option" where
  "push_bindings typ is_cfg e w =
     (case typ of
        LAYER_LIBRARY \<Rightarrow> Some (en_library e, e, w)
      | LAYER_UNIVERSALS \<Rightarrow> Some (Some (if is_cfg then en_globals e else en_universals e), e, w)
      | LAYER_GLOBALS \<Rightarrow> Some (Some (en_globals e), e, w)
      | LAYER_LOCALS \<Rightarrow>
          let (a, w1) = bindtab_alloc w
          in Some (Some a, e\<lparr>en_stack := en_stack e @ [layer (Some (BI_tab a)) typ]\<rparr>, w1)
      | _ \<Rightarrow> None)"

definition push_references :: "string list \<Rightarrow> layer_type \<Rightarrow> env \<Rightarrow> 'v store \<Rightarrow> env \<times> 'v store" where
  "push_references names typ e w =
     (if typ = LAYER_UNIVERSALS
      then let (a, w1) = keys_only names w
           in (e\<lparr>en_stack := en_stack e @ [layer (Some (BI_tab a)) LAYER_UNIREFS]\<rparr>, w1)
      else (e, w))"

text \<open>\<^verbatim>\<open>setsize\<close> fills with default layers when it grows.\<close>

definition pop_to :: "nat \<Rightarrow> env \<Rightarrow> env" where
  "pop_to i e = e\<lparr>en_stack := take i (en_stack e) @ replicate (i - length (en_stack e)) (layer None LAYER_NONE)\<rparr>"

section \<open>Looking up\<close>

definition dec_stack_pointer :: "env \<Rightarrow> stack_layer \<Rightarrow> int \<Rightarrow> int" where
  "dec_stack_pointer e l i = (if is_barrier l then int (en_global_frames e) else i - 1)"

definition layer_lookup :: "'v store \<Rightarrow> stack_layer \<Rightarrow> string \<Rightarrow> 'v option option" where
  "layer_lookup w l nm = Option.bind (sl_bindings l) (\<lambda>b. bi_lookup w b nm)"

text \<open>
  \<^verbatim>\<open>lookup_val\<close>: the value bound to a name, \<open>nul\<close> for a name bound to nothing, \<open>Some None\<close> when it is not
  bound.  The outer \<open>None\<close> is a loop that does not end or an index out of range.
\<close>

partial_function (option) lookup_val_loop :: "'v \<Rightarrow> 'v store \<Rightarrow> env \<Rightarrow> string \<Rightarrow> int \<Rightarrow> 'v option option" where
  "lookup_val_loop nul w e nm i =
     (if i < 0 then Some None
      else if int (length (en_stack e)) \<le> i then None
      else let l = en_stack e ! nat i
           in case layer_lookup w l nm of
                Some x \<Rightarrow>
                  let y = (if sl_typ l = LAYER_UNIREFS then Option.bind (bindtab_lookup w (en_universals e) nm) id else x)
                  in Some (Some (case y of None \<Rightarrow> nul | Some v \<Rightarrow> v))
              | None \<Rightarrow> lookup_val_loop nul w e nm (dec_stack_pointer e l i))"

definition lookup_val :: "'v \<Rightarrow> 'v store \<Rightarrow> env \<Rightarrow> string \<Rightarrow> 'v option option" where
  "lookup_val nul w e nm = lookup_val_loop nul w e nm (int (length (en_stack e)) - 1)"

text \<open>\<^verbatim>\<open>lookup_ref\<close>: the table whose slot is referred to; it may copy a table.\<close>

partial_function (option) lookup_ref_loop :: "'v store \<Rightarrow> env \<Rightarrow> string \<Rightarrow> int \<Rightarrow> (nat \<times> 'v store) option" where
  "lookup_ref_loop w e nm i =
     (if i < 0 then Some (en_globals e, w)
      else if int (length (en_stack e)) \<le> i then None
      else let l = en_stack e ! nat i
           in case layer_lookup w l nm of
                Some x \<Rightarrow>
                  Some (if sl_typ l = LAYER_UNIREFS then (en_universals e, w) else bi_mutate (the (sl_bindings l)) w)
              | None \<Rightarrow> lookup_ref_loop w e nm (dec_stack_pointer e l i))"

definition lookup_ref :: "'v store \<Rightarrow> env \<Rightarrow> string \<Rightarrow> (nat \<times> 'v store) option" where
  "lookup_ref w e nm = lookup_ref_loop w e nm (int (length (en_stack e)) - 1)"

text \<open>\<^verbatim>\<open>mref_dict_t\<close>: reading and writing the slot.\<close>

definition mref_get_value :: "nat \<Rightarrow> string \<Rightarrow> 'v store \<Rightarrow> 'v option" where
  "mref_get_value a nm w = Option.bind (bindtab_lookup w a nm) id"

definition mref_set_value :: "nat \<Rightarrow> string \<Rightarrow> 'v option \<Rightarrow> 'v store \<Rightarrow> 'v store" where
  "mref_set_value a nm x w = bindtab_insert a nm x w"

text \<open>
  \<^verbatim>\<open>lookup_layer\<close>: the loop over the local layers, from the one at index \<open>i - 1\<close> down, with the topmost
  table seen so far.
\<close>

fun lookup_locals :: "'v store \<Rightarrow> stack_layer list \<Rightarrow> string \<Rightarrow> nat \<Rightarrow> bind_interface option
    \<Rightarrow> bind_interface option \<times> bind_interface option" where
  "lookup_locals w stk nm 0 tp = (None, tp)"
| "lookup_locals w stk nm (Suc i) tp =
     (let l = stk ! i
      in if \<not> is_local l then (None, tp)
         else let tp1 = (if tp = None then sl_bindings l else tp)
              in if layer_lookup w l nm \<noteq> None then (sl_bindings l, tp1)
                 else if is_barrier l then (None, tp1)
                 else lookup_locals w stk nm i tp1)"

definition lookup_layer :: "string \<Rightarrow> layer_type \<Rightarrow> bool \<Rightarrow> env \<Rightarrow> 'v store \<Rightarrow> nat option \<times> 'v store" where
  "lookup_layer nm lt creat e w =
     (case lt of
        LAYER_LOCALS \<Rightarrow>
          (case lookup_locals w (en_stack e) nm (length (en_stack e)) None of
             (Some b, _) \<Rightarrow> (let (a, w1) = bi_mutate b w in (Some a, w1))
           | (None, Some t) \<Rightarrow> if creat then (let (a, w1) = bi_mutate t w in (Some a, w1)) else (None, w)
           | (None, None) \<Rightarrow> (None, w))
      | LAYER_GLOBALS \<Rightarrow> (Some (en_globals e), w)
      | LAYER_UNIVERSALS \<Rightarrow> (Some (en_universals e), w)
      | _ \<Rightarrow> (None, w))"

section \<open>Closures\<close>

text \<open>\<^verbatim>\<open>descend_to_barrier\<close>, with the number of frames still to look at.\<close>

fun descend_to_barrier :: "stack_layer list \<Rightarrow> nat \<Rightarrow> int" where
  "descend_to_barrier stk 0 = - 1"
| "descend_to_barrier stk (Suc i) =
     (case sl_typ (stk ! i) of
        LAYER_UNIREFS \<Rightarrow> descend_to_barrier stk i
      | LAYER_LOCALS \<Rightarrow> descend_to_barrier stk i
      | LAYER_LOCALS_BARRIER \<Rightarrow> int i
      | LAYER_LOCALS_BARRIER_WEAK \<Rightarrow> int i
      | _ \<Rightarrow> int i + 1)"

definition capture_closure :: "env \<Rightarrow> stack_layer list" where
  "capture_closure e =
     (let b = descend_to_barrier (en_stack e) (length (en_stack e))
      in if b < 0 then [] else drop (nat b) (en_stack e))"

section \<open>The interface of the tables\<close>

text \<open>
  What the environment needs of the tables behind its layers: writing a slot changes exactly the
  layers that show that table, and preparing a table for writing changes no layer.
\<close>

locale bind_layers =
  fixes valid :: "'w \<Rightarrow> 'b \<Rightarrow> bool"
    and lookup :: "'w \<Rightarrow> 'b \<Rightarrow> string \<Rightarrow> 'v option option"
    and tab :: "'w \<Rightarrow> 'b \<Rightarrow> nat"
    and mut :: "'b \<Rightarrow> 'w \<Rightarrow> nat \<times> 'w"
    and ins :: "nat \<Rightarrow> string \<Rightarrow> 'v option \<Rightarrow> 'w \<Rightarrow> 'w"
  assumes lookup_ins: "lookup (ins a k v w) b nm = (if tab w b = a \<and> nm = k then Some v else lookup w b nm)"
    and mut_lookup: "valid w b \<Longrightarrow> valid w b' \<Longrightarrow> mut b w = (a, w') \<Longrightarrow> lookup w' b' nm = lookup w b' nm"
    and mut_tab: "valid w b \<Longrightarrow> mut b w = (a, w') \<Longrightarrow> tab w' b = a"
begin

lemma write_read: "valid w b \<Longrightarrow> mut b w = (a, w') \<Longrightarrow> lookup (ins a nm v w') b nm = Some v"
  by (simp add: lookup_ins mut_tab)

lemma write_other:
  "valid w b \<Longrightarrow> valid w b' \<Longrightarrow> mut b w = (a, w') \<Longrightarrow> nm' \<noteq> nm \<Longrightarrow> lookup (ins a nm v w') b' nm' = lookup w b' nm'"
  by (simp add: lookup_ins mut_lookup)

lemma write_cases:
  "valid w b \<Longrightarrow> valid w b' \<Longrightarrow> mut b w = (a, w')
     \<Longrightarrow> lookup (ins a nm v w') b' nm = Some v \<or> lookup (ins a nm v w') b' nm = lookup w b' nm"
  by (simp add: lookup_ins mut_lookup)

end

text \<open>The addresses in use are below the next free one.\<close>

definition bi_valid :: "'v store \<Rightarrow> bind_interface \<Rightarrow> bool" where
  "bi_valid w b \<longleftrightarrow> (case b of BI_tab a \<Rightarrow> a < st_next w
     | BI_cow c \<Rightarrow> c < st_cow_next w \<and> fst (st_cow w c) < st_next w
         \<and> (case snd (st_cow w c) of None \<Rightarrow> True | Some a \<Rightarrow> a < st_next w))"

lemma insert_parts [simp]:
  "st_next (bindtab_insert a k v w) = st_next w" "st_cow (bindtab_insert a k v w) = st_cow w"
  "st_cow_next (bindtab_insert a k v w) = st_cow_next w"
  by (simp_all add: bindtab_insert_def)

lemma table_insert [simp]: "bi_table (bindtab_insert a k v w) b = bi_table w b"
  by (simp add: bi_table_def cow_tab_def split: bind_interface.split)

lemma lookup_insert:
  "bindtab_lookup (bindtab_insert a k v w) a' nm = (if a' = a \<and> nm = k then Some v else bindtab_lookup w a' nm)"
  by (simp add: bindtab_lookup_def bindtab_insert_def update_conv')

lemma bi_lookup_insert:
  "bi_lookup (bindtab_insert a k v w) b nm = (if bi_table w b = a \<and> nm = k then Some v else bi_lookup w b nm)"
  by (simp add: bi_lookup_def lookup_insert)

lemma overwrite_parts [simp]:
  "st_next (overwrite_with a t w) = st_next w" "st_cow (overwrite_with a t w) = st_cow w"
  "st_cow_next (overwrite_with a t w) = st_cow_next w" "a' \<noteq> a \<Longrightarrow> st_tab (overwrite_with a t w) a' = st_tab w a'"
  unfolding overwrite_with_def by (induction t arbitrary: w) (auto simp: bindtab_insert_def)

lemma overwrite_fresh: "st_tab w a = [] \<Longrightarrow> distinct (map fst t) \<Longrightarrow> map_of (st_tab (overwrite_with a t w) a) = map_of t"
proof -
  have "map_of (st_tab (overwrite_with a t w) a) = map_of (st_tab w a) ++ map_of t" if "distinct (map fst t)"
    using that
  proof (induction t arbitrary: w)
    case (Cons p t)
    obtain k v where p: "p = (k, v)" by (cases p)
    have "overwrite_with a (p # t) w = overwrite_with a t (bindtab_insert a k v w)"
      by (simp add: overwrite_with_def p)
    moreover have "map_of t k = None" using Cons.prems p by (simp add: map_of_eq_None_iff)
    ultimately show ?case using Cons p
      by (auto simp: bindtab_insert_def update_conv' fun_eq_iff map_add_def split: option.splits)
  qed (simp add: overwrite_with_def)
  moreover assume "st_tab w a = []" "distinct (map fst t)"
  ultimately show ?thesis by simp
qed

text \<open>Tables hold a key once.\<close>

definition store_ok :: "'v store \<Rightarrow> bool" where
  "store_ok w \<longleftrightarrow> (\<forall>a. distinct (map fst (st_tab w a)))"

definition bi_ok :: "'v store \<Rightarrow> bind_interface \<Rightarrow> bool" where
  "bi_ok w b \<longleftrightarrow> store_ok w \<and> bi_valid w b"

lemma mutate_lookup:
  assumes b: "bi_ok w b" and b': "bi_ok w b'" and m: "bi_mutate b w = (a, w')"
  shows "bi_lookup w' b' nm = bi_lookup w b' nm"
proof (cases "\<exists>c t. b = BI_cow c \<and> st_cow w c = (t, None)")
  case False
  then have "w' = w" using m by (auto simp: bi_mutate_def cow_mutate_def split: bind_interface.splits prod.splits option.splits)
  then show ?thesis by simp
next
  case True
  then obtain c t where c: "b = BI_cow c" "st_cow w c = (t, None)" by blast
  let ?n = "st_next w" and ?w1 = "snd (bindtab_alloc w)"
  have w': "w' = (overwrite_with ?n (st_tab ?w1 t) ?w1)\<lparr>st_cow := (st_cow w)(c := (t, Some ?n))\<rparr>"
    using m c by (auto simp: bi_mutate_def cow_mutate_def bindtab_alloc_def Let_def)
  have t: "t < ?n" "st_tab ?w1 t = st_tab w t" "distinct (map fst (st_tab w t))" "st_tab ?w1 ?n = []"
    using b c by (auto simp: bi_ok_def bi_valid_def bindtab_alloc_def store_ok_def)
  have copy: "map_of (st_tab w' ?n) = map_of (st_tab w t)"
    using overwrite_fresh [of ?w1 ?n "st_tab w t"] t w' by simp
  have old: "st_tab w' x = st_tab w x" if "x < ?n" for x using that w' by (simp add: bindtab_alloc_def)
  show ?thesis
  proof (cases b')
    case (BI_tab x)
    then show ?thesis using b' old by (simp add: bi_ok_def bi_valid_def bi_lookup_def bi_table_def bindtab_lookup_def)
  next
    case (BI_cow d)
    then have "bi_table w d' < ?n" if "d' = b'" for d' using b' that
      by (auto simp: bi_ok_def bi_valid_def bi_table_def cow_tab_def split: prod.splits option.splits)
    moreover have "st_cow w' = (st_cow w)(c := (t, Some ?n))" using w' by simp
    ultimately show ?thesis using BI_cow c copy old
      by (cases "d = c") (auto simp: bi_lookup_def bi_table_def cow_tab_def bindtab_lookup_def)
  qed
qed

lemma mutate_table: "bi_ok w b \<Longrightarrow> bi_mutate b w = (a, w') \<Longrightarrow> bi_table w' b = a"
  by (auto simp: bi_mutate_def cow_mutate_def bi_table_def cow_tab_def Let_def split: bind_interface.splits prod.splits option.splits)

interpretation bl: bind_layers bi_ok bi_lookup bi_table bi_mutate bindtab_insert
  by unfold_locales (simp_all add: bi_lookup_insert mutate_lookup mutate_table)

section \<open>The layers a name is looked up in\<close>

text \<open>
  The specification of the scope rules: the layers from the top of the stack down to the first barrier,
  with the barrier's own bindings, and then the base of the stack (globals, universals, libraries).
\<close>

fun until_barrier :: "stack_layer list \<Rightarrow> stack_layer list" where
  "until_barrier [] = []"
| "until_barrier (l # ls) = (if is_barrier l then [l] else l # until_barrier ls)"

definition base_frames :: "env \<Rightarrow> stack_layer list" where
  "base_frames e = take (Suc (en_global_frames e)) (en_stack e)"

definition upper_frames :: "env \<Rightarrow> stack_layer list" where
  "upper_frames e = drop (Suc (en_global_frames e)) (en_stack e)"

definition scope :: "env \<Rightarrow> stack_layer list" where
  "scope e = until_barrier (rev (upper_frames e)) @ rev (base_frames e)"

definition hit :: "'v store \<Rightarrow> string \<Rightarrow> stack_layer \<Rightarrow> bool" where
  "hit w nm l \<longleftrightarrow> layer_lookup w l nm \<noteq> None"

definition layer_value :: "'v \<Rightarrow> 'v store \<Rightarrow> nat \<Rightarrow> string \<Rightarrow> stack_layer \<Rightarrow> 'v" where
  "layer_value nul w u nm l =
     (case (if sl_typ l = LAYER_UNIREFS then Option.bind (bindtab_lookup w u nm) id else the (layer_lookup w l nm)) of
        None \<Rightarrow> nul | Some v \<Rightarrow> v)"

text \<open>The shape of the stack.\<close>

definition env_inv :: "env \<Rightarrow> bool" where
  "env_inv e \<longleftrightarrow> en_global_frames e < length (en_stack e)
     \<and> en_stack e ! en_global_frames e = layer (Some (BI_tab (en_globals e))) LAYER_GLOBALS
     \<and> (\<forall>l \<in> set (base_frames e). sl_typ l \<in> {LAYER_LIBRARY, LAYER_UNIVERSALS, LAYER_GLOBALS})
     \<and> (\<forall>l \<in> set (upper_frames e). is_local l \<or> sl_typ l = LAYER_UNIREFS)"

lemma base_no_barrier: "env_inv e \<Longrightarrow> l \<in> set (base_frames e) \<Longrightarrow> \<not> is_barrier l"
  by (auto simp: env_inv_def is_barrier_def)

lemma stack_split: "en_stack e = base_frames e @ upper_frames e"
  by (simp add: base_frames_def upper_frames_def)

text \<open>
  A search from the top: at the layer \<open>i\<close> either something is found or the search goes on where
  \<^verbatim>\<open>dec_stack_pointer\<close> says.
\<close>

definition searches :: "env \<Rightarrow> (stack_layer \<Rightarrow> bool) \<Rightarrow> (stack_layer \<Rightarrow> 'r) \<Rightarrow> 'r \<Rightarrow> (int \<Rightarrow> 'r option) \<Rightarrow> bool" where
  "searches e P found none f \<longleftrightarrow> (\<forall>i. i < 0 \<longrightarrow> f i = Some none) \<and>
     (\<forall>i < length (en_stack e). f (int i) =
        (let l = en_stack e ! i in if P l then Some (found l) else f (dec_stack_pointer e l (int i))))"

lemma search_base:
  assumes s: "searches e P found none f" and inv: "env_inv e" and n: "n \<le> Suc (en_global_frames e)"
  shows "f (int n - 1) = Some (case find P (rev (take n (en_stack e))) of None \<Rightarrow> none | Some l \<Rightarrow> found l)"
  using n
proof (induction n)
  case 0
  then show ?case using s by (simp add: searches_def)
next
  case (Suc n)
  have len: "n < length (en_stack e)" using Suc.prems inv by (auto simp: env_inv_def)
  have "en_stack e ! n \<in> set (base_frames e)"
    using Suc.prems len by (auto simp: base_frames_def in_set_conv_nth intro!: exI [of _ n])
  then have nb: "\<not> is_barrier (en_stack e ! n)" using base_no_barrier [OF inv] by blast
  have "f (int n) = (if P (en_stack e ! n) then Some (found (en_stack e ! n)) else f (int n - 1))"
    using s len nb by (simp add: searches_def Let_def dec_stack_pointer_def)
  then show ?case using Suc len by (simp add: take_Suc_conv_app_nth)
qed

lemma search_upper:
  assumes s: "searches e P found none f" and inv: "env_inv e"
    and n: "Suc (en_global_frames e) + n \<le> length (en_stack e)"
  shows "f (int (Suc (en_global_frames e) + n) - 1) =
    Some (case find P (until_barrier (rev (take n (upper_frames e))) @ rev (base_frames e)) of None \<Rightarrow> none | Some l \<Rightarrow> found l)"
  using n
proof (induction n)
  case 0
  then show ?case using search_base [OF s inv, of "Suc (en_global_frames e)"] by (simp add: base_frames_def)
next
  case (Suc n)
  let ?i = "Suc (en_global_frames e) + n"
  have len: "?i < length (en_stack e)" "n < length (upper_frames e)" using Suc.prems by (simp_all add: upper_frames_def)
  have l: "en_stack e ! ?i = upper_frames e ! n" using len by (simp add: upper_frames_def)
  have tk: "rev (take (Suc n) (upper_frames e)) = upper_frames e ! n # rev (take n (upper_frames e))"
    using len(2) by (simp add: take_Suc_conv_app_nth)
  have step: "f (int ?i) = (if P (upper_frames e ! n) then Some (found (upper_frames e ! n))
      else f (dec_stack_pointer e (upper_frames e ! n) (int ?i)))"
    using s [unfolded searches_def, THEN conjunct2, rule_format, OF len(1)] by (simp only: l Let_def)
  have gf: "f (int (en_global_frames e)) = Some (case find P (rev (base_frames e)) of None \<Rightarrow> none | Some l \<Rightarrow> found l)"
    using search_base [OF s inv, of "Suc (en_global_frames e)"] by (simp add: base_frames_def)
  show ?case
  proof (cases "is_barrier (upper_frames e ! n)")
    case True
    then show ?thesis using step gf tk by (simp add: dec_stack_pointer_def)
  next
    case False
    then show ?thesis using step tk Suc by (simp add: dec_stack_pointer_def)
  qed
qed

lemma search_scope:
  assumes "searches e P found none f" "env_inv e"
  shows "f (int (length (en_stack e)) - 1) = Some (case find P (scope e) of None \<Rightarrow> none | Some l \<Rightarrow> found l)"
proof -
  have "length (en_stack e) = Suc (en_global_frames e) + length (upper_frames e)"
    using assms(2) by (auto simp: env_inv_def upper_frames_def)
  then show ?thesis using search_upper [OF assms, of "length (upper_frames e)"] by (simp add: scope_def)
qed

lemma searches_val: "searches e (hit w nm) (\<lambda>l. Some (layer_value nul w (en_universals e) nm l)) None (lookup_val_loop nul w e nm)"
  unfolding searches_def
proof (intro conjI allI impI)
  fix i :: int assume "i < 0"
  then show "lookup_val_loop nul w e nm i = Some None" by (subst lookup_val_loop.simps) simp
next
  fix i assume "i < length (en_stack e)"
  then show "lookup_val_loop nul w e nm (int i) = (let l = en_stack e ! i in
      if hit w nm l then Some (Some (layer_value nul w (en_universals e) nm l))
      else lookup_val_loop nul w e nm (dec_stack_pointer e l (int i)))"
    by (subst lookup_val_loop.simps) (auto simp: hit_def layer_value_def Let_def split: option.splits)
qed

lemma searches_ref:
  "searches e (hit w nm) (\<lambda>l. if sl_typ l = LAYER_UNIREFS then (en_universals e, w) else bi_mutate (the (sl_bindings l)) w)
     (en_globals e, w) (lookup_ref_loop w e nm)"
  unfolding searches_def
proof (intro conjI allI impI)
  fix i :: int assume "i < 0"
  then show "lookup_ref_loop w e nm i = Some (en_globals e, w)" by (subst lookup_ref_loop.simps) simp
next
  fix i assume "i < length (en_stack e)"
  then show "lookup_ref_loop w e nm (int i) = (let l = en_stack e ! i in
      if hit w nm l then Some (if sl_typ l = LAYER_UNIREFS then (en_universals e, w) else bi_mutate (the (sl_bindings l)) w)
      else lookup_ref_loop w e nm (dec_stack_pointer e l (int i)))"
    by (subst lookup_ref_loop.simps) (auto simp: hit_def Let_def split: option.splits)
qed

lemma lookup_val_scope:
  "env_inv e \<Longrightarrow> lookup_val nul w e nm = Some (map_option (layer_value nul w (en_universals e) nm) (find (hit w nm) (scope e)))"
  unfolding lookup_val_def by (subst search_scope [OF searches_val]) (auto split: option.splits)

lemma lookup_ref_scope:
  "env_inv e \<Longrightarrow> lookup_ref w e nm = Some (case find (hit w nm) (scope e) of None \<Rightarrow> (en_globals e, w)
     | Some l \<Rightarrow> if sl_typ l = LAYER_UNIREFS then (en_universals e, w) else bi_mutate (the (sl_bindings l)) w)"
  unfolding lookup_ref_def by (subst search_scope [OF searches_ref]) (auto split: option.splits)

section \<open>Assignment\<close>

text \<open>
  The tables of the layers are allocated, and the tables of names only (\<^verbatim>\<open>keys_only\<close>) are shared with no
  other layer.
\<close>

definition layers_ok :: "'v store \<Rightarrow> env \<Rightarrow> bool" where
  "layers_ok w e \<longleftrightarrow> store_ok w \<and> en_universals e < st_next w \<and> en_globals e < st_next w
     \<and> (\<forall>l \<in> set (en_stack e). \<forall>b. sl_bindings l = Some b \<longrightarrow> bi_valid w b)
     \<and> (\<forall>l \<in> set (en_stack e). sl_typ l = LAYER_UNIREFS \<longrightarrow>
          (\<exists>a. sl_bindings l = Some (BI_tab a) \<and> a \<noteq> en_universals e \<and> a \<noteq> en_globals e
            \<and> (\<forall>l' \<in> set (en_stack e). \<forall>b. sl_typ l' \<noteq> LAYER_UNIREFS \<longrightarrow> sl_bindings l' = Some b \<longrightarrow> bi_table w b \<noteq> a)))"

lemma set_until: "set (until_barrier ls) \<subseteq> set ls"
  by (induction ls) auto

lemma set_scope: "set (scope e) \<subseteq> set (en_stack e)"
  using set_until [of "rev (upper_frames e)"] by (auto simp: scope_def stack_split [of e])

lemma layers_valid: "layers_ok w e \<Longrightarrow> l \<in> set (en_stack e) \<Longrightarrow> sl_bindings l = Some b \<Longrightarrow> bi_ok w b"
  by (auto simp: layers_ok_def bi_ok_def)

lemma find_replace:
  assumes "\<forall>y \<in> set xs. Q y \<longrightarrow> G y \<or> P y" "\<And>x. find P xs = Some x \<Longrightarrow> Q x \<and> G x" "find P xs = None \<Longrightarrow> \<exists>y \<in> set xs. Q y"
  shows "\<exists>z. find Q xs = Some z \<and> G z"
  using assms
proof (induction xs)
  case (Cons a xs)
  show ?case
  proof (cases "P a")
    case True
    then show ?thesis using Cons.prems(2) [of a] by simp
  next
    case False
    then show ?thesis using Cons by (cases "Q a") auto
  qed
qed simp

lemma mutate_cases: "bi_mutate b w = (a, w') \<Longrightarrow> a = bi_table w b \<or> a = st_next w"
  by (auto simp: bi_mutate_def cow_mutate_def bi_table_def cow_tab_def bindtab_alloc_def Let_def
      split: bind_interface.splits prod.splits option.splits)

text \<open>What the reference of \<^verbatim>\<open>lookup_ref\<close> is, and what writing through it does to the layers.\<close>

lemma ref_write:
  assumes inv: "env_inv e" and ok: "layers_ok w e" and r: "lookup_ref w e nm = Some (a, w1)"
  shows "\<exists>b. bi_ok w b \<and> bi_mutate b w = (a, w1) \<and>
    (case find (hit w nm) (scope e) of
       None \<Rightarrow> b = BI_tab (en_globals e)
     | Some l \<Rightarrow> if sl_typ l = LAYER_UNIREFS then b = BI_tab (en_universals e) else sl_bindings l = Some b)"
proof (cases "find (hit w nm) (scope e)")
  case None
  then show ?thesis using r lookup_ref_scope [OF inv, of w nm] ok
    by (intro exI [of _ "BI_tab (en_globals e)"]) (simp add: bi_mutate_def bi_ok_def bi_valid_def layers_ok_def)
next
  case (Some l)
  then have l: "l \<in> set (en_stack e)" "hit w nm l" using set_scope [of e] by (auto simp: find_Some_iff)
  then obtain b where b: "sl_bindings l = Some b" by (cases "sl_bindings l") (auto simp: hit_def layer_lookup_def)
  show ?thesis
  proof (cases "sl_typ l = LAYER_UNIREFS")
    case True
    then show ?thesis using Some r lookup_ref_scope [OF inv, of w nm] ok
      by (intro exI [of _ "BI_tab (en_universals e)"]) (simp add: bi_mutate_def bi_ok_def bi_valid_def layers_ok_def)
  next
    case False
    then show ?thesis using Some r lookup_ref_scope [OF inv, of w nm] layers_valid [OF ok l(1) b] b by auto
  qed
qed

lemma write_not_uniref:
  assumes ok: "layers_ok w e" and m: "bi_mutate b w = (a, w1)" and bk: "bi_ok w b"
    and b: "b = BI_tab (en_globals e) \<or> b = BI_tab (en_universals e)
      \<or> (\<exists>l \<in> set (en_stack e). sl_typ l \<noteq> LAYER_UNIREFS \<and> sl_bindings l = Some b)"
    and l: "l \<in> set (en_stack e)" "sl_typ l = LAYER_UNIREFS"
  shows "layer_lookup (bindtab_insert a nm v w1) l nm' = layer_lookup w l nm'"
proof -
  obtain x where x: "sl_bindings l = Some (BI_tab x)" "x \<noteq> en_universals e" "x \<noteq> en_globals e"
    "\<forall>l' \<in> set (en_stack e). \<forall>b. sl_typ l' \<noteq> LAYER_UNIREFS \<longrightarrow> sl_bindings l' = Some b \<longrightarrow> bi_table w b \<noteq> x"
    using ok l unfolding layers_ok_def by blast
  have v: "bi_ok w (BI_tab x)" by (rule layers_valid [OF ok l(1) x(1)])
  have "bi_table w b \<noteq> x" using b x by (auto simp: bi_table_def)
  moreover have "x < st_next w" using v by (simp add: bi_ok_def bi_valid_def)
  ultimately have "a \<noteq> x" using mutate_cases [OF m] by auto
  then have "bi_lookup (bindtab_insert a nm v w1) (BI_tab x) nm' = bi_lookup w (BI_tab x) nm'"
    using bl.mut_lookup [OF bk v m] by (simp add: bl.lookup_ins bi_table_def)
  then show ?thesis by (simp add: layer_lookup_def x(1))
qed

lemma globals_in_scope: "env_inv e \<Longrightarrow> layer (Some (BI_tab (en_globals e))) LAYER_GLOBALS \<in> set (scope e)"
  by (auto simp: env_inv_def scope_def base_frames_def in_set_conv_nth intro!: exI [of _ "en_global_frames e"])

lemma ref_target:
  assumes f: "case find (hit w nm) (scope e) of None \<Rightarrow> b = BI_tab (en_globals e)
     | Some l \<Rightarrow> if sl_typ l = LAYER_UNIREFS then b = BI_tab (en_universals e) else sl_bindings l = Some b"
  shows "b = BI_tab (en_globals e) \<or> b = BI_tab (en_universals e)
      \<or> (\<exists>l \<in> set (en_stack e). sl_typ l \<noteq> LAYER_UNIREFS \<and> sl_bindings l = Some b)"
proof (cases "find (hit w nm) (scope e)")
  case (Some l)
  then have "l \<in> set (en_stack e)" using set_scope [of e] by (auto simp: find_Some_iff)
  then show ?thesis using f Some by (auto split: if_splits)
next
  case None
  then show ?thesis using f by simp
qed

lemma assign_lookup:
  assumes inv: "env_inv e" and ok: "layers_ok w e" and r: "lookup_ref w e nm = Some (a, w1)"
  shows "lookup_val nul (mref_set_value a nm (Some v) w1) e nm = Some (Some v)"
proof -
  let ?w2 = "bindtab_insert a nm (Some v) w1"
  let ?G = "\<lambda>l. layer_value nul ?w2 (en_universals e) nm l = v"
  obtain b where b: "bi_ok w b" "bi_mutate b w = (a, w1)" and f: "case find (hit w nm) (scope e) of None \<Rightarrow> b = BI_tab (en_globals e)
     | Some l \<Rightarrow> if sl_typ l = LAYER_UNIREFS then b = BI_tab (en_universals e) else sl_bindings l = Some b"
    using ref_write [OF inv ok r] by blast
  note same = write_not_uniref [OF ok b(2,1) ref_target [OF f], where v = "Some v" and nm = nm and nm' = nm]
  have "\<exists>z. find (hit ?w2 nm) (scope e) = Some z \<and> ?G z"
  proof (rule find_replace [where P = "hit w nm"])
    show "\<forall>l \<in> set (scope e). hit ?w2 nm l \<longrightarrow> ?G l \<or> hit w nm l"
    proof (intro ballI impI)
      fix l assume l: "l \<in> set (scope e)" "hit ?w2 nm l"
      have ls: "l \<in> set (en_stack e)" using l set_scope by blast
      obtain b' where b': "sl_bindings l = Some b'" using l by (cases "sl_bindings l") (auto simp: hit_def layer_lookup_def)
      show "?G l \<or> hit w nm l"
      proof (cases "sl_typ l = LAYER_UNIREFS")
        case True
        then show ?thesis using same [OF ls] l by (simp add: hit_def)
      next
        case False
        then show ?thesis using bl.write_cases [OF b(1) layers_valid [OF ok ls b'] b(2), of nm "Some v"] l b'
          by (auto simp: hit_def layer_lookup_def layer_value_def)
      qed
    qed
  next
    fix l assume l: "find (hit w nm) (scope e) = Some l"
    then have ls: "l \<in> set (en_stack e)" "hit w nm l" using set_scope [of e] by (auto simp: find_Some_iff)
    show "hit ?w2 nm l \<and> ?G l"
    proof (cases "sl_typ l = LAYER_UNIREFS")
      case True
      then have "a = en_universals e" using f l b(2) by (auto simp: bi_mutate_def)
      then show ?thesis using same [OF ls(1) True] ls True by (simp add: hit_def layer_value_def lookup_insert)
    next
      case False
      then show ?thesis using f l bl.write_read [OF b(1,2), of nm "Some v"]
        by (simp add: hit_def layer_lookup_def layer_value_def)
    qed
  next
    assume "find (hit w nm) (scope e) = None"
    then have "b = BI_tab (en_globals e)" using f by simp
    then show "\<exists>l \<in> set (scope e). hit ?w2 nm l"
      using bl.write_read [OF b(1,2), of nm "Some v"] globals_in_scope [OF inv]
      by (intro bexI [of _ "layer (Some (BI_tab (en_globals e))) LAYER_GLOBALS"]) (simp_all add: hit_def layer_lookup_def layer_def)
  qed
  then show ?thesis by (auto simp: mref_set_value_def lookup_val_scope [OF inv])
qed

lemma assign_other:
  assumes inv: "env_inv e" and ok: "layers_ok w e" and r: "lookup_ref w e nm = Some (a, w1)" and nm: "nm' \<noteq> nm"
  shows "lookup_val nul (mref_set_value a nm x w1) e nm' = lookup_val nul w e nm'"
proof -
  let ?w2 = "bindtab_insert a nm x w1"
  obtain b where b: "bi_ok w b" "bi_mutate b w = (a, w1)" using ref_write [OF inv ok r] by blast
  have l: "layer_lookup ?w2 l nm' = layer_lookup w l nm'" if "l \<in> set (scope e)" for l
  proof (cases "sl_bindings l")
    case (Some b')
    have "bi_ok w b'" using layers_valid [OF ok _ Some] that set_scope by blast
    then show ?thesis using bl.write_other [OF b(1) _ b(2) nm] Some by (simp add: layer_lookup_def)
  qed (simp add: layer_lookup_def)
  have "bi_ok w (BI_tab (en_universals e))" using ok by (simp add: layers_ok_def bi_ok_def bi_valid_def)
  from bl.write_other [OF b(1) this b(2) nm]
  have u: "bindtab_lookup ?w2 (en_universals e) nm' = bindtab_lookup w (en_universals e) nm'"
    by (simp add: bi_lookup_def bi_table_def)
  have "find (hit ?w2 nm') (scope e) = find (hit w nm') (scope e)" using l by (intro find_cong) (simp_all add: hit_def)
  moreover have "layer_value nul ?w2 (en_universals e) nm' z = layer_value nul w (en_universals e) nm' z"
    if "find (hit w nm') (scope e) = Some z" for z
  proof -
    have "z \<in> set (scope e)" using that by (auto simp: find_Some_iff)
    then show ?thesis using l u by (simp add: layer_value_def)
  qed
  ultimately show ?thesis
    by (cases "find (hit w nm') (scope e)") (simp_all add: mref_set_value_def lookup_val_scope [OF inv])
qed

section \<open>Closures\<close>

text \<open>A closure captures the layers down to the first barrier of either kind.\<close>

fun until_capture :: "stack_layer list \<Rightarrow> stack_layer list" where
  "until_capture [] = []"
| "until_capture (l # ls) =
     (if sl_typ l = LAYER_LOCALS_BARRIER \<or> sl_typ l = LAYER_LOCALS_BARRIER_WEAK then [l] else l # until_capture ls)"

lemma length_until_capture: "length (until_capture ls) \<le> length ls"
  by (induction ls) auto

lemma until_capture_prefix: "until_capture ls = take (length (until_capture ls)) ls"
  by (induction ls) auto

lemma descend_spec:
  assumes inv: "env_inv e" and n: "n \<le> length (upper_frames e)"
  shows "descend_to_barrier (en_stack e) (Suc (en_global_frames e) + n) =
    int (Suc (en_global_frames e) + n - length (until_capture (rev (take n (upper_frames e)))))"
  using n
proof (induction n)
  case 0
  then show ?case using inv by (simp add: env_inv_def layer_def)
next
  case (Suc n)
  let ?l = "upper_frames e ! n"
  have l: "en_stack e ! (Suc (en_global_frames e) + n) = ?l" using Suc.prems by (simp add: upper_frames_def)
  have tk: "rev (take (Suc n) (upper_frames e)) = ?l # rev (take n (upper_frames e))"
    using Suc.prems by (simp add: take_Suc_conv_app_nth)
  have "?l \<in> set (upper_frames e)" using Suc.prems by simp
  then have t: "sl_typ ?l \<in> {LAYER_LOCALS, LAYER_LOCALS_BARRIER, LAYER_LOCALS_BARRIER_WEAK, LAYER_UNIREFS}"
    using inv by (auto simp: env_inv_def is_local_def)
  show ?case using Suc l tk t by (auto simp del: take_Suc)
qed

lemma capture_spec: "env_inv e \<Longrightarrow> rev (capture_closure e) = until_capture (rev (upper_frames e))"
proof -
  assume inv: "env_inv e"
  let ?k = "length (until_capture (rev (upper_frames e)))" and ?g = "Suc (en_global_frames e)"
  have len: "length (en_stack e) = ?g + length (upper_frames e)"
    using inv by (auto simp: env_inv_def upper_frames_def)
  have k: "?k \<le> length (upper_frames e)" using length_until_capture [of "rev (upper_frames e)"] by simp
  have "descend_to_barrier (en_stack e) (length (en_stack e)) = int (length (en_stack e) - ?k)"
    using descend_spec [OF inv, of "length (upper_frames e)"] len by simp
  then have "capture_closure e = drop (length (en_stack e) - ?k) (en_stack e)"
    by (simp add: capture_closure_def Let_def)
  also have "\<dots> = drop (length (upper_frames e) - ?k) (upper_frames e)"
  proof -
    have "length (base_frames e) = ?g" using inv by (auto simp: env_inv_def base_frames_def)
    moreover have "length (en_stack e) - ?k = ?g + (length (upper_frames e) - ?k)" using k len by simp
    ultimately show ?thesis using stack_split [of e] by (metis append_Nil drop_all drop_append le_add1 diff_add_inverse)
  qed
  finally have "rev (capture_closure e) = take ?k (rev (upper_frames e))" by (simp add: take_rev)
  then show ?thesis by (rule trans) (rule until_capture_prefix [symmetric])
qed

definition no_weak :: "env \<Rightarrow> bool" where
  "no_weak e \<longleftrightarrow> (\<forall>l \<in> set (upper_frames e). sl_typ l \<noteq> LAYER_LOCALS_BARRIER_WEAK)"

lemma until_same: "\<forall>l \<in> set ls. sl_typ l \<noteq> LAYER_LOCALS_BARRIER_WEAK \<Longrightarrow> until_capture ls = until_barrier ls"
  by (induction ls) (auto simp: is_barrier_def)

lemma until_append:
  "until_barrier (xs @ ys) = (if \<exists>l \<in> set xs. is_barrier l then until_barrier xs else xs @ until_barrier ys)"
  by (induction xs) auto

lemma until_idem: "until_barrier (until_barrier xs) = until_barrier xs"
  by (induction xs) auto

lemma until_last: "(\<exists>l \<in> set (until_barrier xs). is_barrier l) \<longleftrightarrow> until_barrier xs \<noteq> [] \<and> is_barrier (last (until_barrier xs))"
proof (induction xs)
  case (Cons l xs)
  then show ?case by (cases "until_barrier xs = []") auto
qed simp

lemma find_append_none: "\<forall>x \<in> set ys. \<not> P x \<Longrightarrow> find P (xs @ ys @ zs) = find P (xs @ zs)"
  by (induction xs) (auto, induction ys, auto)

lemma lambda_scope:
  assumes inv: "env_inv e" "env_inv e'" "no_weak e" and base: "base_frames e' = base_frames e"
    and none: "bi_lookup w b nm = None"
  shows "find (hit w nm) (scope (snd (push_lambda (Some b) (Some (capture_closure e)) e'))) = find (hit w nm) (scope e)"
proof -
  let ?U = "until_barrier (rev (upper_frames e))" and ?c = "capture_closure e" and ?B = "layer (Some b) LAYER_LOCALS"
  let ?bar = "layer None LAYER_LOCALS_BARRIER"
  let ?new = "snd (push_lambda (Some b) (Some ?c) e')"
  have U: "rev ?c = ?U" using capture_spec [OF inv(1)] until_same inv(3) by (simp add: no_weak_def)
  have hd: "(?c = [] \<or> sl_typ (?c ! 0) \<noteq> LAYER_LOCALS_BARRIER) = (\<not> (\<exists>l \<in> set ?U. is_barrier l))"
    using until_last [of "rev (upper_frames e)"] unfolding U [symmetric] by (cases ?c) (auto simp: is_barrier_def last_rev)
  have gf: "length (base_frames e') = Suc (en_global_frames e')" using inv(2) by (auto simp: env_inv_def base_frames_def)
  have new: "en_global_frames ?new = en_global_frames e'"
    "en_stack ?new = en_stack e' @ (if \<exists>l \<in> set ?U. is_barrier l then [] else [?bar]) @ ?c @ [?B]"
    unfolding push_lambda_def push_locals_def push_barrier_def using hd by (auto simp: Let_def)
  have "upper_frames ?new = upper_frames e' @ (if \<exists>l \<in> set ?U. is_barrier l then [] else [?bar]) @ ?c @ [?B]"
    "base_frames ?new = base_frames e"
    using new gf base by (simp_all add: upper_frames_def base_frames_def)
  then have sc: "scope ?new = until_barrier (?B # ?U @ (if \<exists>l \<in> set ?U. is_barrier l then [] else [?bar]) @ rev (upper_frames e'))
      @ rev (base_frames e)"
    using U by (auto simp: scope_def)
  have B: "\<not> is_barrier ?B" "\<not> hit w nm ?B" "is_barrier ?bar" "\<not> hit w nm ?bar"
    using none by (simp_all add: is_barrier_def layer_def hit_def layer_lookup_def)
  show ?thesis
    unfolding sc using B find_append_none [of "[?bar]" "hit w nm" ?U "rev (base_frames e)"]
    by (auto simp: until_append until_idem scope_def)
qed

section \<open>Balanced use\<close>

lemma push_pop:
  "pop_to (fst (push_lambda bi cls e)) (snd (push_lambda bi cls e)) = e"
  "pop_to (fst (push_locals t lt e)) (snd (push_locals t lt e)) = e"
  by (auto simp: pop_to_def push_lambda_def push_locals_def push_barrier_def Let_def split: option.splits)

section \<open>The environments of a running template\<close>

text \<open>
  The states an evaluation goes through: the environment, the store, the stack sizes that were handed out
  and not yet popped to, and (for the proofs only) the tables of names made by \<^verbatim>\<open>push_references\<close> and the
  closures captured so far.
\<close>

definition free_table :: "'v store \<Rightarrow> nat set \<Rightarrow> bind_interface \<Rightarrow> bool" where
  "free_table w R b \<longleftrightarrow> bi_valid w b \<and> bi_table w b \<notin> R"

inductive env_reach :: "env \<Rightarrow> 'v store \<Rightarrow> nat list \<Rightarrow> nat set \<Rightarrow> stack_layer list list \<Rightarrow> bool" where
  reach_init: "store_ok w \<Longrightarrow> \<forall>t \<in> set libs. t < st_next w \<Longrightarrow> u < st_next w \<Longrightarrow> \<forall>a. g = Some a \<longrightarrow> a < st_next w
    \<Longrightarrow> env_new libs u g w = (e, w') \<Longrightarrow> env_reach e w' [] {} []"
| reach_table: "env_reach e w ms R cs \<Longrightarrow> env_reach e (snd (bindtab_alloc w)) ms R cs"
| reach_cow: "env_reach e w ms R cs \<Longrightarrow> t < st_next w \<Longrightarrow> t \<notin> R \<Longrightarrow> env_reach e (snd (cow_alloc t w)) ms R cs"
| reach_write: "env_reach e w ms R cs \<Longrightarrow> a < st_next w \<Longrightarrow> a \<notin> R \<Longrightarrow> env_reach e (bindtab_insert a k v w) ms R cs"
| reach_locals: "env_reach e w ms R cs \<Longrightarrow> \<forall>b. t = Some b \<longrightarrow> free_table w R b
    \<Longrightarrow> lt \<in> {LAYER_LOCALS, LAYER_LOCALS_BARRIER, LAYER_LOCALS_BARRIER_WEAK}
    \<Longrightarrow> push_locals t lt e = (m, e') \<Longrightarrow> env_reach e' w (m # ms) R cs"
| reach_lambda: "env_reach e w ms R cs \<Longrightarrow> \<forall>b. t = Some b \<longrightarrow> free_table w R b
    \<Longrightarrow> \<forall>c. cls = Some c \<longrightarrow> c \<in> set cs \<Longrightarrow> push_lambda t cls e = (m, e') \<Longrightarrow> env_reach e' w (m # ms) R cs"
| reach_bindings: "env_reach e w ms R cs \<Longrightarrow> push_bindings typ cfg e w = Some (r, e', w') \<Longrightarrow> env_reach e' w' ms R cs"
| reach_references: "env_reach e w ms R cs \<Longrightarrow> push_references names LAYER_UNIVERSALS e w = (e', w')
    \<Longrightarrow> env_reach e' w' ms (insert (st_next w) R) cs"
| reach_globals: "env_reach e w ms R cs \<Longrightarrow> \<forall>a. t = Some a \<longrightarrow> a < st_next w \<and> a \<notin> R
    \<Longrightarrow> bind_globals t e w = (m, e', w') \<Longrightarrow> env_reach e' w' (m # ms) R cs"
| reach_pop: "env_reach e w (xs @ m # ms) R cs \<Longrightarrow> env_reach (pop_to m e) w ms R cs"
| reach_capture: "env_reach e w ms R cs \<Longrightarrow> env_reach e w ms R (capture_closure e # cs)"
| reach_ref: "env_reach e w ms R cs \<Longrightarrow> lookup_ref w e nm = Some (a, w') \<Longrightarrow> env_reach e w' ms R cs"
| reach_layer: "env_reach e w ms R cs \<Longrightarrow> lookup_layer nm lt creat e w = (a, w') \<Longrightarrow> env_reach e w' ms R cs"

text \<open>The invariant.\<close>

definition layer_ok :: "'v store \<Rightarrow> nat set \<Rightarrow> stack_layer \<Rightarrow> bool" where
  "layer_ok w R l \<longleftrightarrow> (if sl_typ l = LAYER_UNIREFS then \<exists>a. sl_bindings l = Some (BI_tab a) \<and> a \<in> R
     else \<forall>b. sl_bindings l = Some b \<longrightarrow> free_table w R b)"

definition upper_typ :: "stack_layer \<Rightarrow> bool" where
  "upper_typ l \<longleftrightarrow> is_local l \<or> sl_typ l = LAYER_UNIREFS"

definition store_inv :: "'v store \<Rightarrow> nat set \<Rightarrow> bool" where
  "store_inv w R \<longleftrightarrow> store_ok w \<and> (\<forall>a \<in> R. a < st_next w)"

definition reach_inv :: "env \<Rightarrow> 'v store \<Rightarrow> nat list \<Rightarrow> nat set \<Rightarrow> stack_layer list list \<Rightarrow> bool" where
  "reach_inv e w ms R cs \<longleftrightarrow> env_inv e \<and> store_inv w R
     \<and> en_universals e < st_next w \<and> en_universals e \<notin> R \<and> en_globals e < st_next w \<and> en_globals e \<notin> R
     \<and> (\<forall>l \<in> set (en_stack e) \<union> \<Union> (set ` set cs). layer_ok w R l)
     \<and> (\<forall>l \<in> \<Union> (set ` set cs). upper_typ l)
     \<and> sorted_wrt (\<ge>) (length (en_stack e) # ms) \<and> (\<forall>m \<in> set ms. en_global_frames e < m)"

lemma layers_ok_reach: "reach_inv e w ms R cs \<Longrightarrow> layers_ok w e"
proof -
  assume inv: "reach_inv e w ms R cs"
  then have l: "layer_ok w R l" if "l \<in> set (en_stack e)" for l using that by (simp add: reach_inv_def)
  have R: "a < st_next w" "a \<noteq> en_universals e" "a \<noteq> en_globals e" if "a \<in> R" for a
    using inv that by (auto simp: reach_inv_def store_inv_def)
  have "bi_valid w b" if "l \<in> set (en_stack e)" "sl_bindings l = Some b" for l b
    using l [OF that(1)] that(2) R by (auto simp: layer_ok_def free_table_def bi_valid_def split: if_splits)
  moreover have "\<exists>a. sl_bindings l = Some (BI_tab a) \<and> a \<noteq> en_universals e \<and> a \<noteq> en_globals e
      \<and> (\<forall>l' \<in> set (en_stack e). \<forall>b. sl_typ l' \<noteq> LAYER_UNIREFS \<longrightarrow> sl_bindings l' = Some b \<longrightarrow> bi_table w b \<noteq> a)"
    if u: "l \<in> set (en_stack e)" "sl_typ l = LAYER_UNIREFS" for l
  proof -
    obtain a where a: "sl_bindings l = Some (BI_tab a)" "a \<in> R" using l [OF u(1)] u(2) by (auto simp: layer_ok_def)
    have "bi_table w b \<noteq> a" if "l' \<in> set (en_stack e)" "sl_typ l' \<noteq> LAYER_UNIREFS" "sl_bindings l' = Some b" for l' b
      using l [OF that(1)] that(2,3) a(2) by (auto simp: layer_ok_def free_table_def)
    then show ?thesis using a R by blast
  qed
  ultimately show ?thesis using inv by (auto simp: layers_ok_def reach_inv_def store_inv_def)
qed

text \<open>The store grows: addresses stay in use, and a table that is copied gets a new address.\<close>

definition grows :: "nat set \<Rightarrow> 'v store \<Rightarrow> 'v store \<Rightarrow> bool" where
  "grows R w w' \<longleftrightarrow> st_next w \<le> st_next w' \<and> st_cow_next w \<le> st_cow_next w'
     \<and> (\<forall>c < st_cow_next w. fst (st_cow w' c) = fst (st_cow w c)
          \<and> (snd (st_cow w' c) = snd (st_cow w c) \<or> (\<exists>a. snd (st_cow w' c) = Some a \<and> a < st_next w' \<and> a \<notin> R)))"

lemma grows_refl [simp]: "grows R w w"
  by (simp add: grows_def)

lemma grows_free:
  assumes g: "grows R' w w'" and b: "free_table w R b" and R: "\<forall>a \<in> R' - R. st_next w \<le> a"
  shows "free_table w' R' b"
proof (cases b)
  case (BI_tab a)
  then have "a < st_next w" "a \<notin> R" "st_next w \<le> st_next w'"
    using assms by (auto simp: free_table_def bi_valid_def bi_table_def grows_def)
  moreover from this have "a \<notin> R'" using R by (meson DiffI leD)
  ultimately show ?thesis using BI_tab by (simp add: free_table_def bi_valid_def bi_table_def)
next
  case (BI_cow c)
  then have c: "c < st_cow_next w" "fst (st_cow w c) < st_next w" "cow_tab w c \<notin> R"
    "case snd (st_cow w c) of None \<Rightarrow> True | Some a \<Rightarrow> a < st_next w"
    using b by (auto simp: free_table_def bi_valid_def bi_table_def)
  have t: "cow_tab w c < st_next w" using c by (auto simp: cow_tab_def split: prod.splits option.splits)
  then have n: "cow_tab w c \<notin> R'" using R c(3) by (meson DiffI leD)
  have e: "fst (st_cow w' c) = fst (st_cow w c)"
    "snd (st_cow w' c) = snd (st_cow w c) \<or> (\<exists>a. snd (st_cow w' c) = Some a \<and> a < st_next w' \<and> a \<notin> R')"
    "c < st_cow_next w'" "st_next w \<le> st_next w'"
    using g c(1) by (auto simp: grows_def)
  show ?thesis
    using BI_cow c(2,4) n e by (auto simp: free_table_def bi_valid_def bi_table_def cow_tab_def split: prod.splits option.splits)
qed

lemma grows_layer:
  assumes "grows R' w w'" "layer_ok w R l" "R \<subseteq> R'" "\<forall>a \<in> R' - R. st_next w \<le> a"
  shows "layer_ok w' R' l"
  using assms grows_free [OF assms(1) _ assms(4)] by (auto simp: layer_ok_def split: if_splits)

lemma grows_ops:
  "grows R w (snd (bindtab_alloc w))" "grows R w (snd (cow_alloc t w))" "grows R w (bindtab_insert a k v w)"
  "grows R w (overwrite_with a ts w)"
  by (auto simp: grows_def bindtab_alloc_def cow_alloc_def)

lemma store_ok_insert: "store_ok w \<Longrightarrow> store_ok (bindtab_insert a k v w)"
  by (simp add: store_ok_def bindtab_insert_def distinct_update)

lemma store_ok_overwrite: "store_ok w \<Longrightarrow> store_ok (overwrite_with a ts w)"
  unfolding overwrite_with_def by (induction ts arbitrary: w) (auto simp: store_ok_insert)

lemma store_ok_alloc: "store_ok w \<Longrightarrow> store_ok (snd (bindtab_alloc w))"
  by (simp add: store_ok_def bindtab_alloc_def)

lemma mutate_grows:
  assumes "store_inv w R" "bi_mutate b w = (a, w')"
  shows "grows R w w' \<and> store_inv w' R"
proof (cases "\<exists>c t. b = BI_cow c \<and> st_cow w c = (t, None)")
  case False
  then have "w' = w" using assms by (auto simp: bi_mutate_def cow_mutate_def split: bind_interface.splits prod.splits option.splits)
  then show ?thesis using assms by simp
next
  case True
  then obtain c t where c: "b = BI_cow c" "st_cow w c = (t, None)" by blast
  let ?w1 = "snd (bindtab_alloc w)"
  have w': "w' = (overwrite_with (st_next w) (st_tab ?w1 t) ?w1)\<lparr>st_cow := (st_cow w)(c := (t, Some (st_next w)))\<rparr>"
    using assms(2) c by (auto simp: bi_mutate_def cow_mutate_def bindtab_alloc_def Let_def)
  have "store_ok ((overwrite_with (st_next w) (st_tab ?w1 t) ?w1)\<lparr>st_cow := f\<rparr>)" for f
    using store_ok_overwrite [OF store_ok_alloc, of w "st_next w" "st_tab ?w1 t"] assms(1) by (simp add: store_inv_def store_ok_def)
  then show ?thesis using assms(1) c w'
    by (auto simp: grows_def store_inv_def bindtab_alloc_def)
qed

text \<open>What each step does to the invariant.\<close>

lemma inv_store:
  assumes inv: "reach_inv e w ms R cs" and g: "grows R w w'" and s: "store_inv w' R"
  shows "reach_inv e w' ms R cs"
proof -
  have "layer_ok w' R l" if "layer_ok w R l" for l by (rule grows_layer [OF g that]) auto
  then show ?thesis using inv g s by (auto simp: reach_inv_def grows_def)
qed

lemma env_inv_push:
  assumes "env_inv e" "\<forall>l \<in> set ls. upper_typ l"
  shows "env_inv (e\<lparr>en_stack := en_stack e @ ls\<rparr>)"
  using assms by (auto simp: env_inv_def base_frames_def upper_frames_def upper_typ_def nth_append)

lemma inv_push:
  assumes inv: "reach_inv e w ms R cs" and ls: "\<forall>l \<in> set ls. layer_ok w R l \<and> upper_typ l"
  shows "reach_inv (e\<lparr>en_stack := en_stack e @ ls\<rparr>) w (length (en_stack e) # ms) R cs"
    and "reach_inv (e\<lparr>en_stack := en_stack e @ ls\<rparr>) w ms R cs"
proof -
  have "env_inv (e\<lparr>en_stack := en_stack e @ ls\<rparr>)" using env_inv_push inv ls by (simp add: reach_inv_def)
  moreover have "en_global_frames e < length (en_stack e)" using inv by (simp add: reach_inv_def env_inv_def)
  ultimately show "reach_inv (e\<lparr>en_stack := en_stack e @ ls\<rparr>) w (length (en_stack e) # ms) R cs"
    "reach_inv (e\<lparr>en_stack := en_stack e @ ls\<rparr>) w ms R cs"
    using inv ls by (auto simp: reach_inv_def)
qed

lemma inv_pop:
  assumes inv: "reach_inv e w (xs @ m # ms) R cs"
  shows "reach_inv (pop_to m e) w ms R cs"
proof -
  have m: "m \<le> length (en_stack e)" "en_global_frames e < m" "sorted_wrt (\<ge>) (m # ms)"
    using inv by (auto simp: reach_inv_def sorted_wrt_append)
  have p: "pop_to m e = e\<lparr>en_stack := take m (en_stack e)\<rparr>" using m by (simp add: pop_to_def)
  have "set (drop k (take m (en_stack e))) \<subseteq> set (drop k (en_stack e))" for k
    by (metis drop_take set_take_subset)
  then have "env_inv (pop_to m e)"
    using inv m p by (auto simp: reach_inv_def env_inv_def base_frames_def upper_frames_def min_def subset_iff)
  moreover have "set (take m (en_stack e)) \<subseteq> set (en_stack e)" by (rule set_take_subset)
  ultimately show ?thesis using inv m p by (auto simp: reach_inv_def)
qed

lemma inv_capture:
  assumes inv: "reach_inv e w ms R cs"
  shows "reach_inv e w ms R (capture_closure e # cs)"
proof -
  have "env_inv e" using inv by (simp add: reach_inv_def)
  then have "set (capture_closure e) \<subseteq> set (upper_frames e)"
    using capture_spec [of e] until_capture_prefix [of "rev (upper_frames e)"]
    by (metis set_rev set_take_subset)
  moreover have "set (upper_frames e) \<subseteq> set (en_stack e)" by (auto simp: stack_split [of e])
  ultimately show ?thesis using inv by (auto simp: reach_inv_def env_inv_def upper_typ_def)
qed

lemma inv_globals:
  assumes inv: "reach_inv e w ms R cs" and a: "a < st_next w" "a \<notin> R"
  shows "reach_inv (e\<lparr>en_globals := a, en_stack := (en_stack e)[en_global_frames e :=
     (en_stack e ! en_global_frames e)\<lparr>sl_bindings := Some (BI_tab a)\<rparr>]\<rparr>) w ms R cs"
proof -
  let ?g = "en_global_frames e" and ?l = "layer (Some (BI_tab a)) LAYER_GLOBALS"
  have g: "?g < length (en_stack e)" "(en_stack e ! ?g)\<lparr>sl_bindings := Some (BI_tab a)\<rparr> = ?l"
    using inv by (auto simp: reach_inv_def env_inv_def layer_def)
  have t: "take (Suc ?g) ((en_stack e)[?g := ?l]) = (take (Suc ?g) (en_stack e))[?g := ?l]"
    "drop (Suc ?g) ((en_stack e)[?g := ?l]) = drop (Suc ?g) (en_stack e)"
    by (simp_all add: take_update_swap)
  have "sl_typ ?l = LAYER_GLOBALS" "layer_ok w R ?l"
    using a by (simp_all add: layer_def layer_ok_def free_table_def bi_valid_def bi_table_def)
  moreover have "set ((en_stack e)[?g := ?l]) \<subseteq> insert ?l (set (en_stack e))" by (rule set_update_subset_insert)
  moreover have "set ((take (Suc ?g) (en_stack e))[?g := ?l]) \<subseteq> insert ?l (set (take (Suc ?g) (en_stack e)))"
    by (rule set_update_subset_insert)
  ultimately show ?thesis
    using inv a unfolding g(2) reach_inv_def env_inv_def base_frames_def upper_frames_def
    by (auto simp: t subset_iff)
qed

lemma libraries_ok:
  assumes "push_libraries ts stk w = (stk', w')" "store_ok w" "\<forall>t \<in> set ts. t < st_next w"
    "\<forall>l \<in> set stk. layer_ok w {} l \<and> sl_typ l = LAYER_LIBRARY"
  shows "store_ok w' \<and> st_next w' = st_next w \<and> (\<forall>l \<in> set stk'. layer_ok w' {} l \<and> sl_typ l = LAYER_LIBRARY)"
  using assms
proof (induction ts arbitrary: stk w)
  case (Cons t ts)
  let ?w1 = "snd (cow_alloc t w)" and ?l = "layer (Some (fst (cow_alloc t w))) LAYER_LIBRARY"
  have w1: "store_ok ?w1" "st_next ?w1 = st_next w" using Cons.prems(2) by (simp_all add: cow_alloc_def store_ok_def)
  have "layer_ok ?w1 {} l" if "l \<in> set stk" for l
    using grows_layer [OF grows_ops(2), of w "{}" l "{}" t] Cons.prems(4) that by auto
  moreover have "layer_ok ?w1 {} ?l" "sl_typ ?l = LAYER_LIBRARY"
    using Cons.prems(3) by (auto simp: layer_ok_def layer_def free_table_def bi_valid_def cow_alloc_def)
  moreover have "push_libraries ts (stk @ [?l]) ?w1 = (stk', w')"
    using Cons.prems(1) by (simp add: cow_alloc_def)
  ultimately have "\<forall>l \<in> set (stk @ [?l]). layer_ok ?w1 {} l \<and> sl_typ l = LAYER_LIBRARY"
    and p: "push_libraries ts (stk @ [?l]) ?w1 = (stk', w')" using Cons.prems(4) by simp_all
  from Cons.IH [OF p w1(1) _ this(1)] show ?case using w1(2) Cons.prems(3) by simp
qed simp

lemma inv_new:
  assumes w: "store_ok w" and l: "\<forall>t \<in> set libs. t < st_next w" and u: "u < st_next w"
    and g: "\<forall>a. g = Some a \<longrightarrow> a < st_next w" and e: "env_new libs u g w = (e, w')"
  shows "reach_inv e w' [] {} []"
proof -
  obtain ga w1 where ga: "(case g of Some a \<Rightarrow> (a, w) | None \<Rightarrow> bindtab_alloc w) = (ga, w1)" by force
  have w1: "store_ok w1" "st_next w \<le> st_next w1" "ga < st_next w1"
    using ga w g store_ok_alloc [OF w] by (auto simp: bindtab_alloc_def split: option.splits)
  obtain stk w2 where s: "push_libraries libs [] w1 = (stk, w2)" by force
  have ok: "store_ok w2" "st_next w2 = st_next w1" "\<forall>l \<in> set stk. layer_ok w2 {} l \<and> sl_typ l = LAYER_LIBRARY"
    using libraries_ok [OF s w1(1)] l w1(2) by fastforce+
  let ?U = "layer (Some (BI_tab u)) LAYER_UNIVERSALS" and ?G = "layer (Some (BI_tab ga)) LAYER_GLOBALS"
  have e': "e = \<lparr>en_library = None, en_universals = u, en_globals = ga, en_stack = stk @ [?U, ?G],
      en_global_frames = Suc (length stk)\<rparr>" "w' = w2"
    using e ga s by (auto simp: env_new_def)
  have "layer_ok w2 {} ?U" "layer_ok w2 {} ?G" using u w1 ok(2)
    by (simp_all add: layer_ok_def layer_def free_table_def bi_valid_def)
  then show ?thesis
    using ok u w1 unfolding e' by (auto simp: reach_inv_def env_inv_def base_frames_def upper_frames_def store_inv_def nth_append layer_def)
qed

definition lambda_layers :: "bind_interface option \<Rightarrow> stack_layer list option \<Rightarrow> stack_layer list" where
  "lambda_layers t cls =
     (case cls of None \<Rightarrow> [] | Some c \<Rightarrow> (if c = [] \<or> sl_typ (c ! 0) \<noteq> LAYER_LOCALS_BARRIER
        then [layer None LAYER_LOCALS_BARRIER] else []) @ c)
     @ (case t of None \<Rightarrow> [] | Some b \<Rightarrow> [layer (Some b) LAYER_LOCALS])"

lemma lambda_stack:
  "push_lambda t cls e = (length (en_stack e), e\<lparr>en_stack := en_stack e @ lambda_layers t cls\<rparr>)"
  by (cases cls; cases t) (auto simp: push_lambda_def push_locals_def push_barrier_def lambda_layers_def Let_def)

lemma layer_ok_new:
  "lt \<noteq> LAYER_UNIREFS \<Longrightarrow> layer_ok w R (layer None lt)"
  "lt \<noteq> LAYER_UNIREFS \<Longrightarrow> free_table w R b \<Longrightarrow> layer_ok w R (layer (Some b) lt)"
  "a \<in> R \<Longrightarrow> layer_ok w R (layer (Some (BI_tab a)) LAYER_UNIREFS)"
  by (simp_all add: layer_ok_def layer_def)

lemma upper_typ_new: "lt \<in> {LAYER_LOCALS, LAYER_LOCALS_BARRIER, LAYER_LOCALS_BARRIER_WEAK, LAYER_UNIREFS} \<Longrightarrow> upper_typ (layer b lt)"
  by (auto simp: upper_typ_def is_local_def layer_def)

lemma inv_lambda:
  assumes inv: "reach_inv e w ms R cs" and t: "\<forall>b. t = Some b \<longrightarrow> free_table w R b"
    and c: "\<forall>c. cls = Some c \<longrightarrow> c \<in> set cs" and p: "push_lambda t cls e = (m, e')"
  shows "reach_inv e' w (m # ms) R cs"
proof -
  have "layer_ok w R l \<and> upper_typ l" if l: "l \<in> set (lambda_layers t cls)" for l
  proof -
    consider "l = layer None LAYER_LOCALS_BARRIER" | c where "cls = Some c" "l \<in> set c"
      | b where "t = Some b" "l = layer (Some b) LAYER_LOCALS"
      using l by (auto simp: lambda_layers_def split: option.splits if_splits)
    then show ?thesis
      using inv c t by cases (auto simp: layer_ok_new upper_typ_new reach_inv_def)
  qed
  then show ?thesis using inv_push(1) [OF inv] p by (auto simp: lambda_stack)
qed

lemma inv_references:
  assumes inv: "reach_inv e w ms R cs" and p: "push_references names LAYER_UNIVERSALS e w = (e', w')"
  shows "reach_inv e' w' ms (insert (st_next w) R) cs"
proof -
  let ?a = "st_next w" and ?w1 = "snd (bindtab_alloc w)"
  let ?R = "insert ?a R" and ?l = "layer (Some (BI_tab (st_next w))) LAYER_UNIREFS"
  have k: "fold (\<lambda>n. bindtab_insert ?a n None) names v = overwrite_with ?a (map (\<lambda>n. (n, None)) names) v" for v :: "'a store"
    by (induction names arbitrary: v) (auto simp: overwrite_with_def)
  have e': "e' = e\<lparr>en_stack := en_stack e @ [?l]\<rparr>" "w' = overwrite_with ?a (map (\<lambda>n. (n, None)) names) ?w1"
    using p by (auto simp: push_references_def keys_only_def k bindtab_alloc_def)
  have g: "grows ?R w w'" using grows_ops(1) [of ?R w] e' by (auto simp: grows_def bindtab_alloc_def)
  have fresh: "\<forall>x \<in> ?R - R. st_next w \<le> x" by auto
  have "store_inv w' ?R" using inv store_ok_overwrite [OF store_ok_alloc, of w] e'
    by (auto simp: reach_inv_def store_inv_def bindtab_alloc_def)
  moreover have "layer_ok w' ?R l" if "layer_ok w R l" for l by (rule grows_layer [OF g that _ fresh]) auto
  ultimately have "reach_inv e w' ms ?R cs" using inv g by (auto simp: reach_inv_def grows_def)
  then show ?thesis unfolding e'(1) by (rule inv_push(2)) (simp add: layer_ok_new upper_typ_new)
qed

lemma inv_bindings:
  assumes inv: "reach_inv e w ms R cs" and p: "push_bindings typ cfg e w = Some (r, e', w')"
  shows "reach_inv e' w' ms R cs"
proof (cases "typ = LAYER_LOCALS")
  case True
  let ?w1 = "snd (bindtab_alloc w)" and ?l = "layer (Some (BI_tab (st_next w))) LAYER_LOCALS"
  have e': "e' = e\<lparr>en_stack := en_stack e @ [?l]\<rparr>" "w' = ?w1"
    using p True by (auto simp: push_bindings_def bindtab_alloc_def)
  have R: "\<forall>a \<in> R. a < st_next w" "store_ok w" using inv by (simp_all add: reach_inv_def store_inv_def)
  have "store_inv ?w1 R" using R store_ok_alloc [of w] by (auto simp: store_inv_def bindtab_alloc_def)
  then have "reach_inv e ?w1 ms R cs" by (rule inv_store [OF inv grows_ops(1)])
  moreover have "layer_ok ?w1 R ?l"
    using R by (intro layer_ok_new) (auto simp: free_table_def bi_valid_def bi_table_def bindtab_alloc_def)
  ultimately show ?thesis unfolding e' by (intro inv_push(2)) (simp_all add: upper_typ_new)
next
  case False
  then have "e' = e" "w' = w" using p by (auto simp: push_bindings_def split: layer_type.splits)
  then show ?thesis using inv by simp
qed

lemma ref_grows:
  assumes inv: "reach_inv e w ms R cs" and r: "lookup_ref w e nm = Some (a, w')"
  shows "grows R w w' \<and> store_inv w' R"
proof -
  have "env_inv e" "store_inv w R" using inv by (simp_all add: reach_inv_def)
  then show ?thesis using ref_write [OF _ layers_ok_reach [OF inv] r] mutate_grows by blast
qed

lemma layer_grows:
  assumes s: "store_inv w R" and r: "lookup_layer nm lt creat e w = (a, w')"
  shows "grows R w w' \<and> store_inv w' R"
proof -
  have "w' = w \<or> (\<exists>b x. bi_mutate b w = (x, w'))"
    using r by (auto simp: lookup_layer_def split: layer_type.splits prod.splits option.splits if_splits)
  then show ?thesis using mutate_grows [OF s] s by auto
qed

lemma inv_bind_globals:
  assumes inv: "reach_inv e w ms R cs" and t: "\<forall>a. t = Some a \<longrightarrow> a < st_next w \<and> a \<notin> R"
    and p: "bind_globals t e w = (m, e', w')"
  shows "reach_inv e' w' (m # ms) R cs"
proof -
  have m: "m = length (en_stack e)" using p by (simp add: bind_globals_def)
  have mark: "reach_inv x v (length (en_stack e) # ms) R cs"
    if "reach_inv x v ms R cs" "length (en_stack x) = length (en_stack e)" for x and v :: "'a store"
    using inv_push(1) [OF that(1), of "[]"] that(2) by simp
  have "store_inv (bindtab_add (en_globals e) b w) R" "grows R w (bindtab_add (en_globals e) b w)" for b
    using inv grows_ops(4) store_ok_overwrite by (auto simp: bindtab_add_def reach_inv_def store_inv_def)
  then have "reach_inv e (bindtab_add (en_globals e) b w) ms R cs" for b using inv_store [OF inv] by blast
  then show ?thesis
    using p t inv inv_globals [OF inv] unfolding m
    by (intro mark) (auto simp: bind_globals_def split: option.splits if_splits)
qed

lemma reach_reach_inv: "env_reach e w ms R cs \<Longrightarrow> reach_inv e w ms R cs"
proof (induction rule: env_reach.induct)
  case (reach_init w libs u g e w')
  then show ?case by (intro inv_new)
next
  case (reach_table e w ms R cs)
  then show ?case by (intro inv_store [OF _ grows_ops(1)])
    (auto simp: reach_inv_def store_inv_def store_ok_alloc bindtab_alloc_def store_ok_def)
next
  case (reach_cow e w ms R cs t)
  then show ?case by (intro inv_store [OF _ grows_ops(2)])
    (auto simp: reach_inv_def store_inv_def cow_alloc_def store_ok_def)
next
  case (reach_write e w ms R cs a k v)
  then show ?case by (intro inv_store [OF _ grows_ops(3)]) (auto simp: reach_inv_def store_inv_def store_ok_insert)
next
  case (reach_locals e w ms R cs t lt m e')
  then have "m = length (en_stack e)" "e' = e\<lparr>en_stack := en_stack e @ (case t of None \<Rightarrow> [] | Some b \<Rightarrow> [layer (Some b) lt])\<rparr>"
    by (auto simp: push_locals_def split: option.splits)
  moreover have "\<forall>l \<in> set (case t of None \<Rightarrow> [] | Some b \<Rightarrow> [layer (Some b) lt]). layer_ok w R l \<and> upper_typ l"
    using reach_locals.hyps by (auto simp: layer_ok_new upper_typ_new split: option.splits)
  ultimately show ?case using inv_push(1) [OF reach_locals.IH] by simp
next
  case (reach_lambda e w ms R cs t cls m e')
  then show ?case using inv_lambda by blast
next
  case (reach_bindings e w ms R cs lt cfg r e' w')
  then show ?case using inv_bindings by blast
next
  case (reach_references e w ms R cs names e' w')
  then show ?case using inv_references by blast
next
  case (reach_globals e w ms R cs t m e' w')
  then show ?case using inv_bind_globals by blast
next
  case (reach_pop e w xs m ms R cs)
  then show ?case using inv_pop by blast
next
  case (reach_capture e w ms R cs)
  then show ?case using inv_capture by blast
next
  case (reach_ref e w ms R cs nm a w')
  then show ?case using inv_store ref_grows by blast
next
  case (reach_layer e w ms R cs nm lt creat a w')
  then have "store_inv w R" by (simp add: reach_inv_def)
  then show ?case using reach_layer inv_store layer_grows by blast
qed

section \<open>Properties\<close>

text \<open>A small environment for the examples: one global \<open>x\<close>, and a function with a parameter \<open>y\<close>.\<close>

definition demo_store :: "int store" where
  "demo_store = \<lparr>st_tab = (\<lambda>_. [])(1 := [(''x'', Some 5)], 2 := [(''y'', Some 6)], 3 := [(''z'', Some 8)]), st_next = 4,
     st_cow = (\<lambda>_. (0, None)), st_cow_next = 0\<rparr>"

definition demo_env :: env where
  "demo_env = \<lparr>en_library = None, en_universals = 0, en_globals = 1,
     en_stack = [layer (Some (BI_tab 0)) LAYER_UNIVERSALS, layer (Some (BI_tab 1)) LAYER_GLOBALS], en_global_frames = 1\<rparr>"

lemma reach_env_inv: "env_reach e w ms R cs \<Longrightarrow> env_inv e"
  using reach_reach_inv reach_inv_def by blast

lemma demo_reach: "env_reach demo_env demo_store [] {} []"
proof (rule reach_init [where w = demo_store and libs = "[]" and u = 0 and g = "Some 1"])
  show "store_ok demo_store" by (simp add: store_ok_def demo_store_def)
qed (simp_all add: demo_store_def demo_env_def env_new_def)

text \<open>
  C15.  Name resolution follows the scope rules and ends: in every environment a running template
  can reach, looking up a name returns, and gives the value of the first layer that binds it among
  the layers from the top of the stack down to the first barrier, followed by the globals, the universals
  and the libraries; a reference can be made for every name.
\<close>

theorem lookup_by_scope_rules:
  assumes "env_reach e w ms R cs"
  shows "lookup_val nul w e nm = Some (map_option (layer_value nul w (en_universals e) nm) (find (hit w nm) (scope e)))
    \<and> lookup_ref w e nm \<noteq> None"
  by (simp add: lookup_val_scope [OF reach_env_inv [OF assms]] lookup_ref_scope [OF reach_env_inv [OF assms]])

theorem lookup_by_scope_rules_witness:
  "lookup_val 0 demo_store demo_env ''x'' = Some (Some 5) \<and> lookup_ref demo_store demo_env ''x'' \<noteq> None"
  using lookup_by_scope_rules [OF demo_reach, of 0 "''x''"]
  by (simp add: scope_def demo_env_def base_frames_def upper_frames_def hit_def layer_lookup_def layer_def bi_lookup_def
      bi_table_def bindtab_lookup_def demo_store_def layer_value_def)

text \<open>
  C8.  Assignment: writing through the reference of a name makes every later lookup of that name give
  the value written, and changes the value of no other name, whatever tables the layers share and
  whichever of them had to be copied first.
\<close>

theorem assign_then_lookup:
  assumes "env_reach e w ms R cs" "lookup_ref w e nm = Some (a, w1)"
  shows "lookup_val nul (mref_set_value a nm (Some v) w1) e nm = Some (Some v)
    \<and> (\<forall>nm'. nm' \<noteq> nm \<longrightarrow> lookup_val nul (mref_set_value a nm (Some v) w1) e nm' = lookup_val nul w e nm')"
proof -
  have "env_inv e" "layers_ok w e" using reach_env_inv layers_ok_reach [OF reach_reach_inv] assms(1) by blast+
  then show ?thesis using assign_lookup [OF _ _ assms(2)] assign_other [OF _ _ assms(2)] by simp
qed

theorem assign_then_lookup_witness:
  "\<exists>a w1. lookup_ref demo_store demo_env ''x'' = Some (a, w1)
    \<and> lookup_val 0 (mref_set_value a ''x'' (Some 7) w1) demo_env ''x'' = Some (Some 7)"
proof -
  have "lookup_ref demo_store demo_env ''x'' \<noteq> None" by (simp add: lookup_ref_scope [OF reach_env_inv [OF demo_reach]])
  then obtain a w1 where r: "lookup_ref demo_store demo_env ''x'' = Some (a, w1)" by force
  from assign_then_lookup [OF demo_reach r] r show ?thesis by blast
qed



text \<open>Names referred to as universals hide the local layers below them from \<^verbatim>\<open>lookup_layer\<close>.\<close>

lemma unirefs_hide_locals:
  "en_stack e = stk @ [l] \<Longrightarrow> sl_typ l = LAYER_UNIREFS \<Longrightarrow> lookup_layer nm LAYER_LOCALS creat e w = (None, w)"
  by (simp add: lookup_layer_def is_local_def)

end
