(* ===== verification/Ast.thy ===== *)
theory Ast
  imports Clib
begin

text \<open>
  The syntax tree of the template language: the expressions of \<^verbatim>\<open>src/libpub/pub3expr.h\<close>, the functions of
  \<^verbatim>\<open>pub3func.h\<close>, the zones and statements of \<^verbatim>\<open>pub3ast.h\<close>.  One constructor per class, with the members of
  the class in order; an expression that is a value is a constructor of the same type, as in the code.
  A pointer that may be null is an \<open>option\<close>; a \<^verbatim>\<open>str\<close> that may be null likewise.  The bindings of a
  dictionary are listed in the order of its iterator, those of a declaration block in the order of the
  source.  Of a \<^verbatim>\<open>zstr\<close> only the text is kept.  \<open>'d\<close> is the type \<^verbatim>\<open>double\<close>.
\<close>

type_synonym lineno = int

datatype relop = XPUB3_REL_LT | XPUB3_REL_GT | XPUB3_REL_LTE | XPUB3_REL_GTE

datatype vscope = GLOBALS | UNIVERSALS

datatype (plugins only: size) 'd expr_t =
    expr_null_t
  | expr_bool_t bool
  | expr_int_t int
  | expr_uint_t int
  | expr_double_t 'd
  | expr_str_t "string option"
  | expr_strbuf_t string
  | expr_regex_t lineno string "string option"
  | expr_list_t lineno "'d expr_t option list"
  | expr_dict_t lineno "(string \<times> 'd expr_t option) list"
  | expr_cow_t "'d expr_t"
  | expr_shell_str_t lineno lineno "'d expr_t option list"
  | expr_OR_t lineno "'d expr_t option" "'d expr_t option"
  | expr_AND_t lineno "'d expr_t option" "'d expr_t option"
  | expr_NOT_t lineno "'d expr_t option"
  | expr_EQ_t lineno "'d expr_t option" "'d expr_t option" bool
  | expr_relation_t lineno "'d expr_t option" "'d expr_t option" relop
  | expr_add_t lineno "'d expr_t option" "'d expr_t option" bool
  | expr_mult_t lineno "'d expr_t option" "'d expr_t option"
  | expr_div_t lineno "'d expr_t option" "'d expr_t option"
  | expr_mod_t lineno "'d expr_t option" "'d expr_t option"
  | expr_dictref_t lineno "'d expr_t option" string
  | expr_varref_t lineno string
  | expr_scoped_varref_t lineno string vscope
  | expr_vecref_t lineno "'d expr_t option" "'d expr_t option"
  | expr_assignment_t lineno "'d expr_t option" "'d expr_t option"
  | call_t lineno "'d expr_t option" "(lineno \<times> 'd expr_t option list) option" bool
  | expr_lambda_t "'d lambda"
  | heredoc_t lineno "'d zone option"
and 'd lambda = lambda_t "string option" lineno "string option" "string list" "string list" "'d zone option"
and 'd zone =
    zone_html_t lineno "'d zone option list"
  | zone_text_t lineno "string option" "string option"
  | zone_inline_expr_t lineno "'d expr_t option"
  | zone_pub_t lineno "'d statement option list"
  | zone_raw_t lineno string
  | zone_wss_boundary_t lineno bool string
and 'd statement =
    include_t lineno "'d expr_t option" "'d expr_t option"
  | load_t lineno "'d expr_t option" "'d expr_t option"
  | statement_zone_t lineno "'d zone option"
  | for_t lineno string "'d expr_t option" "'d zone option" "'d zone option"
  | while_t lineno "'d expr_t option" "'d zone option"
  | locals_t lineno lineno "(string \<times> 'd expr_t option) list"
  | globals_t lineno lineno "(string \<times> 'd expr_t option) list"
  | universals_t lineno lineno "(string \<times> 'd expr_t option) list"
  | if_t lineno "'d if_clause list option"
  | print_t lineno "(lineno \<times> 'd expr_t option list) option"
  | expr_statement_t lineno "'d expr_t option"
  | fndef_t lineno string "'d lambda"
  | switch_t lineno "'d expr_t option" "'d switch_case list option"
  | break_t lineno
  | continue_t lineno
  | return_t lineno "'d expr_t option"
  | exit_t lineno
and 'd if_clause = if_clause_t lineno "'d expr_t option" "'d zone option"
and 'd switch_case = case_t lineno "'d expr_t option" "'d zone option"

end
