(* ===== verification/Xdr.thy ===== *)
theory Xdr
  imports Ast Scalar "HOL-Library.AList" "HOL-Library.List_Lexorder" "HOL-Library.Char_ord"
begin

text \<open>
  The syntax tree on the wire: the structures of \<^verbatim>\<open>src/libpub/pub3prot.x\<close> and the conversions of
  \<^verbatim>\<open>src/libpub/pub3xdr.C\<close> between them and the tree.  The daemon \<^verbatim>\<open>pubd\<close> parses a file, sends it in this
  form, and the service rebuilds the tree.  \<open>None\<close> as the result of an encoder is a null pointer that is
  dereferenced; \<open>None\<close> as the result of a decoder is a null pointer returned.  The last part is
  the file with its metadata, \<^verbatim>\<open>file_t\<close> and \<^verbatim>\<open>metadata_t\<close> of \<^verbatim>\<open>src/libpub/pub3file.h\<close>.
\<close>

section \<open>The structures\<close>

datatype mathop_opcode = XPUB3_MATHOP_NONE | XPUB3_MATHOP_ADD | XPUB3_MATHOP_SUBTRACT | XPUB3_MATHOP_MULT
  | XPUB3_MATHOP_MOD | XPUB3_MATHOP_AND | XPUB3_MATHOP_OR | XPUB3_MATHOP_DIV

datatype ref_scope = XPUB3_REF_SCOPE_GLOBALS | XPUB3_REF_SCOPE_UNIVERSALS

text \<open>\<^verbatim>\<open>xpub3_zstr_t\<close>: the text, the compressed text, the level.\<close>

type_synonym xzstr = "string \<times> string \<times> int"

datatype (plugins only: size) xexpr =
    XPUB3_EXPR_NULL
  | XPUB3_EXPR_PUBNULL
  | XPUB3_EXPR_NOT int "xexpr option"
  | XPUB3_EXPR_MATHOP int mathop_opcode "xexpr option" "xexpr option"
  | XPUB3_EXPR_CALL int "xexpr option" int "xexpr list" bool
  | XPUB3_EXPR_RELATION int relop "xexpr option" "xexpr option"
  | XPUB3_EXPR_DICT int "(string \<times> xexpr option) list"
  | XPUB3_EXPR_LIST int "xexpr list"
  | XPUB3_EXPR_EQ int "xexpr option" "xexpr option" bool
  | XPUB3_EXPR_DICTREF int "xexpr option" string
  | XPUB3_EXPR_VECREF int "xexpr option" "xexpr option"
  | XPUB3_EXPR_REF int string
  | XPUB3_EXPR_SCOPED_REF int string ref_scope
  | XPUB3_EXPR_SHELL_STR int int "xexpr list"
  | XPUB3_EXPR_STR "string option"
  | XPUB3_EXPR_INT int
  | XPUB3_EXPR_UINT int
  | XPUB3_EXPR_DOUBLE string
  | XPUB3_EXPR_REGEX int string "string option"
  | XPUB3_EXPR_ASSIGNMENT int "xexpr option" "xexpr option"
  | XPUB3_EXPR_BOOL int
  | XPUB3_EXPR_LAMBDA xlambda
  | XPUB3_EXPR_HEREDOC int "xzone option"
and xlambda = Xlambda int "string option" "string option" "string list" "string list" "xzone option"
and xzone =
    XPUB3_ZONE_NONE
  | XPUB3_ZONE_HTML int "xzone list"
  | XPUB3_ZONE_TEXT int xzstr xzstr
  | XPUB3_ZONE_INLINE_EXPR int xexpr
  | XPUB3_ZONE_PUB int "xstatement list"
  | XPUB3_ZONE_RAW int xzstr
  | XPUB3_ZONE_WSS_BOUNDARY int bool string
and xstatement =
    XPUB3_STATEMENT_NONE
  | XPUB3_STATEMENT_INCLUDE int xexpr xexpr
  | XPUB3_STATEMENT_LOAD int xexpr xexpr
  | XPUB3_STATEMENT_ZONE int xzone
  | XPUB3_STATEMENT_FOR int string xexpr xzone "xzone option"
  | XPUB3_STATEMENT_WHILE int xexpr xzone
  | XPUB3_STATEMENT_LOCALS int int "(string \<times> xexpr option) list"
  | XPUB3_STATEMENT_GLOBALS int int "(string \<times> xexpr option) list"
  | XPUB3_STATEMENT_UNIVERSALS int int "(string \<times> xexpr option) list"
  | XPUB3_STATEMENT_IF int "xif_clause list"
  | XPUB3_STATEMENT_PRINT int int "xexpr list"
  | XPUB3_STATEMENT_EXPR int "xexpr option"
  | XPUB3_STATEMENT_FNDEF int string xlambda
  | XPUB3_STATEMENT_SWITCH int xexpr "xcase list"
  | XPUB3_STATEMENT_BREAK int
  | XPUB3_STATEMENT_CONTINUE int
  | XPUB3_STATEMENT_RETURN int xexpr
  | XPUB3_STATEMENT_EXIT int
and xif_clause = Xif_clause int xexpr xzone
and xcase = Xcase int "xexpr option" xzone

text \<open>
  What the encoders use of code that is generated or in libraries: \<open>xe_str0\<close>, \<open>xe_line0\<close>, \<open>xe_zone0\<close> are
  the string, the integer and the zone of a fresh structure, \<open>xe_fmt\<close> is \<^verbatim>\<open>snprintf\<close> with the configured
  format for a \<^verbatim>\<open>double\<close>, \<open>xe_zc\<close> the compressor.
\<close>

record 'd xdr_env =
  xe_sc :: "'d sc_env"
  xe_fmt :: "'d \<Rightarrow> string"
  xe_str0 :: "string option"
  xe_line0 :: int
  xe_zone0 :: xzone
  xe_zc :: "int \<Rightarrow> string \<Rightarrow> string option"

section \<open>Encoding\<close>

abbreviation Z_DISABLE :: int where "Z_DISABLE \<equiv> - 2"
abbreviation Z_BEST_COMPRESSION :: int where "Z_BEST_COMPRESSION \<equiv> 9"

definition zstr_to_xdr :: "'d xdr_env \<Rightarrow> string \<Rightarrow> int \<Rightarrow> xzstr" where
  "zstr_to_xdr E z l =
     (z, if l \<noteq> Z_DISABLE \<and> 0 < length z then (case xe_zc E l z of Some c \<Rightarrow> c | None \<Rightarrow> []) else [], l)"

text \<open>\<^verbatim>\<open>zstr_to_xdr\<close> on a \<^verbatim>\<open>zstr\<close> that may hold nothing: it dereferences its object.\<close>

definition zstr_opt_to_xdr :: "'d xdr_env \<Rightarrow> string option \<Rightarrow> xzstr option" where
  "zstr_opt_to_xdr E z = map_option (\<lambda>s. zstr_to_xdr E s Z_BEST_COMPRESSION) z"

text \<open>
  The helpers take the pointer with what encoding its target gives.  \<open>deref\<close> is a method call through
  an unguarded pointer.
\<close>

definition expr_to_rpc_ptr :: "xexpr option option \<Rightarrow> xexpr option option" where
  "expr_to_rpc_ptr e = (case e of None \<Rightarrow> Some None | Some r \<Rightarrow> map_option Some r)"

definition expr_to_xdr :: "xexpr option option \<Rightarrow> xexpr option" where
  "expr_to_xdr e = (case e of Some r \<Rightarrow> r | None \<Rightarrow> Some XPUB3_EXPR_NULL)"

definition deref :: "'x option option \<Rightarrow> 'x option" where
  "deref e = (case e of Some r \<Rightarrow> r | None \<Rightarrow> None)"

definition body_to_xdr :: "'d xdr_env \<Rightarrow> xzone option option \<Rightarrow> xzone option" where
  "body_to_xdr E z = (case z of Some r \<Rightarrow> r | None \<Rightarrow> Some (xe_zone0 E))"

definition zone_to_rpc_ptr :: "xzone option option \<Rightarrow> xzone option option" where
  "zone_to_rpc_ptr z = (case z of None \<Rightarrow> Some None | Some r \<Rightarrow> map_option Some r)"

definition list_to_xdr :: "xexpr option option list \<Rightarrow> xexpr list option" where
  "list_to_xdr l = those (map (\<lambda>x. case x of Some r \<Rightarrow> r | None \<Rightarrow> Some XPUB3_EXPR_PUBNULL) l)"

definition args_to_xdr :: "'d xdr_env \<Rightarrow> (int \<times> xexpr option option list) option \<Rightarrow> (int \<times> xexpr list) option" where
  "args_to_xdr E a = (case a of None \<Rightarrow> Some (xe_line0 E, []) | Some (ln, l) \<Rightarrow> map_option (Pair ln) (list_to_xdr l))"

definition bindings_to_xdr :: "(string \<times> xexpr option option) list \<Rightarrow> (string \<times> xexpr option) list option" where
  "bindings_to_xdr b = those (map (\<lambda>(k, v). map_option (Pair k) (expr_to_rpc_ptr v)) b)"

text \<open>\<^verbatim>\<open>qsort\<close> with \<^verbatim>\<open>strcmp\<close>, which reads the keys as C strings.\<close>

definition sort_bindings :: "(string \<times> 'v) list \<Rightarrow> (string \<times> 'v) list" where
  "sort_bindings b = sort_key (\<lambda>kv. cstr (fst kv)) b"

definition vscope_to_xdr :: "vscope \<Rightarrow> ref_scope" where
  "vscope_to_xdr v = (case v of GLOBALS \<Rightarrow> XPUB3_REF_SCOPE_GLOBALS | UNIVERSALS \<Rightarrow> XPUB3_REF_SCOPE_UNIVERSALS)"

text \<open>\<^verbatim>\<open>identifier_list_t\<close>: the required and the optional parameters, indexed as one sequence.\<close>

definition idl_at :: "string list \<Rightarrow> string list \<Rightarrow> nat \<Rightarrow> string option" where
  "idl_at ps os i =
     (if i < length ps then Some (ps ! i) else if i - length ps < length os then Some (os ! (i - length ps)) else None)"

definition idlist_to_xdr :: "string list \<Rightarrow> string list \<Rightarrow> string list \<times> string list" where
  "idlist_to_xdr ps os =
     (map (\<lambda>i. the (idl_at ps os i)) [0..<length ps],
      map (\<lambda>i. the (idl_at ps os (i + length ps))) [0..<length os])"

definition mathop_to_xdr :: "int \<Rightarrow> mathop_opcode \<Rightarrow> xexpr option option \<Rightarrow> xexpr option option \<Rightarrow> xexpr option" where
  "mathop_to_xdr ln opc o1 o2 =
     Option.bind (expr_to_rpc_ptr o1) (\<lambda>a. map_option (XPUB3_EXPR_MATHOP ln opc a) (expr_to_rpc_ptr o2))"

definition pair_to_xdr :: "(xexpr option \<Rightarrow> xexpr option \<Rightarrow> xexpr) \<Rightarrow> xexpr option option \<Rightarrow> xexpr option option \<Rightarrow> xexpr option" where
  "pair_to_xdr c o1 o2 = Option.bind (expr_to_rpc_ptr o1) (\<lambda>a. map_option (c a) (expr_to_rpc_ptr o2))"

definition str_or_fresh :: "'d xdr_env \<Rightarrow> string option \<Rightarrow> string option" where
  "str_or_fresh E s = (if s \<noteq> None then s else xe_str0 E)"

text \<open>The methods \<^verbatim>\<open>to_xdr\<close>, on the members and what encoding the members that are objects gives.\<close>

definition expr_null_to_xdr :: "xexpr option" where
  "expr_null_to_xdr = Some XPUB3_EXPR_PUBNULL"

definition expr_bool_to_xdr :: "bool \<Rightarrow> xexpr option" where
  "expr_bool_to_xdr b = Some (XPUB3_EXPR_BOOL (if b then 1 else 0))"

definition expr_int_to_xdr :: "int \<Rightarrow> xexpr option" where
  "expr_int_to_xdr i = Some (XPUB3_EXPR_INT i)"

definition expr_uint_to_xdr :: "int \<Rightarrow> xexpr option" where
  "expr_uint_to_xdr u = Some (XPUB3_EXPR_UINT u)"

definition expr_double_to_xdr :: "'d xdr_env \<Rightarrow> 'd \<Rightarrow> xexpr option" where
  "expr_double_to_xdr E d = Some (XPUB3_EXPR_DOUBLE (take 63 (xe_fmt E d)))"

definition expr_str_to_xdr :: "string option \<Rightarrow> xexpr option" where
  "expr_str_to_xdr s = Some (XPUB3_EXPR_STR s)"

definition expr_strbuf_to_xdr :: "string \<Rightarrow> xexpr option" where
  "expr_strbuf_to_xdr b = Some (XPUB3_EXPR_STR (Some b))"

definition expr_regex_to_xdr :: "'d xdr_env \<Rightarrow> int \<Rightarrow> string \<Rightarrow> string option \<Rightarrow> xexpr option" where
  "expr_regex_to_xdr E ln body opts = Some (XPUB3_EXPR_REGEX ln body (if xe_str0 E \<noteq> None then opts else xe_str0 E))"

definition expr_list_to_xdr :: "int \<Rightarrow> xexpr option option list \<Rightarrow> xexpr option" where
  "expr_list_to_xdr ln l = map_option (XPUB3_EXPR_LIST ln) (list_to_xdr l)"

definition expr_dict_to_xdr :: "int \<Rightarrow> (string \<times> xexpr option option) list \<Rightarrow> xexpr option" where
  "expr_dict_to_xdr ln d = map_option (\<lambda>b. XPUB3_EXPR_DICT ln (sort_bindings b)) (bindings_to_xdr d)"

definition expr_cow_to_xdr :: "xexpr option \<Rightarrow> xexpr option" where
  "expr_cow_to_xdr x = x"

definition expr_shell_str_to_xdr :: "int \<Rightarrow> int \<Rightarrow> xexpr option option list \<Rightarrow> xexpr option" where
  "expr_shell_str_to_xdr ln ln' els = map_option (XPUB3_EXPR_SHELL_STR ln ln') (list_to_xdr els)"

definition expr_OR_to_xdr :: "int \<Rightarrow> xexpr option option \<Rightarrow> xexpr option option \<Rightarrow> xexpr option" where
  "expr_OR_to_xdr ln t1 t2 = mathop_to_xdr ln XPUB3_MATHOP_OR t1 t2"

definition expr_AND_to_xdr :: "int \<Rightarrow> xexpr option option \<Rightarrow> xexpr option option \<Rightarrow> xexpr option" where
  "expr_AND_to_xdr ln f1 f2 = mathop_to_xdr ln XPUB3_MATHOP_AND f1 f2"

definition expr_NOT_to_xdr :: "int \<Rightarrow> xexpr option option \<Rightarrow> xexpr option" where
  "expr_NOT_to_xdr ln e = map_option (XPUB3_EXPR_NOT ln) (expr_to_rpc_ptr e)"

definition expr_EQ_to_xdr :: "int \<Rightarrow> xexpr option option \<Rightarrow> xexpr option option \<Rightarrow> bool \<Rightarrow> xexpr option" where
  "expr_EQ_to_xdr ln o1 o2 pos = pair_to_xdr (\<lambda>a b. XPUB3_EXPR_EQ ln a b pos) o1 o2"

definition expr_relation_to_xdr :: "int \<Rightarrow> xexpr option option \<Rightarrow> xexpr option option \<Rightarrow> relop \<Rightarrow> xexpr option" where
  "expr_relation_to_xdr ln l r op = pair_to_xdr (XPUB3_EXPR_RELATION ln op) l r"

definition expr_add_to_xdr :: "int \<Rightarrow> xexpr option option \<Rightarrow> xexpr option option \<Rightarrow> bool \<Rightarrow> xexpr option" where
  "expr_add_to_xdr ln o1 o2 pos = mathop_to_xdr ln (if pos then XPUB3_MATHOP_ADD else XPUB3_MATHOP_SUBTRACT) o1 o2"

definition expr_mult_to_xdr :: "int \<Rightarrow> xexpr option option \<Rightarrow> xexpr option option \<Rightarrow> xexpr option" where
  "expr_mult_to_xdr ln o1 o2 = mathop_to_xdr ln XPUB3_MATHOP_MULT o1 o2"

definition expr_div_to_xdr :: "int \<Rightarrow> xexpr option option \<Rightarrow> xexpr option option \<Rightarrow> xexpr option" where
  "expr_div_to_xdr ln o1 o2 = mathop_to_xdr ln XPUB3_MATHOP_DIV o1 o2"

definition expr_mod_to_xdr :: "int \<Rightarrow> xexpr option option \<Rightarrow> xexpr option option \<Rightarrow> xexpr option" where
  "expr_mod_to_xdr ln o1 o2 = mathop_to_xdr ln XPUB3_MATHOP_MOD o1 o2"

definition expr_dictref_to_xdr :: "int \<Rightarrow> xexpr option option \<Rightarrow> string \<Rightarrow> xexpr option" where
  "expr_dictref_to_xdr ln d key = map_option (\<lambda>x. XPUB3_EXPR_DICTREF ln x key) (expr_to_rpc_ptr d)"

definition expr_varref_to_xdr :: "int \<Rightarrow> string \<Rightarrow> xexpr option" where
  "expr_varref_to_xdr ln nm = Some (XPUB3_EXPR_REF ln nm)"

definition expr_scoped_varref_to_xdr :: "int \<Rightarrow> string \<Rightarrow> vscope \<Rightarrow> xexpr option" where
  "expr_scoped_varref_to_xdr ln nm sc = Some (XPUB3_EXPR_SCOPED_REF ln nm (vscope_to_xdr sc))"

definition expr_vecref_to_xdr :: "int \<Rightarrow> xexpr option option \<Rightarrow> xexpr option option \<Rightarrow> xexpr option" where
  "expr_vecref_to_xdr ln v i = pair_to_xdr (XPUB3_EXPR_VECREF ln) v i"

definition expr_assignment_to_xdr :: "int \<Rightarrow> xexpr option option \<Rightarrow> xexpr option option \<Rightarrow> xexpr option" where
  "expr_assignment_to_xdr ln l r = pair_to_xdr (XPUB3_EXPR_ASSIGNMENT ln) l r"

definition call_to_xdr :: "'d xdr_env \<Rightarrow> int \<Rightarrow> xexpr option option \<Rightarrow> (int \<times> xexpr option option list) option \<Rightarrow> bool \<Rightarrow> xexpr option" where
  "call_to_xdr E ln f a blocking =
     Option.bind (expr_to_rpc_ptr f)
       (\<lambda>x. map_option (\<lambda>(ln', l). XPUB3_EXPR_CALL ln x ln' l blocking)
              (args_to_xdr E a))"

definition expr_lambda_to_xdr :: "xlambda option \<Rightarrow> xexpr option" where
  "expr_lambda_to_xdr l = map_option XPUB3_EXPR_LAMBDA l"

definition heredoc_to_xdr :: "int \<Rightarrow> xzone option option \<Rightarrow> xexpr option" where
  "heredoc_to_xdr ln z = map_option (XPUB3_EXPR_HEREDOC ln) (zone_to_rpc_ptr z)"

definition lambda_to_xdr :: "'d xdr_env \<Rightarrow> string option \<Rightarrow> int \<Rightarrow> string option \<Rightarrow> string list \<Rightarrow> string list \<Rightarrow> xzone option option \<Rightarrow> xlambda option" where
  "lambda_to_xdr E fname ln nm ps os body =
     map_option (\<lambda>z. Xlambda ln (str_or_fresh E fname) (str_or_fresh E nm)
                       (fst (idlist_to_xdr ps os)) (snd (idlist_to_xdr ps os)) (Some z))
       (deref body)"

definition zone_html_to_xdr :: "int \<Rightarrow> xzone option option list \<Rightarrow> xzone option" where
  "zone_html_to_xdr ln zs = map_option (XPUB3_ZONE_HTML ln) (those (map deref zs))"

definition zone_text_to_xdr :: "'d xdr_env \<Rightarrow> int \<Rightarrow> string option \<Rightarrow> string option \<Rightarrow> xzone option" where
  "zone_text_to_xdr E ln t w =
     Option.bind (zstr_opt_to_xdr E t) (\<lambda>a. map_option (XPUB3_ZONE_TEXT ln a) (zstr_opt_to_xdr E w))"

definition zone_inline_expr_to_xdr :: "int \<Rightarrow> xexpr option option \<Rightarrow> xzone option" where
  "zone_inline_expr_to_xdr ln e = map_option (XPUB3_ZONE_INLINE_EXPR ln) (expr_to_xdr e)"

definition zone_pub_to_xdr :: "int \<Rightarrow> xstatement option option list \<Rightarrow> xzone option" where
  "zone_pub_to_xdr ln ss = map_option (XPUB3_ZONE_PUB ln) (those (map deref ss))"

definition zone_raw_to_xdr :: "'d xdr_env \<Rightarrow> int \<Rightarrow> string \<Rightarrow> xzone option" where
  "zone_raw_to_xdr E ln s = Some (XPUB3_ZONE_RAW ln (zstr_to_xdr E s Z_BEST_COMPRESSION))"

definition zone_wss_boundary_to_xdr :: "int \<Rightarrow> bool \<Rightarrow> string \<Rightarrow> xzone option" where
  "zone_wss_boundary_to_xdr ln b t = Some (XPUB3_ZONE_WSS_BOUNDARY ln b t)"

definition include_to_xdr :: "int \<Rightarrow> xexpr option option \<Rightarrow> xexpr option option \<Rightarrow> xstatement option" where
  "include_to_xdr ln f d =
     Option.bind (expr_to_xdr f)
       (\<lambda>a. map_option (XPUB3_STATEMENT_INCLUDE ln a) (expr_to_xdr d))"

definition load_to_xdr :: "int \<Rightarrow> xexpr option option \<Rightarrow> xexpr option option \<Rightarrow> xstatement option" where
  "load_to_xdr ln f d = Option.bind (expr_to_xdr f) (\<lambda>a. map_option (XPUB3_STATEMENT_LOAD ln a) (expr_to_xdr d))"

definition statement_zone_to_xdr :: "int \<Rightarrow> xzone option option \<Rightarrow> xstatement option" where
  "statement_zone_to_xdr ln z = map_option (XPUB3_STATEMENT_ZONE ln) (deref z)"

definition for_to_xdr :: "'d xdr_env \<Rightarrow> int \<Rightarrow> string \<Rightarrow> xexpr option option \<Rightarrow> xzone option option \<Rightarrow> xzone option option \<Rightarrow> xstatement option" where
  "for_to_xdr E ln it arr body emp =
     Option.bind (expr_to_xdr arr)
       (\<lambda>a. Option.bind (body_to_xdr E body)
         (\<lambda>b. map_option (XPUB3_STATEMENT_FOR ln it a b) (zone_to_rpc_ptr emp)))"

definition while_to_xdr :: "'d xdr_env \<Rightarrow> int \<Rightarrow> xexpr option option \<Rightarrow> xzone option option \<Rightarrow> xstatement option" where
  "while_to_xdr E ln c body =
     Option.bind (expr_to_xdr c)
       (\<lambda>a. map_option (XPUB3_STATEMENT_WHILE ln a) (body_to_xdr E body))"

definition locals_to_xdr :: "int \<Rightarrow> int \<Rightarrow> (string \<times> xexpr option option) list \<Rightarrow> xstatement option" where
  "locals_to_xdr ln ln' b = map_option (XPUB3_STATEMENT_LOCALS ln ln') (bindings_to_xdr b)"

definition globals_to_xdr :: "int \<Rightarrow> int \<Rightarrow> (string \<times> xexpr option option) list \<Rightarrow> xstatement option" where
  "globals_to_xdr ln ln' b = map_option (XPUB3_STATEMENT_GLOBALS ln ln') (bindings_to_xdr b)"

definition universals_to_xdr :: "int \<Rightarrow> int \<Rightarrow> (string \<times> xexpr option option) list \<Rightarrow> xstatement option" where
  "universals_to_xdr ln ln' b = map_option (XPUB3_STATEMENT_UNIVERSALS ln ln') (bindings_to_xdr b)"

definition if_to_xdr :: "int \<Rightarrow> xif_clause option list option \<Rightarrow> xstatement option" where
  "if_to_xdr ln cs =
     map_option (XPUB3_STATEMENT_IF ln)
       (case cs of Some l \<Rightarrow> those l | None \<Rightarrow> Some [])"

definition print_to_xdr :: "'d xdr_env \<Rightarrow> int \<Rightarrow> (int \<times> xexpr option option list) option \<Rightarrow> xstatement option" where
  "print_to_xdr E ln a = map_option (\<lambda>(ln', l). XPUB3_STATEMENT_PRINT ln ln' l) (args_to_xdr E a)"

definition expr_statement_to_xdr :: "int \<Rightarrow> xexpr option option \<Rightarrow> xstatement option" where
  "expr_statement_to_xdr ln e = map_option (XPUB3_STATEMENT_EXPR ln) (expr_to_rpc_ptr e)"

definition fndef_to_xdr :: "int \<Rightarrow> string \<Rightarrow> xlambda option \<Rightarrow> xstatement option" where
  "fndef_to_xdr ln nm l = map_option (XPUB3_STATEMENT_FNDEF ln nm) l"

definition switch_to_xdr :: "int \<Rightarrow> xexpr option option \<Rightarrow> xcase option list option \<Rightarrow> xstatement option" where
  "switch_to_xdr ln k cs =
     Option.bind (expr_to_xdr k)
       (\<lambda>a. map_option (XPUB3_STATEMENT_SWITCH ln a)
              (case cs of Some l \<Rightarrow> those l | None \<Rightarrow> Some []))"

definition break_to_xdr :: "int \<Rightarrow> xstatement option" where
  "break_to_xdr ln = Some (XPUB3_STATEMENT_BREAK ln)"

definition continue_to_xdr :: "int \<Rightarrow> xstatement option" where
  "continue_to_xdr ln = Some (XPUB3_STATEMENT_CONTINUE ln)"

definition return_to_xdr :: "int \<Rightarrow> xexpr option option \<Rightarrow> xstatement option" where
  "return_to_xdr ln e = map_option (XPUB3_STATEMENT_RETURN ln) (expr_to_xdr e)"

definition exit_to_xdr :: "int \<Rightarrow> xstatement option" where
  "exit_to_xdr ln = Some (XPUB3_STATEMENT_EXIT ln)"

definition if_clause_to_xdr :: "'d xdr_env \<Rightarrow> int \<Rightarrow> xexpr option option \<Rightarrow> xzone option option \<Rightarrow> xif_clause option" where
  "if_clause_to_xdr E ln e body =
     Option.bind (expr_to_xdr e)
       (\<lambda>a. map_option (Xif_clause ln a) (body_to_xdr E body))"

definition case_to_xdr :: "'d xdr_env \<Rightarrow> int \<Rightarrow> xexpr option option \<Rightarrow> xzone option option \<Rightarrow> xcase option" where
  "case_to_xdr E ln k body = Option.bind (expr_to_rpc_ptr k) (\<lambda>a. map_option (Xcase ln a) (body_to_xdr E body))"

lemmas to_xdr_methods [simp] =
  expr_null_to_xdr_def expr_bool_to_xdr_def expr_int_to_xdr_def expr_uint_to_xdr_def expr_double_to_xdr_def
  expr_str_to_xdr_def expr_strbuf_to_xdr_def expr_regex_to_xdr_def expr_list_to_xdr_def expr_dict_to_xdr_def
  expr_cow_to_xdr_def expr_shell_str_to_xdr_def expr_OR_to_xdr_def expr_AND_to_xdr_def expr_NOT_to_xdr_def
  expr_EQ_to_xdr_def expr_relation_to_xdr_def expr_add_to_xdr_def expr_mult_to_xdr_def expr_div_to_xdr_def
  expr_mod_to_xdr_def expr_dictref_to_xdr_def expr_varref_to_xdr_def expr_scoped_varref_to_xdr_def
  expr_vecref_to_xdr_def expr_assignment_to_xdr_def call_to_xdr_def expr_lambda_to_xdr_def heredoc_to_xdr_def
  lambda_to_xdr_def zone_html_to_xdr_def zone_text_to_xdr_def zone_inline_expr_to_xdr_def zone_pub_to_xdr_def
  zone_raw_to_xdr_def zone_wss_boundary_to_xdr_def include_to_xdr_def load_to_xdr_def statement_zone_to_xdr_def
  for_to_xdr_def while_to_xdr_def locals_to_xdr_def globals_to_xdr_def universals_to_xdr_def if_to_xdr_def
  print_to_xdr_def expr_statement_to_xdr_def fndef_to_xdr_def switch_to_xdr_def break_to_xdr_def continue_to_xdr_def
  return_to_xdr_def exit_to_xdr_def if_clause_to_xdr_def case_to_xdr_def

primrec e_to_xdr :: "'d xdr_env \<Rightarrow> 'd expr_t \<Rightarrow> xexpr option"
  and l_to_xdr :: "'d xdr_env \<Rightarrow> 'd lambda \<Rightarrow> xlambda option"
  and z_to_xdr :: "'d xdr_env \<Rightarrow> 'd zone \<Rightarrow> xzone option"
  and s_to_xdr :: "'d xdr_env \<Rightarrow> 'd statement \<Rightarrow> xstatement option"
  and ic_to_xdr :: "'d xdr_env \<Rightarrow> 'd if_clause \<Rightarrow> xif_clause option"
  and sc_to_xdr :: "'d xdr_env \<Rightarrow> 'd switch_case \<Rightarrow> xcase option"
where
  "e_to_xdr E expr_null_t = expr_null_to_xdr"
| "e_to_xdr E (expr_bool_t b) = expr_bool_to_xdr b"
| "e_to_xdr E (expr_int_t i) = expr_int_to_xdr i"
| "e_to_xdr E (expr_uint_t u) = expr_uint_to_xdr u"
| "e_to_xdr E (expr_double_t d) = expr_double_to_xdr E d"
| "e_to_xdr E (expr_str_t s) = expr_str_to_xdr s"
| "e_to_xdr E (expr_strbuf_t b) = expr_strbuf_to_xdr b"
| "e_to_xdr E (expr_regex_t ln body opts) = expr_regex_to_xdr E ln body opts"
| "e_to_xdr E (expr_list_t ln l) = expr_list_to_xdr ln (map (map_option (e_to_xdr E)) l)"
| "e_to_xdr E (expr_dict_t ln d) = expr_dict_to_xdr ln (map (map_prod id (map_option (e_to_xdr E))) d)"
| "e_to_xdr E (expr_cow_t x) = expr_cow_to_xdr (e_to_xdr E x)"
| "e_to_xdr E (expr_shell_str_t ln ln' els) = expr_shell_str_to_xdr ln ln' (map (map_option (e_to_xdr E)) els)"
| "e_to_xdr E (expr_OR_t ln t1 t2) = expr_OR_to_xdr ln (map_option (e_to_xdr E) t1) (map_option (e_to_xdr E) t2)"
| "e_to_xdr E (expr_AND_t ln f1 f2) = expr_AND_to_xdr ln (map_option (e_to_xdr E) f1) (map_option (e_to_xdr E) f2)"
| "e_to_xdr E (expr_NOT_t ln e) = expr_NOT_to_xdr ln (map_option (e_to_xdr E) e)"
| "e_to_xdr E (expr_EQ_t ln o1 o2 pos) = expr_EQ_to_xdr ln (map_option (e_to_xdr E) o1) (map_option (e_to_xdr E) o2) pos"
| "e_to_xdr E (expr_relation_t ln l r op) = expr_relation_to_xdr ln (map_option (e_to_xdr E) l) (map_option (e_to_xdr E) r) op"
| "e_to_xdr E (expr_add_t ln o1 o2 pos) = expr_add_to_xdr ln (map_option (e_to_xdr E) o1) (map_option (e_to_xdr E) o2) pos"
| "e_to_xdr E (expr_mult_t ln o1 o2) = expr_mult_to_xdr ln (map_option (e_to_xdr E) o1) (map_option (e_to_xdr E) o2)"
| "e_to_xdr E (expr_div_t ln o1 o2) = expr_div_to_xdr ln (map_option (e_to_xdr E) o1) (map_option (e_to_xdr E) o2)"
| "e_to_xdr E (expr_mod_t ln o1 o2) = expr_mod_to_xdr ln (map_option (e_to_xdr E) o1) (map_option (e_to_xdr E) o2)"
| "e_to_xdr E (expr_dictref_t ln d key) = expr_dictref_to_xdr ln (map_option (e_to_xdr E) d) key"
| "e_to_xdr E (expr_varref_t ln nm) = expr_varref_to_xdr ln nm"
| "e_to_xdr E (expr_scoped_varref_t ln nm sc) = expr_scoped_varref_to_xdr ln nm sc"
| "e_to_xdr E (expr_vecref_t ln v i) = expr_vecref_to_xdr ln (map_option (e_to_xdr E) v) (map_option (e_to_xdr E) i)"
| "e_to_xdr E (expr_assignment_t ln l r) = expr_assignment_to_xdr ln (map_option (e_to_xdr E) l) (map_option (e_to_xdr E) r)"
| "e_to_xdr E (call_t ln f a blocking) = call_to_xdr E ln (map_option (e_to_xdr E) f) (map_option (map_prod id (map (map_option (e_to_xdr E)))) a) blocking"
| "e_to_xdr E (expr_lambda_t l) = expr_lambda_to_xdr (l_to_xdr E l)"
| "e_to_xdr E (heredoc_t ln z) = heredoc_to_xdr ln (map_option (z_to_xdr E) z)"
| "l_to_xdr E (lambda_t fname ln nm ps os body) = lambda_to_xdr E fname ln nm ps os (map_option (z_to_xdr E) body)"
| "z_to_xdr E (zone_html_t ln zs) = zone_html_to_xdr ln (map (map_option (z_to_xdr E)) zs)"
| "z_to_xdr E (zone_text_t ln t w) = zone_text_to_xdr E ln t w"
| "z_to_xdr E (zone_inline_expr_t ln e) = zone_inline_expr_to_xdr ln (map_option (e_to_xdr E) e)"
| "z_to_xdr E (zone_pub_t ln ss) = zone_pub_to_xdr ln (map (map_option (s_to_xdr E)) ss)"
| "z_to_xdr E (zone_raw_t ln s) = zone_raw_to_xdr E ln s"
| "z_to_xdr E (zone_wss_boundary_t ln b t) = zone_wss_boundary_to_xdr ln b t"
| "s_to_xdr E (include_t ln f d) = include_to_xdr ln (map_option (e_to_xdr E) f) (map_option (e_to_xdr E) d)"
| "s_to_xdr E (load_t ln f d) = load_to_xdr ln (map_option (e_to_xdr E) f) (map_option (e_to_xdr E) d)"
| "s_to_xdr E (statement_zone_t ln z) = statement_zone_to_xdr ln (map_option (z_to_xdr E) z)"
| "s_to_xdr E (for_t ln it arr body emp) = for_to_xdr E ln it (map_option (e_to_xdr E) arr) (map_option (z_to_xdr E) body) (map_option (z_to_xdr E) emp)"
| "s_to_xdr E (while_t ln c body) = while_to_xdr E ln (map_option (e_to_xdr E) c) (map_option (z_to_xdr E) body)"
| "s_to_xdr E (locals_t ln ln' b) = locals_to_xdr ln ln' (map (map_prod id (map_option (e_to_xdr E))) b)"
| "s_to_xdr E (globals_t ln ln' b) = globals_to_xdr ln ln' (map (map_prod id (map_option (e_to_xdr E))) b)"
| "s_to_xdr E (universals_t ln ln' b) = universals_to_xdr ln ln' (map (map_prod id (map_option (e_to_xdr E))) b)"
| "s_to_xdr E (if_t ln cs) = if_to_xdr ln (map_option (map (ic_to_xdr E)) cs)"
| "s_to_xdr E (print_t ln a) = print_to_xdr E ln (map_option (map_prod id (map (map_option (e_to_xdr E)))) a)"
| "s_to_xdr E (expr_statement_t ln e) = expr_statement_to_xdr ln (map_option (e_to_xdr E) e)"
| "s_to_xdr E (fndef_t ln nm l) = fndef_to_xdr ln nm (l_to_xdr E l)"
| "s_to_xdr E (switch_t ln k cs) = switch_to_xdr ln (map_option (e_to_xdr E) k) (map_option (map (sc_to_xdr E)) cs)"
| "s_to_xdr E (break_t ln) = break_to_xdr ln"
| "s_to_xdr E (continue_t ln) = continue_to_xdr ln"
| "s_to_xdr E (return_t ln e) = return_to_xdr ln (map_option (e_to_xdr E) e)"
| "s_to_xdr E (exit_t ln) = exit_to_xdr ln"
| "ic_to_xdr E (if_clause_t ln e body) = if_clause_to_xdr E ln (map_option (e_to_xdr E) e) (map_option (z_to_xdr E) body)"
| "sc_to_xdr E (case_t ln k body) = case_to_xdr E ln (map_option (e_to_xdr E) k) (map_option (z_to_xdr E) body)"

section \<open>Decoding\<close>

definition xdr_to_zstr :: "xzstr \<Rightarrow> string" where
  "xdr_to_zstr x = fst x"

definition xdr_to_vscope :: "ref_scope \<Rightarrow> vscope" where
  "xdr_to_vscope r = (case r of XPUB3_REF_SCOPE_GLOBALS \<Rightarrow> GLOBALS | XPUB3_REF_SCOPE_UNIVERSALS \<Rightarrow> UNIVERSALS)"

definition xdr_to_idlist :: "string list \<Rightarrow> string list \<Rightarrow> string list \<times> string list" where
  "xdr_to_idlist ps os =
     fold (\<lambda>p (a, b). (a, b @ [p])) os (fold (\<lambda>p (a, b). (a @ [p], b)) ps ([], []))"

text \<open>\<^verbatim>\<open>alloc (const xpub3_expr_t *)\<close> and its like, on what decoding the target gives.\<close>

abbreviation ptr_alloc :: "'x option option \<Rightarrow> 'x option" where
  "ptr_alloc x \<equiv> (case x of Some r \<Rightarrow> r | None \<Rightarrow> None)"

definition dict_fill :: "(string \<times> 'v) list \<Rightarrow> (string \<times> 'v) list" where
  "dict_fill b = foldl (\<lambda>t kv. AList.update (fst kv) (snd kv) t) [] b"

definition convertdouble0 :: "'d sc_env \<Rightarrow> string \<Rightarrow> 'd" where
  "convertdouble0 E x = (case convertdouble E x of Some d \<Rightarrow> d | None \<Rightarrow> fp_of_int E 0)"

definition mathop_alloc :: "int \<Rightarrow> mathop_opcode \<Rightarrow> 'd expr_t option \<Rightarrow> 'd expr_t option \<Rightarrow> 'd expr_t option" where
  "mathop_alloc ln opc o1 o2 =
     (case opc of
        XPUB3_MATHOP_ADD \<Rightarrow> Some (expr_add_t ln o1 o2 True)
      | XPUB3_MATHOP_SUBTRACT \<Rightarrow> Some (expr_add_t ln o1 o2 False)
      | XPUB3_MATHOP_OR \<Rightarrow> Some (expr_OR_t ln o1 o2)
      | XPUB3_MATHOP_AND \<Rightarrow> Some (expr_AND_t ln o1 o2)
      | XPUB3_MATHOP_MOD \<Rightarrow> Some (expr_mod_t ln o1 o2)
      | XPUB3_MATHOP_MULT \<Rightarrow> Some (expr_mult_t ln o1 o2)
      | XPUB3_MATHOP_DIV \<Rightarrow> Some (expr_div_t ln o1 o2)
      | XPUB3_MATHOP_NONE \<Rightarrow> None)"

definition filename_alloc :: "string option \<Rightarrow> string option" where
  "filename_alloc s = (case s of Some f \<Rightarrow> if length f \<noteq> 0 then Some f else None | None \<Rightarrow> None)"

definition nonempty :: "'c list \<Rightarrow> 'c list option" where
  "nonempty cs = (if cs = [] then None else Some cs)"

text \<open>The constructors that take a structure of the wire.\<close>

definition expr_NOT_of_xdr :: "int \<Rightarrow> 'd expr_t option option \<Rightarrow> 'd expr_t" where
  "expr_NOT_of_xdr ln e = expr_NOT_t ln (ptr_alloc e)"

definition call_of_xdr :: "int \<Rightarrow> 'd expr_t option option \<Rightarrow> int \<Rightarrow> 'd expr_t option list \<Rightarrow> bool \<Rightarrow> 'd expr_t" where
  "call_of_xdr ln f ln' l b = call_t ln (ptr_alloc f) (Some (ln', l)) b"

definition expr_relation_of_xdr :: "int \<Rightarrow> relop \<Rightarrow> 'd expr_t option option \<Rightarrow> 'd expr_t option option \<Rightarrow> 'd expr_t" where
  "expr_relation_of_xdr ln op l r = expr_relation_t ln (ptr_alloc l) (ptr_alloc r) op"

definition expr_dict_of_xdr :: "int \<Rightarrow> (string \<times> 'd expr_t option option) list \<Rightarrow> 'd expr_t" where
  "expr_dict_of_xdr ln b = expr_dict_t ln (dict_fill (map (map_prod id ptr_alloc) b))"

definition expr_list_of_xdr :: "int \<Rightarrow> 'd expr_t option list \<Rightarrow> 'd expr_t" where
  "expr_list_of_xdr ln l = expr_list_t ln l"

definition expr_EQ_of_xdr :: "int \<Rightarrow> 'd expr_t option option \<Rightarrow> 'd expr_t option option \<Rightarrow> bool \<Rightarrow> 'd expr_t" where
  "expr_EQ_of_xdr ln o1 o2 pos = expr_EQ_t ln (ptr_alloc o1) (ptr_alloc o2) pos"

definition expr_dictref_of_xdr :: "int \<Rightarrow> 'd expr_t option option \<Rightarrow> string \<Rightarrow> 'd expr_t" where
  "expr_dictref_of_xdr ln d key = expr_dictref_t ln (ptr_alloc d) key"

definition expr_vecref_of_xdr :: "int \<Rightarrow> 'd expr_t option option \<Rightarrow> 'd expr_t option option \<Rightarrow> 'd expr_t" where
  "expr_vecref_of_xdr ln v i = expr_vecref_t ln (ptr_alloc v) (ptr_alloc i)"

definition expr_varref_of_xdr :: "int \<Rightarrow> string \<Rightarrow> 'd expr_t" where
  "expr_varref_of_xdr ln nm = expr_varref_t ln nm"

definition expr_scoped_varref_of_xdr :: "int \<Rightarrow> string \<Rightarrow> ref_scope \<Rightarrow> 'd expr_t" where
  "expr_scoped_varref_of_xdr ln nm sc = expr_scoped_varref_t ln nm (xdr_to_vscope sc)"

definition expr_shell_str_of_xdr :: "int \<Rightarrow> int \<Rightarrow> 'd expr_t option list \<Rightarrow> 'd expr_t" where
  "expr_shell_str_of_xdr ln ln' l = expr_shell_str_t ln ln' l"

definition expr_str_of_xdr :: "string option \<Rightarrow> 'd expr_t" where
  "expr_str_of_xdr s = expr_str_t s"

definition expr_int_of_xdr :: "int \<Rightarrow> 'd expr_t" where
  "expr_int_of_xdr i = expr_int_t i"

definition expr_uint_of_xdr :: "int \<Rightarrow> 'd expr_t" where
  "expr_uint_of_xdr u = expr_uint_t u"

definition expr_double_of_xdr :: "'d xdr_env \<Rightarrow> string \<Rightarrow> 'd expr_t" where
  "expr_double_of_xdr E s = expr_double_t (convertdouble0 (xe_sc E) s)"

definition expr_regex_of_xdr :: "int \<Rightarrow> string \<Rightarrow> string option \<Rightarrow> 'd expr_t" where
  "expr_regex_of_xdr ln body opts = expr_regex_t ln body opts"

definition expr_assignment_of_xdr :: "int \<Rightarrow> 'd expr_t option option \<Rightarrow> 'd expr_t option option \<Rightarrow> 'd expr_t" where
  "expr_assignment_of_xdr ln l r = expr_assignment_t ln (ptr_alloc l) (ptr_alloc r)"

definition expr_bool_of_xdr :: "int \<Rightarrow> 'd expr_t" where
  "expr_bool_of_xdr i = expr_bool_t (i \<noteq> 0)"

definition expr_lambda_of_xdr :: "'d lambda \<Rightarrow> 'd expr_t" where
  "expr_lambda_of_xdr l = expr_lambda_t l"

definition heredoc_of_xdr :: "int \<Rightarrow> 'd zone option option \<Rightarrow> 'd expr_t" where
  "heredoc_of_xdr ln z = heredoc_t ln (ptr_alloc z)"

definition lambda_of_xdr :: "int \<Rightarrow> string option \<Rightarrow> string option \<Rightarrow> string list \<Rightarrow> string list \<Rightarrow> 'd zone option option \<Rightarrow> 'd lambda" where
  "lambda_of_xdr ln fname nm ps os body =
     lambda_t (filename_alloc fname) ln nm (fst (xdr_to_idlist ps os)) (snd (xdr_to_idlist ps os))
       (ptr_alloc body)"

definition zone_html_of_xdr :: "int \<Rightarrow> 'd zone option list \<Rightarrow> 'd zone" where
  "zone_html_of_xdr ln zs = zone_html_t ln zs"

definition zone_text_of_xdr :: "int \<Rightarrow> xzstr \<Rightarrow> xzstr \<Rightarrow> 'd zone" where
  "zone_text_of_xdr ln t w = zone_text_t ln (Some (xdr_to_zstr t)) (Some (xdr_to_zstr w))"

definition zone_inline_expr_of_xdr :: "int \<Rightarrow> 'd expr_t option \<Rightarrow> 'd zone" where
  "zone_inline_expr_of_xdr ln e = zone_inline_expr_t ln e"

definition zone_pub_of_xdr :: "int \<Rightarrow> 'd statement option list \<Rightarrow> 'd zone" where
  "zone_pub_of_xdr ln ss = zone_pub_t ln ss"

definition zone_raw_of_xdr :: "int \<Rightarrow> xzstr \<Rightarrow> 'd zone" where
  "zone_raw_of_xdr ln s = zone_raw_t ln (xdr_to_zstr s)"

definition zone_wss_boundary_of_xdr :: "int \<Rightarrow> bool \<Rightarrow> string \<Rightarrow> 'd zone" where
  "zone_wss_boundary_of_xdr ln b t = zone_wss_boundary_t ln b t"

definition include_of_xdr :: "int \<Rightarrow> 'd expr_t option \<Rightarrow> 'd expr_t option \<Rightarrow> 'd statement" where
  "include_of_xdr ln f d = include_t ln f d"

definition load_of_xdr :: "int \<Rightarrow> 'd expr_t option \<Rightarrow> 'd expr_t option \<Rightarrow> 'd statement" where
  "load_of_xdr ln f d = load_t ln f d"

definition statement_zone_of_xdr :: "int \<Rightarrow> 'd zone option \<Rightarrow> 'd statement" where
  "statement_zone_of_xdr ln z = statement_zone_t ln z"

definition for_of_xdr :: "int \<Rightarrow> string \<Rightarrow> 'd expr_t option \<Rightarrow> 'd zone option \<Rightarrow> 'd zone option option \<Rightarrow> 'd statement" where
  "for_of_xdr ln it a b emp = for_t ln it a b (ptr_alloc emp)"

definition while_of_xdr :: "int \<Rightarrow> 'd expr_t option \<Rightarrow> 'd zone option \<Rightarrow> 'd statement" where
  "while_of_xdr ln c b = while_t ln c b"

definition locals_of_xdr :: "int \<Rightarrow> int \<Rightarrow> (string \<times> 'd expr_t option option) list \<Rightarrow> 'd statement" where
  "locals_of_xdr ln ln' b = locals_t ln ln' (map (map_prod id ptr_alloc) b)"

definition globals_of_xdr :: "int \<Rightarrow> int \<Rightarrow> (string \<times> 'd expr_t option option) list \<Rightarrow> 'd statement" where
  "globals_of_xdr ln ln' b = globals_t ln ln' (map (map_prod id ptr_alloc) b)"

definition universals_of_xdr :: "int \<Rightarrow> int \<Rightarrow> (string \<times> 'd expr_t option option) list \<Rightarrow> 'd statement" where
  "universals_of_xdr ln ln' b = universals_t ln ln' (map (map_prod id ptr_alloc) b)"

definition if_of_xdr :: "int \<Rightarrow> 'd if_clause list \<Rightarrow> 'd statement" where
  "if_of_xdr ln cs = if_t ln (nonempty cs)"

definition print_of_xdr :: "int \<Rightarrow> int \<Rightarrow> 'd expr_t option list \<Rightarrow> 'd statement" where
  "print_of_xdr ln ln' l = print_t ln (Some (ln', l))"

definition expr_statement_of_xdr :: "int \<Rightarrow> 'd expr_t option option \<Rightarrow> 'd statement" where
  "expr_statement_of_xdr ln e = expr_statement_t ln (ptr_alloc e)"

definition fndef_of_xdr :: "int \<Rightarrow> string \<Rightarrow> 'd lambda \<Rightarrow> 'd statement" where
  "fndef_of_xdr ln nm l = fndef_t ln nm l"

definition switch_of_xdr :: "int \<Rightarrow> 'd expr_t option \<Rightarrow> 'd switch_case list \<Rightarrow> 'd statement" where
  "switch_of_xdr ln k cs = switch_t ln k (Some (cs))"

definition break_of_xdr :: "int \<Rightarrow> 'd statement" where
  "break_of_xdr ln = break_t ln"

definition continue_of_xdr :: "int \<Rightarrow> 'd statement" where
  "continue_of_xdr ln = continue_t ln"

definition return_of_xdr :: "int \<Rightarrow> 'd expr_t option \<Rightarrow> 'd statement" where
  "return_of_xdr ln e = return_t ln e"

definition exit_of_xdr :: "int \<Rightarrow> 'd statement" where
  "exit_of_xdr ln = exit_t ln"

definition if_clause_of_xdr :: "int \<Rightarrow> 'd expr_t option \<Rightarrow> 'd zone option \<Rightarrow> 'd if_clause" where
  "if_clause_of_xdr ln e z = if_clause_t ln e z"

definition case_of_xdr :: "int \<Rightarrow> 'd expr_t option option \<Rightarrow> 'd zone option \<Rightarrow> 'd switch_case" where
  "case_of_xdr ln k z = case_t ln (ptr_alloc k) z"

lemmas of_xdr_constructors [simp] =
  expr_NOT_of_xdr_def call_of_xdr_def expr_relation_of_xdr_def expr_dict_of_xdr_def expr_list_of_xdr_def
  expr_EQ_of_xdr_def expr_dictref_of_xdr_def expr_vecref_of_xdr_def expr_varref_of_xdr_def
  expr_scoped_varref_of_xdr_def expr_shell_str_of_xdr_def expr_str_of_xdr_def expr_int_of_xdr_def expr_uint_of_xdr_def
  expr_double_of_xdr_def expr_regex_of_xdr_def expr_assignment_of_xdr_def expr_bool_of_xdr_def expr_lambda_of_xdr_def
  heredoc_of_xdr_def lambda_of_xdr_def zone_html_of_xdr_def zone_text_of_xdr_def zone_inline_expr_of_xdr_def
  zone_pub_of_xdr_def zone_raw_of_xdr_def zone_wss_boundary_of_xdr_def include_of_xdr_def load_of_xdr_def
  statement_zone_of_xdr_def for_of_xdr_def while_of_xdr_def locals_of_xdr_def globals_of_xdr_def universals_of_xdr_def
  if_of_xdr_def print_of_xdr_def expr_statement_of_xdr_def fndef_of_xdr_def switch_of_xdr_def break_of_xdr_def
  continue_of_xdr_def return_of_xdr_def exit_of_xdr_def if_clause_of_xdr_def case_of_xdr_def

primrec e_alloc :: "'d xdr_env \<Rightarrow> xexpr \<Rightarrow> 'd expr_t option"
  and l_alloc :: "'d xdr_env \<Rightarrow> xlambda \<Rightarrow> 'd lambda"
  and z_alloc :: "'d xdr_env \<Rightarrow> xzone \<Rightarrow> 'd zone option"
  and s_alloc :: "'d xdr_env \<Rightarrow> xstatement \<Rightarrow> 'd statement option"
  and ic_alloc :: "'d xdr_env \<Rightarrow> xif_clause \<Rightarrow> 'd if_clause"
  and sc_alloc :: "'d xdr_env \<Rightarrow> xcase \<Rightarrow> 'd switch_case"
where
  "e_alloc E XPUB3_EXPR_NULL = None"
| "e_alloc E XPUB3_EXPR_PUBNULL = Some expr_null_t"
| "e_alloc E (XPUB3_EXPR_NOT ln e) = Some (expr_NOT_of_xdr ln (map_option (e_alloc E) e))"
| "e_alloc E (XPUB3_EXPR_MATHOP ln opc o1 o2) =
     mathop_alloc ln opc (ptr_alloc (map_option (e_alloc E) o1)) (ptr_alloc (map_option (e_alloc E) o2))"
| "e_alloc E (XPUB3_EXPR_CALL ln f ln' l b) = Some (call_of_xdr ln (map_option (e_alloc E) f) ln' (map (e_alloc E) l) b)"
| "e_alloc E (XPUB3_EXPR_RELATION ln op l r) = Some (expr_relation_of_xdr ln op (map_option (e_alloc E) l) (map_option (e_alloc E) r))"
| "e_alloc E (XPUB3_EXPR_DICT ln b) = Some (expr_dict_of_xdr ln (map (map_prod id (map_option (e_alloc E))) b))"
| "e_alloc E (XPUB3_EXPR_LIST ln l) = Some (expr_list_of_xdr ln (map (e_alloc E) l))"
| "e_alloc E (XPUB3_EXPR_EQ ln o1 o2 pos) = Some (expr_EQ_of_xdr ln (map_option (e_alloc E) o1) (map_option (e_alloc E) o2) pos)"
| "e_alloc E (XPUB3_EXPR_DICTREF ln d key) = Some (expr_dictref_of_xdr ln (map_option (e_alloc E) d) key)"
| "e_alloc E (XPUB3_EXPR_VECREF ln v i) = Some (expr_vecref_of_xdr ln (map_option (e_alloc E) v) (map_option (e_alloc E) i))"
| "e_alloc E (XPUB3_EXPR_REF ln nm) = Some (expr_varref_of_xdr ln nm)"
| "e_alloc E (XPUB3_EXPR_SCOPED_REF ln nm sc) = Some (expr_scoped_varref_of_xdr ln nm sc)"
| "e_alloc E (XPUB3_EXPR_SHELL_STR ln ln' l) = Some (expr_shell_str_of_xdr ln ln' (map (e_alloc E) l))"
| "e_alloc E (XPUB3_EXPR_STR s) = Some (expr_str_of_xdr s)"
| "e_alloc E (XPUB3_EXPR_INT i) = Some (expr_int_of_xdr i)"
| "e_alloc E (XPUB3_EXPR_UINT u) = Some (expr_uint_of_xdr u)"
| "e_alloc E (XPUB3_EXPR_DOUBLE s) = Some (expr_double_of_xdr E s)"
| "e_alloc E (XPUB3_EXPR_REGEX ln body opts) = Some (expr_regex_of_xdr ln body opts)"
| "e_alloc E (XPUB3_EXPR_ASSIGNMENT ln l r) = Some (expr_assignment_of_xdr ln (map_option (e_alloc E) l) (map_option (e_alloc E) r))"
| "e_alloc E (XPUB3_EXPR_BOOL i) = Some (expr_bool_of_xdr i)"
| "e_alloc E (XPUB3_EXPR_LAMBDA l) = Some (expr_lambda_of_xdr (l_alloc E l))"
| "e_alloc E (XPUB3_EXPR_HEREDOC ln z) = Some (heredoc_of_xdr ln (map_option (z_alloc E) z))"
| "l_alloc E (Xlambda ln fname nm ps os body) = lambda_of_xdr ln fname nm ps os (map_option (z_alloc E) body)"
| "z_alloc E XPUB3_ZONE_NONE = None"
| "z_alloc E (XPUB3_ZONE_HTML ln zs) = Some (zone_html_of_xdr ln (map (z_alloc E) zs))"
| "z_alloc E (XPUB3_ZONE_TEXT ln t w) = Some (zone_text_of_xdr ln t w)"
| "z_alloc E (XPUB3_ZONE_INLINE_EXPR ln e) = Some (zone_inline_expr_of_xdr ln (e_alloc E e))"
| "z_alloc E (XPUB3_ZONE_PUB ln ss) = Some (zone_pub_of_xdr ln (map (s_alloc E) ss))"
| "z_alloc E (XPUB3_ZONE_RAW ln s) = Some (zone_raw_of_xdr ln s)"
| "z_alloc E (XPUB3_ZONE_WSS_BOUNDARY ln b t) = Some (zone_wss_boundary_of_xdr ln b t)"
| "s_alloc E XPUB3_STATEMENT_NONE = None"
| "s_alloc E (XPUB3_STATEMENT_INCLUDE ln f d) = Some (include_of_xdr ln (e_alloc E f) (e_alloc E d))"
| "s_alloc E (XPUB3_STATEMENT_LOAD ln f d) = Some (load_of_xdr ln (e_alloc E f) (e_alloc E d))"
| "s_alloc E (XPUB3_STATEMENT_ZONE ln z) = Some (statement_zone_of_xdr ln (z_alloc E z))"
| "s_alloc E (XPUB3_STATEMENT_FOR ln it a b emp) = Some (for_of_xdr ln it (e_alloc E a) (z_alloc E b) (map_option (z_alloc E) emp))"
| "s_alloc E (XPUB3_STATEMENT_WHILE ln c b) = Some (while_of_xdr ln (e_alloc E c) (z_alloc E b))"
| "s_alloc E (XPUB3_STATEMENT_LOCALS ln ln' b) = Some (locals_of_xdr ln ln' (map (map_prod id (map_option (e_alloc E))) b))"
| "s_alloc E (XPUB3_STATEMENT_GLOBALS ln ln' b) = Some (globals_of_xdr ln ln' (map (map_prod id (map_option (e_alloc E))) b))"
| "s_alloc E (XPUB3_STATEMENT_UNIVERSALS ln ln' b) = Some (universals_of_xdr ln ln' (map (map_prod id (map_option (e_alloc E))) b))"
| "s_alloc E (XPUB3_STATEMENT_IF ln cs) = Some (if_of_xdr ln (map (ic_alloc E) cs))"
| "s_alloc E (XPUB3_STATEMENT_PRINT ln ln' l) = Some (print_of_xdr ln ln' (map (e_alloc E) l))"
| "s_alloc E (XPUB3_STATEMENT_EXPR ln e) = Some (expr_statement_of_xdr ln (map_option (e_alloc E) e))"
| "s_alloc E (XPUB3_STATEMENT_FNDEF ln nm l) = Some (fndef_of_xdr ln nm (l_alloc E l))"
| "s_alloc E (XPUB3_STATEMENT_SWITCH ln k cs) = Some (switch_of_xdr ln (e_alloc E k) (map (sc_alloc E) cs))"
| "s_alloc E (XPUB3_STATEMENT_BREAK ln) = Some (break_of_xdr ln)"
| "s_alloc E (XPUB3_STATEMENT_CONTINUE ln) = Some (continue_of_xdr ln)"
| "s_alloc E (XPUB3_STATEMENT_RETURN ln e) = Some (return_of_xdr ln (e_alloc E e))"
| "s_alloc E (XPUB3_STATEMENT_EXIT ln) = Some (exit_of_xdr ln)"
| "ic_alloc E (Xif_clause ln e z) = if_clause_of_xdr ln (e_alloc E e) (z_alloc E z)"
| "sc_alloc E (Xcase ln k z) = case_of_xdr ln (map_option (e_alloc E) k) (z_alloc E z)"

section \<open>What the service sees\<close>

text \<open>
  The tree after the trip, stated on trees: an empty place of a list becomes the null expression, a string
  buffer a string, a copy-on-write reference its target; a dictionary is rebuilt from its bindings in key
  order; a \<^verbatim>\<open>double\<close> is read back from 63 printed characters; a lambda without a name gets the empty name;
  a missing argument list, and missing cases of a \<^verbatim>\<open>switch\<close>, become empty ones, and the empty list of an
  \<^verbatim>\<open>if\<close>'s clauses becomes a missing one.
\<close>

definition seen_list :: "'e option list \<Rightarrow> 'e \<Rightarrow> 'e option list" where
  "seen_list l null = map (\<lambda>x. Some (case x of Some e \<Rightarrow> e | None \<Rightarrow> null)) l"

definition seen_args :: "int \<Rightarrow> 'e \<Rightarrow> (int \<times> 'e option list) option \<Rightarrow> (int \<times> 'e option list) option" where
  "seen_args ln0 null a = Some (case a of Some (ln, l) \<Rightarrow> (ln, seen_list l null) | None \<Rightarrow> (ln0, []))"

primrec e_seen :: "'d xdr_env \<Rightarrow> 'd expr_t \<Rightarrow> 'd expr_t"
  and l_seen :: "'d xdr_env \<Rightarrow> 'd lambda \<Rightarrow> 'd lambda"
  and z_seen :: "'d xdr_env \<Rightarrow> 'd zone \<Rightarrow> 'd zone"
  and s_seen :: "'d xdr_env \<Rightarrow> 'd statement \<Rightarrow> 'd statement"
  and ic_seen :: "'d xdr_env \<Rightarrow> 'd if_clause \<Rightarrow> 'd if_clause"
  and sc_seen :: "'d xdr_env \<Rightarrow> 'd switch_case \<Rightarrow> 'd switch_case"
where
  "e_seen E expr_null_t = expr_null_t"
| "e_seen E (expr_bool_t b) = expr_bool_t b"
| "e_seen E (expr_int_t i) = expr_int_t i"
| "e_seen E (expr_uint_t u) = expr_uint_t u"
| "e_seen E (expr_double_t d) = expr_double_t (convertdouble0 (xe_sc E) (take 63 (xe_fmt E d)))"
| "e_seen E (expr_str_t s) = expr_str_t s"
| "e_seen E (expr_strbuf_t b) = expr_str_t (Some b)"
| "e_seen E (expr_regex_t ln body opts) = expr_regex_t ln body opts"
| "e_seen E (expr_list_t ln l) = expr_list_t ln (seen_list (map (map_option (e_seen E)) l) expr_null_t)"
| "e_seen E (expr_dict_t ln d) =
     expr_dict_t ln (dict_fill (sort_bindings (map (map_prod id (map_option (e_seen E))) d)))"
| "e_seen E (expr_cow_t x) = e_seen E x"
| "e_seen E (expr_shell_str_t ln ln' els) =
     expr_shell_str_t ln ln' (seen_list (map (map_option (e_seen E)) els) expr_null_t)"
| "e_seen E (expr_OR_t ln a b) = expr_OR_t ln (map_option (e_seen E) a) (map_option (e_seen E) b)"
| "e_seen E (expr_AND_t ln a b) = expr_AND_t ln (map_option (e_seen E) a) (map_option (e_seen E) b)"
| "e_seen E (expr_NOT_t ln e) = expr_NOT_t ln (map_option (e_seen E) e)"
| "e_seen E (expr_EQ_t ln a b pos) = expr_EQ_t ln (map_option (e_seen E) a) (map_option (e_seen E) b) pos"
| "e_seen E (expr_relation_t ln a b op) = expr_relation_t ln (map_option (e_seen E) a) (map_option (e_seen E) b) op"
| "e_seen E (expr_add_t ln a b pos) = expr_add_t ln (map_option (e_seen E) a) (map_option (e_seen E) b) pos"
| "e_seen E (expr_mult_t ln a b) = expr_mult_t ln (map_option (e_seen E) a) (map_option (e_seen E) b)"
| "e_seen E (expr_div_t ln a b) = expr_div_t ln (map_option (e_seen E) a) (map_option (e_seen E) b)"
| "e_seen E (expr_mod_t ln a b) = expr_mod_t ln (map_option (e_seen E) a) (map_option (e_seen E) b)"
| "e_seen E (expr_dictref_t ln d key) = expr_dictref_t ln (map_option (e_seen E) d) key"
| "e_seen E (expr_varref_t ln nm) = expr_varref_t ln nm"
| "e_seen E (expr_scoped_varref_t ln nm sc) = expr_scoped_varref_t ln nm sc"
| "e_seen E (expr_vecref_t ln a b) = expr_vecref_t ln (map_option (e_seen E) a) (map_option (e_seen E) b)"
| "e_seen E (expr_assignment_t ln a b) = expr_assignment_t ln (map_option (e_seen E) a) (map_option (e_seen E) b)"
| "e_seen E (call_t ln f a blocking) =
     call_t ln (map_option (e_seen E) f)
       (seen_args (xe_line0 E) expr_null_t (map_option (map_prod id (map (map_option (e_seen E)))) a)) blocking"
| "e_seen E (expr_lambda_t l) = expr_lambda_t (l_seen E l)"
| "e_seen E (heredoc_t ln z) = heredoc_t ln (map_option (z_seen E) z)"
| "l_seen E (lambda_t fname ln nm ps os body) =
     lambda_t (if fname = Some [] then None else fname) ln (if nm = None then Some [] else nm) ps os (map_option (z_seen E) body)"
| "z_seen E (zone_html_t ln zs) = zone_html_t ln (map (map_option (z_seen E)) zs)"
| "z_seen E (zone_text_t ln t w) = zone_text_t ln t w"
| "z_seen E (zone_inline_expr_t ln e) = zone_inline_expr_t ln (map_option (e_seen E) e)"
| "z_seen E (zone_pub_t ln ss) = zone_pub_t ln (map (map_option (s_seen E)) ss)"
| "z_seen E (zone_raw_t ln s) = zone_raw_t ln s"
| "z_seen E (zone_wss_boundary_t ln b t) = zone_wss_boundary_t ln b t"
| "s_seen E (include_t ln f d) = include_t ln (map_option (e_seen E) f) (map_option (e_seen E) d)"
| "s_seen E (load_t ln f d) = load_t ln (map_option (e_seen E) f) (map_option (e_seen E) d)"
| "s_seen E (statement_zone_t ln z) = statement_zone_t ln (map_option (z_seen E) z)"
| "s_seen E (for_t ln it a b emp) =
     for_t ln it (map_option (e_seen E) a) (map_option (z_seen E) b) (map_option (z_seen E) emp)"
| "s_seen E (while_t ln c b) = while_t ln (map_option (e_seen E) c) (map_option (z_seen E) b)"
| "s_seen E (locals_t ln ln' b) = locals_t ln ln' (map (map_prod id (map_option (e_seen E))) b)"
| "s_seen E (globals_t ln ln' b) = globals_t ln ln' (map (map_prod id (map_option (e_seen E))) b)"
| "s_seen E (universals_t ln ln' b) = universals_t ln ln' (map (map_prod id (map_option (e_seen E))) b)"
| "s_seen E (if_t ln cs) = if_t ln (if cs = Some [] then None else map_option (map (ic_seen E)) cs)"
| "s_seen E (print_t ln a) =
     print_t ln (seen_args (xe_line0 E) expr_null_t (map_option (map_prod id (map (map_option (e_seen E)))) a))"
| "s_seen E (expr_statement_t ln e) = expr_statement_t ln (map_option (e_seen E) e)"
| "s_seen E (fndef_t ln nm l) = fndef_t ln nm (l_seen E l)"
| "s_seen E (switch_t ln k cs) =
     switch_t ln (map_option (e_seen E) k) (Some (case map_option (map (sc_seen E)) cs of Some l \<Rightarrow> l | None \<Rightarrow> []))"
| "s_seen E (break_t ln) = break_t ln"
| "s_seen E (continue_t ln) = continue_t ln"
| "s_seen E (return_t ln e) = return_t ln (map_option (e_seen E) e)"
| "s_seen E (exit_t ln) = exit_t ln"
| "ic_seen E (if_clause_t ln e b) = if_clause_t ln (map_option (e_seen E) e) (map_option (z_seen E) b)"
| "sc_seen E (case_t ln k b) = case_t ln (map_option (e_seen E) k) (map_option (z_seen E) b)"

section \<open>The round trip\<close>

text \<open>\<open>ships f g h a\<close>: what \<open>f\<close> encodes of \<open>a\<close>, \<open>g\<close> decodes to \<open>h a\<close>.\<close>

definition ships :: "('a \<Rightarrow> 'x option) \<Rightarrow> ('x \<Rightarrow> 'b option) \<Rightarrow> ('a \<Rightarrow> 'b) \<Rightarrow> 'a \<Rightarrow> bool" where
  "ships f g h a \<longleftrightarrow> (\<forall>x. f a = Some x \<longrightarrow> g x = Some (h a))"

lemma shipsD: "ships f g h a \<Longrightarrow> f a = Some x \<Longrightarrow> g x = Some (h a)"
  by (simp add: ships_def)

lemma rpc_ptr_ships:
  assumes "\<And>a. a \<in> set_option p \<Longrightarrow> ships f g h a" "expr_to_rpc_ptr (map_option f p) = Some x"
  shows "ptr_alloc (map_option g x) = map_option h p"
  using assms by (cases p) (auto simp: expr_to_rpc_ptr_def ships_def)

lemma zone_ptr_ships:
  assumes "\<And>a. a \<in> set_option p \<Longrightarrow> ships f g h a" "zone_to_rpc_ptr (map_option f p) = Some x"
  shows "ptr_alloc (map_option g x) = map_option h p"
  using assms by (cases p) (auto simp: zone_to_rpc_ptr_def ships_def)

lemma expr_ships:
  assumes "\<And>a. a \<in> set_option p \<Longrightarrow> ships f (e_alloc E) h a" "expr_to_xdr (map_option f p) = Some x"
  shows "e_alloc E x = map_option h p"
  using assms by (cases p) (auto simp: expr_to_xdr_def ships_def)

lemma body_ships:
  assumes "\<And>a. a \<in> set_option p \<Longrightarrow> ships f (z_alloc E) h a" "body_to_xdr E (map_option f p) = Some x"
    "xe_zone0 E = XPUB3_ZONE_NONE"
  shows "z_alloc E x = map_option h p"
  using assms by (cases p) (auto simp: body_to_xdr_def ships_def)

lemma deref_ships:
  assumes "\<And>a. a \<in> set_option p \<Longrightarrow> ships f g h a" "deref (map_option f p) = Some x"
  shows "g x = map_option h p"
  using assms by (cases p) (auto simp: deref_def ships_def)

lemma those_map_ships:
  "(\<And>a. a \<in> set l \<Longrightarrow> ships f g h a) \<Longrightarrow> those (map f l) = Some xs \<Longrightarrow> map g xs = map (Some \<circ> h) l"
proof (induction l arbitrary: xs)
  case (Cons a l)
  then obtain y ys where "f a = Some y" "those (map f l) = Some ys" "xs = y # ys"
    by (auto split: option.splits)
  then show ?case using Cons.IH [of ys] Cons.prems(1) by (simp add: ships_def)
qed simp

lemma those_total_ships:
  assumes "\<And>a. a \<in> set l \<Longrightarrow> ships f (\<lambda>x. Some (g x)) h a" "those (map f l) = Some xs"
  shows "map g xs = map h l"
  using those_map_ships [OF assms] by (auto simp: list_eq_iff_nth_eq)

lemma those_length: "those l = Some xs \<Longrightarrow> length xs = length l"
  by (induction l arbitrary: xs) (auto split: option.splits)

lemma those_deref_ships:
  assumes "\<And>p a. p \<in> set l \<Longrightarrow> a \<in> set_option p \<Longrightarrow> ships f g h a"
    "those (map deref (map (map_option f) l)) = Some xs"
  shows "map g xs = map (map_option h) l"
proof -
  have "ships (\<lambda>p. deref (map_option f p)) (\<lambda>x. Some (g x)) (map_option h) p" if "p \<in> set l" for p
    using assms(1) [OF that] by (cases p) (auto simp: ships_def deref_def)
  moreover have "those (map (\<lambda>p. deref (map_option f p)) l) = Some xs" using assms(2) by (simp add: comp_def)
  ultimately show ?thesis by (rule those_total_ships)
qed

lemma list_ships:
  assumes "\<And>p a. p \<in> set l \<Longrightarrow> a \<in> set_option p \<Longrightarrow> ships f (e_alloc E) h a"
    "list_to_xdr (map (map_option f) l) = Some xs"
  shows "map (e_alloc E) xs = seen_list (map (map_option h) l) expr_null_t"
proof -
  let ?f = "\<lambda>p. case map_option f p of Some r \<Rightarrow> r | None \<Rightarrow> Some XPUB3_EXPR_PUBNULL"
  let ?h = "\<lambda>p. case map_option h p of Some e \<Rightarrow> e | None \<Rightarrow> expr_null_t"
  have "ships ?f (e_alloc E) ?h p" if "p \<in> set l" for p
    using assms(1) [OF that] by (cases p) (auto simp: ships_def)
  moreover have "those (map ?f l) = Some xs" using assms(2) by (simp add: list_to_xdr_def comp_def)
  ultimately show ?thesis using those_map_ships [of l ?f "e_alloc E" ?h xs] by (simp add: seen_list_def comp_def)
qed

lemma args_ships:
  assumes "\<And>q l p a. q \<in> set_option args \<Longrightarrow> l \<in> Basic_BNFs.snds q \<Longrightarrow> p \<in> set l \<Longrightarrow> a \<in> set_option p \<Longrightarrow> ships f (e_alloc E) h a"
    "args_to_xdr E (map_option (map_prod id (map (map_option f))) args) = Some (ln, xs)"
  shows "Some (ln, map (e_alloc E) xs) = seen_args (xe_line0 E) expr_null_t (map_option (map_prod id (map (map_option h))) args)"
proof (cases args)
  case None
  then show ?thesis using assms(2) by (simp add: args_to_xdr_def seen_args_def)
next
  case (Some q)
  then show ?thesis using assms(2) list_ships [of "snd q" f E h xs] assms(1)
    by (cases q) (auto simp: args_to_xdr_def seen_args_def prod_set_defs)
qed

lemma bindings_ships:
  assumes "\<And>kv p a. kv \<in> set b \<Longrightarrow> p \<in> Basic_BNFs.snds kv \<Longrightarrow> a \<in> set_option p \<Longrightarrow> ships f g h a"
    "bindings_to_xdr (map (map_prod id (map_option f)) b) = Some xs"
  shows "map (map_prod id ptr_alloc) (map (map_prod id (map_option g)) xs) = map (map_prod id (map_option h)) b"
proof -
  let ?f = "\<lambda>(k, p). map_option (Pair k) (expr_to_rpc_ptr (map_option f p))"
  let ?g = "map_prod id ptr_alloc \<circ> map_prod id (map_option g)"
  have "ships ?f (\<lambda>x. Some (?g x)) (map_prod id (map_option h)) kv" if kv: "kv \<in> set b" for kv
  proof -
    obtain k p where e: "kv = (k, p)" by (cases kv)
    then have "ships f g h a" if "a \<in> set_option p" for a using assms(1) [OF kv] that by (auto simp: prod_set_defs)
    then show ?thesis using rpc_ptr_ships [of p f g h] e by (auto simp: ships_def)
  qed
  moreover have "those (map ?f b) = Some xs" using assms(2) by (simp add: bindings_to_xdr_def comp_def case_prod_beta')
  ultimately have "map ?g xs = map (map_prod id (map_option h)) b" by (rule those_total_ships)
  then show ?thesis by (simp add: comp_def)
qed

lemma sort_bindings_map: "map (map_prod id k) (sort_bindings b) = sort_bindings (map (map_prod id k) b)"
proof -
  have ins: "map (map_prod id k) (insort_key (\<lambda>kv. cstr (fst kv)) x l)
      = insort_key (\<lambda>kv. cstr (fst kv)) (map_prod id k x) (map (map_prod id k) l)" for x l
    by (induction l) auto
  show ?thesis unfolding sort_bindings_def sort_key_def
    by (induction b) (simp_all add: ins [unfolded id_def] id_def)
qed

lemma idlist_to_xdr_same: "idlist_to_xdr ps os = (ps, os)"
proof -
  have "map (\<lambda>i. the (idl_at ps os i)) [0..<length ps] = map ((!) ps) [0..<length ps]"
    "map (\<lambda>i. the (idl_at ps os (i + length ps))) [0..<length os] = map ((!) os) [0..<length os]"
    by (rule map_cong; simp add: idl_at_def)+
  then show ?thesis by (simp add: idlist_to_xdr_def map_nth)
qed

lemma xdr_to_idlist_same: "xdr_to_idlist ps os = (ps, os)"
proof -
  have "fold (\<lambda>p (a, b). (a @ [p], b)) ps (a, b) = (a @ ps, b)" for a b :: "string list"
    by (induction ps arbitrary: a) auto
  moreover have "fold (\<lambda>p (a, b). (a, b @ [p])) os (a, b) = (a, b @ os)" for a b :: "string list"
    by (induction os arbitrary: b) auto
  ultimately show ?thesis by (simp add: xdr_to_idlist_def)
qed

lemma vscope_xdr [simp]: "xdr_to_vscope (vscope_to_xdr v) = v"
  by (cases v) (simp_all add: xdr_to_vscope_def vscope_to_xdr_def)

lemma zstr_xdr [simp]: "xdr_to_zstr (zstr_to_xdr E s l) = s"
  by (simp add: xdr_to_zstr_def zstr_to_xdr_def)

lemma mathop_ships:
  assumes "\<And>a. a \<in> set_option p \<Longrightarrow> ships f (e_alloc E) h a" "\<And>a. a \<in> set_option q \<Longrightarrow> ships f (e_alloc E) h a"
    "mathop_to_xdr ln opc (map_option f p) (map_option f q) = Some x"
  shows "e_alloc E x = mathop_alloc ln opc (map_option h p) (map_option h q)"
proof -
  obtain u v where "expr_to_rpc_ptr (map_option f p) = Some u" "expr_to_rpc_ptr (map_option f q) = Some v"
    "x = XPUB3_EXPR_MATHOP ln opc u v"
    using assms(3) by (auto simp: mathop_to_xdr_def bind_eq_Some_conv)
  then show ?thesis using rpc_ptr_ships [of p f "e_alloc E" h u] rpc_ptr_ships [of q f "e_alloc E" h v] assms(1,2) by simp
qed

lemma pair_ships:
  assumes "\<And>a. a \<in> set_option p \<Longrightarrow> ships f (e_alloc E) h a" "\<And>a. a \<in> set_option q \<Longrightarrow> ships f (e_alloc E) h a"
    "pair_to_xdr c (map_option f p) (map_option f q) = Some x"
  obtains u v where "x = c u v" "ptr_alloc (map_option (e_alloc E) u) = map_option h p"
    "ptr_alloc (map_option (e_alloc E) v) = map_option h q"
proof -
  obtain u v where uv: "expr_to_rpc_ptr (map_option f p) = Some u" "expr_to_rpc_ptr (map_option f q) = Some v" "x = c u v"
    using assms(3) by (auto simp: pair_to_xdr_def bind_eq_Some_conv)
  show ?thesis by (rule that [OF uv(3) rpc_ptr_ships [OF assms(1) uv(1)] rpc_ptr_ships [OF assms(2) uv(2)]])
qed

lemma shipsI: "(\<And>x. f a = Some x \<Longrightarrow> g x = Some (h a)) \<Longrightarrow> ships f g h a"
  by (simp add: ships_def)

lemma pair_shipsD:
  assumes "pair_to_xdr c (map_option f p) (map_option f q) = Some x"
    "\<And>a. a \<in> set_option p \<Longrightarrow> ships f (e_alloc E) h a" "\<And>a. a \<in> set_option q \<Longrightarrow> ships f (e_alloc E) h a"
  shows "\<exists>u v. x = c u v \<and> ptr_alloc (map_option (e_alloc E) u) = map_option h p
    \<and> ptr_alloc (map_option (e_alloc E) v) = map_option h q"
  using pair_ships [OF assms(2,3,1)] by metis

abbreviation e_ok :: "'d xdr_env \<Rightarrow> 'd expr_t \<Rightarrow> bool" where
  "e_ok E \<equiv> ships (e_to_xdr E) (e_alloc E) (e_seen E)"

abbreviation z_ok :: "'d xdr_env \<Rightarrow> 'd zone \<Rightarrow> bool" where
  "z_ok E \<equiv> ships (z_to_xdr E) (z_alloc E) (z_seen E)"

abbreviation s_ok :: "'d xdr_env \<Rightarrow> 'd statement \<Rightarrow> bool" where
  "s_ok E \<equiv> ships (s_to_xdr E) (s_alloc E) (s_seen E)"

abbreviation l_ok :: "'d xdr_env \<Rightarrow> 'd lambda \<Rightarrow> bool" where
  "l_ok E \<equiv> ships (l_to_xdr E) (\<lambda>x. Some (l_alloc E x)) (l_seen E)"

abbreviation ic_ok :: "'d xdr_env \<Rightarrow> 'd if_clause \<Rightarrow> bool" where
  "ic_ok E \<equiv> ships (ic_to_xdr E) (\<lambda>x. Some (ic_alloc E x)) (ic_seen E)"

abbreviation swc_ok :: "'d xdr_env \<Rightarrow> 'd switch_case \<Rightarrow> bool" where
  "swc_ok E \<equiv> ships (sc_to_xdr E) (\<lambda>x. Some (sc_alloc E x)) (sc_seen E)"

lemma ship_leaves:
  "e_ok E expr_null_t" "e_ok E (expr_bool_t b)" "e_ok E (expr_int_t i)" "e_ok E (expr_uint_t i)"
  "e_ok E (expr_double_t d)" "e_ok E (expr_str_t s)" "e_ok E (expr_strbuf_t t)" "e_ok E (expr_varref_t ln t)"
  "e_ok E (expr_scoped_varref_t ln t sc)" "z_ok E (zone_raw_t ln t)" "z_ok E (zone_wss_boundary_t ln b t)"
  "s_ok E (break_t ln)" "s_ok E (continue_t ln)" "s_ok E (exit_t ln)"
  by (rule shipsI; auto)+

lemma ship_text: "z_ok E (zone_text_t ln s w)"
  by (rule shipsI) (auto simp: zstr_opt_to_xdr_def bind_eq_Some_conv zstr_to_xdr_def xdr_to_zstr_def)

lemma ship_regex: "xe_str0 E = Some [] \<Longrightarrow> e_ok E (expr_regex_t ln t s)"
  by (rule shipsI) auto

lemma ship_unary:
  assumes p: "\<And>a. a \<in> set_option p \<Longrightarrow> e_ok E a"
  shows "e_ok E (expr_NOT_t ln p)" "e_ok E (expr_dictref_t ln p key)" "s_ok E (expr_statement_t ln p)"
    "z_ok E (zone_inline_expr_t ln p)" "s_ok E (return_t ln p)"
  by (rule shipsI; auto dest!: rpc_ptr_ships [rotated, OF _ p] expr_ships [of p, rotated, OF _ p])+

lemma ship_mathops:
  assumes p: "\<And>a. a \<in> set_option p \<Longrightarrow> e_ok E a" and q: "\<And>a. a \<in> set_option q \<Longrightarrow> e_ok E a"
  shows "e_ok E (expr_OR_t ln p q)" "e_ok E (expr_AND_t ln p q)" "e_ok E (expr_add_t ln p q pos)"
    "e_ok E (expr_mult_t ln p q)" "e_ok E (expr_div_t ln p q)" "e_ok E (expr_mod_t ln p q)"
  by (rule shipsI; auto simp: mathop_alloc_def dest!: mathop_ships [rotated 2, OF _ p q])+

lemma ship_pairs:
  assumes p: "\<And>a. a \<in> set_option p \<Longrightarrow> e_ok E a" and q: "\<And>a. a \<in> set_option q \<Longrightarrow> e_ok E a"
  shows "e_ok E (expr_EQ_t ln p q pos)" "e_ok E (expr_relation_t ln p q op)" "e_ok E (expr_vecref_t ln p q)"
    "e_ok E (expr_assignment_t ln p q)"
  by (rule shipsI; auto dest!: pair_shipsD [OF _ p q])+

lemma ship_includes:
  assumes p: "\<And>a. a \<in> set_option p \<Longrightarrow> e_ok E a" and q: "\<And>a. a \<in> set_option q \<Longrightarrow> e_ok E a"
  shows "s_ok E (include_t ln p q)" "s_ok E (load_t ln p q)"
  by (rule shipsI; auto simp: bind_eq_Some_conv dest!: expr_ships [of p, rotated, OF _ p] expr_ships [of q, rotated, OF _ q])+

lemma ship_lists:
  assumes p: "\<And>p a. p \<in> set l \<Longrightarrow> a \<in> set_option p \<Longrightarrow> e_ok E a"
  shows "e_ok E (expr_list_t ln l)" "e_ok E (expr_shell_str_t ln ln' l)"
  by (rule shipsI; auto dest!: list_ships [rotated, OF _ p])+

lemma ship_call:
  assumes p: "\<And>a. a \<in> set_option p \<Longrightarrow> e_ok E a"
    and q: "\<And>q l p a. q \<in> set_option args \<Longrightarrow> l \<in> Basic_BNFs.snds q \<Longrightarrow> p \<in> set l \<Longrightarrow> a \<in> set_option p \<Longrightarrow> e_ok E a"
  shows "e_ok E (call_t ln p args b)"
  by (rule shipsI) (auto simp: bind_eq_Some_conv dest!: rpc_ptr_ships [rotated, OF _ p] args_ships [rotated, OF _ q])

lemma ship_print:
  assumes q: "\<And>q l p a. q \<in> set_option args \<Longrightarrow> l \<in> Basic_BNFs.snds q \<Longrightarrow> p \<in> set l \<Longrightarrow> a \<in> set_option p \<Longrightarrow> e_ok E a"
  shows "s_ok E (print_t ln args)"
  by (rule shipsI) (auto dest!: args_ships [rotated, OF _ q])

lemma ship_bindings:
  assumes p: "\<And>kv p a. kv \<in> set b \<Longrightarrow> p \<in> Basic_BNFs.snds kv \<Longrightarrow> a \<in> set_option p \<Longrightarrow> e_ok E a"
  shows "e_ok E (expr_dict_t ln b)" "s_ok E (locals_t ln ln' b)" "s_ok E (globals_t ln ln' b)" "s_ok E (universals_t ln ln' b)"
  by (rule shipsI; auto dest!: bindings_ships [rotated, OF _ p] simp: sort_bindings_map simp del: map_map)+

lemma ship_cow: "e_ok E e \<Longrightarrow> e_ok E (expr_cow_t e)"
  by (simp add: ships_def)

lemma ship_lambda_uses: "l_ok E l \<Longrightarrow> e_ok E (expr_lambda_t l)" "l_ok E l \<Longrightarrow> s_ok E (fndef_t ln t l)"
  by (auto simp: ships_def)

lemma ship_lambda:
  assumes "\<And>a. a \<in> set_option body \<Longrightarrow> z_ok E a" and s0: "xe_str0 E = Some []"
  shows "l_ok E (lambda_t fname ln nm ps os body)"
  by (rule shipsI) (auto simp: idlist_to_xdr_same xdr_to_idlist_same str_or_fresh_def filename_alloc_def s0
      split: option.splits dest!: deref_ships [rotated, OF _ assms(1)])

lemma ship_zone_uses:
  assumes p: "\<And>a. a \<in> set_option p \<Longrightarrow> z_ok E a"
  shows "e_ok E (heredoc_t ln p)" "s_ok E (statement_zone_t ln p)"
  by (rule shipsI; auto dest!: zone_ptr_ships [rotated, OF _ p] deref_ships [rotated, OF _ p])+

lemma ship_html: "(\<And>p a. p \<in> set l \<Longrightarrow> a \<in> set_option p \<Longrightarrow> z_ok E a) \<Longrightarrow> z_ok E (zone_html_t ln l)"
  by (rule shipsI) (auto simp del: map_map dest!: those_deref_ships [rotated])

lemma ship_pub: "(\<And>p a. p \<in> set l \<Longrightarrow> a \<in> set_option p \<Longrightarrow> s_ok E a) \<Longrightarrow> z_ok E (zone_pub_t ln l)"
  by (rule shipsI) (auto simp del: map_map dest!: those_deref_ships [rotated])

lemma ship_bodies:
  assumes p: "\<And>a. a \<in> set_option p \<Longrightarrow> e_ok E a" and q: "\<And>a. a \<in> set_option q \<Longrightarrow> z_ok E a"
    and z0: "xe_zone0 E = XPUB3_ZONE_NONE"
  shows "s_ok E (while_t ln p q)" "ic_ok E (if_clause_t ln p q)" "swc_ok E (case_t ln p q)"
  by (rule shipsI; auto simp: bind_eq_Some_conv dest!: expr_ships [of p, rotated, OF _ p] rpc_ptr_ships [rotated, OF _ p]
      body_ships [of q, rotated, OF _ z0 q])+

lemma ship_for:
  assumes p: "\<And>a. a \<in> set_option p \<Longrightarrow> e_ok E a" and q: "\<And>a. a \<in> set_option q \<Longrightarrow> z_ok E a"
    and r: "\<And>a. a \<in> set_option r \<Longrightarrow> z_ok E a" and z0: "xe_zone0 E = XPUB3_ZONE_NONE"
  shows "s_ok E (for_t ln it p q r)"
  by (rule shipsI) (auto simp: bind_eq_Some_conv dest!: expr_ships [of p, rotated, OF _ p]
      body_ships [of q, rotated, OF _ z0 q] zone_ptr_ships [of r, rotated, OF _ r])

lemma ship_if: "(\<And>l a. l \<in> set_option cs \<Longrightarrow> a \<in> set l \<Longrightarrow> ic_ok E a) \<Longrightarrow> s_ok E (if_t ln cs)"
  by (rule shipsI) (auto simp: nonempty_def split: option.splits if_splits dest: those_length
      dest!: those_total_ships [where g = "ic_alloc E" and h = "ic_seen E", rotated])

lemma ship_switch:
  assumes p: "\<And>a. a \<in> set_option p \<Longrightarrow> e_ok E a" and q: "\<And>l a. l \<in> set_option cs \<Longrightarrow> a \<in> set l \<Longrightarrow> swc_ok E a"
  shows "s_ok E (switch_t ln p cs)"
  by (rule shipsI) (auto simp: bind_eq_Some_conv split: option.splits dest!: expr_ships [of p, rotated, OF _ p]
      those_total_ships [rotated, OF _ q])

lemmas ship_nodes = ship_leaves ship_text ship_regex ship_unary ship_mathops ship_pairs ship_includes ship_lists ship_call ship_print
  ship_bindings ship_cow ship_lambda_uses ship_lambda ship_zone_uses ship_html ship_pub ship_bodies ship_for ship_if
  ship_switch

lemma tree_ships:
  assumes z0: "xe_zone0 E = XPUB3_ZONE_NONE" and s0: "xe_str0 E = Some []"
  shows "e_ok E e" and "l_ok E l" and "z_ok E z" and "s_ok E s" and "ic_ok E ic" and "swc_ok E sc"
proof (induction e and l and z and s and ic and sc)
qed (rule ship_nodes; (assumption | rule z0 s0))+

section \<open>Trees that can be encoded\<close>

text \<open>
  An encoder follows the body of a lambda, the children of a zone and the zone of a statement without
  looking, and reads the texts of a text zone.  \<open>may\<close> is a guarded pointer, \<open>must\<close> an unguarded one.
\<close>

definition may :: "bool option \<Rightarrow> bool" where "may p \<longleftrightarrow> p \<noteq> Some False"
definition must :: "bool option \<Rightarrow> bool" where "must p \<longleftrightarrow> p = Some True"

primrec e_whole :: "'d expr_t \<Rightarrow> bool" and l_whole :: "'d lambda \<Rightarrow> bool" and z_whole :: "'d zone \<Rightarrow> bool"
  and s_whole :: "'d statement \<Rightarrow> bool" and ic_whole :: "'d if_clause \<Rightarrow> bool" and sc_whole :: "'d switch_case \<Rightarrow> bool"
where
  "e_whole expr_null_t = True"
| "e_whole (expr_bool_t b) = True"
| "e_whole (expr_int_t i) = True"
| "e_whole (expr_uint_t i) = True"
| "e_whole (expr_double_t d) = True"
| "e_whole (expr_str_t s) = True"
| "e_whole (expr_strbuf_t s) = True"
| "e_whole (expr_regex_t ln s s') = True"
| "e_whole (expr_list_t ln l) = list_all may (map (map_option e_whole) l)"
| "e_whole (expr_dict_t ln d) = list_all (\<lambda>kv. may (snd kv)) (map (map_prod id (map_option e_whole)) d)"
| "e_whole (expr_cow_t e) = e_whole e"
| "e_whole (expr_shell_str_t ln ln' l) = list_all may (map (map_option e_whole) l)"
| "e_whole (expr_OR_t ln a b) = (may (map_option e_whole a) \<and> may (map_option e_whole b))"
| "e_whole (expr_AND_t ln a b) = (may (map_option e_whole a) \<and> may (map_option e_whole b))"
| "e_whole (expr_NOT_t ln a) = may (map_option e_whole a)"
| "e_whole (expr_EQ_t ln a b pos) = (may (map_option e_whole a) \<and> may (map_option e_whole b))"
| "e_whole (expr_relation_t ln a b op) = (may (map_option e_whole a) \<and> may (map_option e_whole b))"
| "e_whole (expr_add_t ln a b pos) = (may (map_option e_whole a) \<and> may (map_option e_whole b))"
| "e_whole (expr_mult_t ln a b) = (may (map_option e_whole a) \<and> may (map_option e_whole b))"
| "e_whole (expr_div_t ln a b) = (may (map_option e_whole a) \<and> may (map_option e_whole b))"
| "e_whole (expr_mod_t ln a b) = (may (map_option e_whole a) \<and> may (map_option e_whole b))"
| "e_whole (expr_dictref_t ln a k) = may (map_option e_whole a)"
| "e_whole (expr_varref_t ln k) = True"
| "e_whole (expr_scoped_varref_t ln k sc) = True"
| "e_whole (expr_vecref_t ln a b) = (may (map_option e_whole a) \<and> may (map_option e_whole b))"
| "e_whole (expr_assignment_t ln a b) = (may (map_option e_whole a) \<and> may (map_option e_whole b))"
| "e_whole (call_t ln f a b) = (may (map_option e_whole f)
     \<and> (case map_option (map_prod id (map (map_option e_whole))) a of None \<Rightarrow> True | Some q \<Rightarrow> list_all may (snd q)))"
| "e_whole (expr_lambda_t l) = l_whole l"
| "e_whole (heredoc_t ln z) = may (map_option z_whole z)"
| "l_whole (lambda_t fname ln nm ps os body) = must (map_option z_whole body)"
| "z_whole (zone_html_t ln zs) = list_all must (map (map_option z_whole) zs)"
| "z_whole (zone_text_t ln t w) = (t \<noteq> None \<and> w \<noteq> None)"
| "z_whole (zone_inline_expr_t ln e) = may (map_option e_whole e)"
| "z_whole (zone_pub_t ln ss) = list_all must (map (map_option s_whole) ss)"
| "z_whole (zone_raw_t ln s) = True"
| "z_whole (zone_wss_boundary_t ln b s) = True"
| "s_whole (include_t ln a b) = (may (map_option e_whole a) \<and> may (map_option e_whole b))"
| "s_whole (load_t ln a b) = (may (map_option e_whole a) \<and> may (map_option e_whole b))"
| "s_whole (statement_zone_t ln z) = must (map_option z_whole z)"
| "s_whole (for_t ln it a b c) = (may (map_option e_whole a) \<and> may (map_option z_whole b) \<and> may (map_option z_whole c))"
| "s_whole (while_t ln a b) = (may (map_option e_whole a) \<and> may (map_option z_whole b))"
| "s_whole (locals_t ln ln' d) = list_all (\<lambda>kv. may (snd kv)) (map (map_prod id (map_option e_whole)) d)"
| "s_whole (globals_t ln ln' d) = list_all (\<lambda>kv. may (snd kv)) (map (map_prod id (map_option e_whole)) d)"
| "s_whole (universals_t ln ln' d) = list_all (\<lambda>kv. may (snd kv)) (map (map_prod id (map_option e_whole)) d)"
| "s_whole (if_t ln cs) = (case map_option (map ic_whole) cs of None \<Rightarrow> True | Some l \<Rightarrow> list_all id l)"
| "s_whole (print_t ln a) =
     (case map_option (map_prod id (map (map_option e_whole))) a of None \<Rightarrow> True | Some q \<Rightarrow> list_all may (snd q))"
| "s_whole (expr_statement_t ln a) = may (map_option e_whole a)"
| "s_whole (fndef_t ln nm l) = l_whole l"
| "s_whole (switch_t ln k cs) = (may (map_option e_whole k)
     \<and> (case map_option (map sc_whole) cs of None \<Rightarrow> True | Some l \<Rightarrow> list_all id l))"
| "s_whole (break_t ln) = True"
| "s_whole (continue_t ln) = True"
| "s_whole (return_t ln a) = may (map_option e_whole a)"
| "s_whole (exit_t ln) = True"
| "ic_whole (if_clause_t ln a b) = (may (map_option e_whole a) \<and> may (map_option z_whole b))"
| "sc_whole (case_t ln a b) = (may (map_option e_whole a) \<and> may (map_option z_whole b))"

lemma those_map_None: "those (map g l) = None \<longleftrightarrow> (\<exists>x \<in> set l. g x = None)"
  by (induction l) (auto split: option.splits)

text \<open>When a helper fails.\<close>

lemma fails:
  "expr_to_rpc_ptr (map_option f p) = None \<longleftrightarrow> (\<exists>a. p = Some a \<and> f a = None)"
  "expr_to_xdr (map_option f p) = None \<longleftrightarrow> (\<exists>a. p = Some a \<and> f a = None)"
  "zone_to_rpc_ptr (map_option fz z) = None \<longleftrightarrow> (\<exists>a. z = Some a \<and> fz a = None)"
  "body_to_xdr E (map_option fz z) = None \<longleftrightarrow> (\<exists>a. z = Some a \<and> fz a = None)"
  by (cases p; cases z; simp add: expr_to_rpc_ptr_def expr_to_xdr_def zone_to_rpc_ptr_def body_to_xdr_def)+

lemma deref_fails: "deref (map_option f p) = None \<longleftrightarrow> p = None \<or> (\<exists>a. p = Some a \<and> f a = None)"
  by (cases p) (simp_all add: deref_def)

lemma derefs_fail:
  "those (map deref (map (map_option f) l)) = None \<longleftrightarrow> (\<exists>p \<in> set l. p = None \<or> (\<exists>a. p = Some a \<and> f a = None))"
  by (simp add: those_map_None deref_fails)

lemma list_fails: "list_to_xdr (map (map_option f) l) = None \<longleftrightarrow> (\<exists>a. Some a \<in> set l \<and> f a = None)"
proof -
  have "(case map_option f p of Some r \<Rightarrow> r | None \<Rightarrow> Some XPUB3_EXPR_PUBNULL) = None \<longleftrightarrow> (\<exists>a. p = Some a \<and> f a = None)"
    for p by (cases p) simp_all
  then show ?thesis by (auto simp: list_to_xdr_def those_map_None)
qed

lemma args_fail:
  "args_to_xdr E (map_option (map_prod id (map (map_option f))) args) = None
     \<longleftrightarrow> (\<exists>ln l a. args = Some (ln, l) \<and> Some a \<in> set l \<and> f a = None)"
  by (cases args) (auto simp: args_to_xdr_def list_fails)

lemma bindings_fail:
  "bindings_to_xdr (map (map_prod id (map_option f)) b) = None \<longleftrightarrow> (\<exists>k a. (k, Some a) \<in> set b \<and> f a = None)"
proof -
  let ?g = "\<lambda>kv. map_option (Pair (fst kv)) (expr_to_rpc_ptr (map_option f (snd kv)))"
  have "bindings_to_xdr (map (map_prod id (map_option f)) b) = those (map ?g b)"
    by (simp add: bindings_to_xdr_def comp_def split_def)
  then have "bindings_to_xdr (map (map_prod id (map_option f)) b) = None
      \<longleftrightarrow> (\<exists>kv \<in> set b. \<exists>a. snd kv = Some a \<and> f a = None)" by (simp add: those_map_None fails(1))
  then show ?thesis by (metis snd_conv surj_pair)
qed

lemma clauses_fail:
  "(case map_option (map f) cs of Some l \<Rightarrow> those l | None \<Rightarrow> Some []) = None \<longleftrightarrow> (\<exists>l a. cs = Some l \<and> a \<in> set l \<and> f a = None)"
  by (cases cs) (auto simp: those_map_None)

lemma ops_fail:
  "mathop_to_xdr ln opc (map_option f p) (map_option f q) = None
     \<longleftrightarrow> (\<exists>a. p = Some a \<and> f a = None) \<or> (\<exists>a. q = Some a \<and> f a = None)"
  "pair_to_xdr c (map_option f p) (map_option f q) = None
     \<longleftrightarrow> (\<exists>a. p = Some a \<and> f a = None) \<or> (\<exists>a. q = Some a \<and> f a = None)"
  using fails(1) [of f p] fails(1) [of f q]
  by (auto simp: mathop_to_xdr_def pair_to_xdr_def bind_eq_None_conv)

lemma may_must:
  "may (map_option w p) \<longleftrightarrow> (\<forall>a. p = Some a \<longrightarrow> w a)"
  "must (map_option w p) \<longleftrightarrow> (\<exists>a. p = Some a \<and> w a)"
  by (cases p; simp add: may_def must_def)+

lemmas send_simps = fails deref_fails derefs_fail list_fails args_fail bindings_fail clauses_fail ops_fail may_must

lemma tree_sends:
  shows "e_whole e \<Longrightarrow> e_to_xdr E e \<noteq> None" and "l_whole l \<Longrightarrow> l_to_xdr E l \<noteq> None"
    and "z_whole z \<Longrightarrow> z_to_xdr E z \<noteq> None" and "s_whole s \<Longrightarrow> s_to_xdr E s \<noteq> None"
    and "ic_whole ic \<Longrightarrow> ic_to_xdr E ic \<noteq> None" and "sc_whole sc \<Longrightarrow> sc_to_xdr E sc \<noteq> None"
proof (induction e and l and z and s and ic and sc)
  case (call_t ln f args b)
  then show ?case
    by (cases args) (auto simp: args_to_xdr_def send_simps bind_eq_None_conv list_all_iff prod_set_defs
        simp flip: not_None_eq simp del: not_None_eq)
next
  case (print_t ln args)
  then show ?case
    by (cases args) (auto simp: args_to_xdr_def send_simps list_all_iff prod_set_defs
        simp flip: not_None_eq simp del: not_None_eq)
next
  case (if_t ln cs)
  then show ?case by (cases cs) (auto simp: those_map_None list_all_iff simp del: not_None_eq)
next
  case (switch_t ln k cs)
  then show ?case by (cases cs) (auto simp: send_simps those_map_None list_all_iff bind_eq_None_conv simp del: not_None_eq)
next
  case (zone_html_t ln zs)
  then show ?case unfolding z_whole.simps z_to_xdr.simps to_xdr_methods list_all_iff map_option_is_None derefs_fail
    by (simp add: may_must) blast
next
  case (zone_pub_t ln zs)
  then show ?case unfolding z_whole.simps z_to_xdr.simps to_xdr_methods list_all_iff map_option_is_None derefs_fail
    by (simp add: may_must) blast
qed (simp_all add: send_simps bind_eq_None_conv zstr_opt_to_xdr_def list_all_iff prod_set_defs del: map_map not_None_eq, blast+)

section \<open>A second trip changes nothing\<close>

lemma fst_update_keys: "k \<in> fst ` set t \<Longrightarrow> map fst (AList.update k v t) = map fst t"
  by (induction t) auto

lemma update_new: "k \<notin> fst ` set t \<Longrightarrow> AList.update k v t = t @ [(k, v)]"
  by (induction t) auto

lemma dict_fill_snoc: "dict_fill (b @ [kv]) = AList.update (fst kv) (snd kv) (dict_fill b)"
  by (simp add: dict_fill_def)

lemma dict_fill_Nil [simp]: "dict_fill [] = []"
  by (simp add: dict_fill_def)

lemma update_set: "set (AList.update k v t) \<subseteq> insert (k, v) (set t)"
  by (induction t) auto

lemma dict_fill_set: "set (dict_fill b) \<subseteq> set b"
proof (induction b rule: rev_induct)
  case (snoc kv b)
  then show ?case using update_set [of "fst kv" "snd kv" "dict_fill b"] by (auto simp: dict_fill_snoc)
qed simp

lemma dict_fill_distinct: "distinct (map fst (dict_fill b))"
proof (induction b rule: rev_induct)
  case (snoc kv b)
  then show ?case by (simp add: dict_fill_snoc distinct_update)
qed simp

lemma dict_fill_id: "distinct (map fst b) \<Longrightarrow> dict_fill b = b"
proof (induction b rule: rev_induct)
  case (snoc kv b)
  then show ?case by (cases kv) (auto simp: dict_fill_snoc update_new)
qed simp

lemma dict_fill_sorted: "sorted (map (\<lambda>kv. cstr (fst kv)) b) \<Longrightarrow> sorted (map (\<lambda>kv. cstr (fst kv)) (dict_fill b))"
proof (induction b rule: rev_induct)
  case (snoc kv b)
  have s: "sorted (map (\<lambda>kv. cstr (fst kv)) (dict_fill b))" "\<forall>x \<in> set b. cstr (fst x) \<le> cstr (fst kv)"
    using snoc by (auto simp: sorted_append)
  show ?case
  proof (cases "fst kv \<in> fst ` set (dict_fill b)")
    case True
    then have "map (\<lambda>kv. cstr (fst kv)) (AList.update (fst kv) (snd kv) (dict_fill b)) = map (\<lambda>kv. cstr (fst kv)) (dict_fill b)"
      using arg_cong [OF fst_update_keys [OF True, of "snd kv"], of "map cstr"] by (simp add: comp_def)
    then show ?thesis using s by (simp add: dict_fill_snoc)
  next
    case False
    then show ?thesis using s dict_fill_set [of b] by (auto simp: dict_fill_snoc update_new sorted_append)
  qed
qed simp

lemma sort_bindings_id: "sorted (map (\<lambda>kv. cstr (fst kv)) b) \<Longrightarrow> sort_bindings b = b"
  unfolding sort_bindings_def by (rule sort_key_id_if_sorted)

lemma sort_bindings_sorted: "sorted (map (\<lambda>kv. cstr (fst kv)) (sort_bindings b))"
  using sorted_sort_key [of "\<lambda>kv. cstr (fst kv)" b] by (simp add: sort_bindings_def)

lemma rebuild_id: "dict_fill (sort_bindings (dict_fill (sort_bindings b))) = dict_fill (sort_bindings b)"
  by (simp add: sort_bindings_id dict_fill_sorted sort_bindings_sorted dict_fill_id dict_fill_distinct)

lemma sort_bindings_set: "set (sort_bindings b) = set b"
  by (simp add: sort_bindings_def)

lemma seen_list_seen:
  assumes "\<And>a. Some a \<in> set l \<Longrightarrow> h (h a) = h a" "h null = null"
  shows "seen_list (map (map_option h) (seen_list (map (map_option h) l) null)) null = seen_list (map (map_option h) l) null"
  using assms by (auto simp: seen_list_def split: option.splits)

lemma seen_args_seen:
  fixes ln :: int and args :: "(int \<times> 'e option list) option"
  assumes "\<And>ln l a. args = Some (ln, l) \<Longrightarrow> Some a \<in> set l \<Longrightarrow> h (h a) = h a"
    "h null = null"
  defines "r \<equiv> seen_args ln null (map_option (map_prod id (map (map_option h))) args)"
  shows "seen_args ln null (map_option (map_prod id (map (map_option h))) r) = r"
proof (cases args)
  case None
  then show ?thesis by (simp add: r_def seen_args_def seen_list_def)
next
  case (Some q)
  have "Some a \<in> set (snd q) \<Longrightarrow> h (h a) = h a" for a
    using assms(1) [of "fst q" "snd q" a] Some by simp
  then show ?thesis using seen_list_seen [of "snd q" h null] assms(2) Some
    by (cases q) (auto simp: r_def seen_args_def)
qed

lemma seen_ptr:
  "(\<And>a. p = Some a \<Longrightarrow> h (h a) = h a) \<Longrightarrow> map_option h (map_option h p) = map_option h p"
  by (cases p) simp_all

lemma seen_ptrs:
  "(\<And>a. Some a \<in> set l \<Longrightarrow> h (h a) = h a)
     \<Longrightarrow> map (map_option h) (map (map_option h) l) = map (map_option h) l"
  by (auto intro!: seen_ptr simp del: option.map_comp simp: option.map_comp [symmetric])

lemma seen_bindings:
  "(\<And>k a. (k, Some a) \<in> set b \<Longrightarrow> h (h a) = h a)
     \<Longrightarrow> map (map_prod id (map_option h)) (map (map_prod id (map_option h)) b) = map (map_prod id (map_option h)) b"
  by (auto intro!: seen_ptr simp del: option.map_comp)

lemma seen_dict:
  fixes b :: "(string \<times> 'e option) list"
  assumes "\<And>k a. (k, Some a) \<in> set b \<Longrightarrow> h (h a) = h a"
  defines "r \<equiv> dict_fill (sort_bindings (map (map_prod id (map_option h)) b))"
  shows "dict_fill (sort_bindings (map (map_prod id (map_option h)) r)) = r"
proof -
  have "map_prod id (map_option h) kv = kv" if kv: "kv \<in> set r" for kv
  proof -
    obtain k p where "(k, p) \<in> set b" "kv = (k, map_option h p)"
      using kv dict_fill_set by (fastforce simp: r_def sort_bindings_set)
    then show ?thesis using seen_ptr [of p h] assms(1) [of k] by (auto simp del: option.map_comp)
  qed
  then have "map (map_prod id (map_option h)) r = r" by (simp add: map_idI)
  then show ?thesis by (simp add: r_def rebuild_id)
qed

definition stable_doubles :: "'d xdr_env \<Rightarrow> bool" where
  "stable_doubles E \<longleftrightarrow>
     (\<forall>d. let r = (\<lambda>d. convertdouble0 (xe_sc E) (take 63 (xe_fmt E d))) in r (r d) = r d)"

lemma tree_seen:
  assumes "stable_doubles E"
  shows "e_seen E (e_seen E e) = e_seen E e" and "l_seen E (l_seen E l) = l_seen E l"
    and "z_seen E (z_seen E z) = z_seen E z" and "s_seen E (s_seen E s) = s_seen E s"
    and "ic_seen E (ic_seen E ic) = ic_seen E ic" and "sc_seen E (sc_seen E sc) = sc_seen E sc"
proof (induction e and l and z and s and ic and sc)
  case (expr_double_t d)
  then show ?case using assms by (simp add: stable_doubles_def Let_def)
next
  case (expr_dict_t ln b)
  then show ?case using seen_dict [of b "e_seen E"] by (simp add: prod_set_defs)
next
  case (if_t ln cs)
  then show ?case by (cases cs) auto
next
  case (switch_t ln k cs)
  then show ?case using seen_ptr [of k "e_seen E"] by (cases cs) (auto simp del: option.map_comp)
qed (simp_all add: seen_ptr seen_ptrs seen_bindings seen_list_seen seen_args_seen prod_set_defs del: option.map_comp map_map)

lemma whole_dict:
  assumes "\<And>k a. (k, Some a) \<in> set b \<Longrightarrow> w (h a)"
  shows "\<forall>kv \<in> set (dict_fill (sort_bindings (map (map_prod id (map_option h)) b))). \<forall>a. snd kv = Some a \<longrightarrow> w a"
proof (intro ballI allI impI)
  fix kv a
  assume kv: "kv \<in> set (dict_fill (sort_bindings (map (map_prod id (map_option h)) b)))" "snd kv = Some a"
  then have "kv \<in> set (map (map_prod id (map_option h)) b)" using dict_fill_set sort_bindings_set by blast
  then show "w a" using assms kv(2) by auto
qed

lemma may_Some [simp]: "may (Some b) = b"
  by (simp add: may_def)

lemma whole_bindings:
  "list_all (\<lambda>kv. may (snd kv)) (map (map_prod id (map_option w)) b) \<longleftrightarrow> (\<forall>kv \<in> set b. \<forall>a. snd kv = Some a \<longrightarrow> w a)"
  by (simp add: list_all_iff may_must)

lemma whole_children:
  assumes "\<And>p a. p \<in> set l \<Longrightarrow> a \<in> set_option p \<Longrightarrow> w a \<Longrightarrow> w (h a)" "list_all must (map (map_option w) l)"
  shows "list_all must (map (map_option w) (map (map_option h) l))"
proof -
  have "must (map_option w (map_option h p))" if p: "p \<in> set l" for p
  proof -
    obtain a where "p = Some a" "w a" using assms(2) p by (auto simp: list_all_iff may_must)
    then show ?thesis using assms(1) [OF p] by (simp add: must_def)
  qed
  then show ?thesis by (simp add: list_all_iff)
qed

lemma tree_stays_whole:
  shows "e_whole e \<Longrightarrow> e_whole (e_seen E e)" and "l_whole l \<Longrightarrow> l_whole (l_seen E l)"
    and "z_whole z \<Longrightarrow> z_whole (z_seen E z)" and "s_whole s \<Longrightarrow> s_whole (s_seen E s)"
    and "ic_whole ic \<Longrightarrow> ic_whole (ic_seen E ic)" and "sc_whole sc \<Longrightarrow> sc_whole (sc_seen E sc)"
proof (induction e and l and z and s and ic and sc)
  case (expr_dict_t ln b)
  have "e_whole (e_seen E a)" if "(k, Some a) \<in> set b" for k a
    using expr_dict_t that unfolding e_whole.simps whole_bindings by (fastforce simp: prod_set_defs)
  then show ?case unfolding e_whole.simps e_seen.simps whole_bindings by (rule whole_dict)
next
  case (expr_list_t ln l)
  then show ?case by (auto simp: list_all_iff may_must seen_list_def split: option.splits)
next
  case (expr_shell_str_t ln ln' l)
  then show ?case by (auto simp: list_all_iff may_must seen_list_def split: option.splits)
next
  case (call_t ln f args b)
  then show ?case
    by (cases args) (auto simp: list_all_iff may_must seen_args_def seen_list_def prod_set_defs split: option.splits)
next
  case (print_t ln args)
  then show ?case
    by (cases args) (auto simp: list_all_iff may_must seen_args_def seen_list_def prod_set_defs split: option.splits)
next
  case (if_t ln cs)
  then show ?case by (cases cs) (auto simp: list_all_iff)
next
  case (switch_t ln k cs)
  then show ?case by (cases cs) (auto simp: list_all_iff may_must)
next
  case (zone_html_t ln zs)
  then show ?case unfolding z_whole.simps z_seen.simps by (rule whole_children)
next
  case (zone_pub_t ln zs)
  then show ?case unfolding z_whole.simps z_seen.simps by (rule whole_children)
qed (auto simp: list_all_iff may_must prod_set_defs)

section \<open>Files\<close>

record metadata =
  md_jfn :: "string option"
  md_rfn :: "string option"
  md_hsh :: "string option"
  md_toplev :: bool
  md_ctime :: int

record xmetadata =
  xm_jailed_filename :: "string option"
  xm_real_filename :: "string option"
  xm_hash :: string
  xm_ctime :: int

record 'd pfile =
  pf_metadata :: metadata
  pf_data_root :: "'d zone option"
  pf_opts :: int
  pf_xdr_opaque :: "string option"

record xfile =
  xf_metadata :: xmetadata
  xf_root :: "xzone option"
  xf_opts :: int

text \<open>\<open>h0\<close> is the hash of a fresh structure.\<close>

definition md_to_xdr :: "'d xdr_env \<Rightarrow> string \<Rightarrow> metadata \<Rightarrow> xmetadata" where
  "md_to_xdr E h0 m =
     \<lparr>xm_jailed_filename = str_or_fresh E (md_jfn m), xm_real_filename = str_or_fresh E (md_rfn m),
      xm_hash = (case md_hsh m of Some h \<Rightarrow> h | None \<Rightarrow> h0), xm_ctime = 0\<rparr>"

definition md_alloc :: "xmetadata \<Rightarrow> metadata" where
  "md_alloc x =
     \<lparr>md_jfn = xm_jailed_filename x, md_rfn = xm_real_filename x, md_hsh = Some (xm_hash x), md_toplev = False,
      md_ctime = xm_ctime x\<rparr>"

definition f_to_xdr :: "'d xdr_env \<Rightarrow> string \<Rightarrow> 'd pfile \<Rightarrow> xfile option" where
  "f_to_xdr E h0 f =
     map_option (\<lambda>r. \<lparr>xf_metadata = md_to_xdr E h0 (pf_metadata f), xf_root = r, xf_opts = pf_opts f\<rparr>)
       (zone_to_rpc_ptr (map_option (z_to_xdr E) (pf_data_root f)))"

text \<open>
  The constructor also hands the metadata to every lambda of the tree (\<^verbatim>\<open>propogate_metadata\<close>), a member
  that the tree of \<open>Ast\<close> does not have.
\<close>

definition f_alloc :: "'d xdr_env \<Rightarrow> xfile \<Rightarrow> int \<Rightarrow> 'd pfile" where
  "f_alloc E x o' =
     \<lparr>pf_metadata = md_alloc (xf_metadata x), pf_data_root = ptr_alloc (map_option (z_alloc E) (xf_root x)), pf_opts = o',
      pf_xdr_opaque = None\<rparr>"

definition f_seen :: "'d xdr_env \<Rightarrow> 'd pfile \<Rightarrow> 'd pfile" where
  "f_seen E f = f\<lparr>pf_metadata := (pf_metadata f)\<lparr>md_toplev := False, md_ctime := 0\<rparr>,
     pf_data_root := map_option (z_seen E) (pf_data_root f), pf_xdr_opaque := None\<rparr>"

lemma file_ships:
  assumes fresh: "xe_zone0 E = XPUB3_ZONE_NONE" "xe_str0 E = Some []"
    and named: "md_jfn (pf_metadata f) \<noteq> None" "md_rfn (pf_metadata f) \<noteq> None" "md_hsh (pf_metadata f) \<noteq> None"
    and x: "f_to_xdr E h0 f = Some x"
  shows "f_alloc E x (pf_opts f) = f_seen E f"
proof -
  obtain r where r: "zone_to_rpc_ptr (map_option (z_to_xdr E) (pf_data_root f)) = Some r"
    and xr: "x = \<lparr>xf_metadata = md_to_xdr E h0 (pf_metadata f), xf_root = r, xf_opts = pf_opts f\<rparr>"
    using x by (auto simp: f_to_xdr_def)
  have "ptr_alloc (map_option (z_alloc E) r) = map_option (z_seen E) (pf_data_root f)"
    by (rule zone_ptr_ships [OF tree_ships(3) [OF fresh] r])
  then show ?thesis using named
    by (auto simp: xr f_alloc_def f_seen_def md_to_xdr_def md_alloc_def str_or_fresh_def)
qed

lemma file_sends: "pred_option z_whole (pf_data_root f) \<Longrightarrow> \<exists>x. f_to_xdr E h0 f = Some x"
  using tree_sends(3) [of "the (pf_data_root f)" E]
  by (cases "pf_data_root f") (auto simp: zone_to_rpc_ptr_def f_to_xdr_def)

text \<open>
  C10.  A file that \<^verbatim>\<open>pubd\<close> encodes arrives at the service: when every pointer the encoder follows is set, the
  encoder ends, and decoding its result gives the same names, hash and options, a creation time of zero
  and the tree with exactly the changes that \<open>z_seen\<close> lists.  A fresh string is empty and a fresh zone
  has the tag zero.
\<close>

theorem file_roundtrip:
  assumes fresh: "xe_zone0 E = XPUB3_ZONE_NONE" "xe_str0 E = Some []"
    and whole: "pred_option z_whole (pf_data_root f)"
    and named: "md_jfn (pf_metadata f) \<noteq> None" "md_rfn (pf_metadata f) \<noteq> None" "md_hsh (pf_metadata f) \<noteq> None"
  shows "\<exists>x. f_to_xdr E h0 f = Some x \<and> f_alloc E x (pf_opts f) = f_seen E f"
  using file_sends [OF whole, of E h0] file_ships [OF fresh named, of h0] by blast

definition int_xdr_env :: "int xdr_env" where
  "int_xdr_env = \<lparr>xe_sc = int_env, xe_fmt = dec_int, xe_str0 = Some [], xe_line0 = 0, xe_zone0 = XPUB3_ZONE_NONE,
     xe_zc = (\<lambda>l s. None)\<rparr>"

definition sample_file :: "int pfile" where
  "sample_file =
     \<lparr>pf_metadata = \<lparr>md_jfn = Some ''/a'', md_rfn = Some ''/www/a'', md_hsh = Some ''h'', md_toplev = True, md_ctime = 7\<rparr>,
      pf_data_root = Some (zone_html_t 1 [Some (zone_pub_t 2
        [Some (if_t 3 (Some [if_clause_t 3 (Some (expr_list_t 3 [None, Some (expr_varref_t 3 ''x'')])) None])),
         Some (fndef_t 4 ''f'' (lambda_t None 4 None [''p''] [] (Some (zone_raw_t 5 ''t''))))])]),
      pf_opts = 0, pf_xdr_opaque = None\<rparr>"

theorem file_roundtrip_witness:
  "\<exists>x. f_to_xdr int_xdr_env [] sample_file = Some x \<and> f_alloc int_xdr_env x 0 = f_seen int_xdr_env sample_file"
  using file_roundtrip [of int_xdr_env sample_file "[]"]
  by (simp add: int_xdr_env_def sample_file_def may_def must_def)

text \<open>
  C35.  What a service holds is stable: a tree that has made the trip once can be encoded again, and
  decoding it again gives the same tree, provided reading back a printed \<^verbatim>\<open>double\<close> is stable.
\<close>

theorem second_trip:
  assumes fresh: "xe_zone0 E = XPUB3_ZONE_NONE" "xe_str0 E = Some []" and "stable_doubles E" "z_whole z"
  shows "\<exists>x z' x'. z_to_xdr E z = Some x \<and> z_alloc E x = Some z' \<and> z_to_xdr E z' = Some x' \<and> z_alloc E x' = Some z'"
proof -
  obtain x where x: "z_to_xdr E z = Some x" using tree_sends(3) assms(4) by blast
  obtain x' where x': "z_to_xdr E (z_seen E z) = Some x'" using tree_sends(3) tree_stays_whole(3) assms(4) by blast
  show ?thesis
    using x x' shipsD [OF tree_ships(3) [OF fresh] x] shipsD [OF tree_ships(3) [OF fresh] x'] tree_seen(3) [OF assms(3)] by auto
qed

theorem second_trip_witness:
  "\<exists>x z' x'. z_to_xdr (int_xdr_env\<lparr>xe_fmt := \<lambda>d. ''0''\<rparr>) (the (pf_data_root sample_file)) = Some x
     \<and> z_alloc (int_xdr_env\<lparr>xe_fmt := \<lambda>d. ''0''\<rparr>) x = Some z'
     \<and> z_to_xdr (int_xdr_env\<lparr>xe_fmt := \<lambda>d. ''0''\<rparr>) z' = Some x' \<and> z_alloc (int_xdr_env\<lparr>xe_fmt := \<lambda>d. ''0''\<rparr>) x' = Some z'"
  by (rule second_trip) (simp_all add: int_xdr_env_def stable_doubles_def sample_file_def must_def may_def)

text \<open>
  The guard of \<^verbatim>\<open>expr_regex_t::to_xdr\<close> looks at the string it is about to overwrite: were a fresh string null,
  the options of every regular expression would be lost.
\<close>

lemma regex_guard:
  "xe_str0 E = None \<Longrightarrow> Option.bind (e_to_xdr E (expr_regex_t ln body opts)) (e_alloc E) = Some (expr_regex_t ln body None)"
  by simp

text \<open>A lambda whose body is missing, and a text zone without a text, stop the encoder.\<close>

lemma null_body_stops: "e_to_xdr E (expr_lambda_t (lambda_t fname ln nm ps os None)) = None"
  by (simp add: deref_def)

lemma null_text_stops: "z_to_xdr E (zone_text_t ln None w) = None"
  by (simp add: zstr_opt_to_xdr_def)

end
