(* ===== verification/Chunk.thy ===== *)
theory Chunk
  imports Clib
begin

text \<open>
  The transfer of a template file in chunks: \<^verbatim>\<open>file_t\<close> of \<^verbatim>\<open>src/libpub/pub3file.C\<close> and \<^verbatim>\<open>slave_srv_t\<close> of
  \<^verbatim>\<open>src/pub/pubserv.T\<close> on the side of \<^verbatim>\<open>pubd\<close>, \<^verbatim>\<open>remote_publisher_t\<close> of \<^verbatim>\<open>src/libpub/pub3hilev.T\<close> on the side
  of the service.  The service keeps a window of requests outstanding; the answers come in any order and
  each may fail.  A run is a sequence of steps of the loop and of arriving answers.
\<close>

section \<open>The server\<close>

definition xdr_len :: "string option \<Rightarrow> int" where
  "xdr_len op = (case op of Some s \<Rightarrow> int (length s) | None \<Rightarrow> - 1)"

text \<open>\<open>None\<close> is the result \<^verbatim>\<open>-1\<close>, otherwise the bytes that are copied out.\<close>

definition get_chunk :: "string option \<Rightarrow> nat \<Rightarrow> nat \<Rightarrow> string option" where
  "get_chunk op off capacity =
     (case op of
        None \<Rightarrow> None
      | Some s \<Rightarrow> if length s \<le> off then None else Some (take (min (length s - off) capacity) (drop off s)))"

text \<open>What the caller of \<^verbatim>\<open>PUB3_GETCHUNK\<close> gets: a failure of the transport, a status, or bytes.\<close>

datatype gc_reply = RPC_FAILED | STATUS_NOENT | STATUS_ERR | STATUS_OK string

definition srv_getchunk :: "string option option \<Rightarrow> nat \<Rightarrow> nat \<Rightarrow> gc_reply" where
  "srv_getchunk f off sz =
     (case f of
        None \<Rightarrow> STATUS_NOENT
      | Some op \<Rightarrow> (case get_chunk op off sz of
           Some d \<Rightarrow> if length d = sz then STATUS_OK d else STATUS_ERR
         | None \<Rightarrow> STATUS_ERR))"

text \<open>\<^verbatim>\<open>slave_srv_t::getfile\<close> for a file that was found: the encoding as a whole, or its size, of 32 bits, and hash.\<close>

datatype ('x, 'h) xfered = XFER_WHOLE 'x | XFER_CHUNKED nat 'h

definition srv_getfile :: "('x \<Rightarrow> string) \<Rightarrow> (string \<Rightarrow> 'h) \<Rightarrow> nat \<Rightarrow> 'x \<Rightarrow> ('x, 'h) xfered" where
  "srv_getfile xdr2str sha1 maxsz x =
     (let s = xdr2str x
      in if maxsz < length s then XFER_CHUNKED (length s mod 2 ^ 32) (sha1 s) else XFER_WHOLE x)"

section \<open>The client\<close>

record gf_params =
  gp_dsz :: nat
  gp_maxsz :: nat
  gp_ws :: nat

text \<open>
  \<open>gs_flight\<close> holds the requests whose answer has not come, \<open>gs_rv\<close> the results waiting in the rendezvous,
  \<open>gs_fault\<close> records a copy outside the buffer.
\<close>

record gf_state =
  gs_i :: nat
  gs_nsent :: nat
  gs_nrecv :: nat
  gs_ok :: bool
  gs_buf :: string
  gs_flight :: "(nat \<times> nat) list"
  gs_rv :: "bool list"
  gs_fault :: bool

definition gs_init :: "gf_params \<Rightarrow> gf_state" where
  "gs_init P = \<lparr>gs_i = 0, gs_nsent = 0, gs_nrecv = 0, gs_ok = True, gs_buf = replicate (gp_dsz P) (CHR 0xCD), gs_flight = [],
     gs_rv = [], gs_fault = False\<rparr>"

definition gs_looping :: "gf_params \<Rightarrow> gf_state \<Rightarrow> bool" where
  "gs_looping P s \<longleftrightarrow> (gs_i s < gp_dsz P \<or> gs_nrecv s < gs_nsent s) \<and> gs_ok s"

definition gs_can_send :: "gf_params \<Rightarrow> gf_state \<Rightarrow> bool" where
  "gs_can_send P s \<longleftrightarrow> gs_i s < gp_dsz P \<and> gs_nsent s - gs_nrecv s < gp_ws P"

definition gs_send :: "gf_params \<Rightarrow> gf_state \<Rightarrow> gf_state" where
  "gs_send P s = s\<lparr>gs_nsent := gs_nsent s + 1, gs_flight := gs_flight s @ [(gs_i s, min (gp_maxsz P) (gp_dsz P - gs_i s))],
     gs_i := gs_i s + gp_maxsz P\<rparr>"

definition gs_recv :: "gf_state \<Rightarrow> gf_state" where
  "gs_recv s = s\<lparr>gs_nrecv := gs_nrecv s + 1, gs_rv := tl (gs_rv s), gs_ok := (gs_ok s \<and> hd (gs_rv s))\<rparr>"

definition copy_in :: "nat \<Rightarrow> string \<Rightarrow> string \<Rightarrow> string" where
  "copy_in off d buf = take off buf @ d @ drop (off + length d) buf"

text \<open>\<^verbatim>\<open>getchunk\<close> after its call: the \<open>k\<close>th outstanding request is answered.\<close>

definition gs_answer :: "nat \<Rightarrow> gc_reply \<Rightarrow> gf_state \<Rightarrow> gf_state" where
  "gs_answer k r s =
     (let (off, sz) = gs_flight s ! k;
          s1 = s\<lparr>gs_flight := take k (gs_flight s) @ drop (Suc k) (gs_flight s)\<rparr>
      in case r of
           STATUS_OK d \<Rightarrow>
             if length d \<noteq> sz then s1\<lparr>gs_rv := gs_rv s @ [False]\<rparr>
             else if off + sz \<le> length (gs_buf s) then s1\<lparr>gs_buf := copy_in off d (gs_buf s), gs_rv := gs_rv s @ [True]\<rparr>
             else s1\<lparr>gs_fault := True, gs_rv := gs_rv s @ [True]\<rparr>
         | _ \<Rightarrow> s1\<lparr>gs_rv := gs_rv s @ [False]\<rparr>)"

text \<open>
  The steps.  \<open>ans\<close> says which answers a request may get; an answer may come at any time, also after the
  loop has ended.
\<close>

inductive gf_step :: "gf_params \<Rightarrow> (nat \<Rightarrow> nat \<Rightarrow> gc_reply \<Rightarrow> bool) \<Rightarrow> gf_state \<Rightarrow> gf_state \<Rightarrow> bool" for P ans where
  send: "gs_looping P s \<Longrightarrow> gs_can_send P s \<Longrightarrow> gf_step P ans s (gs_send P s)"
| recv: "gs_looping P s \<Longrightarrow> \<not> gs_can_send P s \<Longrightarrow> gs_rv s \<noteq> [] \<Longrightarrow> gf_step P ans s (gs_recv s)"
| answer: "k < length (gs_flight s) \<Longrightarrow> ans (fst (gs_flight s ! k)) (snd (gs_flight s ! k)) r
    \<Longrightarrow> gf_step P ans s (gs_answer k r s)"

inductive_cases gf_stepE: "gf_step P ans s s'"

inductive gf_reach :: "gf_params \<Rightarrow> (nat \<Rightarrow> nat \<Rightarrow> gc_reply \<Rightarrow> bool) \<Rightarrow> nat \<Rightarrow> gf_state \<Rightarrow> bool" for P ans where
  start: "gf_reach P ans 0 (gs_init P)"
| more: "gf_reach P ans n s \<Longrightarrow> gf_step P ans s s' \<Longrightarrow> gf_reach P ans (Suc n) s'"

text \<open>The end of \<^verbatim>\<open>getfile_chunked\<close>.\<close>

datatype 'x gf_result = CORRUPTION string | GOT 'x

definition gf_finish :: "(string \<Rightarrow> 'h) \<Rightarrow> (string \<Rightarrow> 'x option) \<Rightarrow> 'h \<Rightarrow> gf_state \<Rightarrow> 'x gf_result" where
  "gf_finish sha1 str2xdr xdrhash s =
     (if \<not> gs_ok s then CORRUPTION ''Not all chunks retrieved''
      else if sha1 (gs_buf s) \<noteq> xdrhash then CORRUPTION ''Hash mismatch''
      else case str2xdr (gs_buf s) of None \<Rightarrow> CORRUPTION ''Demarshall of chunks failed'' | Some x \<Rightarrow> GOT x)"

section \<open>Counting\<close>

definition gf_counts :: "gf_params \<Rightarrow> gf_state \<Rightarrow> bool" where
  "gf_counts P s \<longleftrightarrow> gs_nsent s = gs_nrecv s + length (gs_flight s) + length (gs_rv s)
     \<and> gs_nsent s - gs_nrecv s \<le> gp_ws P \<and> length (gs_buf s) = gp_dsz P
     \<and> (\<forall>(off, sz) \<in> set (gs_flight s). off < gp_dsz P \<and> sz = min (gp_maxsz P) (gp_dsz P - off)) \<and> \<not> gs_fault s"

lemma copy_in_length: "off + length d \<le> length buf \<Longrightarrow> length (copy_in off d buf) = length buf"
  by (simp add: copy_in_def)

lemma set_drop_nth: "set (take k l @ drop (Suc k) l) \<subseteq> set l"
  by (auto dest: in_set_takeD in_set_dropD)

lemma answer_counts:
  assumes "gf_counts P s" "k < length (gs_flight s)"
  shows "gf_counts P (gs_answer k r s)"
proof -
  obtain off sz where fl: "gs_flight s ! k = (off, sz)" by (cases "gs_flight s ! k")
  have "(off, sz) \<in> set (gs_flight s)" using assms(2) fl nth_mem by metis
  then have rng: "off + sz \<le> gp_dsz P" using assms(1) by (auto simp: gf_counts_def)
  let ?f = "take k (gs_flight s) @ drop (Suc k) (gs_flight s)"
  have "length ?f + 1 = length (gs_flight s)" using assms(2) by simp
  moreover have "set ?f \<subseteq> set (gs_flight s)" by (rule set_drop_nth)
  ultimately show ?thesis
    using assms rng fl by (cases r) (auto simp: gf_counts_def gs_answer_def Let_def copy_in_length)
qed

lemma send_counts: "gf_counts P s \<Longrightarrow> gs_can_send P s \<Longrightarrow> gf_counts P (gs_send P s)"
  by (auto simp: gf_counts_def gs_can_send_def gs_send_def)

lemma recv_counts: "gf_counts P s \<Longrightarrow> gs_rv s \<noteq> [] \<Longrightarrow> gf_counts P (gs_recv s)"
  by (cases "gs_rv s") (auto simp: gf_counts_def gs_recv_def)

lemma reach_counts: "gf_reach P ans n s \<Longrightarrow> gf_counts P s"
proof (induction rule: gf_reach.induct)
  case start
  show ?case by (simp add: gf_counts_def gs_init_def)
next
  case (more n s s')
  show ?case using more.hyps(2) more.IH by (cases rule: gf_step.cases) (auto intro: send_counts recv_counts answer_counts)
qed

section \<open>The bytes\<close>

definition covered :: "nat \<Rightarrow> (nat \<times> nat) list \<Rightarrow> bool" where
  "covered j l \<longleftrightarrow> (\<exists>(off, sz) \<in> set l. off \<le> j \<and> j < off + sz)"

text \<open>As long as nothing has failed, each byte that was asked for is right or still on its way.\<close>

definition gf_bytes :: "string \<Rightarrow> gf_params \<Rightarrow> gf_state \<Rightarrow> bool" where
  "gf_bytes D P s \<longleftrightarrow> (gs_ok s \<and> False \<notin> set (gs_rv s) \<longrightarrow>
     (\<forall>j < min (gs_i s) (gp_dsz P). covered j (gs_flight s) \<or> gs_buf s ! j = D ! j))"

lemma covered_drop:
  assumes "covered j l" "k < length l"
  shows "covered j (take k l @ drop (Suc k) l) \<or> (fst (l ! k) \<le> j \<and> j < fst (l ! k) + snd (l ! k))"
proof -
  obtain p where p: "p \<in> set l" "fst p \<le> j" "j < fst p + snd p" using assms(1) by (auto simp: covered_def)
  have "l = take k l @ (l ! k) # drop (Suc k) l" using assms(2) by (rule id_take_nth_drop)
  then have "p \<in> set (take k l @ drop (Suc k) l) \<or> p = l ! k"
    using p(1) by (metis Un_iff insert_iff list.simps(15) set_append)
  then show ?thesis using p by (fastforce simp: covered_def)
qed

lemma copy_in_nth:
  assumes "off + length d \<le> length buf" "j < length buf"
  shows "copy_in off d buf ! j = (if off \<le> j \<and> j < off + length d then d ! (j - off) else buf ! j)"
  using assms by (auto simp: copy_in_def nth_append min_def)

text \<open>The answers of a server that holds the bytes \<open>D\<close>, which may also fail.\<close>

definition serves :: "string \<Rightarrow> nat \<Rightarrow> nat \<Rightarrow> gc_reply \<Rightarrow> bool" where
  "serves D off sz r \<longleftrightarrow> r \<in> {RPC_FAILED, STATUS_NOENT, STATUS_ERR, srv_getchunk (Some (Some D)) off sz}"

lemma serves_bytes:
  assumes "serves D off sz (STATUS_OK d)" "length d = sz"
  shows "\<forall>j. off \<le> j \<and> j < off + sz \<longrightarrow> d ! (j - off) = D ! j"
  using assms by (auto simp: serves_def srv_getchunk_def get_chunk_def split: if_splits option.splits)

lemma answer_bytes:
  assumes inv: "gf_bytes D P s" and cnt: "gf_counts P s" and k: "k < length (gs_flight s)"
    and srv: "serves D (fst (gs_flight s ! k)) (snd (gs_flight s ! k)) r"
  shows "gf_bytes D P (gs_answer k r s)"
proof (cases "\<exists>d. r = STATUS_OK d \<and> length d = snd (gs_flight s ! k)")
  case False
  then show ?thesis by (cases r; cases "gs_flight s ! k") (auto simp: gf_bytes_def gs_answer_def Let_def)
next
  case True
  then obtain d off sz where d: "r = STATUS_OK d" "gs_flight s ! k = (off, sz)" "length d = sz" by (cases "gs_flight s ! k") auto
  have "(off, sz) \<in> set (gs_flight s)" using k d nth_mem by metis
  then have rng: "off + sz \<le> length (gs_buf s)" using cnt by (auto simp: gf_counts_def)
  have D: "\<forall>j. off \<le> j \<and> j < off + sz \<longrightarrow> d ! (j - off) = D ! j" using serves_bytes [of D off sz d] srv d by simp
  have "covered j (take k (gs_flight s) @ drop (Suc k) (gs_flight s)) \<or> copy_in off d (gs_buf s) ! j = D ! j"
    if j: "j < min (gs_i s) (gp_dsz P)" "covered j (gs_flight s) \<or> gs_buf s ! j = D ! j" for j
  proof (cases "off \<le> j \<and> j < off + sz")
    case True
    then show ?thesis using D rng d by (simp add: copy_in_nth)
  next
    case False
    then show ?thesis using j rng d cnt covered_drop [OF _ k, of j] by (auto simp: copy_in_nth gf_counts_def)
  qed
  then show ?thesis using inv rng d by (auto simp: gf_bytes_def gs_answer_def)
qed

lemma send_bytes:
  assumes "gf_bytes D P s" "gs_can_send P s"
  shows "gf_bytes D P (gs_send P s)"
proof -
  have "covered j (gs_flight s @ [(gs_i s, min (gp_maxsz P) (gp_dsz P - gs_i s))]) \<or> gs_buf s ! j = D ! j"
    if j: "j < min (gs_i s + gp_maxsz P) (gp_dsz P)" and old: "gs_ok s" "False \<notin> set (gs_rv s)" for j
  proof (cases "j < gs_i s")
    case True
    then have "covered j (gs_flight s) \<or> gs_buf s ! j = D ! j" using assms(1) old j by (simp add: gf_bytes_def)
    then show ?thesis by (auto simp: covered_def)
  next
    case False
    then show ?thesis using j by (auto simp: covered_def)
  qed
  then show ?thesis by (simp add: gf_bytes_def gs_send_def)
qed

lemma recv_bytes:
  assumes "gf_bytes D P s" "gs_rv s \<noteq> []"
  shows "gf_bytes D P (gs_recv s)"
  using assms by (cases "gs_rv s") (auto simp: gf_bytes_def gs_recv_def)

lemma reach_bytes: "gf_reach P (serves D) n s \<Longrightarrow> gf_bytes D P s"
proof (induction rule: gf_reach.induct)
  case start
  show ?case by (simp add: gf_bytes_def gs_init_def)
next
  case (more n s s')
  show ?case using more.hyps(2) more.IH reach_counts [OF more.hyps(1)]
    by (cases rule: gf_step.cases) (auto intro: send_bytes recv_bytes answer_bytes)
qed

lemma finished_bytes:
  assumes "gf_reach P (serves D) n s" "\<not> gs_looping P s" "gs_ok s" "length D = gp_dsz P"
  shows "gs_buf s = D"
proof -
  have c: "gf_counts P s" by (rule reach_counts [OF assms(1)])
  have "gs_flight s = [] \<and> gs_rv s = []" "gp_dsz P \<le> gs_i s"
    using assms(2,3) c by (auto simp: gs_looping_def gf_counts_def)
  then have "gs_buf s ! j = D ! j" if "j < gp_dsz P" for j
    using reach_bytes [OF assms(1)] assms(3) that by (auto simp: gf_bytes_def covered_def)
  then show ?thesis using c assms(4) by (simp add: list_eq_iff_nth_eq gf_counts_def)
qed

section \<open>Progress\<close>

text \<open>What is left to do: each step makes it less.\<close>

definition gf_left :: "gf_params \<Rightarrow> gf_state \<Rightarrow> nat" where
  "gf_left P s = 3 * (gp_dsz P - gs_i s) + 2 * length (gs_flight s) + length (gs_rv s)"

lemma answer_left: "k < length (gs_flight s) \<Longrightarrow> gf_left P (gs_answer k r s) < gf_left P s"
  by (cases r; cases "gs_flight s ! k") (auto simp: gf_left_def gs_answer_def Let_def)

lemma step_left:
  assumes "gf_step P ans s s'" "0 < gp_maxsz P"
  shows "gf_left P s' < gf_left P s"
  using assms(1)
proof (cases rule: gf_step.cases)
  case send
  then show ?thesis using assms(2) by (auto simp: gf_left_def gs_send_def gs_can_send_def)
next
  case recv
  then show ?thesis by (cases "gs_rv s") (auto simp: gf_left_def gs_recv_def)
next
  case (answer k r)
  then show ?thesis using answer_left by simp
qed

lemma reach_left: "gf_reach P ans n s \<Longrightarrow> 0 < gp_maxsz P \<Longrightarrow> n + gf_left P s \<le> 3 * gp_dsz P"
proof (induction rule: gf_reach.induct)
  case start
  show ?case by (simp add: gf_left_def gs_init_def)
next
  case (more n s s')
  then show ?case using step_left [OF more.hyps(2)] by simp
qed

lemma never_stuck:
  assumes "gf_reach P ans n s" "gs_looping P s" "0 < gp_ws P" "\<And>off sz. \<exists>r. ans off sz r"
  shows "\<exists>s'. gf_step P ans s s'"
proof (cases "gs_can_send P s")
  case True
  then show ?thesis using assms(2) gf_step.send by blast
next
  case False
  then have "gs_nrecv s < gs_nsent s" using assms(2,3) by (auto simp: gs_looping_def gs_can_send_def)
  then consider "gs_rv s \<noteq> []" | "gs_flight s \<noteq> []" using reach_counts [OF assms(1)] by (auto simp: gf_counts_def)
  then show ?thesis
  proof cases
    case 1
    then show ?thesis using False assms(2) gf_step.recv by blast
  next
    case 2
    then show ?thesis using assms(4) gf_step.answer [of 0 s ans] by fastforce
  qed
qed


section \<open>Without failures\<close>

definition gf_clean :: "gf_state \<Rightarrow> bool" where
  "gf_clean s \<longleftrightarrow> gs_ok s \<and> False \<notin> set (gs_rv s)"

definition exact :: "string \<Rightarrow> nat \<Rightarrow> nat \<Rightarrow> gc_reply \<Rightarrow> bool" where
  "exact D off sz r \<longleftrightarrow> r = srv_getchunk (Some (Some D)) off sz"

lemma exact_serves: "gf_reach P (exact D) n s \<Longrightarrow> gf_reach P (serves D) n s"
proof (induction rule: gf_reach.induct)
  case (more n s s')
  have "gf_step P (serves D) s s'" using more.hyps(2)
    by (cases rule: gf_step.cases) (auto intro: gf_step.intros simp: exact_def serves_def)
  then show ?case using more.IH gf_reach.more by blast
qed (rule gf_reach.start)

lemma srv_getchunk_ok: "off + sz \<le> length D \<Longrightarrow> 0 < sz \<Longrightarrow> srv_getchunk (Some (Some D)) off sz = STATUS_OK (take sz (drop off D))"
  by (simp add: srv_getchunk_def get_chunk_def)

lemma reach_clean:
  assumes "gf_reach P (exact D) n s" "length D = gp_dsz P" "0 < gp_maxsz P"
  shows "gf_clean s"
  using assms(1)
proof (induction rule: gf_reach.induct)
  case start
  show ?case by (simp add: gf_clean_def gs_init_def)
next
  case (more n s s')
  show ?case using more.hyps(2)
  proof (cases rule: gf_step.cases)
    case send
    then show ?thesis using more.IH by (simp add: gf_clean_def gs_send_def)
  next
    case recv
    then show ?thesis using more.IH by (cases "gs_rv s") (auto simp: gf_clean_def gs_recv_def)
  next
    case (answer k r)
    obtain off sz where fl: "gs_flight s ! k = (off, sz)" by (cases "gs_flight s ! k")
    have c: "gf_counts P s" by (rule reach_counts [OF more.hyps(1)])
    have "(off, sz) \<in> set (gs_flight s)" using answer(2) fl nth_mem by metis
    then have rng: "off < gp_dsz P \<and> sz = min (gp_maxsz P) (gp_dsz P - off)" using c by (auto simp: gf_counts_def)
    then have "r = STATUS_OK (take sz (drop off D))"
      using answer(3) fl assms(2,3) srv_getchunk_ok [of off sz D] by (auto simp: exact_def)
    then show ?thesis using answer(1) fl more.IH rng c assms(2) by (auto simp: gf_clean_def gs_answer_def gf_counts_def Let_def)
  qed
qed

lemma runs_on:
  assumes "gf_reach P ans n s" "0 < gp_maxsz P" "0 < gp_ws P" "\<And>off sz. \<exists>r. ans off sz r"
  shows "\<exists>m s'. (gf_step P ans)\<^sup>*\<^sup>* s s' \<and> gf_reach P ans m s' \<and> \<not> gs_looping P s'"
  using assms(1)
proof (induction "gf_left P s" arbitrary: n s rule: less_induct)
  case less
  show ?case
  proof (cases "gs_looping P s")
    case False
    then show ?thesis using less.prems by blast
  next
    case True
    then obtain s1 where s1: "gf_step P ans s s1" using never_stuck [OF less.prems] assms(3,4) by blast
    obtain m s' where "(gf_step P ans)\<^sup>*\<^sup>* s1 s'" "gf_reach P ans m s'" "\<not> gs_looping P s'"
      using less.hyps [OF step_left [OF s1 assms(2)] gf_reach.more [OF less.prems s1]] by blast
    then show ?thesis using s1 converse_rtranclp_into_rtranclp by metis
  qed
qed

lemma clean_run:
  assumes "0 < gp_maxsz P" "0 < gp_ws P" "length D = gp_dsz P"
  shows "\<exists>n s. gf_reach P (serves D) n s \<and> \<not> gs_looping P s \<and> gs_ok s"
proof -
  obtain m s where s: "gf_reach P (exact D) m s" "\<not> gs_looping P s"
    using runs_on [OF gf_reach.start assms(1,2), of "exact D"] by (auto simp: exact_def)
  then show ?thesis using reach_clean [OF s(1) assms(3,1)] exact_serves [OF s(1)] by (auto simp: gf_clean_def)
qed

section \<open>The properties\<close>


definition P3 :: gf_params where
  "P3 = \<lparr>gp_dsz = 3, gp_maxsz = 2, gp_ws = 2\<rparr>"

lemma P3_run: "\<exists>s. gf_reach P3 (serves ''abc'') (Suc (Suc (Suc (Suc 0)))) s \<and> gs_buf s = ''abc'' \<and> gs_rv s = [True, True]"
proof -
  let ?a = "serves ''abc''"
  let ?s1 = "gs_send P3 (gs_init P3)"
  let ?s2 = "gs_send P3 ?s1"
  let ?s3 = "gs_answer 1 (STATUS_OK ''c'') ?s2"
  let ?s4 = "gs_answer 0 (STATUS_OK ''ab'') ?s3"
  have r0: "gf_reach P3 ?a 0 (gs_init P3)" by (rule gf_reach.start)
  have r1: "gf_reach P3 ?a (Suc 0) ?s1"
    by (rule gf_reach.more [OF r0], rule gf_step.send) (simp_all add: P3_def gs_init_def gs_looping_def gs_can_send_def)
  have r2: "gf_reach P3 ?a (Suc (Suc 0)) ?s2"
    by (rule gf_reach.more [OF r1], rule gf_step.send)
      (simp_all add: P3_def gs_init_def gs_looping_def gs_can_send_def gs_send_def)
  have r3: "gf_reach P3 ?a (Suc (Suc (Suc 0))) ?s3"
    by (rule gf_reach.more [OF r2], rule gf_step.answer)
      (simp_all add: P3_def gs_init_def gs_send_def serves_def srv_getchunk_def get_chunk_def numeral_2_eq_2)
  have r4: "gf_reach P3 ?a (Suc (Suc (Suc (Suc 0)))) ?s4"
    by (rule gf_reach.more [OF r3], rule gf_step.answer)
      (simp_all add: P3_def gs_init_def gs_send_def gs_answer_def serves_def srv_getchunk_def get_chunk_def copy_in_def numeral_eq_Suc)
  have "gs_buf ?s4 = ''abc'' \<and> gs_rv ?s4 = [True, True]"
    by (simp add: P3_def gs_init_def gs_send_def gs_answer_def copy_in_def numeral_eq_Suc)
  then show ?thesis using r4 by blast
qed


text \<open>
  C9.  A chunked transfer ends: with chunks of at least one byte and a window of at least one request, no run takes
  more than \<open>3 * dsz\<close> steps, and from every reachable state, as long as each request is answered, the loop
  reaches its end.  If no answer fails, it ends with the file that the bytes of the server encode.
\<close>

theorem transfer_ends:
  assumes "gf_reach P ans n s" "0 < gp_maxsz P" "0 < gp_ws P" "\<And>off sz. \<exists>r. ans off sz r"
  shows "n \<le> 3 * gp_dsz P \<and> (\<exists>m s'. (gf_step P ans)\<^sup>*\<^sup>* s s' \<and> gf_reach P ans m s' \<and> \<not> gs_looping P s'
    \<and> (ans = exact D \<and> length D = gp_dsz P \<and> str2xdr D = Some x \<longrightarrow> gf_finish sha1 str2xdr (sha1 D) s' = GOT x))"
proof -
  obtain m s' where s': "(gf_step P ans)\<^sup>*\<^sup>* s s'" "gf_reach P ans m s'" "\<not> gs_looping P s'"
    using runs_on [OF assms] by blast
  have "gf_finish sha1 str2xdr (sha1 D) s' = GOT x" if h: "ans = exact D" "length D = gp_dsz P" "str2xdr D = Some x"
  proof -
    have "gf_reach P (exact D) m s'" using s'(2) h(1) by simp
    then have "gs_ok s'" "gs_buf s' = D"
      using reach_clean [OF _ h(2) assms(2)] finished_bytes [OF exact_serves s'(3) _ h(2)] by (auto simp: gf_clean_def)
    then show ?thesis using h(3) by (simp add: gf_finish_def)
  qed
  then show ?thesis using s' reach_left [OF assms(1,2)] by auto
qed

theorem transfer_ends_witness:
  "\<exists>m s'. (gf_step P3 (exact ''abc''))\<^sup>*\<^sup>* (gs_init P3) s' \<and> gf_reach P3 (exact ''abc'') m s' \<and> \<not> gs_looping P3 s'
     \<and> gf_finish length Some (length ''abc'') s' = GOT ''abc''"
  using transfer_ends [OF gf_reach.start, of P3 "exact ''abc''" "''abc''" Some "''abc''" length]
  by (simp add: P3_def exact_def)

text \<open>
  An answer that comes after the loop has given up still copies into the buffer, which the function that
  owned it no longer holds.
\<close>

lemma late_copy:
  "\<exists>n s s'. gf_reach \<lparr>gp_dsz = 2, gp_maxsz = 1, gp_ws = 2\<rparr> (serves ''ab'') n s \<and> \<not> gs_looping \<lparr>gp_dsz = 2, gp_maxsz = 1, gp_ws = 2\<rparr> s
     \<and> gf_step \<lparr>gp_dsz = 2, gp_maxsz = 1, gp_ws = 2\<rparr> (serves ''ab'') s s' \<and> gs_buf s' \<noteq> gs_buf s"
proof -
  let ?P = "\<lparr>gp_dsz = 2, gp_maxsz = 1, gp_ws = 2\<rparr> :: gf_params"
  let ?a = "serves ''ab''"
  let ?s1 = "gs_send ?P (gs_init ?P)"
  let ?s2 = "gs_send ?P ?s1"
  let ?s3 = "gs_answer 0 RPC_FAILED ?s2"
  let ?s4 = "gs_recv ?s3"
  let ?s5 = "gs_answer 0 (STATUS_OK ''b'') ?s4"
  note defs = gs_init_def gs_looping_def gs_can_send_def gs_send_def gs_answer_def gs_recv_def serves_def
    srv_getchunk_def get_chunk_def copy_in_def numeral_2_eq_2
  have r0: "gf_reach ?P ?a 0 (gs_init ?P)" by (rule gf_reach.start)
  have r1: "gf_reach ?P ?a (Suc 0) ?s1" by (rule gf_reach.more [OF r0], rule gf_step.send) (simp_all add: defs)
  have r2: "gf_reach ?P ?a (Suc (Suc 0)) ?s2" by (rule gf_reach.more [OF r1], rule gf_step.send) (simp_all add: defs)
  have r3: "gf_reach ?P ?a (Suc (Suc (Suc 0))) ?s3"
    by (rule gf_reach.more [OF r2], rule gf_step.answer) (simp_all add: defs)
  have r4: "gf_reach ?P ?a (Suc (Suc (Suc (Suc 0)))) ?s4"
    by (rule gf_reach.more [OF r3], rule gf_step.recv) (simp_all add: defs)
  have st: "gf_step ?P ?a ?s4 ?s5" by (rule gf_step.answer) (simp_all add: defs)
  have "\<not> gs_looping ?P ?s4" "gs_buf ?s5 \<noteq> gs_buf ?s4" by (simp_all add: defs)
  then show ?thesis using r4 st by blast
qed

end
