(* ===== verification/Pubval.thy ===== *)
theory Pubval
  imports Ast Scalar Escape "HOL-Library.AList" "HOL-Library.List_Lexorder" "HOL-Library.Char_ord"
begin

text \<open>
  The values of the template language: the methods of \<^verbatim>\<open>src/libpub/pub3expr.C\<close> that convert, print,
  compare and combine them, and the element access of \<^verbatim>\<open>src/libpub/pub3ref.C\<close>.  A value is an expression of
  \<open>Ast\<close>.  The methods here read their operands only, so that the identity of objects does not matter; a
  result is a new object or shares the operands it names.
\<close>

section \<open>Parameters and reports\<close>

text \<open>
  \<open>pe_wide\<close> is the decoder to wide characters, \<open>pe_i64\<close> the conversion of a \<^verbatim>\<open>double\<close> to \<^verbatim>\<open>int64_t\<close>, \<open>pe_fmt\<close>
  \<^verbatim>\<open>snprintf\<close> with the external format, \<open>pe_bitmax\<close> the configuration \<^verbatim>\<open>ok_pub3_json_int_bitmax\<close>, \<open>pe_null\<close>
  what the base library prints for a null C string, \<open>pe_ln0\<close> the line of a dictionary from
  the recycler (its free list or a new object).
\<close>

record 'd pv_env =
  pe_sc :: "'d sc_env"
  pe_wide :: "string \<Rightarrow> int list"
  pe_i64 :: "'d \<Rightarrow> int"
  pe_fmt :: "'d \<Rightarrow> string"
  pe_bitmax :: nat
  pe_null :: string
  pe_ln0 :: lineno

text \<open>An error report: the line and the message.\<close>

type_synonym report = "lineno \<times> string"

record str_opt =
  m_quoted :: bool
  m_utf8 :: bool
  m_compact :: bool
  m_sort_fields :: bool

definition str_opt_t :: str_opt where
  "str_opt_t = \<lparr>m_quoted = False, m_utf8 = False, m_compact = False, m_sort_fields = False\<rparr>"

section \<open>Printing\<close>

definition json_quote_utf8 :: "'d pv_env \<Rightarrow> string option \<Rightarrow> bool \<Rightarrow> string option" where
  "json_quote_utf8 E s utf8 = (if s = None then Some ''null'' else the (json_escape (pe_wide E) s True utf8))"

definition json_quote :: "'d pv_env \<Rightarrow> string option \<Rightarrow> str_opt \<Rightarrow> string option" where
  "json_quote E s so = (if \<not> m_quoted so then s else json_quote_utf8 E s (m_utf8 so))"

definition json_safestr :: "string option \<Rightarrow> string" where
  "json_safestr s = (case s of None \<Rightarrow> ''null'' | Some s \<Rightarrow> s)"

definition static_to_str :: "bool \<Rightarrow> string" where
  "static_to_str b = (if b then ''true'' else ''false'')"

text \<open>
  The bound \<^verbatim>\<open>1 << ok_pub3_json_int_bitmax\<close> is computed in 64 bits and wraps; a shift by 64 or more is
  undefined in C++, so that the configuration is to be less.
\<close>

definition js_unsafe :: "'d pv_env \<Rightarrow> int \<Rightarrow> bool" where
  "js_unsafe E v \<longleftrightarrow>
     (let x = signed_take_bit 63 (2 ^ pe_bitmax E); n = signed_take_bit 63 (x * - 1) in x \<le> v \<or> v \<le> n)"

definition int_to_str :: "'d pv_env \<Rightarrow> int \<Rightarrow> str_opt \<Rightarrow> string" where
  "int_to_str E v so =
     (if m_quoted so \<and> 0 < pe_bitmax E \<and> js_unsafe E v then [DQ] @ dec_int v @ [DQ] else dec_int v)"

definition js_unsafe_u :: "'d pv_env \<Rightarrow> int \<Rightarrow> bool" where
  "js_unsafe_u E v \<longleftrightarrow> take_bit 64 (2 ^ pe_bitmax E) \<le> v"

definition uint_to_str :: "'d pv_env \<Rightarrow> int \<Rightarrow> str_opt \<Rightarrow> string" where
  "uint_to_str E v so =
     (if m_quoted so \<and> 0 < pe_bitmax E \<and> js_unsafe_u E v then [DQ] @ dec_int v @ [DQ] else dec_int v)"

definition double_to_str :: "'d pv_env \<Rightarrow> 'd \<Rightarrow> string" where
  "double_to_str E d = take 127 (pe_fmt E d)"

fun join :: "string \<Rightarrow> string list \<Rightarrow> string" where
  "join sep [] = []"
| "join sep [x] = x"
| "join sep (x # y # xs) = x @ sep @ join sep (y # xs)"

definition vec2str :: "string list \<Rightarrow> char \<Rightarrow> char \<Rightarrow> bool \<Rightarrow> string" where
  "vec2str v op cl compact = [op] @ join (if compact then '','' else '', '') v @ [cl]"

text \<open>Appending a null string appends nothing; the format \<^verbatim>\<open>%s\<close> takes a C string.\<close>

abbreviation cat_str :: "string option \<Rightarrow> string" where
  "cat_str s \<equiv> (case s of None \<Rightarrow> [] | Some s \<Rightarrow> s)"

definition fmt_s :: "'d pv_env \<Rightarrow> string option \<Rightarrow> string" where
  "fmt_s E s = (case s of None \<Rightarrow> pe_null E | Some s \<Rightarrow> cstr s)"

definition location_to_str :: "string option \<Rightarrow> lineno \<Rightarrow> string" where
  "location_to_str fname ln = cat_str fname @ (if ln \<noteq> 0 then '':'' @ dec_int ln else [])"

definition lambda_to_str :: "'d pv_env \<Rightarrow> 'd lambda \<Rightarrow> str_opt \<Rightarrow> string option" where
  "lambda_to_str E l so =
     (case l of lambda_t fname ln nm ps os body \<Rightarrow>
        json_quote E (Some (''<'' @ fmt_s E nm @ '' @ '' @ cstr (location_to_str fname ln) @ ''>'')) so)"

definition safe_to_str :: "(str_opt \<Rightarrow> string option) option \<Rightarrow> str_opt \<Rightarrow> string option" where
  "safe_to_str x so = (case x of None \<Rightarrow> Some ''null'' | Some f \<Rightarrow> f so)"

definition sort_entries :: "(string \<times> 'v) list \<Rightarrow> (string \<times> 'v) list" where
  "sort_entries b = sort_key (\<lambda>kv. cstr (fst kv)) b"

text \<open>The printing methods of the containers, on what printing the elements gives.\<close>

definition list_to_str :: "(str_opt \<Rightarrow> string option) option list \<Rightarrow> str_opt \<Rightarrow> string option" where
  "list_to_str l so =
     (let so = so\<lparr>m_quoted := True\<rparr>
      in Some (vec2str (map (\<lambda>x. cat_str (safe_to_str x so)) l) CHR ''['' CHR '']'' (m_compact so)))"

definition dict_to_str :: "'d pv_env \<Rightarrow> (string \<times> (str_opt \<Rightarrow> string option) option) list \<Rightarrow> str_opt \<Rightarrow> string option" where
  "dict_to_str E d so =
     (let so = so\<lparr>m_quoted := True\<rparr>;
          keys = (if m_sort_fields so then sort_entries d else d);
          entry = (\<lambda>(k, v). fmt_s E (json_quote E (Some k) so) @ (if m_compact so then '':'' else '' : '') @ fmt_s E (safe_to_str v so))
      in Some (vec2str (map entry keys) CHR ''{'' CHR ''}'' (m_compact so)))"

definition shell_str_to_str :: "(str_opt \<Rightarrow> string option) option list \<Rightarrow> str_opt \<Rightarrow> string option" where
  "shell_str_to_str els so =
     Some (concat (map (\<lambda>x. case x of None \<Rightarrow> [] | Some f \<Rightarrow> cat_str (f (so\<lparr>m_quoted := False\<rparr>))) els))"

primrec pv_to_str :: "'d pv_env \<Rightarrow> 'd expr_t \<Rightarrow> str_opt \<Rightarrow> string option" where
  "pv_to_str E expr_null_t = (\<lambda>so. Some ''null'')"
| "pv_to_str E (expr_bool_t b) = (\<lambda>so. Some (static_to_str b))"
| "pv_to_str E (expr_int_t i) = (\<lambda>so. Some (int_to_str E i so))"
| "pv_to_str E (expr_uint_t u) = (\<lambda>so. Some (uint_to_str E u so))"
| "pv_to_str E (expr_double_t d) = (\<lambda>so. Some (double_to_str E d))"
| "pv_to_str E (expr_str_t s) = json_quote E s"
| "pv_to_str E (expr_strbuf_t b) = json_quote E (Some b)"
| "pv_to_str E (expr_regex_t ln body opts) = json_quote E (Some body)"
| "pv_to_str E (expr_list_t ln l) = list_to_str (map (map_option (pv_to_str E)) l)"
| "pv_to_str E (expr_dict_t ln d) = dict_to_str E (map (map_prod id (map_option (pv_to_str E))) d)"
| "pv_to_str E (expr_cow_t x) = pv_to_str E x"
| "pv_to_str E (expr_shell_str_t ln ln' els) = shell_str_to_str (map (map_option (pv_to_str E)) els)"
| "pv_to_str E (expr_OR_t ln a b) = (\<lambda>so. None)"
| "pv_to_str E (expr_AND_t ln a b) = (\<lambda>so. None)"
| "pv_to_str E (expr_NOT_t ln a) = (\<lambda>so. None)"
| "pv_to_str E (expr_EQ_t ln a b pos) = (\<lambda>so. None)"
| "pv_to_str E (expr_relation_t ln a b op) = (\<lambda>so. None)"
| "pv_to_str E (expr_add_t ln a b pos) = (\<lambda>so. None)"
| "pv_to_str E (expr_mult_t ln a b) = (\<lambda>so. None)"
| "pv_to_str E (expr_div_t ln a b) = (\<lambda>so. None)"
| "pv_to_str E (expr_mod_t ln a b) = (\<lambda>so. None)"
| "pv_to_str E (expr_dictref_t ln d k) = (\<lambda>so. None)"
| "pv_to_str E (expr_varref_t ln n) = (\<lambda>so. None)"
| "pv_to_str E (expr_scoped_varref_t ln n sc) = (\<lambda>so. None)"
| "pv_to_str E (expr_vecref_t ln v i) = (\<lambda>so. None)"
| "pv_to_str E (expr_assignment_t ln l r) = (\<lambda>so. None)"
| "pv_to_str E (call_t ln f args bl) = (\<lambda>so. None)"
| "pv_to_str E (expr_lambda_t l) = lambda_to_str E l"
| "pv_to_str E (heredoc_t ln z) = (\<lambda>so. None)"

section \<open>Conversions\<close>

text \<open>
  A copy-on-write object passes a conversion on to its target (\<^verbatim>\<open>const_ptr\<close>), so that most methods look at
  the target of the chain.
\<close>

primrec const_ptr :: "'d expr_t \<Rightarrow> 'd expr_t" where
  "const_ptr expr_null_t = expr_null_t"
| "const_ptr (expr_bool_t b) = expr_bool_t b"
| "const_ptr (expr_int_t i) = expr_int_t i"
| "const_ptr (expr_uint_t u) = expr_uint_t u"
| "const_ptr (expr_double_t d) = expr_double_t d"
| "const_ptr (expr_str_t s) = expr_str_t s"
| "const_ptr (expr_strbuf_t b) = expr_strbuf_t b"
| "const_ptr (expr_regex_t ln body opts) = expr_regex_t ln body opts"
| "const_ptr (expr_list_t ln l) = expr_list_t ln l"
| "const_ptr (expr_dict_t ln d) = expr_dict_t ln d"
| "const_ptr (expr_cow_t x) = const_ptr x"
| "const_ptr (expr_shell_str_t ln ln' els) = expr_shell_str_t ln ln' els"
| "const_ptr (expr_OR_t ln a b) = expr_OR_t ln a b"
| "const_ptr (expr_AND_t ln a b) = expr_AND_t ln a b"
| "const_ptr (expr_NOT_t ln a) = expr_NOT_t ln a"
| "const_ptr (expr_EQ_t ln a b pos) = expr_EQ_t ln a b pos"
| "const_ptr (expr_relation_t ln a b op) = expr_relation_t ln a b op"
| "const_ptr (expr_add_t ln a b pos) = expr_add_t ln a b pos"
| "const_ptr (expr_mult_t ln a b) = expr_mult_t ln a b"
| "const_ptr (expr_div_t ln a b) = expr_div_t ln a b"
| "const_ptr (expr_mod_t ln a b) = expr_mod_t ln a b"
| "const_ptr (expr_dictref_t ln d k) = expr_dictref_t ln d k"
| "const_ptr (expr_varref_t ln n) = expr_varref_t ln n"
| "const_ptr (expr_scoped_varref_t ln n sc) = expr_scoped_varref_t ln n sc"
| "const_ptr (expr_vecref_t ln v i) = expr_vecref_t ln v i"
| "const_ptr (expr_assignment_t ln l r) = expr_assignment_t ln l r"
| "const_ptr (call_t ln f args bl) = call_t ln f args bl"
| "const_ptr (expr_lambda_t l) = expr_lambda_t l"
| "const_ptr (heredoc_t ln z) = heredoc_t ln z"

definition is_null :: "'d expr_t \<Rightarrow> bool" where
  "is_null x = (case const_ptr x of expr_null_t \<Rightarrow> True | _ \<Rightarrow> False)"

definition to_bool :: "'d pv_env \<Rightarrow> 'd expr_t \<Rightarrow> bool" where
  "to_bool E x =
     (case const_ptr x of
        expr_bool_t b \<Rightarrow> b
      | expr_int_t i \<Rightarrow> i \<noteq> 0
      | expr_uint_t u \<Rightarrow> u \<noteq> 0
      | expr_double_t d \<Rightarrow> \<not> fp_is_zero (pe_sc E) d
      | expr_str_t s \<Rightarrow> (case s of None \<Rightarrow> False | Some s \<Rightarrow> length s \<noteq> 0)
      | expr_strbuf_t b \<Rightarrow> 0 < length b
      | expr_list_t ln l \<Rightarrow> 0 < length l
      | expr_dict_t ln d \<Rightarrow> 0 < length d
      | expr_lambda_t l \<Rightarrow> True
      | _ \<Rightarrow> False)"

definition to_list :: "'d expr_t \<Rightarrow> 'd expr_t option list option" where
  "to_list x = (case const_ptr x of expr_list_t ln l \<Rightarrow> Some l | _ \<Rightarrow> None)"

definition to_dict :: "'d expr_t \<Rightarrow> (string \<times> 'd expr_t option) list option" where
  "to_dict x = (case const_ptr x of expr_dict_t ln d \<Rightarrow> Some d | _ \<Rightarrow> None)"

definition is_str :: "'d expr_t \<Rightarrow> bool" where
  "is_str x = (case x of expr_str_t s \<Rightarrow> True | expr_strbuf_t b \<Rightarrow> True | _ \<Rightarrow> False)"

definition type_to_str :: "'d expr_t \<Rightarrow> string" where
  "type_to_str x =
     (case const_ptr x of
        expr_null_t \<Rightarrow> ''null''
      | expr_bool_t b \<Rightarrow> ''bool''
      | expr_int_t i \<Rightarrow> ''int''
      | expr_uint_t u \<Rightarrow> ''uint''
      | expr_double_t d \<Rightarrow> ''float''
      | expr_str_t s \<Rightarrow> ''str''
      | expr_regex_t ln body opts \<Rightarrow> ''regex''
      | expr_list_t ln l \<Rightarrow> ''list''
      | expr_dict_t ln d \<Rightarrow> ''dict''
      | expr_shell_str_t ln ln' els \<Rightarrow> ''string''
      | _ \<Rightarrow> ''object'')"

definition ascii_strlen :: "string \<Rightarrow> nat option" where
  "ascii_strlen s = (if list_all (\<lambda>c. code c < 128) (cstr s) then Some (length (cstr s)) else None)"

definition utf8_len :: "'d pv_env \<Rightarrow> string \<Rightarrow> nat" where
  "utf8_len E s = (case ascii_strlen s of Some n \<Rightarrow> n | None \<Rightarrow> length (pe_wide E s))"

definition to_len :: "'d pv_env \<Rightarrow> 'd expr_t \<Rightarrow> nat option" where
  "to_len E x =
     (case const_ptr x of
        expr_str_t s \<Rightarrow> Some (case s of None \<Rightarrow> 0 | Some s \<Rightarrow> utf8_len E s)
      | expr_strbuf_t b \<Rightarrow> Some (length b)
      | expr_list_t ln l \<Rightarrow> Some (length l)
      | expr_dict_t ln d \<Rightarrow> Some (length d)
      | _ \<Rightarrow> None)"

text \<open>The forms with an output argument: \<open>Some\<close> what is written there.\<close>

definition pv_to_int :: "'d pv_env \<Rightarrow> 'd expr_t \<Rightarrow> int option" where
  "pv_to_int E x =
     (case const_ptr x of
        expr_bool_t b \<Rightarrow> Some (of_bool b)
      | expr_str_t s \<Rightarrow> fst (sc_int64 (sc_of_str s :: 'd scalar))
      | expr_int_t i \<Rightarrow> Some i
      | expr_uint_t u \<Rightarrow> (if u \<le> INT64_MAX then Some u else None)
      | expr_double_t d \<Rightarrow> Some (pe_i64 E d)
      | _ \<Rightarrow> None)"

definition to_uint :: "'d expr_t \<Rightarrow> int option" where
  "to_uint x =
     (case const_ptr x of
        expr_bool_t b \<Rightarrow> Some (of_bool b)
      | expr_str_t s \<Rightarrow> fst (sc_uint64 (sc_of_str s :: 'd scalar))
      | expr_int_t i \<Rightarrow> (if 0 \<le> i then Some i else None)
      | expr_uint_t u \<Rightarrow> Some u
      | _ \<Rightarrow> None)"

definition to_double :: "'d pv_env \<Rightarrow> 'd expr_t \<Rightarrow> 'd option" where
  "to_double E x =
     (case const_ptr x of
        expr_int_t i \<Rightarrow> Some (fp_of_int (pe_sc E) i)
      | expr_uint_t u \<Rightarrow> Some (fp_of_int (pe_sc E) u)
      | expr_double_t d \<Rightarrow> Some d
      | _ \<Rightarrow> None)"

text \<open>The forms that return the number; a copy-on-write object does not pass them on.\<close>

definition int_value :: "'d pv_env \<Rightarrow> 'd expr_t \<Rightarrow> int" where
  "int_value E x =
     (case x of
        expr_bool_t b \<Rightarrow> of_bool b
      | expr_str_t s \<Rightarrow> the (fst (sc_to_int64 (sc_of_str s :: 'd scalar)))
      | expr_int_t i \<Rightarrow> i
      | expr_uint_t u \<Rightarrow> (if u \<le> INT64_MAX then u else 0)
      | expr_double_t d \<Rightarrow> pe_i64 E d
      | _ \<Rightarrow> 0)"

definition uint_value :: "'d expr_t \<Rightarrow> int" where
  "uint_value x =
     (case x of
        expr_bool_t b \<Rightarrow> of_bool b
      | expr_str_t s \<Rightarrow> the (fst (sc_to_uint64 (sc_of_str s :: 'd scalar)))
      | expr_int_t i \<Rightarrow> (if 0 \<le> i then i else 0)
      | expr_uint_t u \<Rightarrow> u
      | _ \<Rightarrow> 0)"

definition to_scalar :: "'d pv_env \<Rightarrow> 'd expr_t \<Rightarrow> 'd scalar" where
  "to_scalar E x =
     (case x of
        expr_bool_t b \<Rightarrow> sc_set_i (pe_sc E) (of_bool b) sc_new
      | expr_int_t i \<Rightarrow> sc_set_i (pe_sc E) i sc_new
      | expr_uint_t u \<Rightarrow> sc_set_u (pe_sc E) u sc_new
      | expr_double_t d \<Rightarrow> sc_set_double (pe_sc E) d sc_new
      | expr_str_t s \<Rightarrow> sc_of_str s
      | expr_strbuf_t b \<Rightarrow> sc_of_str (Some b)
      | expr_dict_t ln d \<Rightarrow> sc_of_str (pv_to_str E x \<lparr>m_quoted = True, m_utf8 = False, m_compact = False, m_sort_fields = True\<rparr>)
      | _ \<Rightarrow> sc_of_str (pv_to_str E x \<lparr>m_quoted = False, m_utf8 = False, m_compact = False, m_sort_fields = True\<rparr>))"

definition to_switch_str :: "'d pv_env \<Rightarrow> 'd expr_t \<Rightarrow> string option" where
  "to_switch_str E x = (case x of expr_bool_t b \<Rightarrow> Some (if b then ''1'' else ''0'') | _ \<Rightarrow> pv_to_str E x str_opt_t)"

definition arg_to_str :: "'d pv_env \<Rightarrow> 'd expr_t \<Rightarrow> string option" where
  "arg_to_str E x = (case x of expr_null_t \<Rightarrow> Some [] | _ \<Rightarrow> pv_to_str E x str_opt_t)"

text \<open>
  \<^verbatim>\<open>expr_t::alloc\<close> of a scalar: the first conversion that works decides the class.  The text of a scalar is
  never a null string (\<open>sc_to_str\<close>), so that the last branch of the source, a null value, is not taken.
\<close>

definition alloc_scalar :: "'d sc_env \<Rightarrow> 'd scalar \<Rightarrow> 'd expr_t" where
  "alloc_scalar E so =
     (let (i, so) = sc_int64 so in
      case i of Some i \<Rightarrow> expr_int_t i | None \<Rightarrow>
      (let (u, so) = sc_uint64 so in
       case u of Some u \<Rightarrow> expr_uint_t u | None \<Rightarrow>
       (let (d, so) = sc_double E so in
        case d of Some d \<Rightarrow> expr_double_t d | None \<Rightarrow> expr_str_t (Some (sc_to_str so)))))"

section \<open>Copies\<close>

definition is_constant :: "'d expr_t \<Rightarrow> bool" where
  "is_constant x =
     (case x of
        expr_null_t \<Rightarrow> True | expr_bool_t b \<Rightarrow> True | expr_int_t i \<Rightarrow> True | expr_uint_t u \<Rightarrow> True
      | expr_double_t d \<Rightarrow> True | expr_str_t s \<Rightarrow> True | expr_strbuf_t b \<Rightarrow> True | _ \<Rightarrow> False)"

text \<open>\<^verbatim>\<open>copy\<close>: a constant gives itself, a copy-on-write object another on the same target.\<close>

definition copy :: "'d expr_t \<Rightarrow> 'd expr_t" where
  "copy x = (if is_constant x then x else case x of expr_cow_t y \<Rightarrow> expr_cow_t y | _ \<Rightarrow> expr_cow_t x)"

definition safe_expr :: "'d expr_t option \<Rightarrow> 'd expr_t" where
  "safe_expr x = (case x of None \<Rightarrow> expr_null_t | Some x \<Rightarrow> x)"

definition safe_copy :: "'d expr_t option \<Rightarrow> 'd expr_t" where
  "safe_copy x = (case x of None \<Rightarrow> expr_null_t | Some x \<Rightarrow> copy x)"

definition dict_copy :: "(string \<times> 'd expr_t option) list \<Rightarrow> (string \<times> 'd expr_t option) list" where
  "dict_copy d = foldl (\<lambda>t (k, v). AList.update k (map_option copy v) t) [] d"

definition overwrite_dict :: "(string \<times> 'd expr_t option) list \<Rightarrow> (string \<times> 'd expr_t option) list \<Rightarrow> (string \<times> 'd expr_t option) list" where
  "overwrite_dict d t = foldl (\<lambda>d (k, v). AList.update k (map_option copy v) d) d t"

definition remove_keys :: "(string \<times> 'd expr_t option) list \<Rightarrow> (string \<times> 'd expr_t option) list \<Rightarrow> (string \<times> 'd expr_t option) list" where
  "remove_keys d t = foldl (\<lambda>d (k, v). AList.delete k d) d t"

primrec is_static :: "'d expr_t \<Rightarrow> bool" where
  "is_static expr_null_t = True"
| "is_static (expr_bool_t b) = True"
| "is_static (expr_int_t i) = True"
| "is_static (expr_uint_t u) = True"
| "is_static (expr_double_t d) = True"
| "is_static (expr_str_t s) = True"
| "is_static (expr_strbuf_t b) = True"
| "is_static (expr_regex_t ln body opts) = True"
| "is_static (expr_list_t ln l) = list_all (pred_option id) (map (map_option is_static) l)"
| "is_static (expr_dict_t ln d) = list_all (\<lambda>kv. pred_option id (snd kv)) (map (map_prod id (map_option is_static)) d)"
| "is_static (expr_cow_t x) = is_static x"
| "is_static (expr_shell_str_t ln ln' els) = False"
| "is_static (expr_OR_t ln a b) = False"
| "is_static (expr_AND_t ln a b) = False"
| "is_static (expr_NOT_t ln a) = False"
| "is_static (expr_EQ_t ln a b pos) = False"
| "is_static (expr_relation_t ln a b op) = False"
| "is_static (expr_add_t ln a b pos) = False"
| "is_static (expr_mult_t ln a b) = False"
| "is_static (expr_div_t ln a b) = False"
| "is_static (expr_mod_t ln a b) = False"
| "is_static (expr_dictref_t ln d k) = False"
| "is_static (expr_varref_t ln n) = False"
| "is_static (expr_scoped_varref_t ln n sc) = False"
| "is_static (expr_vecref_t ln v i) = False"
| "is_static (expr_assignment_t ln l r) = False"
| "is_static (call_t ln f args bl) = False"
| "is_static (expr_lambda_t l) = False"
| "is_static (heredoc_t ln z) = False"

section \<open>Equality and order\<close>

text \<open>The comparison of two fresh scalars; the caches it fills are thrown away with them.\<close>

definition so_cmp :: "'d sc_env \<Rightarrow> 'd scalar \<Rightarrow> 'd scalar \<Rightarrow> int" where
  "so_cmp E a b = (case sc_cmp E a b of Some (c, _) \<Rightarrow> c | None \<Rightarrow> 0)"

text \<open>\<^verbatim>\<open>list_mania\<close>: when one side is a list, the other is made one.\<close>

definition wrap :: "'d expr_t option \<Rightarrow> 'd expr_t option list" where
  "wrap x = (case x of None \<Rightarrow> [] | Some x \<Rightarrow> [Some (copy x)])"

definition list_mania :: "'d expr_t option \<Rightarrow> 'd expr_t option \<Rightarrow> ('d expr_t option list \<times> 'd expr_t option list) option" where
  "list_mania x1 x2 =
     (case (Option.bind x1 to_list, Option.bind x2 to_list) of
        (None, None) \<Rightarrow> None
      | (None, Some l2) \<Rightarrow> Some (wrap x1, l2)
      | (Some l1, None) \<Rightarrow> Some (l1, wrap x2)
      | (Some l1, Some l2) \<Rightarrow> Some (l1, l2))"

definition null_ptr :: "'d expr_t option \<Rightarrow> bool" where
  "null_ptr x = (case x of None \<Rightarrow> True | Some x \<Rightarrow> is_null x)"

definition opt_size :: "'d expr_t option \<Rightarrow> nat" where
  "opt_size x = (case x of None \<Rightarrow> 0 | Some x \<Rightarrow> Suc (size (const_ptr x)))"

lemma to_list_Some: "to_list x = Some l \<longleftrightarrow> (\<exists>ln. const_ptr x = expr_list_t ln l)"
  by (simp add: to_list_def split: expr_t.splits)

lemma const_ptr_le: "size (const_ptr x) \<le> size x"
  by (induction x rule: expr_t.induct [where ?P2.0 = "\<lambda>_. True" and ?P3.0 = "\<lambda>_. True" and ?P4.0 = "\<lambda>_. True" and ?P5.0 = "\<lambda>_. True" and ?P6.0 = "\<lambda>_. True"]) auto

lemma const_ptr_copy [simp]: "const_ptr (copy x) = const_ptr x"
  by (cases x) (simp_all add: copy_def is_constant_def)

lemma elem_size: "x \<in> set l \<Longrightarrow> opt_size x < Suc (size (expr_list_t ln l))"
proof (induction l)
  case (Cons a l)
  have "opt_size x \<le> size_option size x" if "x \<in> set (a # l)"
    using const_ptr_le by (auto simp: opt_size_def split: option.splits)
  then show ?case using Cons by (auto simp: opt_size_def split: option.splits)
qed simp


lemma elem_lt: "to_list x = Some l \<Longrightarrow> y \<in> set l \<Longrightarrow> opt_size y < opt_size (Some x)"
  using elem_size [of y l] by (auto simp: to_list_Some opt_size_def)

lemma opt_size_copy [simp]: "opt_size (Some (copy x)) = opt_size (Some x)"
  by (simp add: opt_size_def)

lemma mania_lt:
  assumes "list_mania x1 x2 = Some (l1, l2)" "(a, b) \<in> set (zip l1 l2)"
  shows "opt_size a + opt_size b < opt_size x1 + opt_size x2"
proof -
  have ab: "a \<in> set l1" "b \<in> set l2" using assms(2) by (auto dest: set_zip_leftD set_zip_rightD)
  show ?thesis
  proof (cases "Option.bind x1 to_list")
    case None
    then obtain y2 where "x2 = Some y2" "to_list y2 = Some l2" "l1 = wrap x1"
      using assms(1) by (auto simp: list_mania_def split: option.splits Option.bind_splits)
    then show ?thesis using ab elem_lt [of y2 l2 b] by (cases x1) (auto simp: wrap_def)
  next
    case (Some l)
    then obtain y1 where y1: "x1 = Some y1" "to_list y1 = Some l1"
      using assms(1) by (auto simp: list_mania_def split: option.splits Option.bind_splits)
    show ?thesis
    proof (cases "Option.bind x2 to_list")
      case None
      then have "l2 = wrap x2" using assms(1) Some by (auto simp: list_mania_def)
      then show ?thesis using ab y1 elem_lt [of y1 l1 a] by (cases x2) (auto simp: wrap_def)
    next
      case (Some m)
      then obtain y2 where "x2 = Some y2" "to_list y2 = Some l2"
        using assms(1) y1 by (auto simp: list_mania_def split: option.splits Option.bind_splits)
      then show ?thesis using ab y1 elem_lt [of y1 l1 a] elem_lt [of y2 l2 b] by simp
    qed
  qed
qed

text \<open>\<^verbatim>\<open>expr_EQ_t::eval_static\<close>: the recursive calls have \<^verbatim>\<open>pos\<close> true.\<close>

function eq_true :: "'d pv_env \<Rightarrow> 'd expr_t option \<Rightarrow> 'd expr_t option \<Rightarrow> bool" where
  "eq_true E x1 x2 =
     (if null_ptr x1 \<and> null_ptr x2 then True
      else if null_ptr x1 \<or> null_ptr x2 then False
      else case list_mania x1 x2 of
             Some (l1, l2) \<Rightarrow> length l1 = length l2 \<and> list_all (\<lambda>(a, b). eq_true E a b) (zip l1 l2)
           | None \<Rightarrow> so_cmp (pe_sc E) (to_scalar E (the x1)) (to_scalar E (the x2)) = 0)"
  by pat_completeness auto
termination
  by (relation "measure (\<lambda>(E, x1, x2). opt_size x1 + opt_size x2)") (auto simp: mania_lt)

declare eq_true.simps [simp del]

definition eval_static :: "'d pv_env \<Rightarrow> 'd expr_t option \<Rightarrow> 'd expr_t option \<Rightarrow> bool \<Rightarrow> bool" where
  "eval_static E x1 x2 pos = (eq_true E x1 x2 \<noteq> (\<not> pos))"

lemma find_in_set: "find P l = Some x \<Longrightarrow> x \<in> set l"
  by (auto simp: find_Some_iff)

text \<open>\<open>warn\<close> is the option \<^verbatim>\<open>P_WARN_RELARG_NULL\<close> of the evaluation, \<open>ln\<close> the line of the expression.\<close>

definition rel_lengths :: "relop \<Rightarrow> nat \<Rightarrow> nat \<Rightarrow> bool" where
  "rel_lengths op ls rs =
     (case op of XPUB3_REL_LTE \<Rightarrow> ls < rs | XPUB3_REL_LT \<Rightarrow> ls < rs | XPUB3_REL_GTE \<Rightarrow> rs < ls | XPUB3_REL_GT \<Rightarrow> rs < ls)"

definition rel_scalars :: "'d sc_env \<Rightarrow> relop \<Rightarrow> 'd scalar \<Rightarrow> 'd scalar \<Rightarrow> bool" where
  "rel_scalars E op a b =
     (case op of
        XPUB3_REL_LT \<Rightarrow> so_cmp E a b < 0 | XPUB3_REL_GT \<Rightarrow> so_cmp E a b > 0
      | XPUB3_REL_LTE \<Rightarrow> so_cmp E a b \<le> 0 | XPUB3_REL_GTE \<Rightarrow> so_cmp E a b \<ge> 0)"

function relation_final :: "'d pv_env \<Rightarrow> bool \<Rightarrow> lineno \<Rightarrow> relop \<Rightarrow> 'd expr_t option \<Rightarrow> 'd expr_t option \<Rightarrow> bool \<times> report list" where
  "relation_final E warn ln op l r =
     (case list_mania l r of
        Some (ll, rl) \<Rightarrow>
          if length ll \<noteq> length rl then (rel_lengths op (length ll) (length rl), [])
          else (case find (\<lambda>(a, b). \<not> eval_static E a b True) (zip ll rl) of
                  Some (a, b) \<Rightarrow> relation_final E warn ln op a b
                | None \<Rightarrow> (op = XPUB3_REL_LTE \<or> op = XPUB3_REL_GTE, []))
      | None \<Rightarrow>
          if \<not> null_ptr l \<and> \<not> null_ptr r
          then (rel_scalars (pe_sc E) op (to_scalar E (the l)) (to_scalar E (the r)), [])
          else if warn then (False, [(ln, ''one or more relational arguments were null'')]) else (False, []))"
  by pat_completeness auto
termination
  by (relation "measure (\<lambda>(E, warn, ln, op, l, r). opt_size l + opt_size r)") (auto intro: mania_lt dest: find_in_set)

declare relation_final.simps [simp del]

section \<open>Arithmetic\<close>

text \<open>
  \<^verbatim>\<open>eval_final\<close> of the binary operators: the value, null when there is none, and the reports.  The outer
  \<open>None\<close> is undefined behaviour of the scalars (a signed overflow, a trapping division).
\<close>

type_synonym 'd op_result = "('d expr_t option \<times> report list) option"

definition failed :: "lineno \<Rightarrow> string \<Rightarrow> 'd op_result" where
  "failed ln msg = Some (None, [(ln, msg)])"

definition add_final :: "'d pv_env \<Rightarrow> lineno \<Rightarrow> bool \<Rightarrow> 'd expr_t option \<Rightarrow> 'd expr_t option \<Rightarrow> 'd op_result" where
  "add_final E ln pos e1 e2 =
     (let op = (if pos then ''addition'' else ''subtraction'')
      in if null_ptr e1 then failed ln (''left-hand term of '' @ op @ '' evaluates to null'')
         else if null_ptr e2 then failed ln (''right-hand term of '' @ op @ '' evaluates to null'')
         else let x1 = the e1; x2 = the e2
         in case (to_list x1, to_list x2) of
              (Some l1, Some l2) \<Rightarrow>
                if \<not> pos then failed ln ''cannot subtract lists'' else Some (Some (expr_list_t ln (l1 @ l2)), [])
            | (None, None) \<Rightarrow>
                (case (to_dict x1, to_dict x2) of
                   (Some d1, Some d2) \<Rightarrow>
                     (let d = dict_copy d1
                      in Some (Some (expr_dict_t (pe_ln0 E) (if pos then overwrite_dict d d2 else remove_keys d d2)), []))
                 | (None, None) \<Rightarrow>
                     map_option (\<lambda>(res, _). (Some (alloc_scalar (pe_sc E) res), []))
                       ((if pos then sc_plus else sc_minus) (pe_sc E) (to_scalar E x1) (to_scalar E x2))
                 | _ \<Rightarrow> failed ln ''addition on dicts only work with 2 dicts'')
            | _ \<Rightarrow> failed ln ''addition on lists only works with 2 lists'')"

definition mult_final :: "'d pv_env \<Rightarrow> lineno \<Rightarrow> 'd expr_t option \<Rightarrow> 'd expr_t option \<Rightarrow> 'd op_result" where
  "mult_final E ln e1 e2 =
     (if null_ptr e1 then failed ln ''mult: left-hand factor was NULL''
      else if null_ptr e2 then failed ln ''mult: right-hand factor was NULL''
      else let x1 = the e1; x2 = the e2
      in if to_dict x1 \<noteq> None \<or> to_dict x2 \<noteq> None then failed ln ''cannot multiply dictionaries''
         else case (to_list x1, pv_to_int E x2) of
           (Some l, Some n) \<Rightarrow>
             if n < 0x100 then Some (Some (expr_list_t ln (concat (replicate (nat n) l))), [])
             else failed ln ''can only multiply lists by small integers''
         | _ \<Rightarrow>
             if to_list x1 \<noteq> None \<or> to_list x2 \<noteq> None then failed ln ''can only multiply lists by small integers''
             else let o1 = to_scalar E x1; o2 = to_scalar E x2
             in if sp_s o1 = None then failed ln ''mult: left-hand factor was not multipliable''
                else if sp_s o2 = None then failed ln ''mutl: right-hand factor was not multipliable''
                else Option.bind (sc_times (pe_sc E) o1 o2) (\<lambda>(out, _).
                  if sp_s out = None then failed ln ''mult: no plausible evaluation found!''
                  else Some (Some (alloc_scalar (pe_sc E) out), [])))"

definition div_or_mod_final :: "'d pv_env \<Rightarrow> lineno \<Rightarrow> bool \<Rightarrow> 'd expr_t option \<Rightarrow> 'd expr_t option \<Rightarrow> 'd op_result" where
  "div_or_mod_final E ln dv en ed =
     (let op = (if dv then ''division'' else ''modulo'')
      in if null_ptr en then failed ln (op @ '': numerator was NULL'')
         else if null_ptr ed then failed ln (op @ '': denominator was NULL'')
         else let n = to_scalar E (the en); d = to_scalar E (the ed)
         in if sp_s n = None then failed ln (op @ '': numerator was not a scalar'')
            else if sp_s d = None then failed ln (op @ '': denominator was not a scalar'')
            else Option.bind (div_or_mod (pe_sc E) dv n d) (\<lambda>(out, _).
              if sp_s out \<noteq> None then Some (Some (alloc_scalar (pe_sc E) out), [])
              else if sp_natural_type out = TYPE_INF then failed ln (op @ '' by zero'')
              else failed ln (''can't perform '' @ op @ '' on strings'')))"

section \<open>Lists\<close>

text \<open>\<^verbatim>\<open>fixup_index\<close>: the index after the correction, and whether it is good.\<close>

definition fixup_index :: "nat \<Rightarrow> int \<Rightarrow> bool \<Rightarrow> bool \<times> int" where
  "fixup_index sz i lax =
     (if 0 \<le> i \<and> i < int sz then (True, i)
      else let i = (if i < 0 then i + int sz else i)
           in if i < 0 then (lax, if lax then 0 else i)
              else if int sz \<le> i then (lax, i)
              else (True, i))"

definition list_lookup :: "'d expr_t option list \<Rightarrow> int \<Rightarrow> 'd expr_t option \<times> bool" where
  "list_lookup l i = (case fixup_index (length l) i False of (ib, i) \<Rightarrow> (if ib then l ! nat i else None, ib))"

definition list_set :: "'d expr_t option list \<Rightarrow> int \<Rightarrow> 'd expr_t option \<Rightarrow> 'd expr_t option list" where
  "list_set l i v =
     (case fixup_index (length l) i True of
        (True, i) \<Rightarrow> (l @ replicate (nat i + 1 - length l) None)[nat i := Some (safe_expr v)]
      | (False, _) \<Rightarrow> l)"

definition push_back :: "'d expr_t option list \<Rightarrow> 'd expr_t option \<Rightarrow> 'd expr_t option list" where
  "push_back l x = l @ [Some (safe_expr x)]"

text \<open>\<^verbatim>\<open>push_front\<close> appends and then swaps the element forward.\<close>

fun bubble :: "'a list \<Rightarrow> nat \<Rightarrow> 'a list" where
  "bubble l 0 = l"
| "bubble l (Suc i) = bubble (l[Suc i := l ! i, i := l ! Suc i]) i"

definition push_front :: "'d expr_t option list \<Rightarrow> 'd expr_t option \<Rightarrow> 'd expr_t option list" where
  "push_front l x = (let l = push_back l x in bubble l (length l - 1))"

text \<open>\<^verbatim>\<open>deep_copy\<close>: \<open>None\<close> when an element is a null pointer, which it dereferences.\<close>

definition list_deep_copy :: "'d expr_t option list \<Rightarrow> 'd expr_t option list option" where
  "list_deep_copy l = those (map (map_option (\<lambda>x. Some (copy x))) l)"

section \<open>Access\<close>

definition dictref_val_final :: "lineno \<Rightarrow> string \<Rightarrow> 'd expr_t option \<Rightarrow> 'd expr_t option \<times> report list" where
  "dictref_val_final ln key x =
     (case x of
        None \<Rightarrow> (None, [(ln, ''failed to evaluate expression (as a dictionary)'')])
      | Some x \<Rightarrow> (case to_dict x of
          None \<Rightarrow> (None, [(ln, ''can't coerce value to dictionary'')])
        | Some d \<Rightarrow> (case map_of d key of Some v \<Rightarrow> (v, []) | None \<Rightarrow> (None, []))))"

definition vecref_val_final :: "'d pv_env \<Rightarrow> lineno \<Rightarrow> 'd expr_t option \<Rightarrow> 'd expr_t option \<Rightarrow> 'd expr_t option \<times> report list" where
  "vecref_val_final E ln c i =
     (if null_ptr c then (None, [(ln, ''container evaluates to null'')])
      else if null_ptr i then (None, [(ln, ''cannot evaluate key for lookup'')])
      else case to_dict (the c) of
        Some d \<Rightarrow> (case pv_to_str E (the i) str_opt_t of
            Some k \<Rightarrow> (case map_of d k of Some v \<Rightarrow> (v, []) | None \<Rightarrow> (None, []))
          | None \<Rightarrow> (None, [(ln, ''cannot coerce dictionary index to string'')]))
      | None \<Rightarrow> (case to_list (the c) of
            Some l \<Rightarrow> (case pv_to_int E (the i) of
                Some ii \<Rightarrow> (fst (list_lookup l ii), [])
              | None \<Rightarrow> (None, [(ln, ''indices into lists must be integers'')]))
          | None \<Rightarrow> (None, [(ln, ''[]-reference into an object not a dict or list'')])))"

text \<open>\<^verbatim>\<open>eval_to_ref_final\<close> of an element: which slot of which container the reference names.\<close>

datatype slot = DICT_SLOT string | LIST_SLOT int

definition vecref_ref_final :: "'d pv_env \<Rightarrow> lineno \<Rightarrow> 'd expr_t option \<Rightarrow> 'd expr_t option \<Rightarrow> slot option \<times> report list" where
  "vecref_ref_final E ln c i =
     (case c of
        None \<Rightarrow> (None, [(ln, ''container evaluates to null'')])
      | Some c \<Rightarrow> (case i of
          None \<Rightarrow> (None, [(ln, ''cannot evaluate key for lookup'')])
        | Some i \<Rightarrow> (case to_dict c of
            Some d \<Rightarrow> (case pv_to_str E i str_opt_t of
                Some k \<Rightarrow> (Some (DICT_SLOT k), [])
              | None \<Rightarrow> (None, [(ln, ''cannot coerce dictionary index to string'')]))
          | None \<Rightarrow> (case to_list c of
                Some l \<Rightarrow> (case pv_to_int E i of
                    Some ii \<Rightarrow> (Some (LIST_SLOT ii), [])
                  | None \<Rightarrow> (None, [(ln, ''indices into lists must be integers'')]))
              | None \<Rightarrow> (None, [(ln, ''[]-reference into an object not a dict or list'')])))))"

section \<open>Lists: laws\<close>

text \<open>The position that \<^verbatim>\<open>set\<close> writes to.\<close>

definition set_slot :: "'a list \<Rightarrow> int \<Rightarrow> nat" where
  "set_slot l i = nat (if 0 \<le> i then i else max 0 (i + int (length l)))"

lemma list_set_eq:
  "list_set l i v = (l @ replicate (set_slot l i + 1 - length l) None)[set_slot l i := Some (safe_expr v)]"
  by (auto simp: list_set_def fixup_index_def Let_def max_def set_slot_def)

lemma list_set_length: "length (list_set l i v) = max (length l) (set_slot l i + 1)"
  by (simp add: list_set_eq max_def)

lemma list_set_nth:
  "k < length (list_set l i v) \<Longrightarrow>
   list_set l i v ! k = (if k = set_slot l i then Some (safe_expr v) else if k < length l then l ! k else None)"
  by (auto simp: list_set_eq nth_list_update nth_append)

lemma list_lookup_eq:
  "list_lookup l i =
     (if - int (length l) \<le> i \<and> i < int (length l)
      then (l ! nat (if 0 \<le> i then i else i + int (length l)), True) else (None, False))"
  by (auto simp: list_lookup_def fixup_index_def Let_def)

text \<open>
  C30.  Writing and reading an element of a list: \<^verbatim>\<open>set\<close> writes one position, counted from the end for a negative index
  and the front when that falls before it; a list that is too short is filled with null pointers, every
  other element is kept, and reading the same index gives the new value, unless the index falls before
  the front.
\<close>

theorem list_set_then_lookup:
  "length (list_set l i v) = max (length l) (set_slot l i + 1)
   \<and> list_all (\<lambda>k. list_set l i v ! k = (if k = set_slot l i then Some (safe_expr v) else if k < length l then l ! k else None))
        [0..<length (list_set l i v)]
   \<and> list_lookup (list_set l i v) i =
        (if - int (length (list_set l i v)) \<le> i then (Some (safe_expr v), True) else (None, False))"
proof -
  have "list_lookup (list_set l i v) i = (Some (safe_expr v), True)" if "- int (length (list_set l i v)) \<le> i"
  proof -
    have "i < int (length (list_set l i v))" "nat (if 0 \<le> i then i else i + int (length (list_set l i v))) = set_slot l i"
      using that by (auto simp: list_set_length max_def set_slot_def split: if_splits)
    moreover have "list_set l i v ! set_slot l i = Some (safe_expr v)"
      using list_set_nth [of "set_slot l i" l i v] by (simp add: list_set_length)
    ultimately show ?thesis using that by (simp add: list_lookup_eq)
  qed
  then show ?thesis by (auto simp: list_all_iff list_set_length list_set_nth list_lookup_eq)
qed

lemma those_eq_None: "those l = None \<longleftrightarrow> None \<in> set l"
  by (induction l) (auto split: option.splits)

lemma deep_copy_null: "list_deep_copy l = None \<longleftrightarrow> None \<in> set l"
  by (auto simp: list_deep_copy_def those_eq_None)

text \<open>
  A list that was filled up cannot be copied: after a write behind its end that leaves a gap, \<^verbatim>\<open>deep_copy\<close>, which
  every write through a copy-on-write object makes, follows a null pointer.  Lists built by \<^verbatim>\<open>push_back\<close>
  and \<^verbatim>\<open>push_front\<close> never hold one.
\<close>

theorem padded_list_copy_crashes:
  "list_deep_copy (list_set l i v) = None \<longleftrightarrow> list_deep_copy (l[set_slot l i := Some (safe_expr v)]) = None \<or> int (length l) < i"
proof (cases "set_slot l i < length l")
  case True
  then have "\<not> int (length l) < i" by (auto simp: set_slot_def split: if_splits)
  then show ?thesis using True by (auto simp: deep_copy_null list_set_eq)
next
  case False
  then have *: "l[set_slot l i := Some (safe_expr v)] = l" "list_set l i v = l @ (replicate (set_slot l i - length l) None) @ [Some (safe_expr v)]"
    by (simp_all add: list_set_eq list_update_append Suc_diff_le replicate_append_same [symmetric] list_update_beyond)
  have "length l < set_slot l i \<longleftrightarrow> int (length l) < i" using False by (auto simp: set_slot_def split: if_splits)
  then show ?thesis using False by (auto simp: deep_copy_null *)
qed

lemma bubble_front: "i < length l \<Longrightarrow> bubble l i = l ! i # take i l @ drop (Suc i) l"
proof (induction i arbitrary: l)
  case 0
  then show ?case by (cases l) auto
next
  case (Suc i)
  let ?l = "l[Suc i := l ! i, i := l ! Suc i]"
  have "take i ?l = take i l" by simp
  moreover have "drop (Suc i) ?l = l ! i # drop (Suc (Suc i)) l"
    using Suc.prems by (simp add: drop_update_swap Cons_nth_drop_Suc [symmetric] del: drop_Suc)
  ultimately show ?case
    using Suc.IH [of ?l] Suc.prems by (simp add: take_Suc_conv_app_nth)
qed

lemma push_front_eq: "push_front l x = Some (safe_expr x) # l"
  by (simp add: push_front_def push_back_def bubble_front Let_def)

section \<open>Copy-on-write objects are transparent\<close>

text \<open>Two values with the same target, which is a container or an object, not a constant.\<close>

definition same_target :: "'d expr_t option \<Rightarrow> 'd expr_t option \<Rightarrow> bool" where
  "same_target x y \<longleftrightarrow> x = y \<or> (case (x, y) of
     (Some a, Some b) \<Rightarrow> const_ptr a = const_ptr b \<and> \<not> is_constant (const_ptr a) | _ \<Rightarrow> False)"

lemma pv_to_str_target: "pv_to_str E (const_ptr x) = pv_to_str E x"
  by (induction x rule: expr_t.induct [where ?P2.0 = "\<lambda>_. True" and ?P3.0 = "\<lambda>_. True" and ?P4.0 = "\<lambda>_. True" and ?P5.0 = "\<lambda>_. True" and ?P6.0 = "\<lambda>_. True"]) auto

lemma const_ptr_not_cow: "const_ptr x \<noteq> expr_cow_t y"
  by (induction x rule: expr_t.induct [where ?P2.0 = "\<lambda>_. True" and ?P3.0 = "\<lambda>_. True" and ?P4.0 = "\<lambda>_. True" and ?P5.0 = "\<lambda>_. True" and ?P6.0 = "\<lambda>_. True"]) auto

lemma const_ptr_idem [simp]: "const_ptr (const_ptr x) = const_ptr x"
  by (induction x rule: expr_t.induct [where ?P2.0 = "\<lambda>_. True" and ?P3.0 = "\<lambda>_. True" and ?P4.0 = "\<lambda>_. True" and ?P5.0 = "\<lambda>_. True" and ?P6.0 = "\<lambda>_. True"]) auto

lemma dict_str_quoted: "pv_to_str E (expr_dict_t ln d) (so\<lparr>m_quoted := q\<rparr>) = pv_to_str E (expr_dict_t ln d) so"
  by (simp add: dict_to_str_def)

lemma scalar_target:
  assumes "\<not> is_constant (const_ptr x)"
  shows "to_scalar E x = to_scalar E (const_ptr x)"
proof (cases "\<exists>y. x = expr_cow_t y")
  case False
  then show ?thesis by (cases x) simp_all
next
  case True
  then have x: "to_scalar E x = sc_of_str (pv_to_str E (const_ptr x) \<lparr>m_quoted = False, m_utf8 = False, m_compact = False, m_sort_fields = True\<rparr>)"
    by (auto simp: to_scalar_def pv_to_str_target)
  show ?thesis
  proof (cases "\<exists>ln d. const_ptr x = expr_dict_t ln d")
    case True
    then obtain ln d where d: "const_ptr x = expr_dict_t ln d" by blast
    show ?thesis
      unfolding x unfolding d to_scalar_def
      using dict_str_quoted [where E = E and ln = ln and d = d and q = True
          and so = "\<lparr>m_quoted = False, m_utf8 = False, m_compact = False, m_sort_fields = True\<rparr>"] by simp
  next
    case False
    then show ?thesis unfolding x using assms const_ptr_not_cow [of x]
      by (cases "const_ptr x") (simp_all add: to_scalar_def is_constant_def)
  qed
qed

lemma target_eqs:
  assumes "const_ptr x = const_ptr y"
  shows "is_null x = is_null y" "to_bool E x = to_bool E y" "to_list x = to_list y" "to_dict x = to_dict y"
    "type_to_str x = type_to_str y" "to_len E x = to_len E y" "pv_to_int E x = pv_to_int E y" "to_uint x = to_uint y"
    "to_double E x = to_double E y" "pv_to_str E x = pv_to_str E y"
  using assms pv_to_str_target [of E x] pv_to_str_target [of E y]
  by (simp_all add: is_null_def to_bool_def to_list_def to_dict_def type_to_str_def to_len_def pv_to_int_def to_uint_def to_double_def)

lemma target_scalar: "const_ptr x = const_ptr y \<Longrightarrow> \<not> is_constant (const_ptr x) \<Longrightarrow> to_scalar E x = to_scalar E y"
  using scalar_target [of x E] scalar_target [of y E] by simp

lemma same_target_null: "same_target x y \<Longrightarrow> null_ptr x = null_ptr y"
  using target_eqs(1) by (auto simp: same_target_def null_ptr_def split: option.splits)

lemma same_target_scalar: "same_target x y \<Longrightarrow> to_scalar E (the x) = to_scalar E (the y)"
  using target_scalar by (auto simp: same_target_def split: option.splits)

lemma same_target_copy: "same_target x y \<Longrightarrow> list_all2 same_target (wrap x) (wrap y)"
  by (auto simp: same_target_def wrap_def split: option.splits intro: list_all2_refl)

lemma same_target_refl: "same_target x x"
  by (simp add: same_target_def)

lemma same_target_list: "same_target x y \<Longrightarrow> Option.bind x to_list = Option.bind y to_list"
  using target_eqs(3) by (auto simp: same_target_def split: option.splits)

lemma mania_targets:
  assumes "same_target x1 y1" "same_target x2 y2"
  shows "rel_option (rel_prod (list_all2 same_target) (list_all2 same_target)) (list_mania x1 x2) (list_mania y1 y2)"
  using same_target_list [OF assms(1)] same_target_list [OF assms(2)] same_target_copy [OF assms(1)] same_target_copy [OF assms(2)]
  by (auto simp: list_mania_def list_all2_refl same_target_refl split: option.splits)

lemma eq_true_targets: "same_target x1 y1 \<Longrightarrow> same_target x2 y2 \<Longrightarrow> eq_true E x1 x2 = eq_true E y1 y2"
proof (induction E x1 x2 arbitrary: y1 y2 rule: eq_true.induct)
  case (1 E x1 x2)
  have nn: "null_ptr x1 = null_ptr y1" "null_ptr x2 = null_ptr y2" using "1.prems" by (simp_all add: same_target_null)
  consider "null_ptr x1 \<or> null_ptr x2" | l1 l2 where "\<not> null_ptr x1" "\<not> null_ptr x2" "list_mania x1 x2 = Some (l1, l2)"
    | "\<not> null_ptr x1" "\<not> null_ptr x2" "list_mania x1 x2 = None"
    by (cases "list_mania x1 x2") auto
  then show ?case
  proof cases
    case 1
    then show ?thesis using nn by (auto simp: eq_true.simps)
  next
    case (2 l1 l2)
    then obtain m1 m2 where m: "list_mania y1 y2 = Some (m1, m2)" "list_all2 same_target l1 m1" "list_all2 same_target l2 m2"
      using mania_targets [OF "1.prems"] by (auto simp: option_rel_Some1 rel_prod_sel)
    have "list_all (\<lambda>(a, b). eq_true E a b) (zip l1 l2) = list_all (\<lambda>(a, b). eq_true E a b) (zip m1 m2)" if len: "length l1 = length l2"
    proof -
      have "eq_true E (l1 ! i) (l2 ! i) = eq_true E (m1 ! i) (m2 ! i)" if i: "i < length l1" for i
      proof (rule "1.IH" [OF _ _ 2(3) refl _ refl])
        show "(l1 ! i, l2 ! i) \<in> set (zip l1 l2)" using i len by (auto simp: set_zip)
      qed (use i len 2 m in \<open>auto simp: list_all2_conv_all_nth\<close>)
      then show ?thesis using len m by (auto simp: list_all_length list_all2_lengthD [symmetric])
    qed
    then show ?thesis using 2 nn m by (auto simp: eq_true.simps [of E x1] eq_true.simps [of E y1] list_all2_lengthD)
  next
    case 3
    then have "list_mania y1 y2 = None" using mania_targets [OF "1.prems"] by auto
    then show ?thesis using 3 nn same_target_scalar [OF "1.prems"(1)] same_target_scalar [OF "1.prems"(2)]
      by (simp add: eq_true.simps [of E x1] eq_true.simps [of E y1])
  qed
qed


definition int_pv_env :: "int pv_env" where
  "int_pv_env = \<lparr>pe_sc = int_env, pe_wide = map (\<lambda>c. int (code c)), pe_i64 = id, pe_fmt = dec_int, pe_bitmax = 52,
     pe_null = ''(null)'', pe_ln0 = 0\<rparr>"


section \<open>Equality of numeric values\<close>

text \<open>
  The values made of null, truth values, integers and lists, and their normal form: a list with a single
  element that is a number counts as that number.
\<close>

datatype nform = NNull | NInt int | NList "nform list"

definition nlist :: "nform list \<Rightarrow> nform" where
  "nlist ns = (case ns of [NInt i] \<Rightarrow> NInt i | _ \<Rightarrow> NList ns)"

abbreviation nopt :: "nform option \<Rightarrow> nform" where
  "nopt x \<equiv> (case x of None \<Rightarrow> NNull | Some n \<Rightarrow> n)"

primrec nform_of :: "'d expr_t \<Rightarrow> nform option" where
  "nform_of expr_null_t = Some NNull"
| "nform_of (expr_bool_t b) = Some (NInt (of_bool b))"
| "nform_of (expr_int_t i) = (if fits_i64 i then Some (NInt i) else None)"
| "nform_of (expr_uint_t u) = (if fits_u64 u then Some (NInt u) else None)"
| "nform_of (expr_double_t d) = None"
| "nform_of (expr_str_t s) = None"
| "nform_of (expr_strbuf_t b) = None"
| "nform_of (expr_regex_t ln body opts) = None"
| "nform_of (expr_list_t ln l) = map_option nlist (those (map (\<lambda>x. case x of None \<Rightarrow> Some NNull | Some n \<Rightarrow> n) (map (map_option nform_of) l)))"
| "nform_of (expr_dict_t ln d) = None"
| "nform_of (expr_cow_t x) = (if is_constant (const_ptr x) then None else nform_of x)"
| "nform_of (expr_shell_str_t ln ln' els) = None"
| "nform_of (expr_OR_t ln a b) = None"
| "nform_of (expr_AND_t ln a b) = None"
| "nform_of (expr_NOT_t ln a) = None"
| "nform_of (expr_EQ_t ln a b pos) = None"
| "nform_of (expr_relation_t ln a b op) = None"
| "nform_of (expr_add_t ln a b pos) = None"
| "nform_of (expr_mult_t ln a b) = None"
| "nform_of (expr_div_t ln a b) = None"
| "nform_of (expr_mod_t ln a b) = None"
| "nform_of (expr_dictref_t ln d k) = None"
| "nform_of (expr_varref_t ln n) = None"
| "nform_of (expr_scoped_varref_t ln n sc) = None"
| "nform_of (expr_vecref_t ln v i) = None"
| "nform_of (expr_assignment_t ln l r) = None"
| "nform_of (call_t ln f args bl) = None"
| "nform_of (expr_lambda_t l) = None"
| "nform_of (heredoc_t ln z) = None"

definition nform :: "'d expr_t option \<Rightarrow> nform option" where
  "nform x = (case x of None \<Rightarrow> Some NNull | Some x \<Rightarrow> nform_of x)"

lemma nform_simps [simp]: "nform None = Some NNull" "nform (Some x) = nform_of x"
  by (simp_all add: nform_def)

lemma nform_list: "nform_of (expr_list_t ln l) = map_option nlist (those (map nform l))"
proof -
  have "map (\<lambda>x. case x of None \<Rightarrow> Some NNull | Some n \<Rightarrow> n) (map (map_option nform_of) l) = map nform l"
    by (auto simp: nform_def split: option.splits)
  then show ?thesis by (simp only: nform_of.simps)
qed

lemma fits_bool [simp]: "fits_i64 (of_bool b)" "fits_i64 0" "fits_i64 1"
  by (simp_all add: fits_i64_def INT64_MIN_def INT64_MAX_def)

lemma constant_is:
  assumes "is_constant y" "y \<noteq> expr_null_t" "nform_of y = Some n"
  shows "\<exists>i. sc_is i (to_scalar E y) \<and> n = NInt i \<and> to_list y = None \<and> \<not> is_null y"
  using assms by (cases y) (auto simp: is_constant_def to_scalar_def to_list_def is_null_def set_i_is set_u_is split: if_splits)

lemma nform_target: "nform_of x = Some n \<Longrightarrow> nform_of (const_ptr x) = Some n"
  by (induction x rule: expr_t.induct [where ?P2.0 = "\<lambda>_. True" and ?P3.0 = "\<lambda>_. True" and ?P4.0 = "\<lambda>_. True" and ?P5.0 = "\<lambda>_. True" and ?P6.0 = "\<lambda>_. True"])
    (auto split: if_splits)

text \<open>The three kinds of numeric values.\<close>

lemma nform_cases:
  assumes "nform x = Some n"
  obtains "null_ptr x" "n = NNull"
  | y i where "x = Some y" "is_constant y" "\<not> null_ptr x" "to_list y = None" "sc_is i (to_scalar E y)" "n = NInt i"
  | y l where "x = Some y" "\<not> null_ptr x" "to_list y = Some l" "map_option nlist (those (map nform l)) = Some n"
proof (cases x)
  case None
  then show ?thesis using that(1) assms by (simp add: null_ptr_def)
next
  case (Some y)
  have t: "nform_of (const_ptr y) = Some n" using assms Some nform_target by simp
  have c: "is_constant (const_ptr y) \<Longrightarrow> const_ptr y = y" using assms Some by (cases y) (auto split: if_splits)
  show ?thesis
  proof (cases "\<exists>ln l. const_ptr y = expr_list_t ln l")
    case True
    then obtain ln l where l: "const_ptr y = expr_list_t ln l" by blast
    show ?thesis
    proof (rule that(3))
      show "x = Some y" by (rule Some)
      show "\<not> null_ptr x" "to_list y = Some l" using Some l by (simp_all add: null_ptr_def is_null_def to_list_def)
      show "map_option nlist (those (map nform l)) = Some n" using t l by (simp only: nform_list)
    qed
  next
    case False
    then have k: "is_constant (const_ptr y)" using t by (cases "const_ptr y") (auto simp: is_constant_def const_ptr_not_cow)
    then have y: "const_ptr y = y" by (rule c)
    show ?thesis
    proof (cases "y = expr_null_t")
      case True
      then show ?thesis using that(1) Some t by (simp add: null_ptr_def is_null_def)
    next
      case False
      then obtain i where "sc_is i (to_scalar E y)" "n = NInt i" "to_list y = None" "\<not> is_null y"
        using constant_is [of y n E] k t y by auto
      then show ?thesis using that(2) Some k y by (simp add: null_ptr_def)
    qed
  qed
qed

lemma nlist_inj: "nlist a = nlist b \<longleftrightarrow> a = b"
  by (auto simp: nlist_def split: list.splits nform.splits)

lemma nlist_int: "NInt i = nlist ns \<longleftrightarrow> ns = [NInt i]" "nlist ns = NInt i \<longleftrightarrow> ns = [NInt i]" "nlist ns \<noteq> NNull" "NNull \<noteq> nlist ns"
  by (auto simp: nlist_def split: list.splits nform.splits)

lemma those_Some_nth: "those l = Some r \<longleftrightarrow> length l = length r \<and> (\<forall>i < length l. l ! i = Some (r ! i))"
proof (induction l arbitrary: r)
  case (Cons a l)
  then show ?case by (cases r) (auto simp: All_less_Suc2 split: option.splits)
qed auto

lemma mania_int_list:
  assumes "x = Some y" "is_constant y" "to_list y = None" "to_list z = Some l"
  shows "list_mania x (Some z) = Some ([x], l)" "list_mania (Some z) x = Some (l, [x])"
  using assms by (simp_all add: list_mania_def wrap_def copy_def)

lemma eq_true_nform: "nform x1 = Some n \<Longrightarrow> nform x2 = Some m \<Longrightarrow> eq_true E x1 x2 \<longleftrightarrow> n = m"
proof (induction E x1 x2 arbitrary: n m rule: eq_true.induct)
  case (1 E x1 x2)
  have elems: "length l1 = length l2 \<and> list_all (\<lambda>(a, b). eq_true E a b) (zip l1 l2) \<longleftrightarrow> ns = ms"
    if h: "list_mania x1 x2 = Some (l1, l2)" "\<not> null_ptr x1" "\<not> null_ptr x2" "those (map nform l1) = Some ns" "those (map nform l2) = Some ms"
    for l1 l2 ns ms
  proof -
    have "eq_true E (l1 ! i) (l2 ! i) \<longleftrightarrow> ns ! i = ms ! i" if i: "i < length l1" "length l1 = length l2" for i
    proof (rule "1.IH" [OF _ _ h(1) refl _ refl])
      show "(l1 ! i, l2 ! i) \<in> set (zip l1 l2)" using i by (auto simp: set_zip)
    qed (use i h in \<open>auto simp: those_Some_nth\<close>)
    then show ?thesis using h(4,5) by (auto simp: those_Some_nth list_all_length list_eq_iff_nth_eq)
  qed
  show ?case
  proof (rule nform_cases [OF "1.prems"(1), where E = E])
    assume 1: "null_ptr x1" "n = NNull"
    show ?thesis by (rule nform_cases [OF "1.prems"(2), where E = E]) (use 1 in \<open>auto simp: eq_true.simps nlist_int\<close>)
  next
    fix y i assume 2: "x1 = Some y" "is_constant y" "\<not> null_ptr x1" "to_list y = None" "sc_is i (to_scalar E y)" "n = NInt i"
    show ?thesis
    proof (rule nform_cases [OF "1.prems"(2), where E = E])
      assume "null_ptr x2" "m = NNull"
      then show ?thesis using 2 by (simp add: eq_true.simps)
    next
      fix z j assume z: "x2 = Some z" "\<not> null_ptr x2" "to_list z = None" "sc_is j (to_scalar E z)" "m = NInt j"
      have "list_mania x1 x2 = None" using 2 z by (simp add: list_mania_def)
      then show ?thesis using 2 z cmp_is [OF 2(5) z(4), of "pe_sc E"] by (auto simp: eq_true.simps so_cmp_def cmp3_def)
    next
      fix z l assume z: "x2 = Some z" "\<not> null_ptr x2" "to_list z = Some l" "map_option nlist (those (map nform l)) = Some m"
      then obtain ms where ms: "those (map nform l) = Some ms" "m = nlist ms" by auto
      have "list_mania x1 x2 = Some ([x1], l)" using mania_int_list(1) [OF 2(1,2,4) z(3)] z(1) by simp
      then show ?thesis using 2 z(2) elems [of "[x1]" l "[NInt i]" ms] ms "1.prems"(1) by (subst eq_true.simps) (auto simp: nlist_int)
    qed
  next
    fix y l assume 3: "x1 = Some y" "\<not> null_ptr x1" "to_list y = Some l" "map_option nlist (those (map nform l)) = Some n"
    then obtain ns where ns: "those (map nform l) = Some ns" "n = nlist ns" by auto
    show ?thesis
    proof (rule nform_cases [OF "1.prems"(2), where E = E])
      assume "null_ptr x2" "m = NNull"
      then show ?thesis using 3 ns by (simp add: eq_true.simps nlist_int)
    next
      fix z j assume z: "x2 = Some z" "is_constant z" "\<not> null_ptr x2" "to_list z = None" "sc_is j (to_scalar E z)" "m = NInt j"
      have "list_mania x1 x2 = Some (l, [x2])" using mania_int_list(2) [OF z(1,2,4) 3(3)] 3(1) by simp
      then show ?thesis using 3 z elems [of l "[x2]" ns "[NInt j]"] ns "1.prems"(2) by (subst eq_true.simps) (auto simp: nlist_int)
    next
      fix z k assume z: "x2 = Some z" "\<not> null_ptr x2" "to_list z = Some k" "map_option nlist (those (map nform k)) = Some m"
      then obtain ms where ms: "those (map nform k) = Some ms" "m = nlist ms" by auto
      have "list_mania x1 x2 = Some (l, k)" using 3 z by (simp add: list_mania_def)
      then show ?thesis using 3 z elems [of l k ns ms] ns ms by (subst eq_true.simps) (auto simp: nlist_inj)
    qed
  qed
qed



section \<open>Order of lists\<close>

definition ints :: "int list \<Rightarrow> 'd expr_t option list" where
  "ints xs = map (\<lambda>i. Some (expr_int_t i)) xs"

definition rel_ints :: "relop \<Rightarrow> int \<Rightarrow> int \<Rightarrow> bool" where
  "rel_ints op x y = (case op of XPUB3_REL_LT \<Rightarrow> x < y | XPUB3_REL_GT \<Rightarrow> x > y | XPUB3_REL_LTE \<Rightarrow> x \<le> y | XPUB3_REL_GTE \<Rightarrow> x \<ge> y)"

lemma ints_length [simp]: "length (ints xs) = length xs"
  by (simp add: ints_def)

lemma eq_ints: "fits_i64 x \<Longrightarrow> fits_i64 y \<Longrightarrow> eval_static E (Some (expr_int_t x)) (Some (expr_int_t y)) True \<longleftrightarrow> x = y"
  using eq_true_nform [of "Some (expr_int_t x)" "NInt x" "Some (expr_int_t y)" "NInt y"] by (simp add: eval_static_def)

lemma mania_ints: "list_mania (Some (expr_int_t x)) (Some (expr_int_t y)) = None"
  by (simp add: list_mania_def to_list_def)

lemma mania_lists: "list_mania (Some (expr_list_t a l)) (Some (expr_list_t b k)) = Some (l, k)"
  by (simp add: list_mania_def to_list_def)

lemma relation_ints:
  assumes "fits_i64 x" "fits_i64 y"
  shows "relation_final E w ln op (Some (expr_int_t x)) (Some (expr_int_t y)) = (rel_ints op x y, [])"
proof -
  have "so_cmp (pe_sc E) (to_scalar E (expr_int_t x)) (to_scalar E (expr_int_t y)) = cmp3 x y"
    by (simp add: so_cmp_def to_scalar_def cmp_is [OF set_i_is [OF assms(1)] set_i_is [OF assms(2)]])
  then show ?thesis
    by (auto simp: relation_final.simps mania_ints null_ptr_def is_null_def rel_scalars_def rel_ints_def cmp3_def split: relop.splits)
qed

lemma first_difference:
  assumes "length xs = length ys" "list_all fits_i64 xs" "list_all fits_i64 ys"
  shows "find (\<lambda>(a, b). \<not> eval_static E a b True) (zip (ints xs) (ints ys)) =
    map_option (\<lambda>(a, b). (Some (expr_int_t a), Some (expr_int_t b))) (find (\<lambda>(a, b). a \<noteq> b) (zip xs ys))"
  using assms by (induction xs ys rule: list_induct2) (auto simp: ints_def eq_ints)

lemma first_difference_lex:
  "length xs = length ys \<Longrightarrow> find (\<lambda>(a, b). a \<noteq> b) (zip xs ys) = None \<longleftrightarrow> xs = ys"
  "length xs = length ys \<Longrightarrow> find (\<lambda>(a, b). a \<noteq> b) (zip xs ys) = Some (a, b) \<Longrightarrow> a \<noteq> b \<and> xs \<noteq> ys \<and> (xs < ys \<longleftrightarrow> a < b)"
  for xs ys :: "int list"
  by (induction xs ys rule: list_induct2) (auto split: if_splits)

text \<open>
  Lists are ordered by length first and then by the first elements that differ: this is what the four relations
  compute on lists of integers.
\<close>

theorem list_order_shortlex:
  assumes "list_all fits_i64 xs" "list_all fits_i64 ys"
  shows "relation_final E w ln op (Some (expr_list_t a (ints xs))) (Some (expr_list_t b (ints ys))) =
    (case op of
       XPUB3_REL_LT \<Rightarrow> length xs < length ys \<or> (length xs = length ys \<and> xs < ys)
     | XPUB3_REL_GT \<Rightarrow> length ys < length xs \<or> (length xs = length ys \<and> ys < xs)
     | XPUB3_REL_LTE \<Rightarrow> length xs < length ys \<or> (length xs = length ys \<and> xs \<le> ys)
     | XPUB3_REL_GTE \<Rightarrow> length ys < length xs \<or> (length xs = length ys \<and> ys \<le> xs), [])"
proof -
  consider "length xs \<noteq> length ys" | "length xs = length ys" "find (\<lambda>(a, b). a \<noteq> b) (zip xs ys) = None"
    | c d where "length xs = length ys" "find (\<lambda>(a, b). a \<noteq> b) (zip xs ys) = Some (c, d)"
    by (cases "find (\<lambda>(a, b). a \<noteq> b) (zip xs ys)") auto
  then show ?thesis
  proof cases
    case 1
    then show ?thesis by (subst relation_final.simps) (auto simp: mania_lists rel_lengths_def split: relop.splits)
  next
    case 2
    then have "xs = ys" using first_difference_lex(1) by blast
    then show ?thesis using 2 first_difference [OF 2(1) assms, of E]
      by (subst relation_final.simps) (auto simp: mania_lists split: relop.splits)
  next
    case (3 c d)
    have "c \<in> set xs" "d \<in> set ys" using find_in_set [OF 3(2)] by (auto dest: set_zip_leftD set_zip_rightD)
    then have "fits_i64 c" "fits_i64 d" using assms by (auto simp: list_all_iff)
    then have "relation_final E w ln op (Some (expr_list_t a (ints xs))) (Some (expr_list_t b (ints ys))) = (rel_ints op c d, [])"
      using 3 first_difference [OF 3(1) assms, of E] by (subst relation_final.simps) (auto simp: mania_lists relation_ints)
    then show ?thesis using first_difference_lex(2) [OF 3] 3(1) by (auto simp: rel_ints_def split: relop.splits)
  qed
qed

theorem list_order_shortlex_witness:
  "relation_final int_pv_env False 0 XPUB3_REL_LT (Some (expr_list_t 0 (ints [2]))) (Some (expr_list_t 0 (ints [1, 1]))) = (True, [])
   \<and> relation_final int_pv_env False 0 XPUB3_REL_LT (Some (expr_list_t 0 (ints [1, 3]))) (Some (expr_list_t 0 (ints [1, 1]))) = (False, [])"
  using list_order_shortlex [of "[2]" "[1, 1]" int_pv_env False 0 XPUB3_REL_LT 0 0] list_order_shortlex [of "[1, 3]" "[1, 1]" int_pv_env False 0 XPUB3_REL_LT 0 0]
  by (simp add: fits_i64_def INT64_MIN_def INT64_MAX_def)

section \<open>A reader of JSON\<close>

text \<open>
  The reference for the printed form: JSON texts as a datatype, and a reader that takes one text from
  the front of a string.  The reader has fuel; \<open>jfuel\<close> is enough for a text.
\<close>

datatype json = JNull | JBool bool | JNum string | JStr string | JList "json list" | JDict "(string \<times> json) list"

definition numchar :: "char \<Rightarrow> bool" where
  "numchar c \<longleftrightarrow> c \<in> set ''0123456789+-.eE''"

definition skip_sp :: "string \<Rightarrow> string" where
  "skip_sp s = dropWhile (\<lambda>c. c = SPC) s"

definition after :: "string \<Rightarrow> string \<Rightarrow> string option" where
  "after w s = (if take (length w) s = w then Some (drop (length w) s) else None)"

definition read_word :: "string \<Rightarrow> (json \<times> string) option" where
  "read_word s =
     (case after ''null'' s of Some r \<Rightarrow> Some (JNull, r) | None \<Rightarrow>
      (case after ''true'' s of Some r \<Rightarrow> Some (JBool True, r) | None \<Rightarrow>
       (case after ''false'' s of Some r \<Rightarrow> Some (JBool False, r) | None \<Rightarrow>
        (let w = takeWhile numchar s in if w = [] then None else Some (JNum w, dropWhile numchar s)))))"

fun read_json :: "nat \<Rightarrow> string \<Rightarrow> (json \<times> string) option"
  and read_elems :: "nat \<Rightarrow> string \<Rightarrow> (json list \<times> string) option"
  and read_members :: "nat \<Rightarrow> string \<Rightarrow> ((string \<times> json) list \<times> string) option" where
  "read_json 0 s = None"
| "read_json (Suc n) s =
     (case s of
        [] \<Rightarrow> None
      | c # cs \<Rightarrow>
          if c = DQ then map_option (apfst JStr) (json_lex cs)
          else if c = CHR ''['' then
            (case after '']'' cs of Some r \<Rightarrow> Some (JList [], r) | None \<Rightarrow> map_option (apfst JList) (read_elems n cs))
          else if c = CHR ''{'' then
            (case after ''}'' cs of Some r \<Rightarrow> Some (JDict [], r) | None \<Rightarrow> map_option (apfst JDict) (read_members n cs))
          else read_word s)"
| "read_elems 0 s = None"
| "read_elems (Suc n) s =
     Option.bind (read_json n s) (\<lambda>(j, r).
       case after '']'' (skip_sp r) of Some r \<Rightarrow> Some ([j], r) | None \<Rightarrow>
       Option.bind (after '','' (skip_sp r)) (\<lambda>r. map_option (apfst ((#) j)) (read_elems n (skip_sp r))))"
| "read_members 0 s = None"
| "read_members (Suc n) s =
     Option.bind (after [DQ] s) (\<lambda>r.
     Option.bind (json_lex r) (\<lambda>(k, r).
     Option.bind (after '':'' (skip_sp r)) (\<lambda>r.
     Option.bind (read_json n (skip_sp r)) (\<lambda>(j, r).
       case after ''}'' (skip_sp r) of Some r \<Rightarrow> Some ([(k, j)], r) | None \<Rightarrow>
       Option.bind (after '','' (skip_sp r)) (\<lambda>r. map_option (apfst ((#) (k, j))) (read_members n (skip_sp r)))))))"

primrec jfuel :: "json \<Rightarrow> nat" where
  "jfuel JNull = 1"
| "jfuel (JBool b) = 1"
| "jfuel (JNum s) = 1"
| "jfuel (JStr s) = 1"
| "jfuel (JList js) = 1 + sum_list (map (Suc \<circ> jfuel) js)"
| "jfuel (JDict ms) = 1 + sum_list (map (Suc \<circ> snd) (map (map_prod id jfuel) ms))"

primrec jwf :: "json \<Rightarrow> bool" where
  "jwf JNull = True"
| "jwf (JBool b) = True"
| "jwf (JNum s) = (s \<noteq> [] \<and> list_all numchar s)"
| "jwf (JStr s) = (NUL \<notin> set s)"
| "jwf (JList js) = list_all id (map jwf js)"
| "jwf (JDict ms) = list_all (\<lambda>(k, b). NUL \<notin> set k \<and> b) (map (map_prod id jwf) ms)"

primrec jprint :: "bool \<Rightarrow> json \<Rightarrow> string" where
  "jprint c JNull = ''null''"
| "jprint c (JBool b) = static_to_str b"
| "jprint c (JNum s) = s"
| "jprint c (JStr s) = json_escape_std s True"
| "jprint c (JList js) = vec2str (map (jprint c) js) CHR ''['' CHR '']'' c"
| "jprint c (JDict ms) = vec2str (map (\<lambda>(k, p). json_escape_std k True @ (if c then '':'' else '' : '') @ p) (map (map_prod id (jprint c)) ms))
     CHR ''{'' CHR ''}'' c"

lemma after_hit [simp]: "after w (w @ r) = Some r"
  by (simp add: after_def)

lemma after_Cons: "after [c] (d # r) = (if c = d then Some r else None)"
  by (simp add: after_def)

lemma skip_Cons: "c \<noteq> SPC \<Longrightarrow> skip_sp (c # r) = c # r" "skip_sp (SPC # r) = skip_sp r"
  by (simp_all add: skip_sp_def)

text \<open>What may follow a text.\<close>

definition ends :: "string \<Rightarrow> bool" where
  "ends r \<longleftrightarrow> (case r of [] \<Rightarrow> True | c # _ \<Rightarrow> \<not> numchar c)"

lemma read_num:
  assumes "s \<noteq> []" "list_all numchar s" "ends r"
  shows "read_word (s @ r) = Some (JNum s, r)"
proof -
  have "takeWhile numchar (s @ r) = s" "dropWhile numchar (s @ r) = r"
    using assms by (auto simp: list_all_iff ends_def takeWhile_append2 dropWhile_append2 split: list.splits)
  moreover have "numchar (hd s)" "hd (s @ r) = hd s" using assms by (auto simp: list_all_iff)
  moreover from this have "after (CHR ''n'' # w) (s @ r) = None" "after (CHR ''t'' # w) (s @ r) = None" "after (CHR ''f'' # w) (s @ r) = None" for w
    using assms(1) by (cases s; auto simp: after_def numchar_def)+
  ultimately show ?thesis using assms(1) by (simp add: read_word_def)
qed

lemma read_fixed: "read_word (''null'' @ r) = Some (JNull, r)" "read_word (static_to_str b @ r) = Some (JBool b, r)"
  by (auto simp: read_word_def after_def static_to_str_def)

text \<open>A printed text starts with a character that is neither a space nor a closing bracket.\<close>

lemma jprint_hd: "jwf j \<Longrightarrow> \<exists>c cs. jprint k j = c # cs \<and> c \<notin> {SPC, CHR '']'', CHR ''}'', CHR '',''}"
  by (cases j) (auto simp: static_to_str_def escape_std_eq vec2str_def neq_Nil_conv numchar_def)

definition reads_back :: "bool \<Rightarrow> json \<Rightarrow> bool" where
  "reads_back c j \<longleftrightarrow> (\<forall>n r. jfuel j \<le> n \<longrightarrow> ends r \<longrightarrow> read_json n (jprint c j @ r) = Some (j, r))"

abbreviation jsep :: "bool \<Rightarrow> string" where
  "jsep c \<equiv> (if c then '','' else '', '')"

lemma ends_sep: "ends (jsep c @ r)" "ends (CHR '']'' # r)" "ends (CHR ''}'' # r)"
  by (auto simp: ends_def numchar_def)

lemma skip_printed: "jwf j \<Longrightarrow> skip_sp (jprint c j @ r) = jprint c j @ r"
  using jprint_hd [of j c] by (auto simp: skip_Cons)

lemma skip_sep: "skip_sp (jsep c @ r) = jsep c @ r" "after '','' (jsep c @ r) = Some (if c then r else SPC # r)"
  "after '']'' (jsep c @ r) = None" "after ''}'' (jsep c @ r) = None"
  by (auto simp: skip_sp_def after_def)

lemma join_Cons: "ss \<noteq> [] \<Longrightarrow> join sep (s # ss) = s @ sep @ join sep ss"
  by (cases ss) auto

lemma read_elems_back:
  assumes "js \<noteq> []" "\<forall>j \<in> set js. jwf j \<and> reads_back c j" "sum_list (map (\<lambda>j. Suc (jfuel j)) js) \<le> n"
  shows "read_elems n (join (jsep c) (map (jprint c) js) @ CHR '']'' # r) = Some (js, r)"
  using assms
proof (induction js arbitrary: n)
  case (Cons j js)
  then obtain m where n: "n = Suc m" "jfuel j \<le> m" "sum_list (map (\<lambda>j. Suc (jfuel j)) js) \<le> m" by (cases n) auto
  show ?case
  proof (cases "js = []")
    case True
    then show ?thesis using Cons.prems n ends_sep by (simp add: reads_back_def after_Cons skip_Cons)
  next
    case False
    let ?rest = "join (jsep c) (map (jprint c) js) @ CHR '']'' # r"
    have "read_json m (jprint c j @ jsep c @ ?rest) = Some (j, jsep c @ ?rest)"
      using Cons.prems(2) n(2) ends_sep(1) by (simp add: reads_back_def)
    moreover have "skip_sp (if c then ?rest else SPC # ?rest) = ?rest"
      using False Cons.prems(2) skip_printed [of "hd js" c] by (cases js; cases "tl js") (auto simp: skip_Cons)
    ultimately show ?thesis
      using False Cons.IH [OF False _ n(3)] Cons.prems(2) unfolding n(1) by (simp add: join_Cons skip_sep del: if_split)
  qed
qed simp

lemma read_members_back:
  assumes "ms \<noteq> []" "\<forall>(k, j) \<in> set ms. NUL \<notin> set k \<and> jwf j \<and> reads_back c j" "sum_list (map (\<lambda>m. Suc (jfuel (snd m))) ms) \<le> n"
  shows "read_members n (join (jsep c) (map (\<lambda>(k, j). json_escape_std k True @ (if c then '':'' else '' : '') @ jprint c j) ms) @ CHR ''}'' # r) = Some (ms, r)"
  using assms
proof (induction ms arbitrary: n)
  case (Cons kj ms)
  obtain k j where kj: "kj = (k, j)" by (cases kj)
  obtain m where n: "n = Suc m" "jfuel j \<le> m" "sum_list (map (\<lambda>m. Suc (jfuel (snd m))) ms) \<le> m" using Cons.prems kj by (cases n) auto
  let ?col = "if c then '':'' else '' : ''"
  let ?pr = "\<lambda>(k, j). json_escape_std k True @ ?col @ jprint c j"
  have k: "NUL \<notin> set k" "jwf j" "reads_back c j" using Cons.prems kj by auto
  have key: "json_escape_std k True @ ?col @ x = DQ # json_std_loop k @ DQ # ?col @ x" for x using k(1) by (simp add: escape_std_eq)
  have lex: "json_lex (json_std_loop k @ DQ # x) = Some (k, x)" for x by (rule json_lex_std_loop)
  have col: "after '':'' (skip_sp (?col @ x)) = Some (if c then x else SPC # x)" for x by (simp add: skip_sp_def after_def)
  have val: "skip_sp (if c then jprint c j @ x else SPC # jprint c j @ x) = jprint c j @ x" for x
    using skip_printed [OF k(2), of c x] by (cases c) (simp_all add: skip_Cons)
  show ?case
  proof (cases "ms = []")
    case True
    have "read_json m (jprint c j @ CHR ''}'' # r) = Some (j, CHR ''}'' # r)" using k(3) n(2) ends_sep(3) by (simp add: reads_back_def)
    then show ?thesis unfolding n(1) kj True
      by (simp add: key lex col val after_Cons skip_Cons del: if_split)
  next
    case False
    let ?rest = "join (jsep c) (map ?pr ms) @ CHR ''}'' # r"
    have "read_json m (jprint c j @ jsep c @ ?rest) = Some (j, jsep c @ ?rest)"
      using k(3) n(2) ends_sep(1) by (simp add: reads_back_def)
    moreover have "skip_sp (if c then ?rest else SPC # ?rest) = ?rest"
      using False Cons.prems(2) escape_std_eq by (cases ms; cases "tl ms") (auto simp: skip_Cons)
    ultimately show ?thesis
      using False Cons.IH [OF False _ n(3)] Cons.prems(2) unfolding n(1) kj
      by (simp add: join_Cons key lex col val after_Cons skip_sep del: if_split)
  qed
qed simp

lemma after_printed: "jwf j \<Longrightarrow> after '']'' (jprint c j @ x) = None"
  using jprint_hd [of j c] by (auto simp: after_def)

lemma print_reads_back: "jwf j \<Longrightarrow> reads_back c j"
proof (induction j)
  case (JNum s)
  have "read_json n (s @ r) = Some (JNum s, r)" if h: "1 \<le> n" "ends r" for n r
  proof -
    obtain m d s' where "n = Suc m" "s = d # s'" using h JNum by (cases n; cases s) auto
    then show ?thesis using read_num [of s r] JNum h by (auto simp: numchar_def)
  qed
  then show ?case by (simp add: reads_back_def)
next
  case (JStr s)
  then show ?case by (auto simp: reads_back_def escape_std_eq json_lex_std_loop Suc_le_eq gr0_conv_Suc)
next
  case (JList js)
  have "read_json n (jprint c (JList js) @ r) = Some (JList js, r)" if n: "jfuel (JList js) \<le> n" for n r
  proof -
    obtain m where m: "n = Suc m" "sum_list (map (\<lambda>j. Suc (jfuel j)) js) \<le> m" using n by (cases n) (auto simp: comp_def)
    show ?thesis
    proof (cases js)
      case Nil
      then show ?thesis using m by (simp add: vec2str_def after_Cons)
    next
      case (Cons j js')
      have "after '']'' (join (jsep c) (map (jprint c) js) @ CHR '']'' # r) = None"
        using Cons JList.prems after_printed [of j] by (cases js') auto
      moreover have "read_elems m (join (jsep c) (map (jprint c) js) @ CHR '']'' # r) = Some (js, r)"
        using JList m(2) Cons by (intro read_elems_back) (auto simp: list_all_iff)
      ultimately show ?thesis using m by (simp add: vec2str_def)
    qed
  qed
  then show ?case by (simp add: reads_back_def)
next
  case (JDict ms)
  let ?pr = "\<lambda>(k, j). json_escape_std k True @ (if c then '':'' else '' : '') @ jprint c j"
  have pr: "jprint c (JDict ms) = vec2str (map ?pr ms) CHR ''{'' CHR ''}'' c"
    by (simp add: comp_def case_prod_unfold map_prod_def)
  have ok: "\<forall>(k, j) \<in> set ms. NUL \<notin> set k \<and> jwf j \<and> reads_back c j"
    using JDict by (fastforce simp: list_all_iff snds.simps)
  have "read_json n (jprint c (JDict ms) @ r) = Some (JDict ms, r)" if n: "jfuel (JDict ms) \<le> n" for n r
  proof -
    obtain m where m: "n = Suc m" "sum_list (map (\<lambda>m. Suc (jfuel (snd m))) ms) \<le> m" using n by (cases n) (auto simp: comp_def)
    show ?thesis
    proof (cases ms)
      case Nil
      then show ?thesis using m by (simp add: vec2str_def after_Cons)
    next
      case (Cons kj ms')
      have "after ''}'' (join (jsep c) (map ?pr ms) @ CHR ''}'' # r) = None"
        using Cons ok escape_std_eq by (cases ms'; cases kj) (auto simp: after_def)
      moreover have "read_members m (join (jsep c) (map ?pr ms) @ CHR ''}'' # r) = Some (ms, r)"
        using read_members_back [OF _ ok m(2)] Cons by simp
      ultimately show ?thesis unfolding pr using m by (simp add: vec2str_def)
    qed
  qed
  then show ?case by (simp add: reads_back_def)
next
  case JNull
  show ?case using read_fixed(1) by (auto simp: reads_back_def Suc_le_eq gr0_conv_Suc)
next
  case (JBool b)
  show ?case using read_fixed(2) [of b] by (auto simp: reads_back_def Suc_le_eq gr0_conv_Suc static_to_str_def)
qed

text \<open>
  The text a value prints as.  \<open>None\<close>: the value is no JSON, or a string is not in the characters that the
  plain escape handles (all but NUL with the option for UTF-8, printable ASCII without).
\<close>

definition jstr :: "str_opt \<Rightarrow> string \<Rightarrow> bool" where
  "jstr so s \<longleftrightarrow> NUL \<notin> set s \<and> (m_utf8 so \<or> \<not> find_non_std_char s)"

definition jnum :: "bool \<Rightarrow> int \<Rightarrow> json" where
  "jnum quote v = (if quote then JStr (dec_int v) else JNum (dec_int v))"

primrec json_of :: "'d pv_env \<Rightarrow> str_opt \<Rightarrow> 'd expr_t \<Rightarrow> json option" where
  "json_of E so expr_null_t = Some JNull"
| "json_of E so (expr_bool_t b) = Some (JBool b)"
| "json_of E so (expr_int_t i) = Some (jnum (0 < pe_bitmax E \<and> js_unsafe E i) i)"
| "json_of E so (expr_uint_t u) = Some (jnum (0 < pe_bitmax E \<and> js_unsafe_u E u) u)"
| "json_of E so (expr_double_t d) = (let s = double_to_str E d in if s \<noteq> [] \<and> list_all numchar s then Some (JNum s) else None)"
| "json_of E so (expr_str_t s) = (case s of None \<Rightarrow> Some JNull | Some s \<Rightarrow> if jstr so s then Some (JStr s) else None)"
| "json_of E so (expr_strbuf_t b) = (if jstr so b then Some (JStr b) else None)"
| "json_of E so (expr_regex_t ln body opts) = (if jstr so body then Some (JStr body) else None)"
| "json_of E so (expr_list_t ln l) =
     map_option JList (those (map (\<lambda>x. case x of None \<Rightarrow> Some JNull | Some j \<Rightarrow> j) (map (map_option (json_of E so)) l)))"
| "json_of E so (expr_dict_t ln d) =
     map_option (\<lambda>ms. JDict (if m_sort_fields so then sort_entries ms else ms))
       (those (map (\<lambda>(k, x). if jstr so k then map_option (Pair k) (case x of None \<Rightarrow> Some JNull | Some j \<Rightarrow> j) else None)
          (map (map_prod id (map_option (json_of E so))) d)))"
| "json_of E so (expr_cow_t x) = json_of E so x"
| "json_of E so (expr_shell_str_t ln ln' els) = None"
| "json_of E so (expr_OR_t ln a b) = None"
| "json_of E so (expr_AND_t ln a b) = None"
| "json_of E so (expr_NOT_t ln a) = None"
| "json_of E so (expr_EQ_t ln a b pos) = None"
| "json_of E so (expr_relation_t ln a b op) = None"
| "json_of E so (expr_add_t ln a b pos) = None"
| "json_of E so (expr_mult_t ln a b) = None"
| "json_of E so (expr_div_t ln a b) = None"
| "json_of E so (expr_mod_t ln a b) = None"
| "json_of E so (expr_dictref_t ln d k) = None"
| "json_of E so (expr_varref_t ln n) = None"
| "json_of E so (expr_scoped_varref_t ln n sc) = None"
| "json_of E so (expr_vecref_t ln v i) = None"
| "json_of E so (expr_assignment_t ln l r) = None"
| "json_of E so (call_t ln f args bl) = None"
| "json_of E so (expr_lambda_t l) = None"
| "json_of E so (heredoc_t ln z) = None"

definition printed :: "'d pv_env \<Rightarrow> str_opt \<Rightarrow> 'd expr_t \<Rightarrow> bool" where
  "printed E so x \<longleftrightarrow> (\<forall>j. json_of E so x = Some j \<longrightarrow> jwf j \<and> pv_to_str E x so = Some (jprint (m_compact so) j))"

lemma quote_jstr: "jstr so s \<Longrightarrow> m_quoted so \<Longrightarrow> json_quote E (Some s) so = Some (json_escape_std s True)"
  by (auto simp: json_quote_def json_quote_utf8_def json_escape_def jstr_def)

lemma digit_numchar: "d < 10 \<Longrightarrow> numchar (decdig d)"
proof -
  have "list_all (\<lambda>d. numchar (decdig d)) [0..<10]" by code_simp
  then show "d < 10 \<Longrightarrow> numchar (decdig d)" by (simp add: list_all_iff)
qed

lemma numchar_plain: "numchar c \<Longrightarrow> \<not> json_std_special c \<and> c \<noteq> NUL" "numchar CHR ''-''"
  by (auto simp: numchar_def json_std_special_def)

lemma dec_int_numchar: "list_all numchar (dec_int v)" "dec_int v \<noteq> []"
proof -
  have "list_all numchar (dec_nat n)" for n using dec_nat_digits digit_numchar by (metis list_all_iff)
  then show "list_all numchar (dec_int v)" "dec_int v \<noteq> []" by (simp_all add: dec_int_def numchar_plain)
qed

lemma jnum_wf: "jwf (jnum q v)"
  using dec_int_numchar [of v] dec_int_no_nul [of v] by (simp add: jnum_def)

lemma escape_dec: "json_escape_std (dec_int v) True = [DQ] @ dec_int v @ [DQ]"
proof -
  have "\<forall>c \<in> set (dec_int v). \<not> json_std_special c"
    using dec_int_numchar(1) [of v] numchar_plain(1) unfolding list_all_iff by blast
  then show ?thesis using dec_int_no_nul [of v] by (simp add: escape_std_eq json_std_loop_span)
qed

lemma jnum_print:
  assumes "m_quoted so"
  shows "int_to_str E v so = jprint c (jnum (0 < pe_bitmax E \<and> js_unsafe E v) v)"
    "uint_to_str E v so = jprint c (jnum (0 < pe_bitmax E \<and> js_unsafe_u E v) v)"
  using assms by (simp_all add: int_to_str_def uint_to_str_def jnum_def escape_dec)

lemma printed_atoms:
  assumes "m_quoted so"
  shows "printed E so (expr_int_t i)" "printed E so (expr_uint_t u)" "printed E so (expr_double_t d)" "printed E so (expr_str_t s)"
    "printed E so (expr_strbuf_t b)" "printed E so (expr_regex_t ln body opts)" "printed E so expr_null_t" "printed E so (expr_bool_t v)"
proof -
  have "jstr so s \<Longrightarrow> NUL \<notin> set s" for s by (simp add: jstr_def)
  then show "printed E so (expr_int_t i)" "printed E so (expr_uint_t u)" "printed E so (expr_double_t d)" "printed E so (expr_str_t s)"
    "printed E so (expr_strbuf_t b)" "printed E so (expr_regex_t ln body opts)" "printed E so expr_null_t" "printed E so (expr_bool_t v)"
    using assms jnum_print [OF assms] quote_jstr [OF _ assms]
    by (auto simp: printed_def jnum_wf Let_def json_quote_def json_quote_utf8_def split: option.splits if_splits)
qed

lemma join_set: "set (join sep ss) \<subseteq> set sep \<union> \<Union> (set ` set ss)"
  by (induction sep ss rule: join.induct) auto

lemma vec2str_no_nul:
  assumes "\<forall>s \<in> set ss. NUL \<notin> set s" "op \<noteq> NUL" "cl \<noteq> NUL"
  shows "NUL \<notin> set (vec2str ss op cl c)"
  using assms join_set [of "if c then '','' else '', ''" ss] by (auto simp: vec2str_def split: if_splits)

lemma escape_no_nul: "NUL \<notin> set s \<Longrightarrow> NUL \<notin> set (json_escape_std s True)"
  using json_std_loop_set [of s] by (auto simp: escape_std_eq)

lemma jprint_no_nul: "jwf j \<Longrightarrow> NUL \<notin> set (jprint c j)"
proof (induction j)
  case (JDict ms)
  have "NUL \<notin> set s" if "s \<in> set (map (\<lambda>(k, p). json_escape_std k True @ (if c then '':'' else '' : '') @ p) (map (map_prod id (jprint c)) ms))" for s
    using that JDict escape_no_nul by (fastforce simp: list_all_iff snds.simps split: if_splits)
  then show ?case by (simp add: vec2str_no_nul del: set_map)
next
  case (JNum s)
  then show ?case using numchar_plain(1) by (auto simp: list_all_iff)
next
  case (JList js)
  then have "\<forall>s \<in> set (map (jprint c) js). NUL \<notin> set s" by (auto simp: list_all_iff)
  then show ?case by (simp add: vec2str_no_nul del: set_map)
qed (simp_all add: static_to_str_def escape_no_nul)

lemma sort_key_map: "map g (sort_key (f \<circ> g) l) = sort_key f (map g l)"
proof -
  have "map g (insort_key (f \<circ> g) x l) = insort_key f (g x) (map g l)" for x l by (induction l) auto
  then show ?thesis by (induction l) auto
qed

lemma sort_entries_map: "sort_entries (map (\<lambda>kv. (fst kv, h kv)) d) = map (\<lambda>kv. (fst kv, h kv)) (sort_entries d)"
  unfolding sort_entries_def by (subst sort_key_map [symmetric]) (simp add: comp_def)

lemma those_map_Some: "those (map f l) = Some r \<Longrightarrow> r = map (\<lambda>x. the (f x)) l \<and> (\<forall>x \<in> set l. f x \<noteq> None)"
  by (induction l arbitrary: r) (auto split: option.splits)

definition jopt :: "json option option \<Rightarrow> json option" where
  "jopt x = (case x of None \<Rightarrow> Some JNull | Some j \<Rightarrow> j)"

lemma printed_ptr:
  assumes "\<forall>y. x = Some y \<longrightarrow> printed E so y" "jopt (map_option (json_of E so) x) = Some j"
  shows "jwf j \<and> safe_to_str (map_option (pv_to_str E) x) so = Some (jprint (m_compact so) j)"
  using assms by (cases x) (auto simp: jopt_def printed_def safe_to_str_def)

lemma printed_list:
  assumes q: "m_quoted so" and el: "\<And>y. Some y \<in> set l \<Longrightarrow> printed E so y"
  shows "printed E so (expr_list_t ln l)"
  unfolding printed_def
proof (intro allI impI)
  fix j assume "json_of E so (expr_list_t ln l) = Some j"
  then obtain js where js: "those (map (\<lambda>x. jopt (map_option (json_of E so) x)) l) = Some js" "j = JList js"
    by (auto simp: jopt_def comp_def)
  have p: "jwf (the (jopt (map_option (json_of E so) x))) \<and> safe_to_str (map_option (pv_to_str E) x) so = Some (jprint (m_compact so) (the (jopt (map_option (json_of E so) x))))"
    if x: "x \<in> set l" for x
  proof -
    obtain i where "jopt (map_option (json_of E so) x) = Some i" using those_map_Some [OF js(1)] x by blast
    moreover have "\<forall>y. x = Some y \<longrightarrow> printed E so y" using el x by blast
    ultimately show ?thesis using printed_ptr [of x E so i] by simp
  qed
  have so: "so\<lparr>m_quoted := True\<rparr> = so" using q by simp
  have j: "js = map (\<lambda>x. the (jopt (map_option (json_of E so) x))) l" using those_map_Some [OF js(1)] by blast
  have "map (\<lambda>x. cat_str (safe_to_str (map_option (pv_to_str E) x) so)) l = map (jprint (m_compact so)) js"
    using p by (simp add: j)
  moreover have "jwf j" using p by (auto simp: js(2) j list_all_iff)
  ultimately show "jwf j \<and> pv_to_str E (expr_list_t ln l) so = Some (jprint (m_compact so) j)"
    unfolding js(2) pv_to_str.simps list_to_str_def Let_def so by (simp add: comp_def)
qed

lemma json_of_dict:
  "json_of E so (expr_dict_t ln d) =
     map_option (\<lambda>ms. JDict (if m_sort_fields so then sort_entries ms else ms))
       (those (map (\<lambda>kx. if jstr so (fst kx) then map_option (Pair (fst kx)) (jopt (map_option (json_of E so) (snd kx))) else None) d))"
  by (simp add: jopt_def comp_def case_prod_unfold cong: if_cong)

lemma printed_dict:
  assumes q: "m_quoted so" and el: "\<And>k y. (k, Some y) \<in> set d \<Longrightarrow> printed E so y"
  shows "printed E so (expr_dict_t ln d)"
  unfolding printed_def
proof (intro allI impI)
  fix j assume "json_of E so (expr_dict_t ln d) = Some j"
  let ?v = "\<lambda>kx. jopt (map_option (json_of E so) (snd kx))"
  let ?f = "\<lambda>kx. if jstr so (fst kx) then map_option (Pair (fst kx)) (?v kx) else None"
  obtain ms where ms: "those (map ?f d) = Some ms" "j = JDict (if m_sort_fields so then sort_entries ms else ms)"
    using \<open>json_of E so (expr_dict_t ln d) = Some j\<close> by (auto simp only: json_of_dict map_option_eq_Some)
  have d: "jstr so (fst kx)" "?f kx = Some (fst kx, the (?v kx))" "jwf (the (?v kx))"
    "safe_to_str (map_option (pv_to_str E) (snd kx)) so = Some (jprint (m_compact so) (the (?v kx)))" if kx: "kx \<in> set d" for kx
  proof -
    have "?f kx \<noteq> None" using those_map_Some [OF ms(1)] kx by blast
    then obtain i where i: "jstr so (fst kx)" "?v kx = Some i" by (auto split: if_splits)
    then show "jstr so (fst kx)" "?f kx = Some (fst kx, the (?v kx))" by simp_all
    show "jwf (the (?v kx))" "safe_to_str (map_option (pv_to_str E) (snd kx)) so = Some (jprint (m_compact so) (the (?v kx)))"
      using printed_ptr [of "snd kx" E so i] el [of "fst kx"] kx i by (cases kx; auto)+
  qed
  have "ms = map (\<lambda>kx. (fst kx, the (?v kx))) d"
    using those_map_Some [OF ms(1)] d(2) by (simp cong: map_cong)
  then have j: "j = JDict (map (\<lambda>kx. (fst kx, the (?v kx))) (if m_sort_fields so then sort_entries d else d))"
    using ms(2) by (simp add: sort_entries_map)
  have so: "so\<lparr>m_quoted := True\<rparr> = so" using q by simp
  have set: "set (if m_sort_fields so then sort_entries d else d) = set d" by (simp add: sort_entries_def)
  have entry: "fmt_s E (json_quote E (Some (fst kx)) so) = json_escape_std (fst kx) True"
    "fmt_s E (safe_to_str (map_option (pv_to_str E) (snd kx)) so) = jprint (m_compact so) (the (?v kx))" if kx: "kx \<in> set d" for kx
    using d [OF kx] quote_jstr [OF _ q, of "fst kx" E] escape_no_nul [of "fst kx"] jprint_no_nul [of "the (?v kx)" "m_compact so"]
    by (auto simp: fmt_s_def cstr_id jstr_def)
  have keys: "(if m_sort_fields so then sort_entries (map (\<lambda>kx. (fst kx, map_option (pv_to_str E) (snd kx))) d) else map (\<lambda>kx. (fst kx, map_option (pv_to_str E) (snd kx))) d)
     = map (\<lambda>kx. (fst kx, map_option (pv_to_str E) (snd kx))) (if m_sort_fields so then sort_entries d else d)" by (simp add: sort_entries_map)
  have "jwf j" using d set by (auto simp: j list_all_iff jstr_def)
  moreover have "pv_to_str E (expr_dict_t ln d) so = Some (jprint (m_compact so) j)"
    unfolding pv_to_str.simps dict_to_str_def Let_def so map_prod_def id_def case_prod_unfold keys j jprint.simps map_map comp_def fst_conv snd_conv
    by (intro arg_cong [where f = Some] arg_cong [where f = "\<lambda>v. vec2str v _ _ _"] map_cong refl) (simp only: entry set)
  ultimately show "jwf j \<and> pv_to_str E (expr_dict_t ln d) so = Some (jprint (m_compact so) j)" by blast
qed

lemma printed_other: "json_of E so x = None \<Longrightarrow> printed E so x"
  by (simp add: printed_def)

lemma printed_all:
  assumes q: "m_quoted so"
  shows "printed E so x"
proof (induction x rule: expr_t.induct [where ?P2.0 = "\<lambda>_. True" and ?P3.0 = "\<lambda>_. True" and ?P4.0 = "\<lambda>_. True" and ?P5.0 = "\<lambda>_. True" and ?P6.0 = "\<lambda>_. True"])
  case (expr_list_t ln l)
  show ?case by (rule printed_list [OF q], rule expr_list_t) auto
next
  case (expr_dict_t ln d)
  show ?case by (rule printed_dict [OF q], rule expr_dict_t) (auto simp: snds.simps)
next
  case (expr_cow_t x)
  then show ?case by (simp add: printed_def)
qed (rule printed_atoms [OF q] printed_other TrueI; simp?)+


definition sample_value :: "'d expr_t" where
  "sample_value = expr_cow_t (expr_dict_t 1 [(''k'', Some (expr_list_t 1 [None, Some (expr_int_t (- 5)), Some (expr_str_t (Some [DQ]))])),
     (''a'', Some (expr_bool_t True))])"


text \<open>
  The configuration accepts the width 63, where the bound is the least integer: every integer is printed
  as a string.
\<close>

lemma bitmax_63_quotes_all:
  assumes "pe_bitmax E = 63" "fits_i64 v" "m_quoted so"
  shows "int_to_str E v so = [DQ] @ dec_int v @ [DQ]"
proof -
  have "signed_take_bit 63 (2 ^ 63 :: int) = - (2 ^ 63)" by (simp add: signed_take_bit_def mask_eq_exp_minus_1 not_int_def)
  then show ?thesis using assms by (simp add: int_to_str_def js_unsafe_def fits_i64_def INT64_MIN_def)
qed

section \<open>Operators on integers, and errors\<close>

lemma alloc_is: "sc_is v r \<Longrightarrow> fits_i64 v \<Longrightarrow> alloc_scalar E r = expr_int_t v"
  by (simp add: alloc_scalar_def is_int64 fits_i64_def)

lemma int_scalar: "fits_i64 x \<Longrightarrow> sc_is x (to_scalar E (expr_int_t x))"
  by (simp add: to_scalar_def set_i_is)

lemma int_plain [simp]: "null_ptr (Some (expr_int_t x)) = False" "to_list (expr_int_t x) = None" "to_dict (expr_int_t x) = None"
  by (simp_all add: null_ptr_def is_null_def to_list_def to_dict_def)

lemma is_text: "sc_is x p \<Longrightarrow> sp_s p = Some (dec_int x)"
  by (simp add: sc_is_def)



text \<open>
  An operator either gives a value and reports nothing, or gives null and reports exactly one error with the line of
  the expression; with a null operand it always reports.
\<close>

theorem operators_report:
  assumes "r \<in> {add_final E ln pos e1 e2, mult_final E ln e1 e2, div_or_mod_final E ln dv e1 e2}" "r = Some (v, reports)"
  shows "(if v = None then map fst reports = [ln] else reports = []) \<and> (null_ptr e1 \<or> null_ptr e2 \<longrightarrow> v = None)"
proof -
  have "(if v = None then map fst reports = [ln] else reports = []) \<and> (null_ptr e1 \<or> null_ptr e2 \<longrightarrow> v = None)"
    if "add_final E ln pos e1 e2 = Some (v, reports)"
    using that by (auto simp: add_final_def failed_def Let_def split: if_splits option.splits)
  moreover have "(if v = None then map fst reports = [ln] else reports = []) \<and> (null_ptr e1 \<or> null_ptr e2 \<longrightarrow> v = None)"
    if "mult_final E ln e1 e2 = Some (v, reports)"
    using that by (auto simp: mult_final_def failed_def Let_def bind_eq_Some_conv split: if_splits option.splits)
  moreover have "(if v = None then map fst reports = [ln] else reports = []) \<and> (null_ptr e1 \<or> null_ptr e2 \<longrightarrow> v = None)"
    if "div_or_mod_final E ln dv e1 e2 = Some (v, reports)"
    using that by (auto simp: div_or_mod_final_def failed_def Let_def bind_eq_Some_conv split: if_splits option.splits)
  ultimately show ?thesis using assms by auto
qed

theorem operators_report_witness:
  "map fst [(3, ''mult: right-hand factor was NULL'')] = [3 :: int] \<and> mult_final int_pv_env 3 (Some (expr_int_t 1)) None = Some (None, [(3, ''mult: right-hand factor was NULL'')])"
proof -
  have m: "mult_final int_pv_env 3 (Some (expr_int_t 1)) None = Some (None, [(3, ''mult: right-hand factor was NULL'')])"
    by (simp add: mult_final_def failed_def null_ptr_def is_null_def)
  then show ?thesis
    using operators_report [of "mult_final int_pv_env 3 (Some (expr_int_t 1)) None" int_pv_env 3 True "Some (expr_int_t 1)" None True None] by simp
qed

section \<open>Surprises\<close>

text \<open>The difference of two strings is the empty string, without a report: the scalar is null, but prints as nothing.\<close>

lemma string_minus_silent:
  "add_final E ln False (Some (expr_str_t (Some a))) (Some (expr_str_t (Some b))) = Some (Some (expr_str_t (Some [])), [])"
  by (simp add: add_final_def null_ptr_def is_null_def to_list_def to_dict_def to_scalar_def sc_minus_def sc_of_str_def sc_new_def
      alloc_scalar_def sc_int64_def sc_to_int64_def sc_uint64_def sc_to_uint64_def sc_double_def sc_to_double_def sc_to_str_def Let_def)

text \<open>A string that looks like a number becomes one when it is put together, in the bases of C.\<close>

lemma concat_becomes_int:
  "add_final int_pv_env ln True (Some (expr_str_t (Some ''00''))) (Some (expr_str_t (Some ''10''))) = Some (Some (expr_int_t 8), [])"
proof -
  have "my_convertint ''0010'' = Some 8" by code_simp
  then show ?thesis
    by (simp add: add_final_def null_ptr_def is_null_def to_list_def to_dict_def to_scalar_def sc_plus_def sc_of_str_def sc_new_def
      sc_set_str_def alloc_scalar_def sc_int64_def sc_to_int64_def sc_to_str_def)
qed

text \<open>A null index is refused when an element is read, and names the key \<open>null\<close> when one is written.\<close>

lemma null_key_written:
  "fst (vecref_val_final E ln (Some (expr_dict_t 0 d)) (Some expr_null_t)) = None"
  "snd (vecref_val_final E ln (Some (expr_dict_t 0 d)) (Some expr_null_t)) = [(ln, ''cannot evaluate key for lookup'')]"
  "vecref_ref_final E ln (Some (expr_dict_t 0 d)) (Some expr_null_t) = (Some (DICT_SLOT ''null''), [])"
  by (simp_all add: vecref_val_final_def vecref_ref_final_def null_ptr_def is_null_def to_dict_def)

text \<open>An index before the front of a list cannot be read, and overwrites the first element when it is written.\<close>

lemma front_overwritten:
  "i < - int (length (a # l)) \<Longrightarrow> list_lookup (a # l) i = (None, False) \<and> list_set (a # l) i v = Some (safe_expr v) # l"
  by (simp add: list_lookup_eq list_set_eq set_slot_def)

end
