(* ===== verification/Obj.thy ===== *)
theory Obj
  imports Pubval "HOL-Library.Monad_Syntax"
begin

text \<open>
  Values of the template language as mutable, shared objects: the heap of reference-counted objects under
  \<^verbatim>\<open>src/libpub/pub3expr.C\<close>, with the copy-on-write objects \<^verbatim>\<open>expr_cow_t\<close>, the writing methods of lists and
  dictionaries, and the handles of \<^verbatim>\<open>src/libpub/pub3obj.h\<close> and \<^verbatim>\<open>pub3obj.C\<close> that service code uses to build
  and read values.  An object is named by its address; a pointer that may be null is an \<open>option\<close>.  A method
  that follows a null pointer or fails an assertion is \<open>None\<close>.
\<close>

section \<open>The heap\<close>

text \<open>
  Objects that no method changes are leaves with their value; a list, a dictionary and a copy-on-write
  object (\<^verbatim>\<open>_copy\<close> and \<^verbatim>\<open>_orig\<close>) hold addresses.  An address once used stays in use.
\<close>

datatype 'd heap_obj =
    Leaf "'d expr_t"
  | OList lineno "nat option list"
  | ODict lineno "(string \<times> nat option) list"
  | OCow "nat option" "nat option"

type_synonym 'd heap = "'d heap_obj list"

definition new_obj :: "'d heap_obj \<Rightarrow> 'd heap \<Rightarrow> nat \<times> 'd heap" where
  "new_obj x h = (length h, h @ [x])"

definition list_alloc :: "'d heap \<Rightarrow> nat \<times> 'd heap" where
  "list_alloc h = new_obj (OList (- 1) []) h"

definition dict_alloc :: "'d pv_env \<Rightarrow> 'd heap \<Rightarrow> nat \<times> 'd heap" where
  "dict_alloc E h = new_obj (ODict (pe_ln0 E) []) h"

definition safe_obj :: "nat option \<Rightarrow> 'd heap \<Rightarrow> nat \<times> 'd heap" where
  "safe_obj x h = (case x of Some a \<Rightarrow> (a, h) | None \<Rightarrow> new_obj (Leaf expr_null_t) h)"

text \<open>The value an object stands for; \<open>n\<close> bounds the nesting.\<close>

fun reify :: "nat \<Rightarrow> 'd heap \<Rightarrow> nat \<Rightarrow> 'd expr_t option" where
  "reify 0 h a = None"
| "reify (Suc n) h a =
     (case h ! a of
        Leaf x \<Rightarrow> Some x
      | OList ln l \<Rightarrow>
          map_option (expr_list_t ln) (those (map (\<lambda>p. case p of None \<Rightarrow> Some None | Some b \<Rightarrow> map_option Some (reify n h b)) l))
      | ODict ln d \<Rightarrow>
          map_option (expr_dict_t ln)
            (those (map (\<lambda>(k, p). map_option (Pair k) (case p of None \<Rightarrow> Some None | Some b \<Rightarrow> map_option Some (reify n h b))) d))
      | OCow (Some b) _ \<Rightarrow> map_option expr_cow_t (reify n h b)
      | OCow None (Some b) \<Rightarrow> map_option expr_cow_t (reify n h b)
      | OCow None None \<Rightarrow> None)"

definition value_of :: "'d heap \<Rightarrow> nat \<Rightarrow> 'd expr_t option" where
  "value_of h a = reify (length h) h a"

section \<open>Copies\<close>

definition is_lambda :: "'d expr_t \<Rightarrow> bool" where
  "is_lambda x = (case x of expr_lambda_t l \<Rightarrow> True | _ \<Rightarrow> False)"

text \<open>\<^verbatim>\<open>copy\<close>: a constant gives itself; the copy of a copy-on-write object starts from its target.\<close>

definition obj_copy :: "nat \<Rightarrow> 'd heap \<Rightarrow> (nat \<times> 'd heap) option" where
  "obj_copy a h =
     (case h ! a of
        Leaf x \<Rightarrow> Some (if is_constant x then (a, h) else new_obj (OCow None (Some a)) h)
      | OCow c (Some b) \<Rightarrow> Some (new_obj (OCow c (Some b)) h)
      | OCow (Some c) None \<Rightarrow> Some (new_obj (OCow None (Some c)) h)
      | OCow None None \<Rightarrow> None
      | _ \<Rightarrow> Some (new_obj (OCow None (Some a)) h))"

text \<open>The loops of \<^verbatim>\<open>deep_copy\<close> (through every element) and \<^verbatim>\<open>copy_dict\<close> (null entries stay null).\<close>

fun copy_elems :: "nat option list \<Rightarrow> 'd heap \<Rightarrow> (nat option list \<times> 'd heap) option" where
  "copy_elems [] h = Some ([], h)"
| "copy_elems (None # l) h = None"
| "copy_elems (Some a # l) h = do { (b, h) \<leftarrow> obj_copy a h; (l', h) \<leftarrow> copy_elems l h; Some (Some b # l', h) }"

fun copy_entries :: "(string \<times> nat option) list \<Rightarrow> (string \<times> nat option) list \<Rightarrow> 'd heap \<Rightarrow> ((string \<times> nat option) list \<times> 'd heap) option" where
  "copy_entries [] t h = Some (t, h)"
| "copy_entries ((k, None) # d) t h = copy_entries d (AList.update k None t) h"
| "copy_entries ((k, Some a) # d) t h = do { (b, h) \<leftarrow> obj_copy a h; copy_entries d (AList.update k (Some b) t) h }"

definition deep_copy :: "nat option list \<Rightarrow> 'd heap \<Rightarrow> (nat \<times> 'd heap) option" where
  "deep_copy l h =
     (let (out, h) = list_alloc h
      in do { (l', h) \<leftarrow> copy_elems l h; Some (out, h[out := OList (- 1) l']) })"

definition copy_dict :: "'d pv_env \<Rightarrow> (string \<times> nat option) list \<Rightarrow> 'd heap \<Rightarrow> (nat \<times> 'd heap) option" where
  "copy_dict E d h =
     (let (ret, h) = dict_alloc E h
      in do { (d', h) \<leftarrow> copy_entries d [] h; Some (ret, h[ret := ODict (pe_ln0 E) d']) })"

definition cow_copy :: "'d pv_env \<Rightarrow> nat \<Rightarrow> 'd heap \<Rightarrow> (nat option \<times> 'd heap) option" where
  "cow_copy E a h =
     (case h ! a of
        Leaf x \<Rightarrow> Some (if is_constant x \<or> is_lambda x then Some a else None, h)
      | OList ln l \<Rightarrow> do { (b, h) \<leftarrow> deep_copy l h; Some (Some b, h) }
      | ODict ln d \<Rightarrow> do { (b, h) \<leftarrow> copy_dict E d h; Some (Some b, h) }
      | OCow c p \<Rightarrow> do { (b, h) \<leftarrow> obj_copy a h; Some (Some b, h) })"

text \<open>\<^verbatim>\<open>mutable_ptr\<close> of a copy-on-write object, on first use the copy of the original.\<close>

definition mutable_ptr :: "'d pv_env \<Rightarrow> nat \<Rightarrow> 'd heap \<Rightarrow> (nat option \<times> 'd heap) option" where
  "mutable_ptr E a h =
     (case h ! a of
        OCow c (Some b) \<Rightarrow> if c \<noteq> None then None else do { (c', h) \<leftarrow> cow_copy E b h; Some (c', h[a := OCow c' None]) }
      | OCow c None \<Rightarrow> Some (c, h)
      | _ \<Rightarrow> Some (Some a, h))"

text \<open>
  The methods \<^verbatim>\<open>to_list\<close> and \<^verbatim>\<open>to_dict\<close> that give a container to write to, and their \<^verbatim>\<open>const\<close> forms.  The
  target of a copy-on-write object is never one itself (\<open>heap_ok\<close> below).
\<close>

definition list_at :: "'d heap \<Rightarrow> nat \<Rightarrow> nat option" where
  "list_at h a = (case h ! a of OList ln l \<Rightarrow> Some a | _ \<Rightarrow> None)"

definition dict_at :: "'d heap \<Rightarrow> nat \<Rightarrow> nat option" where
  "dict_at h a = (case h ! a of ODict ln d \<Rightarrow> Some a | _ \<Rightarrow> None)"

definition to_list_mut :: "'d pv_env \<Rightarrow> nat \<Rightarrow> 'd heap \<Rightarrow> (nat option \<times> 'd heap) option" where
  "to_list_mut E a h = do { (x, h) \<leftarrow> mutable_ptr E a h; Some (Option.bind x (list_at h), h) }"

definition to_dict_mut :: "'d pv_env \<Rightarrow> nat \<Rightarrow> 'd heap \<Rightarrow> (nat option \<times> 'd heap) option" where
  "to_dict_mut E a h = do { (x, h) \<leftarrow> mutable_ptr E a h; Some (Option.bind x (dict_at h), h) }"

definition target :: "'d heap \<Rightarrow> nat \<Rightarrow> nat option" where
  "target h a = (case h ! a of OCow (Some b) _ \<Rightarrow> Some b | OCow None p \<Rightarrow> p | _ \<Rightarrow> Some a)"

definition to_list_const :: "'d heap \<Rightarrow> nat \<Rightarrow> nat option" where
  "to_list_const h a = Option.bind (target h a) (list_at h)"

definition to_dict_const :: "'d heap \<Rightarrow> nat \<Rightarrow> nat option" where
  "to_dict_const h a = Option.bind (target h a) (dict_at h)"

definition elems :: "'d heap \<Rightarrow> nat \<Rightarrow> nat option list" where
  "elems h a = (case h ! a of OList ln l \<Rightarrow> l | _ \<Rightarrow> [])"

definition entries :: "'d heap \<Rightarrow> nat \<Rightarrow> (string \<times> nat option) list" where
  "entries h a = (case h ! a of ODict ln d \<Rightarrow> d | _ \<Rightarrow> [])"

section \<open>Writing\<close>

definition elem_lookup :: "nat option list \<Rightarrow> int \<Rightarrow> nat option" where
  "elem_lookup l i = (case fixup_index (length l) i False of (ib, i) \<Rightarrow> if ib then l ! nat i else None)"

definition obj_list_set :: "nat \<Rightarrow> int \<Rightarrow> nat option \<Rightarrow> 'd heap \<Rightarrow> 'd heap" where
  "obj_list_set a i v h =
     (case h ! a of
        OList ln l \<Rightarrow>
          (case fixup_index (length l) i True of
             (True, i) \<Rightarrow> (let (v, h) = safe_obj v h in h[a := OList ln ((l @ replicate (nat i + 1 - length l) None)[nat i := Some v])])
           | (False, _) \<Rightarrow> h)
      | _ \<Rightarrow> h)"

definition obj_push_back :: "nat \<Rightarrow> nat option \<Rightarrow> 'd heap \<Rightarrow> 'd heap" where
  "obj_push_back a v h =
     (case h ! a of OList ln l \<Rightarrow> (let (v, h) = safe_obj v h in h[a := OList ln (l @ [Some v])]) | _ \<Rightarrow> h)"

text \<open>\<^verbatim>\<open>push_back ()\<close> of the vector class adds a null pointer.\<close>

definition obj_push_null :: "nat \<Rightarrow> 'd heap \<Rightarrow> 'd heap" where
  "obj_push_null a h = (case h ! a of OList ln l \<Rightarrow> h[a := OList ln (l @ [None])] | _ \<Rightarrow> h)"

definition obj_insert :: "nat \<Rightarrow> string \<Rightarrow> nat option \<Rightarrow> 'd heap \<Rightarrow> 'd heap" where
  "obj_insert a k v h = (case h ! a of ODict ln d \<Rightarrow> h[a := ODict ln (AList.update k v d)] | _ \<Rightarrow> h)"

definition obj_remove :: "nat \<Rightarrow> string \<Rightarrow> 'd heap \<Rightarrow> 'd heap" where
  "obj_remove a k h = (case h ! a of ODict ln d \<Rightarrow> h[a := ODict ln (AList.delete k d)] | _ \<Rightarrow> h)"

definition obj_dict_lookup :: "'d heap \<Rightarrow> nat \<Rightarrow> string \<Rightarrow> nat option" where
  "obj_dict_lookup h a k = Option.bind (map_of (entries h a) k) id"

text \<open>\<^verbatim>\<open>overwrite_with\<close> the entries of another dictionary.\<close>

fun obj_overwrite :: "nat \<Rightarrow> (string \<times> nat option) list \<Rightarrow> 'd heap \<Rightarrow> 'd heap option" where
  "obj_overwrite a [] h = Some h"
| "obj_overwrite a ((k, None) # t) h = obj_overwrite a t (obj_insert a k None h)"
| "obj_overwrite a ((k, Some b) # t) h = do { (c, h) \<leftarrow> obj_copy b h; obj_overwrite a t (obj_insert a k (Some c) h) }"

section \<open>References to slots\<close>

text \<open>
  \<^verbatim>\<open>obj_ref_t\<close>: the slot of a dictionary, of a list, or a plain cell.  Of plain cells a user has one, which
  is the first argument of \<open>ref_get\<close> and a result of \<open>ref_set\<close>.
\<close>

datatype obj_ref = obj_ref_dict_t nat string | obj_ref_list_t nat nat | plain_obj_ref_t

definition ref_get :: "nat option \<Rightarrow> obj_ref \<Rightarrow> 'd heap \<Rightarrow> nat option" where
  "ref_get root r h =
     (case r of
        obj_ref_dict_t d k \<Rightarrow> obj_dict_lookup h d k
      | obj_ref_list_t l i \<Rightarrow> if i < length (elems h l) then elem_lookup (elems h l) (int i) else None
      | plain_obj_ref_t \<Rightarrow> root)"

definition ref_set :: "obj_ref \<Rightarrow> nat option \<Rightarrow> nat option \<Rightarrow> 'd heap \<Rightarrow> nat option \<times> 'd heap" where
  "ref_set r x root h =
     (case r of
        obj_ref_dict_t d k \<Rightarrow> (let (x, h) = safe_obj x h in (root, obj_insert d k (Some x) h))
      | obj_ref_list_t l i \<Rightarrow> (let (x, h) = safe_obj x h in (root, obj_list_set l (int i) (Some x) h))
      | plain_obj_ref_t \<Rightarrow> (x, h))"

section \<open>Handles\<close>

text \<open>
  \<^verbatim>\<open>obj_t\<close> with its base class \<^verbatim>\<open>const_obj_t\<close>.  A handle has a reference or an object of its own, and
  remembers the list, the dictionary or the scalar it was found to be.
\<close>

record obj_t =
  ob_c_obj :: "nat option"
  ob_obj :: "nat option"
  ob_ref :: "obj_ref option"
  ob_list :: "nat option"
  ob_dict :: "nat option"
  ob_scalar :: "nat option"

definition obj_new :: obj_t where
  "obj_new = \<lparr>ob_c_obj = None, ob_obj = None, ob_ref = None, ob_list = None, ob_dict = None, ob_scalar = None\<rparr>"

definition obj_of_ref :: "obj_ref \<Rightarrow> 'd heap \<Rightarrow> obj_t" where
  "obj_of_ref r h = obj_new\<lparr>ob_c_obj := ref_get None r h, ob_ref := Some r\<rparr>"

definition obj :: "obj_t \<Rightarrow> 'd heap \<Rightarrow> nat option" where
  "obj o1 h = (case ob_ref o1 of Some r \<Rightarrow> ref_get None r h | None \<Rightarrow> ob_obj o1)"

definition update_value :: "nat option \<Rightarrow> obj_t \<Rightarrow> 'd heap \<Rightarrow> obj_t \<times> 'd heap" where
  "update_value v o1 h =
     (case ob_ref o1 of
        Some r \<Rightarrow> (o1, snd (ref_set r v None h))
      | None \<Rightarrow> (o1\<lparr>ob_c_obj := v, ob_obj := v\<rparr>, h))"

text \<open>The container of a handle, made anew when the value is none.\<close>

definition obj_to_list :: "'d pv_env \<Rightarrow> obj_t \<Rightarrow> 'd heap \<Rightarrow> (nat \<times> obj_t \<times> 'd heap) option" where
  "obj_to_list E o1 h =
     do { (o1, h) \<leftarrow> (case (ob_list o1, obj o1 h) of
                        (None, Some a) \<Rightarrow> do { (l, h) \<leftarrow> to_list_mut E a h; Some (o1\<lparr>ob_list := l\<rparr>, h) }
                      | _ \<Rightarrow> Some (o1, h));
          (case ob_list o1 of
             Some l \<Rightarrow> Some (l, o1, h)
           | None \<Rightarrow> let (l, h) = list_alloc h;
                         (o1, h) = update_value (Some l) (o1\<lparr>ob_scalar := None, ob_dict := None, ob_list := Some l\<rparr>) h
                     in Some (l, o1, h)) }"

definition obj_to_dict :: "'d pv_env \<Rightarrow> bool \<Rightarrow> obj_t \<Rightarrow> 'd heap \<Rightarrow> (nat option \<times> obj_t \<times> 'd heap) option" where
  "obj_to_dict E cajole o1 h =
     do { (o1, h) \<leftarrow> (case (ob_dict o1, obj o1 h) of
                        (None, Some a) \<Rightarrow> if cajole then do { (d, h) \<leftarrow> to_dict_mut E a h; Some (o1\<lparr>ob_dict := d\<rparr>, h) } else Some (o1, h)
                      | _ \<Rightarrow> Some (o1, h));
          (case ob_dict o1 of
             Some d \<Rightarrow> Some (Some d, o1, h)
           | None \<Rightarrow> if cajole
                     then let (d, h) = dict_alloc E h;
                              (o1, h) = update_value (Some d) (o1\<lparr>ob_scalar := None, ob_list := None, ob_dict := Some d\<rparr>) h
                          in Some (Some d, o1, h)
                     else Some (None, o1, h)) }"

definition set_value_dict :: "'d pv_env \<Rightarrow> nat option \<Rightarrow> obj_t \<Rightarrow> 'd heap \<Rightarrow> (bool \<times> obj_t \<times> 'd heap) option" where
  "set_value_dict E v o1 h =
     do { a \<leftarrow> v; (d, h) \<leftarrow> to_dict_mut E a h;
          Some (case d of
                  Some d \<Rightarrow> (True, update_value (Some d) (o1\<lparr>ob_list := None, ob_scalar := None, ob_dict := Some d\<rparr>) h)
                | None \<Rightarrow> (False, o1, h)) }"

definition set_value_list :: "'d pv_env \<Rightarrow> nat option \<Rightarrow> obj_t \<Rightarrow> 'd heap \<Rightarrow> (bool \<times> obj_t \<times> 'd heap) option" where
  "set_value_list E v o1 h =
     do { a \<leftarrow> v; (l, h) \<leftarrow> to_list_mut E a h;
          Some (case l of
                  Some l \<Rightarrow> (True, update_value (Some l) (o1\<lparr>ob_dict := None, ob_scalar := None, ob_list := Some l\<rparr>) h)
                | None \<Rightarrow> (False, o1, h)) }"

definition set_scalar_expr :: "nat option \<Rightarrow> obj_t \<Rightarrow> 'd heap \<Rightarrow> obj_t \<times> 'd heap" where
  "set_scalar_expr v o1 h = update_value v (o1\<lparr>ob_list := None, ob_dict := None, ob_scalar := v\<rparr>) h"

definition set_value_scalar :: "nat option \<Rightarrow> obj_t \<Rightarrow> 'd heap \<Rightarrow> bool \<times> obj_t \<times> 'd heap" where
  "set_value_scalar v o1 h = (case v of Some a \<Rightarrow> (True, set_scalar_expr v o1 h) | None \<Rightarrow> (False, o1, h))"

definition set_value :: "'d pv_env \<Rightarrow> nat option \<Rightarrow> obj_t \<Rightarrow> 'd heap \<Rightarrow> (obj_t \<times> 'd heap) option" where
  "set_value E v o1 h =
     do { (done, o1, h) \<leftarrow> set_value_dict E v o1 h;
          if done then Some (o1, h)
          else do { (done, o1, h) \<leftarrow> set_value_list E v o1 h;
                    if done then Some (o1, h) else Some (snd (set_value_scalar v o1 h)) } }"

definition obj_of_expr :: "'d pv_env \<Rightarrow> nat option \<Rightarrow> 'd heap \<Rightarrow> (obj_t \<times> 'd heap) option" where
  "obj_of_expr E v h =
     (let o1 = obj_new\<lparr>ob_c_obj := v, ob_obj := v\<rparr> in if v \<noteq> None then set_value E v o1 h else Some (o1, h))"

text \<open>The assignments of a scalar: a new leaf.\<close>

definition set_leaf :: "'d expr_t \<Rightarrow> obj_t \<Rightarrow> 'd heap \<Rightarrow> obj_t \<times> 'd heap" where
  "set_leaf x o1 h = (let (a, h) = new_obj (Leaf x) h in set_scalar_expr (Some a) o1 h)"

definition set_int :: "int \<Rightarrow> obj_t \<Rightarrow> 'd heap \<Rightarrow> obj_t \<times> 'd heap" where
  "set_int i = set_leaf (expr_int_t i)"

definition set_uint :: "int \<Rightarrow> obj_t \<Rightarrow> 'd heap \<Rightarrow> obj_t \<times> 'd heap" where
  "set_uint u = set_leaf (expr_uint_t u)"

definition set_str :: "string option \<Rightarrow> obj_t \<Rightarrow> 'd heap \<Rightarrow> obj_t \<times> 'd heap" where
  "set_str s = set_leaf (expr_str_t s)"

definition set_double :: "'d \<Rightarrow> obj_t \<Rightarrow> 'd heap \<Rightarrow> obj_t \<times> 'd heap" where
  "set_double d = set_leaf (expr_double_t d)"

definition set_scalar :: "'d sc_env \<Rightarrow> 'd scalar \<Rightarrow> obj_t \<Rightarrow> 'd heap \<Rightarrow> obj_t \<times> 'd heap" where
  "set_scalar E so = set_leaf (alloc_scalar E so)"

definition fancy_assign_to :: "'d sc_env \<Rightarrow> string option \<Rightarrow> obj_t \<Rightarrow> 'd heap \<Rightarrow> obj_t \<times> 'd heap" where
  "fancy_assign_to E s = set_leaf (alloc_scalar E (sc_of_str s))"

text \<open>Assignment of one handle to another: into the slot of a reference, otherwise it becomes the other.\<close>

definition set_obj :: "obj_t \<Rightarrow> obj_t \<Rightarrow> 'd heap \<Rightarrow> obj_t \<times> 'd heap" where
  "set_obj other o1 h =
     (case ob_ref o1 of
        Some r \<Rightarrow> (o1, snd (ref_set r (obj other h) None h))
      | None \<Rightarrow> (o1\<lparr>ob_ref := ob_ref other, ob_c_obj := ob_obj other, ob_obj := ob_obj other, ob_list := ob_list other,
                    ob_dict := ob_dict other, ob_scalar := ob_scalar other\<rparr>, h))"

definition refer_to :: "obj_t \<Rightarrow> obj_t \<Rightarrow> obj_t" where
  "refer_to other o1 =
     o1\<lparr>ob_ref := ob_ref other, ob_c_obj := ob_obj other, ob_obj := ob_obj other, ob_list := ob_list other,
        ob_dict := ob_dict other, ob_scalar := ob_scalar other\<rparr>"

definition clear_value :: "obj_t \<Rightarrow> obj_t" where
  "clear_value o1 = o1\<lparr>ob_list := None, ob_dict := None, ob_scalar := None, ob_c_obj := None, ob_obj := None\<rparr>"

definition obj_clear :: "obj_t \<Rightarrow> obj_t" where
  "obj_clear o1 = o1\<lparr>ob_ref := None, ob_c_obj := None, ob_obj := None, ob_list := None, ob_dict := None, ob_scalar := None\<rparr>"

definition obj_list_new :: "'d heap \<Rightarrow> obj_t \<times> 'd heap" where
  "obj_list_new h = (let (l, h) = list_alloc h in (obj_new\<lparr>ob_list := Some l, ob_c_obj := Some l, ob_obj := Some l\<rparr>, h))"

definition obj_dict_new :: "'d pv_env \<Rightarrow> 'd heap \<Rightarrow> obj_t \<times> 'd heap" where
  "obj_dict_new E h = (let (d, h) = dict_alloc E h in (obj_new\<lparr>ob_dict := Some d, ob_c_obj := Some d, ob_obj := Some d\<rparr>, h))"

text \<open>Access to elements: a new handle on the slot.\<close>

definition obj_push :: "'d pv_env \<Rightarrow> obj_t \<Rightarrow> 'd heap \<Rightarrow> (obj_t \<times> obj_t \<times> 'd heap) option" where
  "obj_push E o1 h =
     do { (v, o1, h) \<leftarrow> obj_to_list E o1 h;
          (let h = obj_push_null v h in Some (obj_of_ref (obj_ref_list_t v (length (elems h v) - 1)) h, o1, h)) }"

definition obj_push_obj :: "'d pv_env \<Rightarrow> obj_t \<Rightarrow> obj_t \<Rightarrow> 'd heap \<Rightarrow> (obj_t \<times> 'd heap) option" where
  "obj_push_obj E other o1 h = do { (v, o1, h) \<leftarrow> obj_to_list E o1 h; Some (o1, obj_push_back v (obj other h) h) }"

definition obj_index :: "'d pv_env \<Rightarrow> nat \<Rightarrow> obj_t \<Rightarrow> 'd heap \<Rightarrow> (obj_t \<times> obj_t \<times> 'd heap) option" where
  "obj_index E i o1 h = do { (v, o1, h) \<leftarrow> obj_to_list E o1 h; Some (obj_of_ref (obj_ref_list_t v i) h, o1, h) }"

definition obj_insert_obj :: "'d pv_env \<Rightarrow> string \<Rightarrow> obj_t \<Rightarrow> obj_t \<Rightarrow> 'd heap \<Rightarrow> (obj_t \<times> 'd heap) option" where
  "obj_insert_obj E n other o1 h =
     do { (d, o1, h) \<leftarrow> obj_to_dict E True o1 h; d \<leftarrow> d; Some (o1, obj_insert d n (obj other h) h) }"

definition obj_key :: "'d pv_env \<Rightarrow> string \<Rightarrow> obj_t \<Rightarrow> 'd heap \<Rightarrow> (obj_t \<times> obj_t \<times> 'd heap) option" where
  "obj_key E k o1 h = do { (d, o1, h) \<leftarrow> obj_to_dict E True o1 h; d \<leftarrow> d; Some (obj_of_ref (obj_ref_dict_t d k) h, o1, h) }"

definition remove_key :: "'d pv_env \<Rightarrow> string \<Rightarrow> obj_t \<Rightarrow> 'd heap \<Rightarrow> (obj_t \<times> 'd heap) option" where
  "remove_key E k o1 h =
     do { (d, o1, h) \<leftarrow> obj_to_dict E False o1 h; Some (o1, case d of Some d \<Rightarrow> obj_remove d k h | None \<Rightarrow> h) }"

text \<open>
  \<^verbatim>\<open>append\<close>.  \<^verbatim>\<open>to_dict\<close> gives a dictionary in every case, so that the condition of the first branch always
  holds and the branch for lists is never reached.
\<close>

definition obj_append :: "'d pv_env \<Rightarrow> obj_t \<Rightarrow> obj_t \<Rightarrow> 'd heap \<Rightarrow> (bool \<times> obj_t \<times> obj_t \<times> 'd heap) option" where
  "obj_append E other o1 h =
     do { (dm, o1, h) \<leftarrow> obj_to_dict E True o1 h; dm \<leftarrow> dm;
          (di, other, h) \<leftarrow> obj_to_dict E True other h; di \<leftarrow> di;
          h \<leftarrow> obj_overwrite dm (entries h di) h;
          Some (True, o1, other, h) }"

text \<open>Reading, on the value of the object.\<close>

definition co_value :: "obj_t \<Rightarrow> 'd heap \<Rightarrow> 'd expr_t option" where
  "co_value o1 h = Option.bind (obj o1 h) (value_of h)"

definition co_size :: "obj_t \<Rightarrow> 'd heap \<Rightarrow> nat" where
  "co_size o1 h =
     (case Option.bind (obj o1 h) (to_list_const h) of
        Some l \<Rightarrow> length (elems h l)
      | None \<Rightarrow> (case Option.bind (obj o1 h) (to_dict_const h) of Some d \<Rightarrow> length (entries h d) | None \<Rightarrow> 0))"

definition co_isnull :: "obj_t \<Rightarrow> 'd heap \<Rightarrow> bool" where
  "co_isnull o1 h = (case obj o1 h of None \<Rightarrow> True | Some a \<Rightarrow> (case target h a of None \<Rightarrow> True | Some b \<Rightarrow> h ! b = Leaf expr_null_t))"

definition co_is_empty :: "obj_t \<Rightarrow> 'd heap \<Rightarrow> bool" where
  "co_is_empty o1 h =
     (if co_isnull o1 h then True
      else case Option.bind (obj o1 h) (to_list_const h) of
             Some l \<Rightarrow> length (elems h l) = 0
           | None \<Rightarrow> (case Option.bind (obj o1 h) (to_dict_const h) of Some d \<Rightarrow> length (entries h d) = 0 | None \<Rightarrow> False))"

definition co_index :: "nat \<Rightarrow> obj_t \<Rightarrow> 'd heap \<Rightarrow> nat option" where
  "co_index i o1 h =
     (case Option.bind (obj o1 h) (to_list_const h) of
        Some v \<Rightarrow> if i < length (elems h v) then elems h v ! i else None | None \<Rightarrow> None)"

definition co_key :: "string \<Rightarrow> obj_t \<Rightarrow> 'd heap \<Rightarrow> nat option" where
  "co_key k o1 h = (case Option.bind (obj o1 h) (to_dict_const h) of Some d \<Rightarrow> obj_dict_lookup h d k | None \<Rightarrow> None)"

definition co_keys :: "obj_t \<Rightarrow> 'd heap \<Rightarrow> string list option" where
  "co_keys o1 h = map_option (\<lambda>d. map fst (entries h d)) (Option.bind (obj o1 h) (to_dict_const h))"

definition co_to_int :: "'d pv_env \<Rightarrow> obj_t \<Rightarrow> 'd heap \<Rightarrow> int option" where
  "co_to_int E o1 h = Option.bind (co_value o1 h) (pv_to_int E)"

definition co_to_int32 :: "'d pv_env \<Rightarrow> obj_t \<Rightarrow> 'd heap \<Rightarrow> int option" where
  "co_to_int32 E o1 h = map_option (signed_take_bit 31) (co_to_int E o1 h)"

definition co_to_uint :: "obj_t \<Rightarrow> 'd heap \<Rightarrow> int option" where
  "co_to_uint o1 h = Option.bind (co_value o1 h) to_uint"

definition co_to_double :: "'d pv_env \<Rightarrow> obj_t \<Rightarrow> 'd heap \<Rightarrow> 'd option" where
  "co_to_double E o1 h = Option.bind (co_value o1 h) (to_double E)"

definition co_to_bool :: "'d pv_env \<Rightarrow> obj_t \<Rightarrow> 'd heap \<Rightarrow> bool option" where
  "co_to_bool E o1 h = map_option (to_bool E) (co_value o1 h)"

definition co_to_str :: "'d pv_env \<Rightarrow> obj_t \<Rightarrow> 'd heap \<Rightarrow> string option" where
  "co_to_str E o1 h = Option.bind (co_value o1 h) (\<lambda>x. pv_to_str E x str_opt_t)"

definition co_copy :: "'d pv_env \<Rightarrow> obj_t \<Rightarrow> 'd heap \<Rightarrow> (obj_t \<times> 'd heap) option" where
  "co_copy E o1 h =
     (case obj o1 h of
        Some x \<Rightarrow> do { (c, h) \<leftarrow> obj_copy x h; obj_of_expr E (Some c) h }
      | None \<Rightarrow> obj_of_expr E None h)"

section \<open>Well-formed heaps\<close>

text \<open>
  Every address in an object is in use; a copy-on-write object has at most one of its two pointers, and its
  target is not such an object; a leaf is none of the three kinds.
\<close>

definition is_cow :: "'d heap_obj \<Rightarrow> bool" where
  "is_cow x = (case x of OCow c p \<Rightarrow> True | _ \<Rightarrow> False)"

definition ptr_ok :: "'d heap \<Rightarrow> nat option \<Rightarrow> bool" where
  "ptr_ok h p = (case p of None \<Rightarrow> True | Some a \<Rightarrow> a < length h)"

definition tgt_ok :: "'d heap \<Rightarrow> nat option \<Rightarrow> bool" where
  "tgt_ok h p = (case p of None \<Rightarrow> True | Some a \<Rightarrow> a < length h \<and> \<not> is_cow (h ! a))"

definition atomic :: "'d expr_t \<Rightarrow> bool" where
  "atomic x = (case x of expr_list_t ln l \<Rightarrow> False | expr_dict_t ln d \<Rightarrow> False | expr_cow_t y \<Rightarrow> False | _ \<Rightarrow> True)"

definition obj_ok :: "'d heap \<Rightarrow> 'd heap_obj \<Rightarrow> bool" where
  "obj_ok h x =
     (case x of
        Leaf v \<Rightarrow> atomic v
      | OList ln l \<Rightarrow> Ball (set l) (ptr_ok h)
      | ODict ln d \<Rightarrow> Ball (snd ` set d) (ptr_ok h)
      | OCow c p \<Rightarrow> tgt_ok h c \<and> tgt_ok h p \<and> (c = None \<or> p = None))"

definition heap_ok :: "'d heap \<Rightarrow> bool" where
  "heap_ok h = list_all (obj_ok h) h"

text \<open>A later heap: no object is lost, and none changes between a copy-on-write object and another.\<close>

definition later :: "'d heap \<Rightarrow> 'd heap \<Rightarrow> bool" where
  "later h h' \<longleftrightarrow> length h \<le> length h' \<and> (\<forall>b < length h. is_cow (h' ! b) = is_cow (h ! b))"

lemma is_cow_simps [simp]: "is_cow (OCow c p)" "\<not> is_cow (Leaf x)" "\<not> is_cow (OList ln l)" "\<not> is_cow (ODict ln d)"
  by (simp_all add: is_cow_def)

lemma ptr_ok_simps [simp]: "ptr_ok h None" "ptr_ok h (Some a) \<longleftrightarrow> a < length h" "tgt_ok h None"
  "tgt_ok h (Some a) \<longleftrightarrow> a < length h \<and> \<not> is_cow (h ! a)"
  by (simp_all add: ptr_ok_def tgt_ok_def)

lemma obj_ok_simps [simp]: "obj_ok h (Leaf v) \<longleftrightarrow> atomic v" "obj_ok h (OList ln l) \<longleftrightarrow> Ball (set l) (ptr_ok h)"
  "obj_ok h (ODict ln d) \<longleftrightarrow> Ball (snd ` set d) (ptr_ok h)"
  "obj_ok h (OCow c p) \<longleftrightarrow> tgt_ok h c \<and> tgt_ok h p \<and> (c = None \<or> p = None)"
  by (simp_all add: obj_ok_def)

lemma later_refl [simp]: "later h h" by (simp add: later_def)

lemma later_trans [trans]: "later h h1 \<Longrightarrow> later h1 h2 \<Longrightarrow> later h h2"
  by (simp add: later_def)

lemma later_length: "later h h' \<Longrightarrow> length h \<le> length h'" by (simp add: later_def)

lemma later_append [simp]: "later h (h @ xs)" by (simp add: later_def nth_append)

lemma later_upd: "is_cow x = is_cow (h ! a) \<Longrightarrow> later h (h[a := x])"
  by (simp add: later_def) (metis nth_list_update_eq nth_list_update_neq)

lemma ptr_later: "ptr_ok h p \<Longrightarrow> later h h' \<Longrightarrow> ptr_ok h' p"
  by (cases p) (auto simp: later_def)

lemma tgt_later: "tgt_ok h p \<Longrightarrow> later h h' \<Longrightarrow> tgt_ok h' p"
  by (cases p) (auto simp: later_def)

lemma obj_later: "obj_ok h x \<Longrightarrow> later h h' \<Longrightarrow> obj_ok h' x"
  by (cases x) (auto simp: tgt_later intro: ptr_later)

lemma heap_ok_nth: "heap_ok h \<Longrightarrow> a < length h \<Longrightarrow> obj_ok h (h ! a)"
  by (simp add: heap_ok_def list_all_length)

lemma ok_append: "heap_ok h \<Longrightarrow> obj_ok h x \<Longrightarrow> heap_ok (h @ [x])"
  using obj_later [OF _ later_append] by (fastforce simp: heap_ok_def list_all_iff)

lemma ok_upd:
  assumes "heap_ok h" "obj_ok h x" "is_cow x = is_cow (h ! a)"
  shows "heap_ok (h[a := x])"
proof -
  have "y = x \<or> y \<in> set h" if "y \<in> set (h[a := x])" for y using that set_update_subset_insert by fast
  then show ?thesis using assms obj_later [OF _ later_upd [OF assms(3)]] by (auto simp: heap_ok_def list_all_iff)
qed

lemma list_at_ok: "list_at h a = Some b \<Longrightarrow> b = a \<and> (\<exists>ln l. h ! a = OList ln l)"
  by (auto simp: list_at_def split: heap_obj.splits)

lemma dict_at_ok: "dict_at h a = Some b \<Longrightarrow> b = a \<and> (\<exists>ln d. h ! a = ODict ln d)"
  by (auto simp: dict_at_def split: heap_obj.splits)

text \<open>What an operation keeps: the heap is well formed and later, and the address it gives is in use.\<close>

definition keeps :: "'d heap \<Rightarrow> nat option \<Rightarrow> 'd heap \<Rightarrow> bool" where
  "keeps h p h' \<longleftrightarrow> heap_ok h' \<and> later h h' \<and> ptr_ok h' p"

lemma keeps_refl: "heap_ok h \<Longrightarrow> ptr_ok h p \<Longrightarrow> keeps h p h"
  by (simp add: keeps_def)

lemma safe_keeps: "heap_ok h \<Longrightarrow> ptr_ok h p \<Longrightarrow> safe_obj p h = (a, h') \<Longrightarrow> keeps h (Some a) h'"
  by (cases p) (auto simp: safe_obj_def new_obj_def keeps_def ok_append atomic_def)

lemma new_keeps: "heap_ok h \<Longrightarrow> obj_ok h x \<Longrightarrow> keeps h (Some (length h)) (h @ [x])"
  by (simp add: keeps_def ok_append)

lemma copy_eq:
  assumes "obj_copy a h = Some (b, h')"
  shows "(\<exists>x. h ! a = Leaf x \<and> is_constant x) \<and> b = a \<and> h' = h
    \<or> b = length h \<and> (\<exists>c t. h' = h @ [OCow c (Some t)] \<and> (h ! a = OCow c (Some t)
         \<or> c = None \<and> (t = a \<and> \<not> is_cow (h ! a) \<or> h ! a = OCow (Some t) None)))"
proof (cases "h ! a")
  case (OCow c p)
  then show ?thesis using assms by (cases c; cases p) (auto simp: obj_copy_def new_obj_def)
qed (use assms in \<open>auto simp: obj_copy_def new_obj_def split: if_splits\<close>)

lemma copy_keeps:
  assumes "heap_ok h" "a < length h" "obj_copy a h = Some (b, h')"
  shows "keeps h (Some b) h'"
proof (cases "b = a \<and> h' = h")
  case True
  then show ?thesis using assms(2) keeps_refl [OF assms(1), of "Some a"] by simp
next
  case False
  then obtain c t where "b = length h" "h' = h @ [OCow c (Some t)]"
    and *: "h ! a = OCow c (Some t) \<or> c = None \<and> (t = a \<and> \<not> is_cow (h ! a) \<or> h ! a = OCow (Some t) None)"
    using copy_eq [OF assms(3)] by auto
  moreover have "obj_ok h (OCow c (Some t))" using * heap_ok_nth [OF assms(1,2)] assms(2) by auto
  ultimately show ?thesis using new_keeps [OF assms(1)] by simp
qed

lemma ptrs_later: "Ball A (ptr_ok h) \<Longrightarrow> later h h' \<Longrightarrow> Ball A (ptr_ok h')"
  using ptr_later by blast

lemma copy_elems_keeps:
  assumes "copy_elems l h = Some (l', h')" "heap_ok h" "Ball (set l) (ptr_ok h)"
  shows "heap_ok h' \<and> later h h' \<and> Ball (set l') (ptr_ok h')"
  using assms
proof (induction l h arbitrary: l' h' rule: copy_elems.induct)
  case (3 a l h)
  obtain b h1 l1 where *: "obj_copy a h = Some (b, h1)" "copy_elems l h1 = Some (l1, h')" "l' = Some b # l1"
    using "3.prems"(1) by (auto split: Option.bind_splits)
  have k: "keeps h (Some b) h1" using copy_keeps [OF "3.prems"(2) _ *(1)] "3.prems"(3) by simp
  have "Ball (set l) (ptr_ok h1)" using "3.prems"(3) k ptrs_later [of "set l" h h1] by (simp add: keeps_def)
  then have "heap_ok h' \<and> later h1 h' \<and> Ball (set l1) (ptr_ok h')"
    using "3.IH" [OF *(1) refl *(2)] k by (simp add: keeps_def)
  then show ?case using k *(3) ptr_later [of h1 "Some b" h'] later_trans [of h h1 h'] by (simp add: keeps_def)
qed auto

lemma update_ptrs: "Ball (snd ` set t) P \<Longrightarrow> P v \<Longrightarrow> Ball (snd ` set (AList.update k v t)) P"
  by (induction t) auto

lemma delete_ptrs: "Ball (snd ` set t) P \<Longrightarrow> Ball (snd ` set (AList.delete k t)) P"
  by (auto simp: AList.delete_eq)

lemma copy_entries_keeps:
  assumes "copy_entries d t h = Some (t', h')" "heap_ok h" "Ball (snd ` set d) (ptr_ok h)" "Ball (snd ` set t) (ptr_ok h)"
  shows "heap_ok h' \<and> later h h' \<and> Ball (snd ` set t') (ptr_ok h')"
  using assms
proof (induction d t h arbitrary: t' h' rule: copy_entries.induct)
  case (2 k d t h)
  show ?case using "2.IH" [OF _ "2.prems"(2)] "2.prems"(1,3) update_ptrs [OF "2.prems"(4), of None k] by simp
next
  case (3 k a d t h)
  obtain b h1 where *: "obj_copy a h = Some (b, h1)" "copy_entries d (AList.update k (Some b) t) h1 = Some (t', h')"
    using "3.prems"(1) by (auto split: Option.bind_splits)
  have k: "heap_ok h1" "later h h1" "ptr_ok h1 (Some b)"
    using copy_keeps [OF "3.prems"(2) _ *(1)] "3.prems"(3) by (simp_all add: keeps_def)
  have "Ball (snd ` set (AList.update k (Some b) t)) (ptr_ok h1)"
    using update_ptrs [OF ptrs_later [OF "3.prems"(4) k(2)] k(3)] .
  moreover have "Ball (snd ` set d) (ptr_ok h1)" using ptr_later [OF _ k(2)] "3.prems"(3) by auto
  ultimately have "heap_ok h' \<and> later h1 h' \<and> Ball (snd ` set t') (ptr_ok h')" using "3.IH" [OF *(1) refl *(2) k(1)] by simp
  then show ?case using k later_trans [of h h1 h'] by simp
qed auto

lemma fill_keeps:
  assumes "heap_ok h" "later (h @ [x]) h1" "heap_ok h1" "obj_ok h1 y" "\<not> is_cow x" "\<not> is_cow y"
  shows "keeps h (Some (length h)) (h1[length h := y])"
proof -
  have "\<not> is_cow (h1 ! length h)" using assms(2,5) by (auto simp: later_def nth_append)
  then have "heap_ok (h1[length h := y])" "later h1 (h1[length h := y])" using assms ok_upd later_upd by metis+
  moreover have "later h h1" using later_trans [OF later_append assms(2)] .
  ultimately show ?thesis using later_trans later_length [OF assms(2)] by (auto simp: keeps_def)
qed

text \<open>The copy of a container is a new container.\<close>

lemma deep_copy_keeps:
  assumes "heap_ok h" "Ball (set l) (ptr_ok h)" "deep_copy l h = Some (b, h')"
  shows "b = length h" "keeps h (Some b) h'" "\<exists>l'. h' ! b = OList (- 1) l'"
proof -
  obtain l1 h1 where *: "copy_elems l (h @ [OList (- 1) []]) = Some (l1, h1)" "b = length h" "h' = h1[length h := OList (- 1) l1]"
    using assms(3) by (auto simp: deep_copy_def list_alloc_def new_obj_def split: Option.bind_splits)
  have "Ball (set l) (ptr_ok (h @ [OList (- 1) []]))" using ptrs_later [OF assms(2) later_append] .
  then have k: "heap_ok h1" "later (h @ [OList (- 1) []]) h1" "Ball (set l1) (ptr_ok h1)"
    using copy_elems_keeps [OF *(1) ok_append] assms(1) by simp_all
  then show "b = length h" "keeps h (Some b) h'" "\<exists>l'. h' ! b = OList (- 1) l'"
    using fill_keeps [OF assms(1) k(2,1), of "OList (- 1) l1"] later_length [OF k(2)] * by simp_all
qed

lemma copy_dict_keeps:
  assumes "heap_ok h" "Ball (snd ` set d) (ptr_ok h)" "copy_dict E d h = Some (b, h')"
  shows "b = length h" "keeps h (Some b) h'" "\<exists>d'. h' ! b = ODict (pe_ln0 E) d'"
proof -
  obtain d1 h1 where *: "copy_entries d [] (h @ [ODict (pe_ln0 E) []]) = Some (d1, h1)" "b = length h" "h' = h1[length h := ODict (pe_ln0 E) d1]"
    using assms(3) by (auto simp: copy_dict_def dict_alloc_def new_obj_def split: Option.bind_splits)
  have "Ball (snd ` set d) (ptr_ok (h @ [ODict (pe_ln0 E) []]))" using ptrs_later [OF assms(2) later_append] .
  then have k: "heap_ok h1" "later (h @ [ODict (pe_ln0 E) []]) h1" "Ball (snd ` set d1) (ptr_ok h1)"
    using copy_entries_keeps [OF *(1) ok_append] assms(1) by simp_all
  then show "b = length h" "keeps h (Some b) h'" "\<exists>d'. h' ! b = ODict (pe_ln0 E) d'"
    using fill_keeps [OF assms(1) k(2,1), of "ODict (pe_ln0 E) d1"] later_length [OF k(2)] * by simp_all
qed

lemma cow_copy_keeps:
  assumes "heap_ok h" "a < length h" "\<not> is_cow (h ! a)" "cow_copy E a h = Some (p, h')"
  shows "keeps h p h' \<and> tgt_ok h' p \<and> (p = None \<or> p = Some a \<and> h' = h \<and> (\<exists>x. h ! a = Leaf x) \<or> p = Some (length h))"
proof (cases "h ! a")
  case (Leaf x)
  then show ?thesis using assms by (auto simp: cow_copy_def keeps_def split: if_splits)
next
  case (OList ln l)
  then show ?thesis using heap_ok_nth [OF assms(1,2)] deep_copy_keeps [OF assms(1), of l] assms(4)
    by (fastforce simp: cow_copy_def keeps_def split: Option.bind_splits)
next
  case (ODict ln d)
  then show ?thesis using heap_ok_nth [OF assms(1,2)] copy_dict_keeps [OF assms(1), of d E] assms(4)
    by (fastforce simp: cow_copy_def keeps_def split: Option.bind_splits)
qed (use assms in simp)

lemma mutable_keeps:
  assumes "heap_ok h" "a < length h" "mutable_ptr E a h = Some (p, h')"
  shows "keeps h p h' \<and> tgt_ok h' p"
proof (cases "\<exists>c b. h ! a = OCow c (Some b)")
  case True
  then obtain b where b: "h ! a = OCow None (Some b)" "b < length h" "\<not> is_cow (h ! b)" using heap_ok_nth [OF assms(1,2)] by auto
  obtain h1 where 1: "cow_copy E b h = Some (p, h1)" "h' = h1[a := OCow p None]"
    using assms(3) b(1) by (auto simp: mutable_ptr_def split: Option.bind_splits)
  have k: "heap_ok h1" "later h h1" "tgt_ok h1 p" "ptr_ok h1 p" using cow_copy_keeps [OF assms(1) b(2,3) 1(1)] by (simp_all add: keeps_def)
  have c: "is_cow (h1 ! a)" using k(2) b(1) assms(2) by (auto simp: later_def)
  have "later h1 h'" using later_upd [of "OCow p None" h1 a] c 1(2) by simp
  moreover have "heap_ok h'" using ok_upd [OF k(1), of "OCow p None" a] k(3) c 1(2) by simp
  ultimately show ?thesis using k later_trans tgt_later ptr_later by (auto simp: keeps_def)
next
  case False
  then show ?thesis using assms heap_ok_nth [OF assms(1,2)]
    by (auto simp: mutable_ptr_def keeps_def tgt_ok_def ptr_ok_def split: heap_obj.splits option.splits)
qed

section \<open>Copies protect the original\<close>

text \<open>Operations that write through an object, as service code and the evaluator do.\<close>

datatype obj_write = W_set int "nat option" | W_push "nat option" | W_insert string "nat option" | W_remove string

definition write_through :: "'d pv_env \<Rightarrow> nat \<Rightarrow> obj_write \<Rightarrow> 'd heap \<Rightarrow> 'd heap option" where
  "write_through E c w h =
     (case w of
        W_set i v \<Rightarrow> do { (l, h) \<leftarrow> to_list_mut E c h; Some (case l of None \<Rightarrow> h | Some l \<Rightarrow> obj_list_set l i v h) }
      | W_push v \<Rightarrow> do { (l, h) \<leftarrow> to_list_mut E c h; Some (case l of None \<Rightarrow> h | Some l \<Rightarrow> obj_push_back l v h) }
      | W_insert k v \<Rightarrow> do { (d, h) \<leftarrow> to_dict_mut E c h; Some (case d of None \<Rightarrow> h | Some d \<Rightarrow> obj_insert d k v h) }
      | W_remove k \<Rightarrow> do { (d, h) \<leftarrow> to_dict_mut E c h; Some (case d of None \<Rightarrow> h | Some d \<Rightarrow> obj_remove d k h) })"

fun writes :: "'d pv_env \<Rightarrow> nat \<Rightarrow> obj_write list \<Rightarrow> 'd heap \<Rightarrow> 'd heap option" where
  "writes E c [] h = Some h"
| "writes E c (w # ws) h = do { h \<leftarrow> write_through E c w h; writes E c ws h }"

definition same_upto :: "nat \<Rightarrow> 'd heap \<Rightarrow> 'd heap \<Rightarrow> bool" where
  "same_upto n h h' \<longleftrightarrow> length h \<le> length h' \<and> (\<forall>b < n. h' ! b = h ! b)"

lemma same_refl [simp]: "same_upto n h h" by (simp add: same_upto_def)

lemma same_trans [trans]: "same_upto n h h1 \<Longrightarrow> same_upto n h1 h2 \<Longrightarrow> same_upto n h h2"
  by (simp add: same_upto_def)

lemma same_append: "n \<le> length h \<Longrightarrow> same_upto n h (h @ xs)"
  by (simp add: same_upto_def nth_append)

lemma same_upd: "n \<le> a \<Longrightarrow> same_upto n h h' \<Longrightarrow> same_upto n h (h'[a := x])"
  by (simp add: same_upto_def)

lemma same_less: "same_upto m h h' \<Longrightarrow> n \<le> m \<Longrightarrow> same_upto n h h'"
  by (simp add: same_upto_def)

lemma copy_same: "obj_copy a h = Some (b, h') \<Longrightarrow> same_upto (length h) h h'"
  using copy_eq same_append by fastforce

lemma copy_elems_same: "copy_elems l h = Some (l', h') \<Longrightarrow> same_upto (length h) h h'"
proof (induction l h arbitrary: l' h' rule: copy_elems.induct)
  case (3 a l h)
  then obtain b h1 l1 where *: "obj_copy a h = Some (b, h1)" "copy_elems l h1 = Some (l1, h')"
    by (auto split: Option.bind_splits)
  have "same_upto (length h) h1 h'" using "3.IH" [OF *(1) refl *(2)] same_less copy_same [OF *(1)] by (auto simp: same_upto_def)
  then show ?case using copy_same [OF *(1)] same_trans by blast
qed auto

lemma copy_entries_same: "copy_entries d t h = Some (t', h') \<Longrightarrow> same_upto (length h) h h'"
proof (induction d t h arbitrary: t' h' rule: copy_entries.induct)
  case (3 k a d t h)
  then obtain b h1 where *: "obj_copy a h = Some (b, h1)" "copy_entries d (AList.update k (Some b) t) h1 = Some (t', h')"
    by (auto split: Option.bind_splits)
  have "same_upto (length h) h1 h'" using "3.IH" [OF *(1) refl *(2)] same_less copy_same [OF *(1)] by (auto simp: same_upto_def)
  then show ?case using copy_same [OF *(1)] same_trans by blast
qed auto

lemma fill_same: "same_upto (length (h @ [x])) (h @ [x]) h1 \<Longrightarrow> same_upto (length h) h (h1[length h := y])"
  by (auto simp: same_upto_def nth_append)

lemma cow_copy_same:
  assumes "cow_copy E a h = Some (p, h')" "a < length h"
  shows "same_upto (length h) h h'" "p = Some b \<Longrightarrow> b < length h' \<and> (length h \<le> b \<or> (\<exists>x. h' ! b = Leaf x))"
proof -
  have "same_upto (length h) h h' \<and> (p = Some b \<longrightarrow> b < length h' \<and> (length h \<le> b \<or> (\<exists>x. h' ! b = Leaf x)))"
  proof (cases "h ! a")
    case (OList ln l)
    then obtain l1 h1 where *: "copy_elems l (h @ [OList (- 1) []]) = Some (l1, h1)" "p = Some (length h)" "h' = h1[length h := OList (- 1) l1]"
      using assms by (auto simp: cow_copy_def deep_copy_def list_alloc_def new_obj_def split: Option.bind_splits)
    then show ?thesis using fill_same [of h "OList (- 1) []" h1] copy_elems_same [OF *(1)] by (auto simp: same_upto_def)
  next
    case (ODict ln d)
    then obtain d1 h1 where *: "copy_entries d [] (h @ [ODict (pe_ln0 E) []]) = Some (d1, h1)" "p = Some (length h)" "h' = h1[length h := ODict (pe_ln0 E) d1]"
      using assms by (auto simp: cow_copy_def copy_dict_def dict_alloc_def new_obj_def split: Option.bind_splits)
    then show ?thesis using fill_same [of h "ODict (pe_ln0 E) []" h1] copy_entries_same [OF *(1)] by (auto simp: same_upto_def)
  next
    case (OCow c q)
    then obtain b' where "obj_copy a h = Some (b', h')" "p = Some b'" using assms by (auto simp: cow_copy_def split: Option.bind_splits)
    then show ?thesis using copy_same copy_eq [of a h b' h'] OCow by fastforce
  next
    case (Leaf x)
    then show ?thesis using assms by (auto simp: cow_copy_def split: if_splits)
  qed
  then show "same_upto (length h) h h'" "p = Some b \<Longrightarrow> b < length h' \<and> (length h \<le> b \<or> (\<exists>x. h' ! b = Leaf x))" by auto
qed

text \<open>An object whose writes go to objects from \<open>n\<close> on only.\<close>

definition owned :: "nat \<Rightarrow> nat \<Rightarrow> 'd heap \<Rightarrow> bool" where
  "owned n c h \<longleftrightarrow> n \<le> length h \<and> c < length h \<and>
     (case h ! c of
        OCow p (Some t) \<Rightarrow> n \<le> c \<and> t < length h
      | OCow (Some b) None \<Rightarrow> b < length h \<and> (n \<le> b \<or> (\<exists>x. h ! b = Leaf x))
      | OCow None None \<Rightarrow> True
      | Leaf x \<Rightarrow> True
      | _ \<Rightarrow> n \<le> c)"

lemma owned_mutable:
  assumes "owned n c h" "mutable_ptr E c h = Some (p, h')"
  shows "owned n c h' \<and> same_upto n h h' \<and> (p = Some b \<longrightarrow> b < length h' \<and> (n \<le> b \<or> (\<exists>x. h' ! b = Leaf x)))"
proof (cases "\<exists>q t. h ! c = OCow q (Some t)")
  case True
  then obtain t h1 where *: "h ! c = OCow None (Some t)" "cow_copy E t h = Some (p, h1)" "h' = h1[c := OCow p None]"
    using assms(2) by (auto simp: mutable_ptr_def split: Option.bind_splits if_splits)
  have n: "n \<le> c" "c < length h" "n \<le> length h" "t < length h" using assms(1) *(1) by (auto simp: owned_def)
  have s: "same_upto n h h1" using cow_copy_same(1) [OF *(2) n(4)] same_less n(3) by blast
  have p: "b < length h1 \<and> (n \<le> b \<or> (\<exists>x. h1 ! b = Leaf x))" if "p = Some b" for b using cow_copy_same(2) [OF *(2) n(4) that] n(3) by auto
  have c: "h1 ! c = h ! c" "length h \<le> length h1" using cow_copy_same(1) [OF *(2) n(4)] n(2) by (auto simp: same_upto_def)
  have "b \<noteq> c" if "h1 ! b = Leaf x" for b x using that c(1) *(1) by auto
  then have q: "b < length h' \<and> (n \<le> b \<or> (\<exists>x. h' ! b = Leaf x))" if "p = Some b" for b
    using p [OF that] *(3) by (metis length_list_update nth_list_update_neq)
  have "same_upto n h h'" using s n(1) same_upd *(3) by blast
  moreover have "h' ! c = OCow p None" "length h' = length h1" using *(3) n(2) c(2) by simp_all
  ultimately show ?thesis using q n c(2) by (cases p) (auto simp: owned_def)
next
  case False
  then show ?thesis using assms by (auto simp: mutable_ptr_def owned_def split: heap_obj.splits option.splits)
qed

lemma cell_write_same:
  assumes "n \<le> a" "n \<le> length h"
  shows "same_upto n h (obj_list_set a i v h)" "same_upto n h (obj_push_back a v h)" "same_upto n h (obj_insert a k v h)"
    "same_upto n h (obj_remove a k h)"
  using assms same_append [OF assms(2)]
  by (auto simp: obj_list_set_def obj_push_back_def obj_insert_def obj_remove_def safe_obj_def new_obj_def Let_def
      intro!: same_upd split: heap_obj.splits option.splits bool.splits prod.splits)

text \<open>A write changes one container and keeps its kind.\<close>

definition one_cell :: "nat \<Rightarrow> 'd heap \<Rightarrow> 'd heap \<Rightarrow> bool" where
  "one_cell a h h' \<longleftrightarrow> length h \<le> length h' \<and> (\<forall>b < length h. b \<noteq> a \<longrightarrow> h' ! b = h ! b)
     \<and> (a < length h \<longrightarrow> h' ! a = h ! a \<or> (\<exists>ln l l'. h ! a = OList ln l \<and> h' ! a = OList ln l') \<or> (\<exists>ln d d'. h ! a = ODict ln d \<and> h' ! a = ODict ln d'))"

lemma cell_write_one:
  "one_cell a h (obj_list_set a i v h)" "one_cell a h (obj_push_back a v h)" "one_cell a h (obj_insert a k v h)" "one_cell a h (obj_remove a k h)"
  by (auto simp: one_cell_def obj_list_set_def obj_push_back_def obj_insert_def obj_remove_def safe_obj_def new_obj_def Let_def
      nth_append nth_list_update split: heap_obj.splits option.splits bool.splits prod.splits)

lemma owned_one:
  assumes "owned n c h" "one_cell a h h'"
  shows "owned n c h'"
proof (cases "a = c")
  case True
  then show ?thesis using assms by (cases "h ! c") (auto simp: owned_def one_cell_def split: option.splits)
next
  case False
  then have c: "h' ! c = h ! c" "length h \<le> length h'" using assms by (auto simp: owned_def one_cell_def)
  have "h' ! b = Leaf x" if "h ! b = Leaf x" "b < length h" for b x using that assms(2) by (auto simp: one_cell_def)
  then show ?thesis using assms(1) c by (cases "h ! c") (fastforce simp: owned_def split: option.splits)+
qed

lemma write_owned:
  assumes "owned n c h" "write_through E c w h = Some h'"
  shows "owned n c h' \<and> same_upto n h h'"
proof -
  obtain p h1 where m: "mutable_ptr E c h = Some (p, h1)"
    using assms(2) by (auto simp: write_through_def to_list_mut_def to_dict_mut_def split: obj_write.splits Option.bind_splits)
  have o1: "owned n c h1" "same_upto n h h1" "n \<le> length h1"
    using owned_mutable [OF assms(1) m] by (auto simp: owned_def)
  have l: "n \<le> a" if "Option.bind p (list_at h1) = Some a" for a
    using that owned_mutable [OF assms(1) m, of a] by (cases p) (auto dest!: list_at_ok)
  have d: "n \<le> a" if "Option.bind p (dict_at h1) = Some a" for a
    using that owned_mutable [OF assms(1) m, of a] by (cases p) (auto dest!: dict_at_ok)
  have "h' = h1 \<or> (\<exists>a. one_cell a h1 h' \<and> same_upto n h1 h')"
    using assms(2) m l d cell_write_same [OF _ o1(3)]
    by (cases w) (auto simp: write_through_def to_list_mut_def to_dict_mut_def intro: cell_write_one split: option.splits)
  then show ?thesis using o1 owned_one same_trans by blast
qed

lemma writes_owned: "owned n c h \<Longrightarrow> writes E c ws h = Some h' \<Longrightarrow> owned n c h' \<and> same_upto n h h'"
proof (induction ws arbitrary: h)
  case (Cons w ws)
  then obtain h1 where "write_through E c w h = Some h1" "writes E c ws h1 = Some h'" by (auto split: Option.bind_splits)
  then show ?case using Cons write_owned same_trans by metis
qed simp

lemma copy_owned:
  assumes "heap_ok h" "a < length h" "obj_copy a h = Some (c, h')"
  shows "owned (length h) c h'"
  using copy_eq [OF assms(3)]
proof (elim disjE conjE exE)
  fix x assume "h ! a = Leaf x" "c = a" "h' = h"
  then show ?thesis using assms by (simp add: owned_def)
next
  fix p t assume "c = length h" "h' = h @ [OCow p (Some t)]" "h ! a = OCow p (Some t)"
  then show ?thesis using heap_ok_nth [OF assms(1,2)] by (simp add: owned_def split: option.split)
next
  fix p t assume "c = length h" "h' = h @ [OCow p (Some t)]" "t = a"
  then show ?thesis using assms by (simp add: owned_def split: option.split)
next
  fix p t assume "c = length h" "h' = h @ [OCow p (Some t)]" "h ! a = OCow (Some t) None"
  then show ?thesis using heap_ok_nth [OF assms(1,2)] by (simp add: owned_def split: option.split)
qed

lemma those_cong: "(\<And>x. x \<in> set l \<Longrightarrow> f x = g x) \<Longrightarrow> those (map f l) = those (map g l)"
  using map_cong [OF refl] by metis

lemma reify_same:
  assumes "heap_ok h" "same_upto (length h) h h'" "a < length h"
  shows "reify n h' a = reify n h a"
  using assms(3)
proof (induction n arbitrary: a)
  case (Suc n)
  have c: "h' ! a = h ! a" using assms(2) Suc.prems by (simp add: same_upto_def)
  have ok: "obj_ok h (h ! a)" using heap_ok_nth [OF assms(1) Suc.prems] .
  have p: "(case p of None \<Rightarrow> Some None | Some b \<Rightarrow> map_option Some (reify n h' b)) = (case p of None \<Rightarrow> Some None | Some b \<Rightarrow> map_option Some (reify n h b))"
    if "ptr_ok h p" for p using that Suc.IH by (cases p) auto
  show ?case
  proof (cases "h ! a")
    case (OList ln l)
    then show ?thesis using those_cong [OF p, of l] ok c by simp
  next
    case (ODict ln d)
    have "those (map (\<lambda>(k, p). map_option (Pair k) (case p of None \<Rightarrow> Some None | Some b \<Rightarrow> map_option Some (reify n h' b))) d)
       = those (map (\<lambda>(k, p). map_option (Pair k) (case p of None \<Rightarrow> Some None | Some b \<Rightarrow> map_option Some (reify n h b))) d)"
      using p ok ODict by (intro those_cong) force
    then show ?thesis using ODict c by simp
  qed (use c Suc.IH ok in \<open>auto split: option.splits\<close>)
qed simp


section \<open>Objects implement values\<close>

definition reads :: "'d heap \<Rightarrow> nat \<Rightarrow> 'd expr_t \<Rightarrow> bool" where
  "reads h a x \<longleftrightarrow> (\<exists>n. reify n h a = Some x)"

abbreviation reify_ptr :: "nat \<Rightarrow> 'd heap \<Rightarrow> nat option \<Rightarrow> 'd expr_t option option" where
  "reify_ptr n h p \<equiv> (case p of None \<Rightarrow> Some None | Some b \<Rightarrow> map_option Some (reify n h b))"

definition reads_ptr :: "'d heap \<Rightarrow> nat option \<Rightarrow> 'd expr_t option \<Rightarrow> bool" where
  "reads_ptr h p v = (case p of None \<Rightarrow> v = None | Some b \<Rightarrow> (\<exists>x. v = Some x \<and> reads h b x))"

lemma those_iff: "those (map f l) = Some r \<longleftrightarrow> list_all2 (\<lambda>x y. f x = Some y) l r"
  by (induction l arbitrary: r) (auto simp: list_all2_Cons1 split: option.splits)

lemma those_mono:
  assumes "those (map f l) = Some r" "\<And>x y. x \<in> set l \<Longrightarrow> f x = Some y \<Longrightarrow> g x = Some y"
  shows "those (map g l) = Some r"
  using assms unfolding those_iff by (auto simp: list_all2_conv_all_nth)

lemma reify_mono: "reify n h a = Some x \<Longrightarrow> n \<le> m \<Longrightarrow> reify m h a = Some x"
proof (induction n arbitrary: m a x)
  case (Suc n)
  then obtain k where k: "m = Suc k" "n \<le> k" by (cases m) auto
  have p: "reify_ptr k h p = Some y" if "reify_ptr n h p = Some y" for p y
    using that Suc.IH [OF _ k(2)] by (cases p) auto
  show ?case
  proof (cases "h ! a")
    case (OList ln l)
    then show ?thesis using Suc.prems k(1) those_mono [OF _ p] by auto
  next
    case (ODict ln d)
    then obtain r where r: "those (map (\<lambda>(k, p). map_option (Pair k) (reify_ptr n h p)) d) = Some r" "x = expr_dict_t ln r"
      using Suc.prems by auto
    have "those (map (\<lambda>(c, p). map_option (Pair c) (reify_ptr k h p)) d) = Some r"
      using p by (intro those_mono [OF r(1)]) auto
    then show ?thesis using ODict k(1) r(2) by simp
  qed (use Suc.prems(1) Suc.IH [OF _ k(2)] k(1) in \<open>auto split: option.splits\<close>)
qed simp

lemma reads_unique: "reads h a x \<Longrightarrow> reads h a y \<Longrightarrow> x = y"
proof -
  assume "reads h a x" "reads h a y"
  then obtain n m where "reify n h a = Some x" "reify m h a = Some y" by (auto simp: reads_def)
  then have "reify (max n m) h a = Some x" "reify (max n m) h a = Some y" using reify_mono by (metis max.cobounded1 max.cobounded2)+
  then show "x = y" by simp
qed

lemma common_fuel:
  assumes "list_all2 (reads_ptr h) l vs"
  shows "\<exists>n. list_all2 (\<lambda>p v. reify_ptr n h p = Some v) l vs"
  using assms
proof (induction l vs rule: list_all2_induct)
  case (Cons p l v vs)
  then obtain n where n: "list_all2 (\<lambda>p v. reify_ptr n h p = Some v) l vs" by auto
  obtain m where m: "reify_ptr m h p = Some v" using Cons.hyps(1) by (auto simp: reads_ptr_def reads_def split: option.splits)
  have up: "reify_ptr (max n m) h q = Some w" if "reify_ptr k h q = Some w" "k \<le> max n m" for k q w
    using that(1) reify_mono [OF _ that(2), of h] by (cases q) auto
  have "list_all2 (\<lambda>p v. reify_ptr (max n m) h p = Some v) l vs" by (rule list_all2_mono [OF n]) (rule up, auto)
  moreover have "reify_ptr (max n m) h p = Some v" using up [OF m] by simp
  ultimately show ?case by blast
qed simp

lemma reads_ptr_eq: "reads_ptr h p v \<longleftrightarrow> (\<exists>n. reify_ptr n h p = Some v)"
  by (cases p) (auto simp: reads_ptr_def reads_def)

lemma ptrs_fuel: "list_all2 (reads_ptr h) l vs \<longleftrightarrow> (\<exists>n. list_all2 (\<lambda>p v. reify_ptr n h p = Some v) l vs)"
proof
  assume "\<exists>n. list_all2 (\<lambda>p v. reify_ptr n h p = Some v) l vs"
  then obtain n where "list_all2 (\<lambda>p v. reify_ptr n h p = Some v) l vs" ..
  then show "list_all2 (reads_ptr h) l vs" by (rule list_all2_mono) (auto simp: reads_ptr_eq)
qed (rule common_fuel)

lemma reads_Suc: "reads h a x \<longleftrightarrow> (\<exists>n. reify (Suc n) h a = Some x)"
proof
  assume "reads h a x"
  then obtain n where "reify n h a = Some x" by (auto simp: reads_def)
  then show "\<exists>n. reify (Suc n) h a = Some x" using reify_mono le_SucI by blast
qed (auto simp: reads_def simp del: reify.simps)

text \<open>The value of an object from the values of those it points to.\<close>

lemma reads_list: "h ! a = OList ln l \<Longrightarrow> reads h a y \<longleftrightarrow> (\<exists>vs. y = expr_list_t ln vs \<and> list_all2 (reads_ptr h) l vs)"
proof -
  assume c: "h ! a = OList ln l"
  then show ?thesis unfolding reads_Suc ptrs_fuel by (auto simp: those_iff)
qed

lemma dict_fuel: "those (map (\<lambda>(k, p). map_option (Pair k) (f p)) d) = Some vs \<longleftrightarrow> map fst d = map fst vs \<and> list_all2 (\<lambda>p v. f p = Some v) (map snd d) (map snd vs)"
  unfolding those_iff by (induction d arbitrary: vs) (auto simp: list_all2_Cons1 list_all2_Cons2 Cons_eq_map_conv)

lemma reads_dict:
  "h ! a = ODict ln d \<Longrightarrow> reads h a y \<longleftrightarrow> (\<exists>vs. y = expr_dict_t ln vs \<and> map fst d = map fst vs \<and> list_all2 (reads_ptr h) (map snd d) (map snd vs))"
proof -
  assume c: "h ! a = ODict ln d"
  then show ?thesis unfolding reads_Suc ptrs_fuel by (auto simp: dict_fuel)
qed

lemma reads_other:
  "h ! a = Leaf x \<Longrightarrow> reads h a y \<longleftrightarrow> y = x"
  "h ! a = OCow None (Some b) \<Longrightarrow> reads h a y \<longleftrightarrow> (\<exists>x. y = expr_cow_t x \<and> reads h b x)"
  "h ! a = OCow (Some b) q \<Longrightarrow> reads h a y \<longleftrightarrow> (\<exists>x. y = expr_cow_t x \<and> reads h b x)"
  "h ! a = OCow None None \<Longrightarrow> \<not> reads h a y"
  by (auto simp: reads_Suc [of h a]) (auto simp: reads_def)

text \<open>The pointers a reader of an object follows, and the objects it comes to.\<close>

definition ptrs :: "'d heap_obj \<Rightarrow> nat set" where
  "ptrs x =
     (case x of
        Leaf v \<Rightarrow> {}
      | OList ln l \<Rightarrow> {b. Some b \<in> set l}
      | ODict ln d \<Rightarrow> {b. Some b \<in> snd ` set d}
      | OCow (Some b) q \<Rightarrow> {b}
      | OCow None q \<Rightarrow> set_option q)"

inductive sees :: "'d heap \<Rightarrow> nat \<Rightarrow> nat \<Rightarrow> bool" for h where
  sees_self: "sees h a a"
| sees_step: "b \<in> ptrs (h ! a) \<Longrightarrow> sees h b c \<Longrightarrow> sees h a c"

lemma reify_upd: "\<not> sees h b a \<Longrightarrow> reify n (h[a := y]) b = reify n h b"
proof (induction n arbitrary: b)
  case (Suc n)
  have "b \<noteq> a" using Suc.prems sees_self by metis
  then have c: "h[a := y] ! b = h ! b" by simp
  have p: "reify n (h[a := y]) q = reify n h q" if "q \<in> ptrs (h ! b)" for q
    using that Suc.IH Suc.prems sees_step by metis
  then have q: "reify_ptr n (h[a := y]) r = reify_ptr n h r" if "set_option r \<subseteq> ptrs (h ! b)" for r
    using that by (cases r) auto
  show ?case
  proof (cases "h ! b")
    case (OList ln l)
    then have "those (map (reify_ptr n (h[a := y])) l) = those (map (reify_ptr n h) l)"
      by (intro those_cong q) (auto simp: ptrs_def)
    then show ?thesis using c OList by simp
  next
    case (ODict ln d)
    have "those (map (\<lambda>(k, p). map_option (Pair k) (reify_ptr n (h[a := y]) p)) d) = those (map (\<lambda>(k, p). map_option (Pair k) (reify_ptr n h p)) d)"
    proof (rule those_cong)
      fix e assume "e \<in> set d"
      then have "set_option (snd e) \<subseteq> ptrs (h ! b)" using ODict by (force simp: ptrs_def)
      then show "(case e of (k, p) \<Rightarrow> map_option (Pair k) (reify_ptr n (h[a := y]) p)) = (case e of (k, p) \<Rightarrow> map_option (Pair k) (reify_ptr n h p))"
        using q by (cases e) simp
    qed
    then show ?thesis using c ODict by simp
  qed (use c p in \<open>auto simp: ptrs_def split: option.splits\<close>)
qed simp

lemma reads_upd: "\<not> sees h b a \<Longrightarrow> reads (h[a := y]) b x \<longleftrightarrow> reads h b x"
  by (simp add: reads_def reify_upd)

lemma reify_child:
  assumes "reify (Suc n) h a = Some x" "b \<in> ptrs (h ! a)"
  shows "\<exists>y. reify n h b = Some y"
proof (cases "h ! a")
  case (OList ln l)
  then obtain vs where "list_all2 (\<lambda>p v. reify_ptr n h p = Some v) l vs" using assms(1) by (auto simp: those_iff)
  moreover have "Some b \<in> set l" using assms(2) OList by (simp add: ptrs_def)
  ultimately show ?thesis unfolding list_all2_conv_all_nth in_set_conv_nth by fastforce
next
  case (ODict ln d)
  then obtain vs where "list_all2 (\<lambda>p v. reify_ptr n h p = Some v) (map snd d) vs" using assms(1) by (auto simp: dict_fuel)
  moreover have "Some b \<in> set (map snd d)" using assms(2) ODict by (auto simp: ptrs_def)
  ultimately show ?thesis unfolding list_all2_conv_all_nth in_set_conv_nth by fastforce
qed (use assms in \<open>auto simp: ptrs_def split: option.splits\<close>)

lemma reify_sees: "sees h b a \<Longrightarrow> reify n h b = Some x \<Longrightarrow> \<exists>y. reify n h a = Some y"
proof (induction arbitrary: n x rule: sees.induct)
  case (sees_step b a c)
  then obtain m where m: "n = Suc m" by (cases n) auto
  then obtain y where "reify m h b = Some y" using reify_child sees_step by metis
  then show ?case using sees_step.IH m reify_mono le_SucI by blast
qed auto

lemma no_cycle:
  assumes "reads h a x" "b \<in> ptrs (h ! a)"
  shows "\<not> sees h b a"
proof
  assume s: "sees h b a"
  have "\<exists>n x. reify n h a = Some x" using assms(1) by (auto simp: reads_def)
  then obtain n x where n: "reify n h a = Some x" and least: "\<And>m. m < n \<Longrightarrow> \<nexists>x. reify m h a = Some x"
    using exists_least_iff [of "\<lambda>n. \<exists>x. reify n h a = Some x"] by blast
  then obtain m where m: "n = Suc m" by (cases n) auto
  then obtain y where "reify m h b = Some y" using reify_child n assms(2) by metis
  then show False using reify_sees [OF s] least [of m] m by blast
qed

lemma reads_ptrs_upd:
  assumes "list_all2 (reads_ptr h) l vs" "\<And>b. Some b \<in> set l \<Longrightarrow> \<not> sees h b a"
  shows "list_all2 (reads_ptr (h[a := y])) l vs"
proof -
  have "reads_ptr (h[a := y]) p v" if "p \<in> set l" "reads_ptr h p v" for p v
    using that assms(2) reads_upd by (fastforce simp: reads_ptr_def split: option.splits)
  then show ?thesis using assms(1) by (simp add: list_all2_conv_all_nth)
qed

lemma list_writes:
  assumes "a < length h" "h ! a = OList ln l" "reads h a (expr_list_t ln vs)" "reads h v w" "\<not> sees h v a"
  shows "reads (obj_list_set a i (Some v) h) a (expr_list_t ln (list_set vs i (Some w)))"
    "reads (obj_push_back a (Some v) h) a (expr_list_t ln (push_back vs (Some w)))"
proof -
  have l: "list_all2 (reads_ptr h) l vs" using assms(2,3) by (auto simp: reads_list)
  have len: "length l = length vs" using l by (rule list_all2_lengthD)
  have v: "reads_ptr h (Some v) (Some w)" using assms(4) by (simp add: reads_ptr_def)
  have ns: "\<not> sees h b a" if "Some b \<in> insert (Some v) (set l)" for b
    using that assms(2,5) no_cycle [OF assms(3), of b] by (auto simp: ptrs_def)
  have upd: "reads (h[a := OList ln l']) a (expr_list_t ln vs')"
    if "list_all2 (reads_ptr h) l' vs'" "set l' \<subseteq> {None, Some v} \<union> set l" for l' vs'
    using reads_ptrs_upd [OF that(1), of a "OList ln l'"] ns that(2) assms(1) by (subst reads_list [OF nth_list_update_eq]) auto
  have "list_all2 (reads_ptr h) ((l @ replicate k None)[j := Some v]) ((vs @ replicate k None)[j := Some w])" for k j
    using l v by (intro list_all2_update_cong list_all2_appendI) (auto simp: list_all2_conv_all_nth reads_ptr_def)
  moreover have "set ((l @ replicate k None)[j := Some v]) \<subseteq> {None, Some v} \<union> set l" for k j
    using set_update_subset_insert [of "l @ replicate k None" j "Some v"] by (auto simp: set_replicate_conv_if split: if_splits)
  ultimately show "reads (obj_list_set a i (Some v) h) a (expr_list_t ln (list_set vs i (Some w)))"
    using upd assms(2,3) len
    by (auto simp: obj_list_set_def list_set_def safe_obj_def safe_expr_def split: prod.splits bool.splits)
  show "reads (obj_push_back a (Some v) h) a (expr_list_t ln (push_back vs (Some w)))"
    using upd [of "l @ [Some v]" "vs @ [Some w]"] l v assms(2)
    by (auto simp: obj_push_back_def push_back_def safe_obj_def safe_expr_def intro: list_all2_appendI)
qed

lemma update_map: "map fst d = map fst vs \<Longrightarrow> list_all2 R (map snd d) (map snd vs) \<Longrightarrow> R p v \<Longrightarrow>
  map fst (AList.update k p d) = map fst (AList.update k v vs) \<and> list_all2 R (map snd (AList.update k p d)) (map snd (AList.update k v vs))"
  by (induction d arbitrary: vs) (auto simp: Cons_eq_map_conv)

lemma dict_writes:
  assumes "a < length h" "h ! a = ODict ln d" "reads h a (expr_dict_t ln vs)" "reads h v w" "\<not> sees h v a"
  shows "reads (obj_insert a k (Some v) h) a (expr_dict_t ln (AList.update k (Some w) vs))"
proof -
  have d: "map fst d = map fst vs" "list_all2 (reads_ptr h) (map snd d) (map snd vs)" using assms(2,3) by (auto simp: reads_dict)
  have v: "reads_ptr h (Some v) (Some w)" using assms(4) by (simp add: reads_ptr_def)
  let ?d = "AList.update k (Some v) d"
  have u: "map fst ?d = map fst (AList.update k (Some w) vs)" "list_all2 (reads_ptr h) (map snd ?d) (map snd (AList.update k (Some w) vs))"
    using update_map [of d vs "reads_ptr h", OF d v] by auto
  have "\<not> sees h b a" if "Some b \<in> set (map snd ?d)" for b
  proof (cases "b = v")
    case False
    have "Ball (snd ` set ?d) (\<lambda>p. p \<in> insert (Some v) (snd ` set d))" by (rule update_ptrs) auto
    moreover have "Some b \<in> snd ` set ?d" using that by simp
    ultimately have "Some b \<in> insert (Some v) (snd ` set d)" by blast
    then have "b \<in> ptrs (h ! a)" using False assms(2) by (simp add: ptrs_def)
    then show ?thesis using no_cycle [OF assms(3)] by blast
  qed (use assms(5) in simp)
  then have "list_all2 (reads_ptr (h[a := ODict ln ?d])) (map snd ?d) (map snd (AList.update k (Some w) vs))"
    by (rule reads_ptrs_upd [OF u(2)])
  then have "reads (h[a := ODict ln ?d]) a (expr_dict_t ln (AList.update k (Some w) vs))"
    unfolding reads_dict [OF nth_list_update_eq [OF assms(1)]] using u(1) by blast
  then show ?thesis by (simp add: obj_insert_def assms(2))
qed

lemma reads_same: "heap_ok h \<Longrightarrow> same_upto (length h) h h' \<Longrightarrow> a < length h \<Longrightarrow> reads h' a x \<longleftrightarrow> reads h a x"
  unfolding reads_def using reify_same by metis

lemma reads_ptr_same: "heap_ok h \<Longrightarrow> same_upto (length h) h h' \<Longrightarrow> ptr_ok h p \<Longrightarrow> reads_ptr h' p v \<longleftrightarrow> reads_ptr h p v"
  using reads_same [of h h'] by (cases p) (simp_all add: reads_ptr_def)

lemma reads_new_cow: "heap_ok h \<Longrightarrow> t < length h \<Longrightarrow> reads h t x \<Longrightarrow> reads (h @ [OCow None (Some t)]) (length h) (expr_cow_t x)"
  using reads_same [of h "h @ [OCow None (Some t)]" t x] same_append [of "length h" h] by (subst reads_other(2) [of _ _ t]) simp_all

lemma copy_refines:
  assumes "heap_ok h" "a < length h" "reads h a x"
  shows "\<exists>b h'. obj_copy a h = Some (b, h') \<and> reads h' b (copy x)"
proof (cases "h ! a")
  case (Leaf y)
  then have "x = y" "atomic y" using assms(3) heap_ok_nth [OF assms(1,2)] by (simp_all add: reads_other)
  moreover from this have "copy y = (if is_constant y then y else expr_cow_t y)" by (cases y) (simp_all add: copy_def atomic_def)
  ultimately show ?thesis using Leaf assms reads_new_cow by (auto simp: obj_copy_def new_obj_def)
next
  case (OList ln l)
  then have "copy x = expr_cow_t x" using assms(3) by (auto simp: reads_list copy_def is_constant_def)
  then show ?thesis using OList assms reads_new_cow by (auto simp: obj_copy_def new_obj_def)
next
  case (ODict ln d)
  then have "copy x = expr_cow_t x" using assms(3) by (auto simp: reads_dict copy_def is_constant_def)
  then show ?thesis using ODict assms reads_new_cow by (auto simp: obj_copy_def new_obj_def)
next
  case (OCow c q)
  have ok: "obj_ok h (OCow c q)" using heap_ok_nth [OF assms(1,2)] OCow by simp
  then obtain t y where t: "c = None \<and> q = Some t \<or> c = Some t \<and> q = None" "x = expr_cow_t y" "reads h t y" "t < length h"
    using OCow assms(3) by (cases c; cases q) (auto simp: reads_other)
  then have "copy x = expr_cow_t y" by (simp add: copy_def is_constant_def)
  then show ?thesis using t reads_new_cow [OF assms(1) t(4,3)] OCow by (auto simp: obj_copy_def new_obj_def)
qed

lemma elems_refine:
  assumes "heap_ok h" "Ball (set l) (ptr_ok h)" "list_all2 (reads_ptr h) l vs"
  shows "case list_deep_copy vs of
      None \<Rightarrow> copy_elems l h = None
    | Some vs' \<Rightarrow> \<exists>l' h'. copy_elems l h = Some (l', h') \<and> list_all2 (reads_ptr h') l' vs'"
  using assms
proof (induction l arbitrary: h vs)
  case (Cons p l)
  then obtain v vs1 where vs: "vs = v # vs1" "reads_ptr h p v" "list_all2 (reads_ptr h) l vs1" by (auto simp: list_all2_Cons1)
  show ?case
  proof (cases p)
    case None
    then show ?thesis using vs(1,2) by (simp add: list_deep_copy_def reads_ptr_def)
  next
    case (Some a)
    then obtain x where x: "v = Some x" "reads h a x" "a < length h" using vs(2) Cons.prems(2) by (auto simp: reads_ptr_def)
    obtain b h1 where 1: "obj_copy a h = Some (b, h1)" "reads h1 b (copy x)" using copy_refines [OF Cons.prems(1) x(3,2)] by auto
    have k: "heap_ok h1" "later h h1" "b < length h1" using copy_keeps [OF Cons.prems(1) x(3) 1(1)] by (simp_all add: keeps_def)
    have p1: "Ball (set l) (ptr_ok h1)" using Cons.prems(2) ptr_later [OF _ k(2)] by simp
    have "list_all2 (reads_ptr h1) l vs1"
      using vs(3) Cons.prems(2) reads_ptr_same [OF Cons.prems(1) copy_same [OF 1(1)]] by (simp add: list_all2_conv_all_nth)
    note IH = Cons.IH [OF k(1) p1 this]
    show ?thesis
    proof (cases "list_deep_copy vs1")
      case None
      then show ?thesis using IH Some vs(1) x(1) 1(1) by (simp add: list_deep_copy_def)
    next
      case (Some vs')
      then obtain l' h' where 2: "copy_elems l h1 = Some (l', h')" "list_all2 (reads_ptr h') l' vs'" using IH by auto
      have "reads h' b (copy x)" using reads_same [OF k(1) copy_elems_same [OF 2(1)] k(3)] 1(2) by simp
      then show ?thesis using 1 2 Some \<open>p = Some a\<close> vs(1) x(1) by (simp add: list_deep_copy_def reads_ptr_def)
    qed
  qed
qed (simp add: list_deep_copy_def)

lemma sees_old:
  assumes "sees h' a c" "heap_ok h" "same_upto (length h) h h'" "a < length h"
  shows "c < length h"
  using assms(1,4)
proof (induction rule: sees.induct)
  case (sees_step b a c)
  have "obj_ok h (h ! a)" "h' ! a = h ! a" using heap_ok_nth [OF assms(2)] sees_step.prems assms(3) by (simp_all add: same_upto_def)
  then have "b < length h" using sees_step.hyps(1) by (cases "h ! a") (fastforce simp: ptrs_def split: option.splits)+
  then show ?case by (rule sees_step.IH)
qed

definition new_copy :: "'d heap \<Rightarrow> 'd heap \<Rightarrow> nat \<Rightarrow> bool" where
  "new_copy h h' b \<longleftrightarrow> b < length h \<or> b < length h' \<and> (\<exists>t < length h. h' ! b = OCow None (Some t))"

lemma copy_new:
  assumes "heap_ok h" "same_upto (length h) h h1" "a < length h" "obj_copy a h1 = Some (b, h2)"
  shows "new_copy h h2 b"
proof -
  have a: "h1 ! a = h ! a" "obj_ok h (h ! a)" using assms heap_ok_nth by (auto simp: same_upto_def)
  show ?thesis using copy_eq [OF assms(4)] a assms(3) by (auto simp: new_copy_def)
qed

lemma new_copy_same: "new_copy h h1 b \<Longrightarrow> same_upto (length h1) h1 h2 \<Longrightarrow> new_copy h h2 b"
  by (auto simp: new_copy_def same_upto_def)

lemma copy_elems_new:
  assumes "heap_ok h" "same_upto (length h) h h1" "Ball (set l) (ptr_ok h)" "copy_elems l h1 = Some (l', h2)" "Some b \<in> set l'"
  shows "new_copy h h2 b"
  using assms(2-)
proof (induction l h1 arbitrary: l' rule: copy_elems.induct)
  case (3 a l h1)
  obtain c h3 l1 where *: "obj_copy a h1 = Some (c, h3)" "copy_elems l h3 = Some (l1, h2)" "l' = Some c # l1"
    using "3.prems"(3) by (auto split: Option.bind_splits)
  have "new_copy h h2 c" using copy_new [OF assms(1) "3.prems"(1) _ *(1)] new_copy_same copy_elems_same [OF *(2)] "3.prems"(2) by simp
  moreover have "length h \<le> length h1" using "3.prems"(1) by (simp add: same_upto_def)
  then have "same_upto (length h) h h3" by (rule same_trans [OF "3.prems"(1) same_less [OF copy_same [OF *(1)]]])
  ultimately show ?case using "3.IH" [OF *(1) refl _ _ *(2)] "3.prems"(2,4) *(3) by auto
qed auto

lemma new_copy_unseen:
  assumes "new_copy h h' b" "heap_ok h" "same_upto (length h) h h'" "length h \<le> a" "\<not> is_cow (h' ! a)"
  shows "\<not> sees h' b a"
proof
  assume "sees h' b a"
  then show False
  proof (cases rule: sees.cases)
    case sees_self
    then show ?thesis using assms by (auto simp: new_copy_def)
  next
    case (sees_step c)
    then have "c < length h \<or> b < length h" using assms(1) by (auto simp: new_copy_def ptrs_def)
    then show ?thesis using sees_old [OF _ assms(2,3)] sees_step \<open>sees h' b a\<close> assms(4) leD by blast
  qed
qed

lemma deep_copy_refines:
  assumes "heap_ok h" "a < length h" "h ! a = OList ln l" "reads h a (expr_list_t ln vs)"
  shows "case list_deep_copy vs of
      None \<Rightarrow> deep_copy l h = None
    | Some vs' \<Rightarrow> \<exists>b h'. deep_copy l h = Some (b, h') \<and> reads h' b (expr_list_t (- 1) vs')"
proof -
  let ?h = "h @ [OList (- 1) []]"
  have p: "Ball (set l) (ptr_ok h)" using heap_ok_nth [OF assms(1,2)] assms(3) by simp
  have s: "same_upto (length h) h ?h" by (simp add: same_append)
  have "list_all2 (reads_ptr h) l vs" using assms(3,4) by (auto simp: reads_list)
  then have "list_all2 (reads_ptr ?h) l vs" using reads_ptr_same [OF assms(1) s] p by (simp add: list_all2_conv_all_nth)
  then have e: "case list_deep_copy vs of None \<Rightarrow> copy_elems l ?h = None
    | Some vs' \<Rightarrow> \<exists>l' h'. copy_elems l ?h = Some (l', h') \<and> list_all2 (reads_ptr h') l' vs'"
    using elems_refine [of ?h l vs] ok_append [OF assms(1)] ptrs_later [OF p later_append] by simp
  show ?thesis
  proof (cases "list_deep_copy vs")
    case None
    then show ?thesis using e by (simp add: deep_copy_def list_alloc_def new_obj_def)
  next
    case (Some vs')
    then obtain l' h' where 1: "copy_elems l ?h = Some (l', h')" "list_all2 (reads_ptr h') l' vs'" using e by auto
    have s': "same_upto (length ?h) ?h h'" using copy_elems_same [OF 1(1)] .
    then have c: "h' ! length h = OList (- 1) []" "length h < length h'" "same_upto (length h) h h'" by (auto simp: same_upto_def nth_append)
    have "\<not> sees h' b (length h)" if "Some b \<in> set l'" for b
      using new_copy_unseen [OF copy_elems_new [OF assms(1) s p 1(1) that] assms(1) c(3)] c(1) by simp
    then have "list_all2 (reads_ptr (h'[length h := OList (- 1) l'])) l' vs'" by (rule reads_ptrs_upd [OF 1(2)])
    then have "reads (h'[length h := OList (- 1) l']) (length h) (expr_list_t (- 1) vs')"
      using reads_list [OF nth_list_update_eq [OF c(2)]] by auto
    then show ?thesis using Some 1(1) by (simp add: deep_copy_def list_alloc_def new_obj_def)
  qed
qed

text \<open>
  C12.  The objects implement the values: copying an object gives one that reads as the copy of its value; the copy of
  a list crashes exactly when that of its value does and otherwise reads as it; and a write to a list or a
  dictionary, of a value that does not contain the container, changes what it reads as the functions on
  values do.
\<close>

theorem objects_refine_values:
  assumes "heap_ok h" "a < length h" "reads h a x"
  shows "(\<exists>b h'. obj_copy a h = Some (b, h') \<and> reads h' b (copy x))
    \<and> (h ! a = OList ln l \<and> x = expr_list_t ln vs \<longrightarrow>
         (case list_deep_copy vs of
            None \<Rightarrow> deep_copy l h = None
          | Some vs' \<Rightarrow> \<exists>b h'. deep_copy l h = Some (b, h') \<and> reads h' b (expr_list_t (- 1) vs'))
         \<and> (reads h v w \<and> \<not> sees h v a \<longrightarrow>
              reads (obj_list_set a i (Some v) h) a (expr_list_t ln (list_set vs i (Some w)))
              \<and> reads (obj_push_back a (Some v) h) a (expr_list_t ln (push_back vs (Some w)))))
    \<and> (h ! a = ODict ln d \<and> x = expr_dict_t ln es \<and> reads h v w \<and> \<not> sees h v a \<longrightarrow>
         reads (obj_insert a k (Some v) h) a (expr_dict_t ln (AList.update k (Some w) es)))"
  using copy_refines [OF assms] deep_copy_refines [OF assms(1,2), of ln l vs] list_writes(1) [OF assms(2), of ln l vs v w i] list_writes(2) [OF assms(2), of ln l vs v w]
    dict_writes [OF assms(2), of ln d es v w k] assms(3)
  by blast

definition sample_heap :: "'d heap" where
  "sample_heap = [Leaf (expr_int_t 7), OList 1 [Some 0, None], Leaf (expr_bool_t True)]"

theorem objects_refine_values_witness:
  "reads (obj_list_set 1 (- 1) (Some 2) (sample_heap :: int heap)) 1 (expr_list_t 1 [Some (expr_int_t 7), Some (expr_bool_t True)])
   \<and> deep_copy [Some 0, None] (sample_heap :: int heap) = None"
proof -
  have 1: "heap_ok (sample_heap :: int heap)" by (simp add: heap_ok_def sample_heap_def atomic_def)
  have 2: "reads (sample_heap :: int heap) 1 (expr_list_t 1 [Some (expr_int_t 7), None])"
    "reads (sample_heap :: int heap) 2 (expr_bool_t True)"
    by (simp_all add: reads_def sample_heap_def exI [of _ 2] numeral_2_eq_2)
  have 3: "\<not> sees (sample_heap :: int heap) 2 1" by (auto simp: sample_heap_def ptrs_def elim: sees.cases)
  show ?thesis
    using objects_refine_values [OF 1 _ 2(1), of 1 "[Some 0, None]" "[Some (expr_int_t 7), None]" 2 "expr_bool_t True" "- 1"] 2(2) 3
    by (simp add: sample_heap_def list_deep_copy_def list_set_def fixup_index_def safe_expr_def)
qed


section \<open>Slots\<close>

text \<open>
  What a client relies on when it stores values through references: a slot reads as what was last put
  there, and putting into one slot leaves the others alone.
\<close>

locale slot_store =
  fixes get :: "'r \<Rightarrow> 'h \<Rightarrow> 'v option"
    and put :: "'r \<Rightarrow> 'v \<Rightarrow> 'h \<Rightarrow> 'h"
    and valid :: "'r \<Rightarrow> 'h \<Rightarrow> bool"
  assumes get_put: "valid r h \<Longrightarrow> get r (put r v h) = Some v"
    and get_put_other: "valid r h \<Longrightarrow> valid s h \<Longrightarrow> r \<noteq> s \<Longrightarrow> get s (put r v h) = get s h"
    and valid_put: "valid r h \<Longrightarrow> valid s h \<Longrightarrow> valid s (put r v h)"
begin

definition put_all :: "('r \<times> 'v) list \<Rightarrow> 'h \<Rightarrow> 'h" where
  "put_all ps h = foldl (\<lambda>h (r, v). put r v h) h ps"

lemma put_all_Cons [simp]: "put_all [] h = h" "put_all ((r, v) # ps) h = put_all ps (put r v h)"
  by (simp_all add: put_all_def)

lemma put_all_valid: "\<forall>s \<in> fst ` set ps. valid s h \<Longrightarrow> valid r h \<Longrightarrow> valid r (put_all ps h)"
  by (induction ps arbitrary: h) (auto simp: valid_put)

lemma put_all_other: "\<forall>s \<in> fst ` set ps. valid s h \<Longrightarrow> valid r h \<Longrightarrow> r \<notin> fst ` set ps \<Longrightarrow> get r (put_all ps h) = get r h"
  by (induction ps arbitrary: h) (auto simp: valid_put get_put_other)

lemma put_all_get: "\<forall>s \<in> fst ` set ps. valid s h \<Longrightarrow> distinct (map fst ps) \<Longrightarrow> (r, v) \<in> set ps \<Longrightarrow> get r (put_all ps h) = Some v"
proof (induction ps arbitrary: h)
  case (Cons p ps)
  obtain s w where p: "p = (s, w)" by fastforce
  have ok: "\<forall>t \<in> fst ` set ps. valid t (put s w h)" "valid s (put s w h)" using Cons.prems(1) p valid_put by auto
  show ?case
  proof (cases "(r, v) = (s, w)")
    case True
    then show ?thesis using put_all_other [OF ok, of ] Cons.prems p get_put by force
  next
    case False
    then show ?thesis using Cons.IH [OF ok(1)] Cons.prems(2,3) p by auto
  qed
qed simp

end

text \<open>The slots of lists and dictionaries, for values that are leaves.\<close>

definition leaf_at :: "'d heap \<Rightarrow> nat \<Rightarrow> 'd expr_t option" where
  "leaf_at h a = (case h ! a of Leaf x \<Rightarrow> Some x | _ \<Rightarrow> None)"

definition leaf_get :: "obj_ref \<Rightarrow> 'd heap \<Rightarrow> 'd expr_t option" where
  "leaf_get r h = Option.bind (ref_get None r h) (leaf_at h)"

definition leaf_put :: "obj_ref \<Rightarrow> 'd expr_t \<Rightarrow> 'd heap \<Rightarrow> 'd heap" where
  "leaf_put r x h = (let (a, h) = new_obj (Leaf x) h in snd (ref_set r (Some a) None h))"

definition slot_ok :: "obj_ref \<Rightarrow> 'd heap \<Rightarrow> bool" where
  "slot_ok r h \<longleftrightarrow> ptr_ok h (ref_get None r h) \<and>
     (case r of
        obj_ref_dict_t d k \<Rightarrow> d < length h \<and> dict_at h d = Some d
      | obj_ref_list_t l i \<Rightarrow> l < length h \<and> list_at h l = Some l
      | plain_obj_ref_t \<Rightarrow> False)"

lemma slot_cases:
  assumes "slot_ok r h"
  obtains (dict) d k ln e where "r = obj_ref_dict_t d k" "d < length h" "h ! d = ODict ln e"
  | (list) l i ln xs where "r = obj_ref_list_t l i" "l < length h" "h ! l = OList ln xs"
  using assms by (cases r) (auto simp: slot_ok_def dict_at_def list_at_def split: heap_obj.splits)

lemma fixup_lax: "fixup_index n (int i) True = (True, int i)"
  by (auto simp: fixup_index_def)

lemma leaf_put_dict: "d < length h \<Longrightarrow> h ! d = ODict ln e \<Longrightarrow>
  leaf_put (obj_ref_dict_t d k) x h = (h @ [Leaf x])[d := ODict ln (AList.update k (Some (length h)) e)]"
  by (simp add: leaf_put_def new_obj_def ref_set_def safe_obj_def obj_insert_def nth_append)

lemma leaf_put_list: "l < length h \<Longrightarrow> h ! l = OList ln xs \<Longrightarrow>
  leaf_put (obj_ref_list_t l i) x h =
    (h @ [Leaf x])[l := OList ln ((xs @ replicate (i + 1 - length xs) None)[i := Some (length h)])]"
  by (simp add: leaf_put_def new_obj_def ref_set_def safe_obj_def obj_list_set_def nth_append fixup_lax)

lemma elem_lookup_nth: "i < length xs \<Longrightarrow> elem_lookup xs (int i) = xs ! i"
  by (simp add: elem_lookup_def fixup_index_def)

lemma ref_get_list: "h ! l = OList ln xs \<Longrightarrow> ref_get rt (obj_ref_list_t l i) h = (if i < length xs then xs ! i else None)"
  by (simp add: ref_get_def elems_def elem_lookup_nth)

lemma ref_get_dict: "h ! d = ODict ln e \<Longrightarrow> ref_get rt (obj_ref_dict_t d k) h = Option.bind (map_of e k) id"
  by (simp add: ref_get_def obj_dict_lookup_def entries_def)

lemma put_self: "slot_ok r h \<Longrightarrow> ref_get None r (leaf_put r x h) = Some (length h)"
  by (erule slot_cases) (auto simp: leaf_put_dict leaf_put_list ref_get_dict ref_get_list update_conv' nth_list_update)

lemma put_length: "slot_ok r h \<Longrightarrow> length (leaf_put r x h) = Suc (length h)"
  by (erule slot_cases) (simp_all add: leaf_put_dict leaf_put_list)

lemma put_kind:
  assumes "slot_ok r h" "c < length h"
  shows "dict_at (leaf_put r x h) c = dict_at h c" "list_at (leaf_put r x h) c = list_at h c" "leaf_at (leaf_put r x h) c = leaf_at h c"
  using assms(2) by (rule_tac slot_cases [OF assms(1)];
    auto simp: leaf_put_dict leaf_put_list dict_at_def list_at_def leaf_at_def nth_list_update nth_append)+

lemma put_other:
  assumes "slot_ok r h" "slot_ok s h" "r \<noteq> s"
  shows "ref_get None s (leaf_put r x h) = ref_get None s h"
  using assms(2)
proof (cases rule: slot_cases)
  case s: (dict d k ln e)
  show ?thesis using assms(1)
  proof (cases rule: slot_cases)
    case (dict d' k' ln' e')
    then show ?thesis using s assms(3)
      by (cases "d = d'") (auto simp: leaf_put_dict ref_get_def obj_dict_lookup_def entries_def nth_append update_conv')
  next
    case (list l i ln' xs)
    then have "l \<noteq> d" using s by auto
    then show ?thesis using s list by (auto simp: leaf_put_list ref_get_def obj_dict_lookup_def entries_def nth_append)
  qed
next
  case s: (list l i ln xs)
  show ?thesis using assms(1)
  proof (cases rule: slot_cases)
    case (dict d k ln' e)
    then have "d \<noteq> l" using s by auto
    then show ?thesis using s dict by (auto simp: leaf_put_dict ref_get_def elems_def nth_append)
  next
    case (list l' i' ln' xs')
    then show ?thesis using s assms(3)
      by (cases "l = l'") (auto simp: leaf_put_list ref_get_def elems_def nth_append elem_lookup_nth nth_list_update)
  qed
qed

interpretation slots: slot_store leaf_get leaf_put slot_ok
proof
  fix r s :: obj_ref and h :: "'d heap" and v :: "'d expr_t"
  assume r: "slot_ok r h"
  have "leaf_put r v h ! length h = Leaf v"
    by (rule slot_cases [OF r]) (auto simp: leaf_put_dict leaf_put_list nth_append)
  then show "leaf_get r (leaf_put r v h) = Some v" using put_self [OF r] by (simp add: leaf_get_def leaf_at_def)
  assume s: "slot_ok s h"
  show "leaf_get s (leaf_put r v h) = leaf_get s h" if "r \<noteq> s"
    using put_other [OF r s that] put_kind(3) [OF r] s by (cases "ref_get None s h") (auto simp: leaf_get_def slot_ok_def)
  have "ptr_ok (leaf_put r v h) (ref_get None s (leaf_put r v h))"
    using put_self [OF r] put_other [OF r s] s put_length [OF r]
    by (cases "r = s") (auto simp: slot_ok_def ptr_ok_def split: option.splits)
  then show "slot_ok s (leaf_put r v h)"
    using s put_kind [OF r] put_length [OF r] by (cases s) (auto simp: slot_ok_def)
qed

section \<open>Filling a dictionary\<close>

text \<open>The statement \<^verbatim>\<open>o(k) = x\<close> of service code.\<close>

definition assign_key :: "'d pv_env \<Rightarrow> string \<Rightarrow> 'd expr_t \<Rightarrow> obj_t \<Rightarrow> 'd heap \<Rightarrow> (obj_t \<times> 'd heap) option" where
  "assign_key E k x o1 h = do { (r, o1, h) \<leftarrow> obj_key E k o1 h; Some (o1, snd (set_leaf x r h)) }"

fun assign_keys :: "'d pv_env \<Rightarrow> (string \<times> 'd expr_t) list \<Rightarrow> obj_t \<Rightarrow> 'd heap \<Rightarrow> (obj_t \<times> 'd heap) option" where
  "assign_keys E [] o1 h = Some (o1, h)"
| "assign_keys E ((k, x) # ps) o1 h = do { (o1, h) \<leftarrow> assign_key E k x o1 h; assign_keys E ps o1 h }"

lemma assign_key_put:
  assumes "ob_dict o1 = Some d"
  shows "assign_key E k x o1 h = Some (o1, leaf_put (obj_ref_dict_t d k) x h)"
  using assms by (simp add: assign_key_def obj_key_def obj_to_dict_def obj_of_ref_def obj_new_def set_leaf_def set_scalar_expr_def
      update_value_def leaf_put_def new_obj_def)

lemma assign_keys_put:
  "ob_dict o1 = Some d \<Longrightarrow> assign_keys E ps o1 h = Some (o1, slots.put_all (map (\<lambda>(k, x). (obj_ref_dict_t d k, x)) ps) h)"
  by (induction ps arbitrary: h) (auto simp: assign_key_put)

text \<open>
  C28.  A dictionary filled through handles holds what was assigned: after \<^verbatim>\<open>o(k) = x\<close> for distinct keys, reading each
  key gives its value, and any other slot of any container that existed reads as before.
\<close>

theorem dictionary_filled:
  assumes "distinct (map fst ps)" "obj_dict_new E h = (o1, h0)"
  shows "\<exists>h1. assign_keys E ps o1 h0 = Some (o1, h1)
    \<and> list_all (\<lambda>(k, x). Option.bind (co_key k o1 h1) (leaf_at h1) = Some x) ps
    \<and> (slot_ok s h \<longrightarrow> leaf_get s h1 = leaf_get s h)"
proof -
  let ?d = "length h" and ?ps = "map (\<lambda>(k, x). (obj_ref_dict_t (length h) k, x)) ps"
  have o1: "o1 = obj_new\<lparr>ob_dict := Some ?d, ob_c_obj := Some ?d, ob_obj := Some ?d\<rparr>" and h0: "h0 = h @ [ODict (pe_ln0 E) []]"
    using assms(2) by (auto simp: obj_dict_new_def dict_alloc_def new_obj_def)
  let ?h1 = "slots.put_all ?ps h0"
  have d: "slot_ok (obj_ref_dict_t ?d k) h0" for k by (simp add: slot_ok_def h0 ref_get_dict dict_at_def)
  have v: "\<forall>r \<in> fst ` set ?ps. slot_ok r h0" using d by auto
  have "distinct (map fst ?ps)" using assms(1) by (simp add: distinct_map comp_def case_prod_unfold inj_on_def)
  then have g: "leaf_get (obj_ref_dict_t ?d k) ?h1 = Some x" if "(k, x) \<in> set ps" for k x
    using slots.put_all_get [OF v] that by force
  have "dict_at ?h1 ?d = Some ?d" using slots.put_all_valid [OF v d] by (auto simp: slot_ok_def)
  then have "co_key k o1 ?h1 = ref_get None (obj_ref_dict_t ?d k) ?h1" for k
    by (auto simp: co_key_def obj_def o1 obj_new_def to_dict_const_def target_def ref_get_def dict_at_def split: heap_obj.splits)
  then have "list_all (\<lambda>(k, x). Option.bind (co_key k o1 ?h1) (leaf_at ?h1) = Some x) ps"
    using g by (auto simp: list_all_iff leaf_get_def)
  moreover have "leaf_get s ?h1 = leaf_get s h" if s: "slot_ok s h"
  proof -
    have g0: "ref_get None s h0 = ref_get None s h"
      by (rule slot_cases [OF s]) (simp_all add: h0 ref_get_def elems_def obj_dict_lookup_def entries_def nth_append)
    have "slot_ok s h0" using s g0 by (rule_tac slot_cases [OF s]) (auto simp: slot_ok_def h0 dict_at_def list_at_def nth_append ptr_ok_def split: option.splits)
    moreover have "s \<notin> fst ` set ?ps" by (rule slot_cases [OF s]) auto
    ultimately have "leaf_get s ?h1 = leaf_get s h0" using slots.put_all_other [OF v] by blast
    also have "\<dots> = leaf_get s h" using g0 s by (cases "ref_get None s h") (auto simp: leaf_get_def slot_ok_def leaf_at_def h0 nth_append)
    finally show ?thesis .
  qed
  moreover have "assign_keys E ps o1 h0 = Some (o1, ?h1)" by (rule assign_keys_put) (simp add: o1)
  ultimately show ?thesis by blast
qed

theorem dictionary_filled_witness:
  "\<exists>o1 h0 h1. obj_dict_new int_pv_env [] = (o1, h0)
     \<and> assign_keys int_pv_env [(''a'', expr_int_t 1), (''b'', expr_bool_t True)] o1 h0 = Some (o1, h1)
     \<and> Option.bind (co_key ''a'' o1 h1) (leaf_at h1) = Some (expr_int_t 1)"
proof -
  obtain o1 and h0 :: "int heap" where n: "obj_dict_new int_pv_env [] = (o1, h0)" by (meson surj_pair)
  have "distinct (map fst [(''a'', expr_int_t 1), (''b'', expr_bool_t True)])" by simp
  from dictionary_filled [OF this n] show ?thesis using n by fastforce
qed

section \<open>Where the code departs from this\<close>

text \<open>
  A copy of a copy-on-write object that has been written shares its list: \<^verbatim>\<open>copy\<close> makes the new object
  start from \<^verbatim>\<open>_copy\<close>, but the old one goes on writing to it in place.
\<close>

lemma written_copy_shares:
  assumes "h ! b = OCow (Some x) None" "h ! x = OList ln l" "b < length h" "x < length h" "v < length h"
  shows "\<exists>h1 h2. obj_copy b h = Some (length h, h1) \<and> write_through E b (W_push (Some v)) h1 = Some h2
    \<and> to_list_const h1 (length h) = Some x \<and> elems h1 x = l
    \<and> to_list_const h2 (length h) = Some x \<and> elems h2 x = l @ [Some v]"
  using assms by (auto simp: obj_copy_def new_obj_def write_through_def to_list_mut_def mutable_ptr_def list_at_def nth_append
      obj_push_back_def safe_obj_def to_list_const_def target_def elems_def)

text \<open>A copy-on-write object on a regular expression loses it as soon as it is asked for a container to write to.\<close>

lemma regex_lost:
  assumes "h ! b = OCow None (Some x)" "h ! x = Leaf (expr_regex_t ln body opts)" "b < length h"
  shows "\<exists>h1. to_list_mut E b h = Some (None, h1) \<and> target h1 b = None"
  using assms by (simp add: to_list_mut_def mutable_ptr_def cow_copy_def is_constant_def is_lambda_def target_def)

text \<open>
  Appending one list to another makes an empty dictionary of each: the first test asks both for a dictionary,
  which replaces a value that is none.
\<close>

lemma append_loses_lists:
  assumes "ob_ref o1 = None" "ob_dict o1 = None" "ob_obj o1 = Some a" "h ! a = OList ln l" "a < length h"
    and "ob_ref o2 = None" "ob_dict o2 = None" "ob_obj o2 = Some b" "h ! b = OList ln' l'" "b < length h"
  shows "\<exists>o1' o2' h'. obj_append E o2 o1 h = Some (True, o1', o2', h') \<and> co_size o1' h' = 0 \<and> co_keys o1' h' = Some [] \<and> co_size o2' h' = 0"
  using assms
  by (simp add: obj_append_def obj_to_dict_def obj_def to_dict_mut_def mutable_ptr_def dict_at_def dict_alloc_def new_obj_def update_value_def
      nth_append entries_def co_size_def co_keys_def to_list_const_def target_def list_at_def to_dict_const_def)

text \<open>Removing a key through a reference that has not been used as a dictionary yet does nothing.\<close>

lemma remove_key_ignored: "remove_key E k (obj_of_ref r h) h = Some (obj_of_ref r h, h)"
  by (auto simp: remove_key_def obj_to_dict_def obj_of_ref_def obj_new_def split: option.splits)

text \<open>
  A handle keeps the list it found first: after the slot it refers to has been assigned another value through
  a second handle, it still writes to the old list.
\<close>

lemma stale_handle:
  assumes "ob_list o1 = Some l" "ob_ref o1 = Some r" "h ! l = OList ln xs" "l < length h"
  shows "obj_push_obj E o2 o1 h = Some (o1, obj_push_back l (obj o2 h) h)"
  using assms by (simp add: obj_push_obj_def obj_to_list_def)

end
