(* ===== verification/Jsonrpc.thy ===== *)
theory Jsonrpc
  imports Obj
begin

text \<open>
  JSON as an encoding of RPC messages, \<^verbatim>\<open>src/libpub/json_rpc.C\<close>: an encoder that builds a value of the
  template language while the generated code walks over a message, and a decoder that walks over such a
  value.  Both are driven by the calls of the interface \<^verbatim>\<open>v_XDR_t\<close>; the walk itself is generated from the
  protocol and is represented by the sequence of its calls.
\<close>

section \<open>State\<close>

text \<open>
  \<open>jr_pv\<close> are the parameters of values; \<open>jr_armor64\<close>, \<open>jr_dearmor64\<close> the base-64 functions and \<open>jr_bigstr\<close> the decimal
  form of big integers of the base library; \<open>jr_mparse\<close> the generated JSON parser, which builds its result
  in the heap.
\<close>

record 'd jr_env =
  jr_pv :: "'d pv_env"
  jr_armor64 :: "string \<Rightarrow> string"
  jr_dearmor64 :: "string \<Rightarrow> string option"
  jr_bigstr :: "int \<Rightarrow> string"
  jr_mparse :: "string \<Rightarrow> 'd heap \<Rightarrow> nat option \<times> 'd heap"

text \<open>
  \<^verbatim>\<open>json_XDR_t\<close> with the members of the two subclasses: the stack of objects, the stack of references and
  the cell of \<^verbatim>\<open>m_root_ref\<close> (encoder), the root object (decoder), the path for messages and the message.
\<close>

record 'd json_XDR =
  jx_heap :: "'d heap"
  m_obj_stack :: "nat option list"
  m_ref_stack :: "obj_ref list"
  jx_root :: "nat option"
  m_root :: "nat option"
  m_debug_stack :: "string list"
  m_err_msg :: "string option"

definition json_XDR_new :: "'d heap \<Rightarrow> 'd json_XDR" where
  "json_XDR_new h = \<lparr>jx_heap = h, m_obj_stack = [], m_ref_stack = [], jx_root = None, m_root = None, m_debug_stack = [], m_err_msg = None\<rparr>"

text \<open>Taking the last element of an empty vector fails an assertion.\<close>

definition vec_back :: "'a list \<Rightarrow> 'a option" where
  "vec_back v = (if v = [] then None else Some (last v))"

definition obj_is_null :: "'d heap \<Rightarrow> nat \<Rightarrow> bool" where
  "obj_is_null h a =
     (case target h a of None \<Rightarrow> True | Some b \<Rightarrow> (case h ! b of Leaf x \<Rightarrow> is_null x | _ \<Rightarrow> False))"

definition is_empty :: "'d json_XDR \<Rightarrow> bool" where
  "is_empty j =
     (case vec_back (m_obj_stack j) of None \<Rightarrow> True | Some None \<Rightarrow> True | Some (Some a) \<Rightarrow> obj_is_null (jx_heap j) a)"

definition jx_top :: "'d json_XDR \<Rightarrow> nat option" where
  "jx_top j = (case vec_back (m_obj_stack j) of None \<Rightarrow> None | Some x \<Rightarrow> x)"

definition jx_pop_back :: "'d json_XDR \<Rightarrow> 'd json_XDR option" where
  "jx_pop_back j = (if m_obj_stack j = [] then None else Some (j\<lparr>m_obj_stack := butlast (m_obj_stack j)\<rparr>))"

definition jx_push_back :: "nat option \<Rightarrow> 'd json_XDR \<Rightarrow> 'd json_XDR" where
  "jx_push_back x j = j\<lparr>m_obj_stack := m_obj_stack j @ [x]\<rparr>"

definition debug_push :: "string \<Rightarrow> 'd json_XDR \<Rightarrow> 'd json_XDR" where
  "debug_push s j = j\<lparr>m_debug_stack := m_debug_stack j @ [s]\<rparr>"

definition debug_pop :: "'d json_XDR \<Rightarrow> 'd json_XDR option" where
  "debug_pop j = (if m_debug_stack j = [] then None else Some (j\<lparr>m_debug_stack := butlast (m_debug_stack j)\<rparr>))"

definition debug_push_slot :: "nat \<Rightarrow> 'd json_XDR \<Rightarrow> 'd json_XDR" where
  "debug_push_slot i = debug_push (''['' @ dec_int (int i) @ '']'')"

text \<open>The path of a message: names joined by dots, indices behind them.\<close>

definition debug_path :: "string list \<Rightarrow> string" where
  "debug_path v =
     concat (map (\<lambda>(i, el). (if i \<noteq> 0 \<and> (el = [] \<or> hd el \<noteq> CHR ''['') then ''.'' else []) @ el) (List.enumerate 0 v))"

definition error_generic :: "string \<Rightarrow> 'd json_XDR \<Rightarrow> 'd json_XDR" where
  "error_generic s j = j\<lparr>m_err_msg := Some (''at field '' @ debug_path (m_debug_stack j) @ '': '' @ s)\<rparr>"

definition error_empty :: "string \<Rightarrow> 'd json_XDR \<Rightarrow> 'd json_XDR" where
  "error_empty s = error_generic (''empty field; expected type '' @ s)"

definition obj_type :: "'d heap \<Rightarrow> nat \<Rightarrow> string" where
  "obj_type h a = (case value_of h a of Some x \<Rightarrow> type_to_str x | None \<Rightarrow> ''undef'')"

definition error_wrong_type :: "string \<Rightarrow> nat \<Rightarrow> 'd json_XDR \<Rightarrow> 'd json_XDR" where
  "error_wrong_type s x j = error_generic (''got type '' @ obj_type (jx_heap j) x @ ''; expected '' @ s) j"

section \<open>Decoder\<close>

text \<open>
  A call gives what it writes to its argument (\<open>None\<close>: it returns false) and the new state.  The conversions
  of a scalar have one shape: \<open>conv\<close> is the conversion, \<open>exp\<close> the expected type.
\<close>

definition jd_scalar :: "string \<Rightarrow> ('d expr_t \<Rightarrow> 'a option) \<Rightarrow> 'd json_XDR \<Rightarrow> 'a option \<times> 'd json_XDR" where
  "jd_scalar exp conv j =
     (if is_empty j then (None, error_empty exp j)
      else case jx_top j of
             None \<Rightarrow> (None, j)
           | Some a \<Rightarrow> (case Option.bind (value_of (jx_heap j) a) conv of
                          None \<Rightarrow> (None, error_wrong_type exp a j)
                        | Some v \<Rightarrow> (Some v, j)))"

definition jd_range :: "string \<Rightarrow> int \<Rightarrow> int \<Rightarrow> int option \<times> 'd json_XDR \<Rightarrow> int option \<times> 'd json_XDR" where
  "jd_range typ lo hi r =
     (case r of
        (Some tmp, j) \<Rightarrow> if tmp > hi \<or> tmp < lo
                         then (None, error_generic (typ @ '' is out of range (value was '' @ dec_int tmp @ '')'') j)
                         else (Some tmp, j)
      | (None, j) \<Rightarrow> (None, j))"

definition jd_int32 :: "'d jr_env \<Rightarrow> 'd json_XDR \<Rightarrow> int option \<times> 'd json_XDR" where
  "jd_int32 J j = jd_range ''int32_t'' (- (2 ^ 31)) (2 ^ 31 - 1) (jd_scalar ''int'' (pv_to_int (jr_pv J)) j)"

definition jd_uint32 :: "'d jr_env \<Rightarrow> 'd json_XDR \<Rightarrow> int option \<times> 'd json_XDR" where
  "jd_uint32 J j = jd_range ''u_int32_t'' 0 (2 ^ 32 - 1) (jd_scalar ''int'' (pv_to_int (jr_pv J)) j)"

definition jd_int64 :: "'d jr_env \<Rightarrow> 'd json_XDR \<Rightarrow> int option \<times> 'd json_XDR" where
  "jd_int64 J j = jd_scalar ''int'' (pv_to_int (jr_pv J)) j"

definition jd_uint64 :: "'d json_XDR \<Rightarrow> int option \<times> 'd json_XDR" where
  "jd_uint64 j = jd_scalar ''uint'' to_uint j"

definition jd_double :: "'d jr_env \<Rightarrow> 'd json_XDR \<Rightarrow> 'd option \<times> 'd json_XDR" where
  "jd_double J j = jd_scalar ''double'' (to_double (jr_pv J)) j"

definition rpc_decode :: "'d jr_env \<Rightarrow> 'd json_XDR \<Rightarrow> string option \<times> 'd json_XDR" where
  "rpc_decode J j = jd_scalar ''string'' (\<lambda>x. pv_to_str (jr_pv J) x str_opt_t) j"

definition rpc_decode_opaque :: "'d jr_env \<Rightarrow> 'd json_XDR \<Rightarrow> string option \<times> 'd json_XDR" where
  "rpc_decode_opaque J j =
     (case rpc_decode J j of
        (Some tmp, j) \<Rightarrow> (case jr_dearmor64 J tmp of
                            Some s \<Rightarrow> (Some s, j)
                          | None \<Rightarrow> (None, error_generic ''failed to base-64 decode input string'' j))
      | (None, j) \<Rightarrow> (None, j))"

text \<open>A big integer is assigned the truth value of the string.\<close>

definition jd_bigint :: "'d jr_env \<Rightarrow> 'd json_XDR \<Rightarrow> int option \<times> 'd json_XDR" where
  "jd_bigint J j =
     (if is_empty j then (None, error_empty ''bigint'' j)
      else case jx_top j of
             None \<Rightarrow> (None, j)
           | Some a \<Rightarrow> (case Option.bind (value_of (jx_heap j) a) (\<lambda>x. pv_to_str (jr_pv J) x str_opt_t) of
                          None \<Rightarrow> (None, error_wrong_type ''string'' a j)
                        | Some tmp \<Rightarrow> (Some 1, j)))"

text \<open>Entering containers; asking an object for its container may copy it.\<close>

definition jd_list :: "'d jr_env \<Rightarrow> string \<Rightarrow> 'd json_XDR \<Rightarrow> (nat option \<times> 'd json_XDR) option" where
  "jd_list J exp j =
     (if is_empty j then Some (None, error_empty exp j)
      else do { a \<leftarrow> jx_top j; (l, h) \<leftarrow> to_list_mut (jr_pv J) a (jx_heap j);
                (let j = j\<lparr>jx_heap := h\<rparr> in Some (case l of None \<Rightarrow> (None, error_wrong_type exp a j) | Some l \<Rightarrow> (Some l, j))) })"

definition jd_enter_field :: "'d jr_env \<Rightarrow> string option \<Rightarrow> 'd json_XDR \<Rightarrow> 'd json_XDR option" where
  "jd_enter_field J f j =
     (case f of
        None \<Rightarrow> Some j
      | Some f \<Rightarrow>
          let j = debug_push f j
          in if is_empty j then Some (jx_push_back None (error_empty ''dictionary'' j))
             else do { a \<leftarrow> jx_top j; (d, h) \<leftarrow> to_dict_mut (jr_pv J) a (jx_heap j);
                       (let j = j\<lparr>jx_heap := h\<rparr>
                        in Some (case d of
                                   None \<Rightarrow> jx_push_back None (error_wrong_type ''dictionary'' a j)
                                 | Some d \<Rightarrow>
                                     (case obj_dict_lookup h d f of
                                        None \<Rightarrow> jx_push_back None (error_generic (''cannot find field '' @ [CHR 0x27] @ f @ [CHR 0x27]) j)
                                      | Some x \<Rightarrow> jx_push_back (Some x) j))) })"

definition jd_exit_field :: "string option \<Rightarrow> 'd json_XDR \<Rightarrow> 'd json_XDR option" where
  "jd_exit_field f j = (case f of None \<Rightarrow> Some j | Some f \<Rightarrow> do { j \<leftarrow> jx_pop_back j; debug_pop j })"

definition jd_enter_slot :: "'d jr_env \<Rightarrow> nat \<Rightarrow> 'd json_XDR \<Rightarrow> 'd json_XDR option" where
  "jd_enter_slot J i j =
     do { (l, j) \<leftarrow> jd_list J ''array'' (debug_push_slot i j);
          Some (case l of
                  None \<Rightarrow> jx_push_back None j
                | Some l \<Rightarrow>
                    if length (elems (jx_heap j) l) \<le> i
                    then jx_push_back None (error_generic (''array slot '' @ dec_int (int i) @ '' is out of bound'' @ [LF]) j)
                    else jx_push_back (elems (jx_heap j) l ! i) j) }"

definition jd_exit_slot :: "'d json_XDR \<Rightarrow> 'd json_XDR option" where
  "jd_exit_slot j = do { j \<leftarrow> jx_pop_back j; debug_pop j }"

definition jd_enter_array :: "'d jr_env \<Rightarrow> 'd json_XDR \<Rightarrow> (nat option \<times> 'd json_XDR) option" where
  "jd_enter_array J j =
     do { (l, j) \<leftarrow> jd_list J ''array'' j; Some (map_option (\<lambda>l. length (elems (jx_heap j) l) mod 2 ^ 32) l, j) }"

definition jd_enter_pointer :: "'d jr_env \<Rightarrow> 'd json_XDR \<Rightarrow> (bool option \<times> 'd json_XDR) option" where
  "jd_enter_pointer J j =
     do { (l, j) \<leftarrow> jd_list J ''array/pointer'' j;
          Some (case l of
                  None \<Rightarrow> (None, jx_push_back None j)
                | Some l \<Rightarrow> (case elems (jx_heap j) l of
                               [] \<Rightarrow> (Some False, jx_push_back None j)
                             | x # _ \<Rightarrow> (Some True, jx_push_back x j))) }"

definition jd_exit_pointer :: "'d json_XDR \<Rightarrow> 'd json_XDR option" where
  "jd_exit_pointer j = jx_pop_back j"

text \<open>Starting from an object, a string, or a packet.\<close>

definition init_decode :: "nat option \<Rightarrow> 'd json_XDR \<Rightarrow> bool \<times> 'd json_XDR" where
  "init_decode x j = (case x of None \<Rightarrow> (False, j) | Some a \<Rightarrow> (True, jx_push_back (Some a) (j\<lparr>m_root := Some a\<rparr>)))"

definition init_decode_str :: "'d jr_env \<Rightarrow> string option \<Rightarrow> 'd json_XDR \<Rightarrow> bool \<times> 'd json_XDR" where
  "init_decode_str J s j =
     (case s of
        None \<Rightarrow> (False, j)
      | Some s \<Rightarrow> (case jr_mparse J s (jx_heap j) of
                     (None, h) \<Rightarrow> (False, j\<lparr>jx_heap := h\<rparr>)
                   | (Some x, h) \<Rightarrow> init_decode (Some x) (j\<lparr>jx_heap := h\<rparr>)))"

text \<open>
  The loop that strips the padding reads the byte at \<open>n\<close> before it compares \<open>n\<close> with the size; \<open>None\<close> is a read
  outside of the memory of the packet.
\<close>

function strip_padding :: "string \<Rightarrow> int \<Rightarrow> nat \<Rightarrow> nat option" where
  "strip_padding msg sz n =
     (if length msg \<le> n then None
      else if msg ! n \<noteq> NUL \<and> int n < sz then strip_padding msg sz (Suc n) else Some n)"
  by pat_completeness auto
termination
  by (relation "measure (\<lambda>(msg, sz, n). length msg - n)") auto

declare strip_padding.simps [simp del]

definition init_decode_msg :: "'d jr_env \<Rightarrow> string \<Rightarrow> int \<Rightarrow> 'd json_XDR \<Rightarrow> (bool \<times> 'd json_XDR) option" where
  "init_decode_msg J msg sz j =
     do { n \<leftarrow> strip_padding msg sz 0; Some (if 0 < sz then init_decode_str J (Some (take n msg)) j else (False, j)) }"

section \<open>Encoder\<close>

definition push_ref :: "obj_ref \<Rightarrow> 'd json_XDR \<Rightarrow> 'd json_XDR" where
  "push_ref r j = j\<lparr>m_obj_stack := m_obj_stack j @ [None], m_ref_stack := m_ref_stack j @ [r]\<rparr>"

definition pop_ref :: "'d json_XDR \<Rightarrow> 'd json_XDR option" where
  "pop_ref j =
     (if m_obj_stack j = [] \<or> m_ref_stack j = [] then None
      else Some (j\<lparr>m_obj_stack := butlast (m_obj_stack j), m_ref_stack := butlast (m_ref_stack j)\<rparr>))"

definition json_encoder :: "'d heap \<Rightarrow> 'd json_XDR" where
  "json_encoder h = push_ref plain_obj_ref_t (json_XDR_new h)"

definition root_obj :: "'d json_XDR \<Rightarrow> nat option" where
  "root_obj j = jx_root j"

definition set_top :: "nat \<Rightarrow> 'd json_XDR \<Rightarrow> 'd json_XDR option" where
  "set_top x j =
     (if m_obj_stack j = [] \<or> m_ref_stack j = [] then None
      else let (rt, h) = ref_set (last (m_ref_stack j)) (Some x) (jx_root j) (jx_heap j)
           in Some (j\<lparr>m_obj_stack := butlast (m_obj_stack j) @ [Some x], jx_root := rt, jx_heap := h\<rparr>))"

definition set_top_new :: "nat \<times> 'd heap \<Rightarrow> 'd json_XDR \<Rightarrow> 'd json_XDR option" where
  "set_top_new n j = (case n of (a, h) \<Rightarrow> set_top a (j\<lparr>jx_heap := h\<rparr>))"

definition je_leaf :: "'d expr_t \<Rightarrow> 'd json_XDR \<Rightarrow> 'd json_XDR option" where
  "je_leaf x j = set_top_new (new_obj (Leaf x) (jx_heap j)) j"

definition je_int :: "int \<Rightarrow> 'd json_XDR \<Rightarrow> 'd json_XDR option" where
  "je_int i = je_leaf (expr_int_t i)"

definition je_uint64 :: "int \<Rightarrow> 'd json_XDR \<Rightarrow> 'd json_XDR option" where
  "je_uint64 u = je_leaf (expr_uint_t u)"

definition je_double :: "'d \<Rightarrow> 'd json_XDR \<Rightarrow> 'd json_XDR option" where
  "je_double d = je_leaf (expr_double_t d)"

definition je_null :: "'d json_XDR \<Rightarrow> 'd json_XDR option" where
  "je_null = je_leaf expr_null_t"

definition rpc_encode :: "string \<Rightarrow> 'd json_XDR \<Rightarrow> 'd json_XDR option" where
  "rpc_encode s = je_leaf (expr_str_t (Some s))"

definition rpc_encode_opaque :: "'d jr_env \<Rightarrow> string \<Rightarrow> 'd json_XDR \<Rightarrow> 'd json_XDR option" where
  "rpc_encode_opaque J s = rpc_encode (jr_armor64 J s)"

definition je_bigint :: "'d jr_env \<Rightarrow> int \<Rightarrow> 'd json_XDR \<Rightarrow> 'd json_XDR option" where
  "je_bigint J b = je_leaf (expr_str_t (Some (jr_bigstr J b)))"

definition top_list :: "'d jr_env \<Rightarrow> 'd json_XDR \<Rightarrow> (nat \<times> 'd json_XDR) option" where
  "top_list J j =
     do { x \<leftarrow> vec_back (m_obj_stack j); a \<leftarrow> x; (l, h) \<leftarrow> to_list_mut (jr_pv J) a (jx_heap j); l \<leftarrow> l; Some (l, j\<lparr>jx_heap := h\<rparr>) }"

definition top_dict :: "'d jr_env \<Rightarrow> 'd json_XDR \<Rightarrow> (nat \<times> 'd json_XDR) option" where
  "top_dict J j =
     do { x \<leftarrow> vec_back (m_obj_stack j);
          (case x of
             None \<Rightarrow> (let n = dict_alloc (jr_pv J) (jx_heap j) in do { j \<leftarrow> set_top_new n j; Some (fst n, j) })
           | Some a \<Rightarrow> do { (d, h) \<leftarrow> to_dict_mut (jr_pv J) a (jx_heap j); d \<leftarrow> d; Some (d, j\<lparr>jx_heap := h\<rparr>) }) }"

definition je_enter_field :: "'d jr_env \<Rightarrow> string option \<Rightarrow> 'd json_XDR \<Rightarrow> 'd json_XDR option" where
  "je_enter_field J f j =
     (case f of
        None \<Rightarrow> Some j
      | Some f \<Rightarrow> do { (d, j) \<leftarrow> top_dict J (debug_push f j); Some (push_ref (obj_ref_dict_t d f) j) })"

definition je_exit_field :: "string option \<Rightarrow> 'd json_XDR \<Rightarrow> 'd json_XDR option" where
  "je_exit_field f j = (case f of None \<Rightarrow> Some j | Some f \<Rightarrow> pop_ref j)"

definition je_enter_slot :: "'d jr_env \<Rightarrow> nat \<Rightarrow> 'd json_XDR \<Rightarrow> 'd json_XDR option" where
  "je_enter_slot J i j = do { (l, j) \<leftarrow> top_list J (debug_push_slot i j); Some (push_ref (obj_ref_list_t l i) j) }"

definition je_exit_slot :: "'d json_XDR \<Rightarrow> 'd json_XDR option" where
  "je_exit_slot j = do { j \<leftarrow> debug_pop j; pop_ref j }"

definition je_enter_array :: "'d json_XDR \<Rightarrow> 'd json_XDR option" where
  "je_enter_array j = set_top_new (list_alloc (jx_heap j)) j"

definition je_enter_pointer :: "'d jr_env \<Rightarrow> bool \<Rightarrow> 'd json_XDR \<Rightarrow> 'd json_XDR option" where
  "je_enter_pointer J nonnil j =
     do { j \<leftarrow> set_top_new (list_alloc (jx_heap j)) j; if nonnil then je_enter_slot J 0 j else Some j }"

definition je_exit_pointer :: "bool \<Rightarrow> 'd json_XDR \<Rightarrow> 'd json_XDR option" where
  "je_exit_pointer nonnil j = (if nonnil then je_exit_slot j else Some j)"

text \<open>\<^verbatim>\<open>flush\<close>: the text of the packet, which the base library pads.\<close>

definition je_flush :: "'d jr_env \<Rightarrow> 'd json_XDR \<Rightarrow> string option" where
  "je_flush J j = do { a \<leftarrow> jx_root j; x \<leftarrow> value_of (jx_heap j) a; pv_to_str (jr_pv J) x (str_opt_t\<lparr>m_quoted := True\<rparr>) }"

section \<open>Calls\<close>

text \<open>
  The calls of the interface with their arguments: what the encoder is given, and what the decoder returns.
  The decoder looks only at the name of a field and the number of a slot.
\<close>

datatype 'd xcall =
    C_int32 int | C_uint32 int | C_int64 int | C_uint64 int | C_double 'd | C_str string | C_opaque string
  | C_null | C_bigint int
  | C_enter_field "string option" | C_exit_field "string option"
  | C_enter_array nat | C_exit_array | C_enter_slot nat | C_exit_slot nat
  | C_enter_pointer bool | C_exit_pointer bool

definition enc_call :: "'d jr_env \<Rightarrow> 'd xcall \<Rightarrow> 'd json_XDR \<Rightarrow> 'd json_XDR option" where
  "enc_call J c j =
     (case c of
        C_int32 i \<Rightarrow> je_int i j | C_uint32 i \<Rightarrow> je_int i j | C_int64 i \<Rightarrow> je_int i j | C_uint64 i \<Rightarrow> je_uint64 i j
      | C_double d \<Rightarrow> je_double d j | C_str s \<Rightarrow> rpc_encode s j | C_opaque s \<Rightarrow> rpc_encode_opaque J s j
      | C_null \<Rightarrow> je_null j | C_bigint b \<Rightarrow> je_bigint J b j
      | C_enter_field f \<Rightarrow> je_enter_field J f j | C_exit_field f \<Rightarrow> je_exit_field f j
      | C_enter_array n \<Rightarrow> je_enter_array j | C_exit_array \<Rightarrow> Some j
      | C_enter_slot i \<Rightarrow> je_enter_slot J i j | C_exit_slot i \<Rightarrow> je_exit_slot j
      | C_enter_pointer b \<Rightarrow> je_enter_pointer J b j | C_exit_pointer b \<Rightarrow> je_exit_pointer b j)"

definition got :: "('a \<Rightarrow> 'd xcall) \<Rightarrow> 'a option \<times> 'd json_XDR \<Rightarrow> ('d xcall option \<times> 'd json_XDR) option" where
  "got f r = Some (map_option f (fst r), snd r)"

definition dec_call :: "'d jr_env \<Rightarrow> 'd xcall \<Rightarrow> 'd json_XDR \<Rightarrow> ('d xcall option \<times> 'd json_XDR) option" where
  "dec_call J c j =
     (case c of
        C_int32 _ \<Rightarrow> got C_int32 (jd_int32 J j) | C_uint32 _ \<Rightarrow> got C_uint32 (jd_uint32 J j)
      | C_int64 _ \<Rightarrow> got C_int64 (jd_int64 J j) | C_uint64 _ \<Rightarrow> got C_uint64 (jd_uint64 j)
      | C_double _ \<Rightarrow> got C_double (jd_double J j) | C_str _ \<Rightarrow> got C_str (rpc_decode J j)
      | C_opaque _ \<Rightarrow> got C_opaque (rpc_decode_opaque J j) | C_null \<Rightarrow> Some (Some C_null, j)
      | C_bigint _ \<Rightarrow> got C_bigint (jd_bigint J j)
      | C_enter_field f \<Rightarrow> map_option (Pair (Some (C_enter_field f))) (jd_enter_field J f j)
      | C_exit_field f \<Rightarrow> map_option (Pair (Some (C_exit_field f))) (jd_exit_field f j)
      | C_enter_array _ \<Rightarrow> Option.bind (jd_enter_array J j) (got C_enter_array)
      | C_exit_array \<Rightarrow> Some (Some C_exit_array, j)
      | C_enter_slot i \<Rightarrow> map_option (Pair (Some (C_enter_slot i))) (jd_enter_slot J i j)
      | C_exit_slot i \<Rightarrow> map_option (Pair (Some (C_exit_slot i))) (jd_exit_slot j)
      | C_enter_pointer _ \<Rightarrow> Option.bind (jd_enter_pointer J j) (got C_enter_pointer)
      | C_exit_pointer b \<Rightarrow> map_option (Pair (Some (C_exit_pointer b))) (jd_exit_pointer j))"

fun enc_calls :: "'d jr_env \<Rightarrow> 'd xcall list \<Rightarrow> 'd json_XDR \<Rightarrow> 'd json_XDR option" where
  "enc_calls J [] j = Some j"
| "enc_calls J (c # cs) j = do { j \<leftarrow> enc_call J c j; enc_calls J cs j }"

text \<open>A walk of the decoder ends at the first call that returns false: \<open>None\<close> in the first component.\<close>

fun dec_calls :: "'d jr_env \<Rightarrow> 'd xcall list \<Rightarrow> 'd json_XDR \<Rightarrow> ('d xcall list option \<times> 'd json_XDR) option" where
  "dec_calls J [] j = Some (Some [], j)"
| "dec_calls J (c # cs) j =
     do { (r, j) \<leftarrow> dec_call J c j;
          (case r of
             None \<Rightarrow> Some (None, j)
           | Some c' \<Rightarrow> do { (rs, j) \<leftarrow> dec_calls J cs j; Some (map_option (Cons c') rs, j) }) }"

section \<open>Messages\<close>

text \<open>
  A message as the walk over it sees it, and the calls of that walk: \<^verbatim>\<open>enter_field\<close> and \<^verbatim>\<open>exit_field\<close>
  around the members of a structure, \<^verbatim>\<open>enter_slot\<close> and \<^verbatim>\<open>exit_slot\<close> around the elements of an array.
\<close>

datatype 'd message =
    M_int32 int | M_uint32 int | M_int64 int | M_uint64 int | M_double 'd | M_str string | M_opaque string
  | M_null | M_bigint int
  | M_struct "(string \<times> 'd message) list" | M_array "'d message list" | M_ptr "'d message option"

definition around_slots :: "'d xcall list list \<Rightarrow> 'd xcall list" where
  "around_slots css = concat (map (\<lambda>(i, cs). C_enter_slot i # cs @ [C_exit_slot i]) (List.enumerate 0 css))"

definition around_fields :: "(string \<times> 'd xcall list) list \<Rightarrow> 'd xcall list" where
  "around_fields fs = concat (map (\<lambda>(f, cs). C_enter_field (Some f) # cs @ [C_exit_field (Some f)]) fs)"

primrec walk :: "'d message \<Rightarrow> 'd xcall list" where
  "walk (M_int32 i) = [C_int32 i]"
| "walk (M_uint32 i) = [C_uint32 i]"
| "walk (M_int64 i) = [C_int64 i]"
| "walk (M_uint64 i) = [C_uint64 i]"
| "walk (M_double d) = [C_double d]"
| "walk (M_str s) = [C_str s]"
| "walk (M_opaque s) = [C_opaque s]"
| "walk M_null = [C_null]"
| "walk (M_bigint b) = [C_bigint b]"
| "walk (M_struct fs) = around_fields (map (map_prod id walk) fs)"
| "walk (M_array ms) = C_enter_array (length ms) # around_slots (map walk ms) @ [C_exit_array]"
| "walk (M_ptr m) = (case map_option walk m of
     None \<Rightarrow> [C_enter_pointer False, C_exit_pointer False]
   | Some cs \<Rightarrow> C_enter_pointer True # cs @ [C_exit_pointer True])"

text \<open>The value that stands for a message.\<close>

primrec json_value :: "'d jr_env \<Rightarrow> 'd message \<Rightarrow> 'd expr_t" where
  "json_value J (M_int32 i) = expr_int_t i"
| "json_value J (M_uint32 i) = expr_int_t i"
| "json_value J (M_int64 i) = expr_int_t i"
| "json_value J (M_uint64 i) = expr_uint_t i"
| "json_value J (M_double d) = expr_double_t d"
| "json_value J (M_str s) = expr_str_t (Some s)"
| "json_value J (M_opaque s) = expr_str_t (Some (jr_armor64 J s))"
| "json_value J M_null = expr_null_t"
| "json_value J (M_bigint b) = expr_str_t (Some (jr_bigstr J b))"
| "json_value J (M_struct fs) = expr_dict_t (pe_ln0 (jr_pv J)) (map (map_prod id (\<lambda>m. Some (json_value J m))) fs)"
| "json_value J (M_array ms) = expr_list_t (- 1) (map (\<lambda>m. Some (json_value J m)) ms)"
| "json_value J (M_ptr m) = expr_list_t (- 1) (case map_option (json_value J) m of None \<Rightarrow> [] | Some v \<Rightarrow> [Some v])"

text \<open>Messages of a protocol: numbers in range, structures with members of different names.\<close>

primrec message_ok :: "'d message \<Rightarrow> bool" where
  "message_ok (M_int32 i) \<longleftrightarrow> - (2 ^ 31) \<le> i \<and> i \<le> 2 ^ 31 - 1"
| "message_ok (M_uint32 i) \<longleftrightarrow> 0 \<le> i \<and> i \<le> 2 ^ 32 - 1"
| "message_ok (M_int64 i) \<longleftrightarrow> fits_i64 i"
| "message_ok (M_uint64 i) \<longleftrightarrow> 0 \<le> i \<and> i \<le> UINT64_MAX"
| "message_ok (M_double d) \<longleftrightarrow> True"
| "message_ok (M_str s) \<longleftrightarrow> True"
| "message_ok (M_opaque s) \<longleftrightarrow> True"
| "message_ok M_null \<longleftrightarrow> True"
| "message_ok (M_bigint b) \<longleftrightarrow> True"
| "message_ok (M_struct fs) \<longleftrightarrow> fs \<noteq> [] \<and> distinct (map fst fs) \<and> list_all (\<lambda>(f, b). b) (map (map_prod id message_ok) fs)"
| "message_ok (M_array ms) \<longleftrightarrow> length ms < 2 ^ 32 \<and> list_all (\<lambda>b. b) (map message_ok ms)"
| "message_ok (M_ptr m) \<longleftrightarrow> (case map_option message_ok m of None \<Rightarrow> True | Some b \<Rightarrow> b)"

section \<open>Values in the heap\<close>

text \<open>The object at \<open>a\<close> is a tree whose objects were made in order, without copy-on-write objects or null pointers.\<close>

inductive den :: "'d heap \<Rightarrow> nat \<Rightarrow> 'd expr_t \<Rightarrow> bool" for h where
  den_leaf: "a < length h \<Longrightarrow> h ! a = Leaf x \<Longrightarrow> atomic x \<Longrightarrow> den h a x"
| den_list: "a < length h \<Longrightarrow> h ! a = OList ln l \<Longrightarrow>
    list_all2 (\<lambda>p v. \<exists>b x. p = Some b \<and> v = Some x \<and> a < b \<and> den h b x) l vs \<Longrightarrow> den h a (expr_list_t ln vs)"
| den_dict: "a < length h \<Longrightarrow> h ! a = ODict ln d \<Longrightarrow> map fst d = map fst vs \<Longrightarrow>
    list_all2 (\<lambda>p v. \<exists>b x. p = Some b \<and> v = Some x \<and> a < b \<and> den h b x) (map snd d) (map snd vs) \<Longrightarrow> den h a (expr_dict_t ln vs)"

definition kid :: "'d heap \<Rightarrow> nat \<Rightarrow> nat option \<Rightarrow> 'd expr_t option \<Rightarrow> bool" where
  "kid h a p v \<longleftrightarrow> (\<exists>b x. p = Some b \<and> v = Some x \<and> a < b \<and> den h b x)"

lemma den_frame: "den h a x \<Longrightarrow> length h \<le> length h' \<Longrightarrow> (\<And>b. a \<le> b \<Longrightarrow> b < length h \<Longrightarrow> h' ! b = h ! b) \<Longrightarrow> den h' a x"
proof (induction rule: den.induct)
  case (den_leaf a x)
  then show ?case using den.den_leaf [of a h' x] by simp
next
  case (den_list a ln l vs)
  have "list_all2 (\<lambda>p v. \<exists>b x. p = Some b \<and> v = Some x \<and> a < b \<and> den h' b x) l vs"
    by (rule list_all2_mono [OF den_list.IH]) (use den_list.prems in \<open>auto dest: less_le_trans\<close>)
  then show ?case using den_list den.den_list [of a h' ln l vs] by simp
next
  case (den_dict a ln d vs)
  have "list_all2 (\<lambda>p v. \<exists>b x. p = Some b \<and> v = Some x \<and> a < b \<and> den h' b x) (map snd d) (map snd vs)"
    by (rule list_all2_mono [OF den_dict.IH]) (use den_dict.prems in \<open>auto dest: less_le_trans\<close>)
  then show ?case using den_dict den.den_dict [of a h' ln d vs] by simp
qed

lemma den_bound: "den h a x \<Longrightarrow> a < length h" by (auto elim: den.cases)

lemma den_reify: "den h a x \<Longrightarrow> length h - a \<le> n \<Longrightarrow> reify n h a = Some x"
proof (induction arbitrary: n rule: den.induct)
  case (den_leaf a x)
  then show ?case by (cases n) auto
next
  case (den_list a ln l vs)
  then obtain m where m: "n = Suc m" by (cases n) auto
  have "list_all2 (\<lambda>p v. reify_ptr m h p = Some v) l vs"
    by (rule list_all2_mono [OF den_list.IH]) (use den_list.prems m in \<open>auto dest: den_bound\<close>)
  then show ?case using den_list m by (simp add: those_iff)
next
  case (den_dict a ln d vs)
  then obtain m where m: "n = Suc m" by (cases n) auto
  have "list_all2 (\<lambda>p v. reify_ptr m h p = Some v) (map snd d) (map snd vs)"
    by (rule list_all2_mono [OF den_dict.IH]) (use den_dict.prems m in \<open>auto dest: den_bound\<close>)
  then show ?case using den_dict m by (simp add: dict_fuel)
qed

lemma den_value: "den h a x \<Longrightarrow> value_of h a = Some x"
  by (simp add: value_of_def den_reify)

section \<open>The encoder builds the value\<close>

definition ref_ok :: "obj_ref \<Rightarrow> 'd heap \<Rightarrow> bool" where
  "ref_ok r h =
     (case r of
        obj_ref_dict_t d k \<Rightarrow> d < length h \<and> (\<exists>ln e. h ! d = ODict ln e)
      | obj_ref_list_t l i \<Rightarrow> l < length h \<and> (\<exists>ln xs. h ! l = OList ln xs)
      | plain_obj_ref_t \<Rightarrow> True)"

abbreviation written :: "obj_ref \<Rightarrow> nat \<Rightarrow> 'd json_XDR \<Rightarrow> 'd heap" where
  "written r a j \<equiv> snd (ref_set r (Some a) (jx_root j) (jx_heap j))"

text \<open>What encoding a part of a message does: the reference on top gets the address \<open>a\<close>, everything else stays.\<close>

definition encoded :: "'d json_XDR \<Rightarrow> nat option list \<Rightarrow> obj_ref \<Rightarrow> nat \<Rightarrow> 'd json_XDR \<Rightarrow> bool" where
  "encoded j os r a j' \<longleftrightarrow>
     m_obj_stack j' = os @ [Some a] \<and> m_ref_stack j' = m_ref_stack j \<and> length (jx_heap j) \<le> a
     \<and> jx_root j' = fst (ref_set r (Some a) (jx_root j) (jx_heap j))
     \<and> same_upto (length (jx_heap j)) (written r a j) (jx_heap j')
     \<and> length (m_debug_stack j) \<le> length (m_debug_stack j')"

definition encodes :: "'d jr_env \<Rightarrow> 'd xcall list \<Rightarrow> 'd expr_t \<Rightarrow> bool" where
  "encodes J cs v \<longleftrightarrow> (\<forall>j os rs r. m_obj_stack j = os @ [None] \<and> m_ref_stack j = rs @ [r] \<and> ref_ok r (jx_heap j) \<longrightarrow>
     (\<exists>j' a. enc_calls J cs j = Some j' \<and> encoded j os r a j' \<and> den (jx_heap j') a v))"

lemma enc_append: "enc_calls J (cs @ ds) j = Option.bind (enc_calls J cs j) (enc_calls J ds)"
  by (induction cs arbitrary: j) (auto split: Option.bind_split)

lemma enc_then: "enc_calls J cs j = Some j1 \<Longrightarrow> enc_calls J (cs @ ds) j = enc_calls J ds j1"
  by (simp add: enc_append)

lemma ref_set_append: "ref_ok r h \<Longrightarrow> ref_set r (Some a) rt (h @ [x]) = (fst (ref_set r (Some a) rt h), snd (ref_set r (Some a) rt h) @ [x])"
  by (cases r) (auto simp: ref_ok_def ref_set_def safe_obj_def obj_insert_def obj_list_set_def nth_append fixup_lax list_update_append1)

lemma ref_set_length: "ref_ok r h \<Longrightarrow> length (snd (ref_set r (Some a) rt h)) = length h"
  by (cases r) (auto simp: ref_ok_def ref_set_def safe_obj_def obj_insert_def obj_list_set_def fixup_lax)

lemma set_top_new_eq:
  assumes "m_obj_stack j = os @ [p]" "m_ref_stack j = rs @ [r]" "ref_ok r (jx_heap j)"
  shows "set_top_new (new_obj x (jx_heap j)) j =
    Some (j\<lparr>m_obj_stack := os @ [Some (length (jx_heap j))],
            jx_root := fst (ref_set r (Some (length (jx_heap j))) (jx_root j) (jx_heap j)),
            jx_heap := written r (length (jx_heap j)) j @ [x]\<rparr>)"
  using assms by (simp add: set_top_new_def new_obj_def set_top_def ref_set_append)

text \<open>After a new object has been put on top.\<close>

lemma set_top_new_encoded:
  assumes "m_obj_stack j = os @ [p]" "m_ref_stack j = rs @ [r]" "ref_ok r (jx_heap j)"
  shows "\<exists>j1. set_top_new (new_obj x (jx_heap j)) j = Some j1 \<and> encoded j os r (length (jx_heap j)) j1
    \<and> jx_heap j1 ! length (jx_heap j) = x \<and> length (jx_heap j1) = Suc (length (jx_heap j)) \<and> m_debug_stack j1 = m_debug_stack j"
  using ref_set_length [OF assms(3), of "length (jx_heap j)" "jx_root j"] assms(2)
  by (simp add: set_top_new_eq [OF assms] encoded_def same_append nth_append)

lemma encodes_leaf: "(\<And>j. enc_call J c j = je_leaf x j) \<Longrightarrow> atomic x \<Longrightarrow> encodes J [c] x"
  unfolding encodes_def je_leaf_def
proof (intro allI impI)
  fix j :: "'a json_XDR" and os rs r
  assume c: "\<And>j. enc_call J c j = set_top_new (new_obj (Leaf x) (jx_heap j)) j"
    and x: "atomic x" and j: "m_obj_stack j = os @ [None] \<and> m_ref_stack j = rs @ [r] \<and> ref_ok r (jx_heap j)"
  obtain j1 where "set_top_new (new_obj (Leaf x) (jx_heap j)) j = Some j1" "encoded j os r (length (jx_heap j)) j1"
    "jx_heap j1 ! length (jx_heap j) = Leaf x" "length (jx_heap j1) = Suc (length (jx_heap j))"
    using set_top_new_encoded [of j os None rs r "Leaf x"] j by blast
  moreover from this have "den (jx_heap j1) (length (jx_heap j)) x" using x by (simp add: den_leaf)
  ultimately show "\<exists>j' a. enc_calls J [c] j = Some j' \<and> encoded j os r a j' \<and> den (jx_heap j') a x"
    using c [of j] by auto
qed

text \<open>Later steps that write only to the object on top, or further up.\<close>

definition continued :: "nat \<Rightarrow> 'd json_XDR \<Rightarrow> 'd json_XDR \<Rightarrow> bool" where
  "continued a j j' \<longleftrightarrow> m_obj_stack j' = m_obj_stack j \<and> m_ref_stack j' = m_ref_stack j \<and> jx_root j' = jx_root j
     \<and> length (jx_heap j) \<le> length (jx_heap j') \<and> (\<forall>b < length (jx_heap j). b \<noteq> a \<longrightarrow> jx_heap j' ! b = jx_heap j ! b)
     \<and> length (m_debug_stack j) \<le> length (m_debug_stack j')"

lemma continued_refl [simp]: "continued a j j" by (simp add: continued_def)

lemma continued_trans: "continued a j j1 \<Longrightarrow> continued a j1 j2 \<Longrightarrow> continued a j j2"
  by (simp add: continued_def)

lemma encoded_continued: "encoded j os r a j1 \<Longrightarrow> continued a j1 j2 \<Longrightarrow> ref_ok r (jx_heap j) \<Longrightarrow> encoded j os r a j2"
  using ref_set_length [of r "jx_heap j" a "jx_root j"] by (auto simp: encoded_def continued_def same_upto_def)

lemma kid_frame: "kid h a p v \<Longrightarrow> length h \<le> length h' \<Longrightarrow> (\<And>b. a < b \<Longrightarrow> b < length h \<Longrightarrow> h' ! b = h ! b) \<Longrightarrow> kid h' a p v"
  unfolding kid_def using den_frame by (metis order_less_le_trans)

lemma update_fresh: "k \<notin> fst ` set e \<Longrightarrow> AList.update k v e = e @ [(k, v)]"
  by (induction e) auto

text \<open>One member of a structure.\<close>

lemma enc_field:
  assumes "encodes J cs v" "m_obj_stack j = os @ [Some p]" "m_ref_stack j = rs @ [r]" "p < length (jx_heap j)"
    "jx_heap j ! p = ODict ln e" "f \<notin> fst ` set e"
  shows "\<exists>j' a. enc_calls J (C_enter_field (Some f) # cs @ [C_exit_field (Some f)]) j = Some j' \<and> continued p j j'
    \<and> jx_heap j' ! p = ODict ln (e @ [(f, Some a)]) \<and> p < a \<and> den (jx_heap j') a v"
proof -
  let ?j = "push_ref (obj_ref_dict_t p f) (debug_push f j)"
  have e: "enc_call J (C_enter_field (Some f)) j = Some ?j"
    using assms(2,5) by (simp add: enc_call_def je_enter_field_def top_dict_def debug_push_def vec_back_def to_dict_mut_def
        mutable_ptr_def dict_at_def push_ref_def)
  have s: "m_obj_stack ?j = (os @ [Some p]) @ [None]" "m_ref_stack ?j = (rs @ [r]) @ [obj_ref_dict_t p f]"
    "ref_ok (obj_ref_dict_t p f) (jx_heap ?j)" "jx_heap ?j = jx_heap j" "jx_root ?j = jx_root j"
    "m_debug_stack ?j = m_debug_stack j @ [f]"
    using assms(2-5) by (simp_all add: push_ref_def debug_push_def ref_ok_def)
  then obtain j1 a where 1: "enc_calls J cs ?j = Some j1" "encoded ?j (os @ [Some p]) (obj_ref_dict_t p f) a j1" "den (jx_heap j1) a v"
    using assms(1) unfolding encodes_def by blast
  have w: "ref_set (obj_ref_dict_t p f) (Some a) (jx_root j) (jx_heap j) = (jx_root j, (jx_heap j)[p := ODict ln (e @ [(f, Some a)])])"
    using assms(5,6) by (simp add: ref_set_def safe_obj_def obj_insert_def update_fresh)
  let ?j2 = "j1\<lparr>m_obj_stack := os @ [Some p], m_ref_stack := rs @ [r]\<rparr>"
  have "enc_call J (C_exit_field (Some f)) j1 = Some ?j2"
    using 1(2) s(2) by (simp add: enc_call_def je_exit_field_def pop_ref_def encoded_def butlast_append)
  then have "enc_calls J (C_enter_field (Some f) # cs @ [C_exit_field (Some f)]) j = Some ?j2"
    using e 1(1) by (simp add: enc_append)
  moreover have "continued p j ?j2 \<and> jx_heap ?j2 ! p = ODict ln (e @ [(f, Some a)]) \<and> p < a"
    using 1(2) s assms(2-4) by (auto simp: encoded_def continued_def w same_upto_def)
  ultimately show ?thesis using 1(3) by fastforce
qed

text \<open>One element of an array.\<close>

lemma enc_slot:
  assumes "encodes J cs v" "m_obj_stack j = os @ [Some p]" "m_ref_stack j = rs @ [r]" "p < length (jx_heap j)"
    "jx_heap j ! p = OList ln xs"
  shows "\<exists>j' a. enc_calls J (C_enter_slot (length xs) # cs @ [C_exit_slot (length xs)]) j = Some j' \<and> continued p j j'
    \<and> jx_heap j' ! p = OList ln (xs @ [Some a]) \<and> p < a \<and> den (jx_heap j') a v"
proof -
  let ?j = "push_ref (obj_ref_list_t p (length xs)) (debug_push_slot (length xs) j)"
  have e: "enc_call J (C_enter_slot (length xs)) j = Some ?j"
    using assms(2,5) by (simp add: enc_call_def je_enter_slot_def top_list_def debug_push_slot_def debug_push_def vec_back_def
        to_list_mut_def mutable_ptr_def list_at_def push_ref_def)
  have s: "m_obj_stack ?j = (os @ [Some p]) @ [None]" "m_ref_stack ?j = (rs @ [r]) @ [obj_ref_list_t p (length xs)]"
    "ref_ok (obj_ref_list_t p (length xs)) (jx_heap ?j)" "jx_heap ?j = jx_heap j" "jx_root ?j = jx_root j"
    "length (m_debug_stack ?j) = Suc (length (m_debug_stack j))"
    using assms(2-5) by (simp_all add: push_ref_def debug_push_slot_def debug_push_def ref_ok_def)
  then obtain j1 a where 1: "enc_calls J cs ?j = Some j1" "encoded ?j (os @ [Some p]) (obj_ref_list_t p (length xs)) a j1" "den (jx_heap j1) a v"
    using assms(1) unfolding encodes_def by blast
  have w: "ref_set (obj_ref_list_t p (length xs)) (Some a) (jx_root j) (jx_heap j) = (jx_root j, (jx_heap j)[p := OList ln (xs @ [Some a])])"
    using assms(5) by (simp add: ref_set_def safe_obj_def obj_list_set_def fixup_lax)
  let ?j2 = "j1\<lparr>m_obj_stack := os @ [Some p], m_ref_stack := rs @ [r], m_debug_stack := butlast (m_debug_stack j1)\<rparr>"
  have "m_debug_stack j1 \<noteq> []" using 1(2) s(6) by (auto simp: encoded_def)
  then have "enc_call J (C_exit_slot (length xs)) j1 = Some ?j2"
    using 1(2) s(2) by (simp add: enc_call_def je_exit_slot_def debug_pop_def pop_ref_def encoded_def butlast_append)
  then have "enc_calls J (C_enter_slot (length xs) # cs @ [C_exit_slot (length xs)]) j = Some ?j2"
    using e 1(1) by (simp add: enc_append)
  moreover have "continued p j ?j2 \<and> jx_heap ?j2 ! p = OList ln (xs @ [Some a]) \<and> p < a"
    using 1(2) s assms(2-4) by (auto simp: encoded_def continued_def w same_upto_def)
  ultimately show ?thesis using 1(3) by fastforce
qed

lemma kids_continued:
  assumes "list_all2 (kid (jx_heap j) p) l vs" "continued p j j'"
  shows "list_all2 (kid (jx_heap j') p) l vs"
  using list_all2_mono [OF assms(1)] kid_frame [of "jx_heap j" p _ _ "jx_heap j'"] assms(2) by (auto simp: continued_def)

lemma enc_fields:
  assumes "m_obj_stack j = os @ [Some p]" "m_ref_stack j = rs @ [r]" "p < length (jx_heap j)" "jx_heap j ! p = ODict ln e"
    "list_all (\<lambda>(f, cs, v). encodes J cs v) fs" "distinct (map fst e @ map fst fs)"
    "map fst e = map fst vs" "list_all2 (kid (jx_heap j) p) (map snd e) (map snd vs)"
  shows "\<exists>j' e'. enc_calls J (around_fields (map (\<lambda>(f, cs, v). (f, cs)) fs)) j = Some j' \<and> continued p j j' \<and> jx_heap j' ! p = ODict ln e'
    \<and> map fst e' = map fst (vs @ map (\<lambda>(f, cs, v). (f, Some v)) fs)
    \<and> list_all2 (kid (jx_heap j') p) (map snd e') (map snd (vs @ map (\<lambda>(f, cs, v). (f, Some v)) fs))"
  using assms
proof (induction fs arbitrary: j e vs)
  case Nil
  then show ?case by (force simp: around_fields_def)
next
  case (Cons x fs)
  obtain f cs v where x: "x = (f, cs, v)" by (cases x)
  have "f \<notin> fst ` set e" "encodes J cs v" using Cons.prems(5,6) x by auto
  then obtain j1 a where 1: "enc_calls J (C_enter_field (Some f) # cs @ [C_exit_field (Some f)]) j = Some j1" "continued p j j1"
    "jx_heap j1 ! p = ODict ln (e @ [(f, Some a)])" "p < a" "den (jx_heap j1) a v"
    using enc_field [OF _ Cons.prems(1-4)] by blast
  let ?vs = "vs @ [(f, Some v)]"
  have "list_all2 (kid (jx_heap j1) p) (map snd (e @ [(f, Some a)])) (map snd ?vs)"
    using kids_continued [OF Cons.prems(8) 1(2)] 1(4,5) by (auto simp: kid_def intro: list_all2_appendI)
  moreover have "m_obj_stack j1 = os @ [Some p]" "m_ref_stack j1 = rs @ [r]" "p < length (jx_heap j1)"
    using 1(2) Cons.prems(1-3) by (simp_all add: continued_def)
  ultimately obtain j' e' where 2: "enc_calls J (around_fields (map (\<lambda>(f, cs, v). (f, cs)) fs)) j1 = Some j'" "continued p j1 j'" "jx_heap j' ! p = ODict ln e'"
    "map fst e' = map fst (?vs @ map (\<lambda>(f, cs, v). (f, Some v)) fs)"
    "list_all2 (kid (jx_heap j') p) (map snd e') (map snd (?vs @ map (\<lambda>(f, cs, v). (f, Some v)) fs))"
    using Cons.IH [of j1 "e @ [(f, Some a)]" ?vs] 1(3) Cons.prems(5-7) x by auto
  have "enc_calls J (around_fields (map (\<lambda>(f, cs, v). (f, cs)) (x # fs))) j = Some j'"
    using enc_then [OF 1(1), of "around_fields (map (\<lambda>(f, cs, v). (f, cs)) fs)"] 2(1) x by (simp add: around_fields_def)
  then show ?case using 2 continued_trans [OF 1(2) 2(2)] x by auto
qed

lemma enc_slots:
  assumes "m_obj_stack j = os @ [Some p]" "m_ref_stack j = rs @ [r]" "p < length (jx_heap j)" "jx_heap j ! p = OList ln xs"
    "list_all (\<lambda>(cs, v). encodes J cs v) es" "list_all2 (kid (jx_heap j) p) xs vs"
  shows "\<exists>j' xs'. enc_calls J (concat (map (\<lambda>(i, cs). C_enter_slot i # cs @ [C_exit_slot i]) (List.enumerate (length xs) (map fst es)))) j = Some j'
    \<and> continued p j j' \<and> jx_heap j' ! p = OList ln xs' \<and> list_all2 (kid (jx_heap j') p) xs' (vs @ map (\<lambda>(cs, v). Some v) es)"
  using assms
proof (induction es arbitrary: j xs vs)
  case Nil
  then show ?case by force
next
  case (Cons x es)
  obtain cs v where x: "x = (cs, v)" by (cases x)
  then have "encodes J cs v" using Cons.prems(5) by simp
  then obtain j1 a where 1: "enc_calls J (C_enter_slot (length xs) # cs @ [C_exit_slot (length xs)]) j = Some j1" "continued p j j1"
    "jx_heap j1 ! p = OList ln (xs @ [Some a])" "p < a" "den (jx_heap j1) a v"
    using enc_slot [OF _ Cons.prems(1-4)] by blast
  let ?vs = "vs @ [Some v]"
  have "list_all2 (kid (jx_heap j1) p) (xs @ [Some a]) ?vs"
    using kids_continued [OF Cons.prems(6) 1(2)] 1(4,5) by (auto simp: kid_def intro: list_all2_appendI)
  moreover have "m_obj_stack j1 = os @ [Some p]" "m_ref_stack j1 = rs @ [r]" "p < length (jx_heap j1)"
    using 1(2) Cons.prems(1-3) by (simp_all add: continued_def)
  ultimately obtain j' xs' where 2:
    "enc_calls J (concat (map (\<lambda>(i, cs). C_enter_slot i # cs @ [C_exit_slot i]) (List.enumerate (Suc (length xs)) (map fst es)))) j1 = Some j'"
    "continued p j1 j'" "jx_heap j' ! p = OList ln xs'" "list_all2 (kid (jx_heap j') p) xs' (?vs @ map (\<lambda>(cs, v). Some v) es)"
    using Cons.IH [of j1 "xs @ [Some a]" ?vs] 1(3) Cons.prems(5) by auto
  have "enc_calls J (concat (map (\<lambda>(i, cs). C_enter_slot i # cs @ [C_exit_slot i]) (List.enumerate (length xs) (map fst (x # es))))) j = Some j'"
    using enc_then [OF 1(1)] 2(1) x by simp
  then show ?case using 2 continued_trans [OF 1(2) 2(2)] x by auto
qed

lemma den_listI: "a < length h \<Longrightarrow> h ! a = OList ln l \<Longrightarrow> list_all2 (kid h a) l vs \<Longrightarrow> den h a (expr_list_t ln vs)"
  using den_list [of a h ln l vs] by (simp add: kid_def [abs_def])

lemma den_dictI: "a < length h \<Longrightarrow> h ! a = ODict ln d \<Longrightarrow> map fst d = map fst vs \<Longrightarrow> list_all2 (kid h a) (map snd d) (map snd vs) \<Longrightarrow>
  den h a (expr_dict_t ln vs)"
  using den_dict [of a h ln d vs] by (simp add: kid_def [abs_def])

lemma encodes_array:
  assumes "list_all (\<lambda>(cs, v). encodes J cs v) es"
  shows "encodes J (C_enter_array n # around_slots (map fst es) @ [C_exit_array]) (expr_list_t (- 1) (map (\<lambda>(cs, v). Some v) es))"
  unfolding encodes_def
proof (intro allI impI)
  fix j :: "'a json_XDR" and os rs r
  assume j: "m_obj_stack j = os @ [None] \<and> m_ref_stack j = rs @ [r] \<and> ref_ok r (jx_heap j)"
  let ?p = "length (jx_heap j)"
  obtain j1 where 1: "set_top_new (new_obj (OList (- 1) []) (jx_heap j)) j = Some j1" "encoded j os r ?p j1"
    "jx_heap j1 ! ?p = OList (- 1) []" "length (jx_heap j1) = Suc ?p"
    using set_top_new_encoded [of j os None rs r] j by blast
  have "m_obj_stack j1 = os @ [Some ?p]" "m_ref_stack j1 = rs @ [r]" using 1(2) j by (simp_all add: encoded_def)
  then obtain j2 xs where 2: "enc_calls J (around_slots (map fst es)) j1 = Some j2" "continued ?p j1 j2"
    "jx_heap j2 ! ?p = OList (- 1) xs" "list_all2 (kid (jx_heap j2) ?p) xs (map (\<lambda>(cs, v). Some v) es)"
    using enc_slots [of j1 os ?p rs r "- 1" "[]" J es "[]"] 1(3,4) assms by (auto simp: around_slots_def)
  have "den (jx_heap j2) ?p (expr_list_t (- 1) (map (\<lambda>(cs, v). Some v) es))"
    using den_listI [OF _ 2(3,4)] 1(4) 2(2) by (simp add: continued_def)
  moreover have "enc_calls J (C_enter_array n # around_slots (map fst es) @ [C_exit_array]) j = Some j2"
    using enc_then [OF 2(1), of "[C_exit_array]"] 1(1) by (simp add: enc_call_def je_enter_array_def list_alloc_def)
  ultimately show "\<exists>j' a. enc_calls J (C_enter_array n # around_slots (map fst es) @ [C_exit_array]) j = Some j' \<and> encoded j os r a j'
      \<and> den (jx_heap j') a (expr_list_t (- 1) (map (\<lambda>(cs, v). Some v) es))"
    using encoded_continued [OF 1(2) 2(2)] j by blast
qed

lemma enc_fun: "enc_calls J [] = Some" "enc_calls J (c # cs) = (\<lambda>j. Option.bind (enc_call J c j) (enc_calls J cs))"
    "enc_calls J (cs @ ds) = (\<lambda>j. Option.bind (enc_calls J cs j) (enc_calls J ds))"
  by (rule ext, simp add: enc_append)+

lemma encodes_cong: "(\<And>j. enc_calls J cs j = enc_calls J ds j) \<Longrightarrow> encodes J cs v \<Longrightarrow> encodes J ds v"
  by (simp add: encodes_def)

text \<open>A pointer is an array of no or one element.\<close>

lemma encodes_pointer:
  assumes "case m of None \<Rightarrow> True | Some (cs, v) \<Rightarrow> encodes J cs v"
  shows "encodes J (C_enter_pointer (m \<noteq> None) # (case m of None \<Rightarrow> [] | Some (cs, v) \<Rightarrow> cs) @ [C_exit_pointer (m \<noteq> None)])
    (expr_list_t (- 1) (case m of None \<Rightarrow> [] | Some (cs, v) \<Rightarrow> [Some v]))"
proof -
  let ?es = "case m of None \<Rightarrow> [] | Some e \<Rightarrow> [e]"
  have a: "encodes J (C_enter_array n # around_slots (map fst ?es) @ [C_exit_array]) (expr_list_t (- 1) (map (\<lambda>(cs, v). Some v) ?es))" for n
    using encodes_array [of J ?es] assms by (auto split: option.splits)
  have b: "enc_calls J (C_enter_array 0 # around_slots (map fst ?es) @ [C_exit_array]) j =
      enc_calls J (C_enter_pointer (m \<noteq> None) # (case m of None \<Rightarrow> [] | Some (cs, v) \<Rightarrow> cs) @ [C_exit_pointer (m \<noteq> None)]) j" for j
    by (auto simp: around_slots_def enc_call_def je_enter_array_def je_enter_pointer_def je_exit_pointer_def enc_fun bind_assoc
        split: option.splits)
  have c: "(case m of None \<Rightarrow> [] | Some (cs, v) \<Rightarrow> [Some v]) = map (\<lambda>(cs, v). Some v) ?es" by (auto split: option.splits)
  show ?thesis unfolding c by (rule encodes_cong [OF b a])
qed

lemma first_field:
  assumes "m_obj_stack j = os @ [None]" "set_top_new (new_obj (ODict (pe_ln0 (jr_pv J)) []) (jx_heap j)) j = Some j1"
    "jx_heap j1 ! length (jx_heap j) = ODict ln e" "m_obj_stack j1 = os @ [Some (length (jx_heap j))]"
  shows "enc_call J (C_enter_field (Some f)) j = enc_call J (C_enter_field (Some f)) j1"
proof -
  have "set_top_new n (debug_push f j) = map_option (debug_push f) (set_top_new n j)" for n
    by (simp add: set_top_new_def set_top_def debug_push_def Let_def split: prod.splits)
  then show ?thesis using assms
    by (simp add: enc_call_def je_enter_field_def top_dict_def vec_back_def dict_alloc_def debug_push_def to_dict_mut_def mutable_ptr_def
        dict_at_def new_obj_def)
qed

lemma encodes_struct:
  assumes "list_all (\<lambda>(f, cs, v). encodes J cs v) fs" "distinct (map fst fs)" "fs \<noteq> []"
  shows "encodes J (around_fields (map (\<lambda>(f, cs, v). (f, cs)) fs)) (expr_dict_t (pe_ln0 (jr_pv J)) (map (\<lambda>(f, cs, v). (f, Some v)) fs))"
  unfolding encodes_def
proof (intro allI impI)
  fix j :: "'a json_XDR" and os rs r
  assume j: "m_obj_stack j = os @ [None] \<and> m_ref_stack j = rs @ [r] \<and> ref_ok r (jx_heap j)"
  let ?p = "length (jx_heap j)" and ?ln = "pe_ln0 (jr_pv J)"
  let ?cs = "around_fields (map (\<lambda>(f, cs, v). (f, cs)) fs)"
  obtain j1 where 1: "set_top_new (new_obj (ODict ?ln []) (jx_heap j)) j = Some j1" "encoded j os r ?p j1"
    "jx_heap j1 ! ?p = ODict ?ln []" "length (jx_heap j1) = Suc ?p"
    using set_top_new_encoded [of j os None rs r] j by blast
  have s: "m_obj_stack j1 = os @ [Some ?p]" "m_ref_stack j1 = rs @ [r]" using 1(2) j by (simp_all add: encoded_def)
  then obtain j2 e where 2: "enc_calls J ?cs j1 = Some j2" "continued ?p j1 j2" "jx_heap j2 ! ?p = ODict ?ln e"
    "map fst e = map fst (map (\<lambda>(f, cs, v). (f, Some v)) fs)"
    "list_all2 (kid (jx_heap j2) ?p) (map snd e) (map snd (map (\<lambda>(f, cs, v). (f, Some v)) fs))"
    using enc_fields [of j1 os ?p rs r ?ln "[]" J fs "[]"] 1(3,4) assms(1,2) by auto
  have "den (jx_heap j2) ?p (expr_dict_t ?ln (map (\<lambda>(f, cs, v). (f, Some v)) fs))"
    using den_dictI [OF _ 2(3-5)] 1(4) 2(2) by (simp add: continued_def)
  moreover obtain f cs' where "?cs = C_enter_field (Some f) # cs'" using assms(3) by (cases fs) (auto simp: around_fields_def)
  then have "enc_calls J ?cs j = Some j2" using first_field [OF _ 1(1,3) s(1), of f] 2(1) j by simp
  ultimately show "\<exists>j' a. enc_calls J ?cs j = Some j' \<and> encoded j os r a j'
      \<and> den (jx_heap j') a (expr_dict_t ?ln (map (\<lambda>(f, cs, v). (f, Some v)) fs))"
    using encoded_continued [OF 1(2) 2(2)] j by blast
qed

lemma encodes_message: "message_ok m \<Longrightarrow> encodes J (walk m) (json_value J m)"
proof (induction m)
  case (M_struct fs)
  let ?fs = "map (\<lambda>(f, m). (f, walk m, json_value J m)) fs"
  have "list_all (\<lambda>(f, cs, v). encodes J cs v) ?fs" using M_struct by (fastforce simp: list_all_iff snds.simps)
  moreover have "map fst ?fs = map fst fs" by (simp add: comp_def case_prod_unfold)
  ultimately show ?case using encodes_struct [of J ?fs] M_struct.prems by (simp add: comp_def case_prod_unfold map_prod_def)
next
  case (M_array ms)
  let ?es = "map (\<lambda>m. (walk m, json_value J m)) ms"
  have "list_all (\<lambda>(cs, v). encodes J cs v) ?es" using M_array by (auto simp: list_all_iff)
  then show ?case using encodes_array [of J ?es "length ms"] by (simp add: comp_def)
next
  case (M_ptr m)
  then show ?case using encodes_pointer [where m = "map_option (\<lambda>m. (walk m, json_value J m)) m" and J = J] by (cases m) auto
qed (auto intro!: encodes_leaf simp: enc_call_def je_int_def je_uint64_def je_double_def je_null_def je_bigint_def rpc_encode_def rpc_encode_opaque_def atomic_def)

section \<open>The decoder reads it back\<close>

text \<open>
  The part of a call that the walk determines before it makes it: which call, the name of a field, the number
  of a slot, and what \<^verbatim>\<open>enter_pointer\<close> has answered.
\<close>

definition call_kind :: "'d xcall \<Rightarrow> unit xcall" where
  "call_kind c =
     (case c of
        C_int32 _ \<Rightarrow> C_int32 0 | C_uint32 _ \<Rightarrow> C_uint32 0 | C_int64 _ \<Rightarrow> C_int64 0 | C_uint64 _ \<Rightarrow> C_uint64 0
      | C_double _ \<Rightarrow> C_double () | C_str _ \<Rightarrow> C_str [] | C_opaque _ \<Rightarrow> C_opaque [] | C_null \<Rightarrow> C_null | C_bigint _ \<Rightarrow> C_bigint 0
      | C_enter_field f \<Rightarrow> C_enter_field f | C_exit_field f \<Rightarrow> C_exit_field f
      | C_enter_array _ \<Rightarrow> C_enter_array 0 | C_exit_array \<Rightarrow> C_exit_array
      | C_enter_slot i \<Rightarrow> C_enter_slot i | C_exit_slot i \<Rightarrow> C_exit_slot i
      | C_enter_pointer _ \<Rightarrow> C_enter_pointer False | C_exit_pointer b \<Rightarrow> C_exit_pointer b)"

text \<open>What becomes of a message: every big integer is read back as 1.\<close>

primrec received :: "'d message \<Rightarrow> 'd message" where
  "received (M_int32 i) = M_int32 i"
| "received (M_uint32 i) = M_uint32 i"
| "received (M_int64 i) = M_int64 i"
| "received (M_uint64 i) = M_uint64 i"
| "received (M_double d) = M_double d"
| "received (M_str s) = M_str s"
| "received (M_opaque s) = M_opaque s"
| "received M_null = M_null"
| "received (M_bigint b) = M_bigint 1"
| "received (M_struct fs) = M_struct (map (map_prod id received) fs)"
| "received (M_array ms) = M_array (map received ms)"
| "received (M_ptr m) = M_ptr (map_option received m)"

definition decodes :: "'d jr_env \<Rightarrow> 'd xcall list \<Rightarrow> 'd expr_t \<Rightarrow> 'd xcall list \<Rightarrow> bool" where
  "decodes J cs v rs \<longleftrightarrow> (\<forall>j os a. m_obj_stack j = os @ [Some a] \<and> den (jx_heap j) a v \<longrightarrow> dec_calls J cs j = Some (Some rs, j))"

lemma dec_call_kind: "call_kind c = call_kind c' \<Longrightarrow> dec_call J c j = dec_call J c' j"
  by (cases c; cases c'; simp add: call_kind_def dec_call_def)

lemma dec_calls_kind: "map call_kind cs = map call_kind cs' \<Longrightarrow> dec_calls J cs j = dec_calls J cs' j"
proof (induction cs arbitrary: cs' j)
  case (Cons c cs)
  then obtain d ds where "cs' = d # ds" "call_kind c = call_kind d" "map call_kind cs = map call_kind ds" by (cases cs') auto
  then show ?case using Cons.IH dec_call_kind [of c d] by (simp cong: option.case_cong)
qed simp

lemma map_append_Cons: "map_option (\<lambda>x. c # z @ x) r = map_option ((@) (c # z)) r"
  by (cases r) auto

lemma dec_then: "dec_calls J cs j = Some (Some rs, j1) \<Longrightarrow>
  dec_calls J (cs @ ds) j = map_option (map_prod (map_option (\<lambda>ys. rs @ ys)) id) (dec_calls J ds j1)"
proof (induction cs arbitrary: j rs)
  case Nil
  then show ?case by (cases "dec_calls J ds j1") (auto simp: option.map_ident map_prod_def split: prod.splits)
next
  case (Cons c cs)
  then show ?case
    by (auto split: Option.bind_splits option.splits prod.splits simp: map_prod_def option.map_comp comp_def map_append_Cons)
qed

lemma dec_one: "dec_calls J (cs @ [c]) j = Some (Some (rs @ [c']), j2)"
  if "dec_calls J cs j = Some (Some rs, j1)" "dec_call J c j1 = Some (Some c', j2)"
  using that by (simp add: dec_then)

inductive_cases den_listE: "den h a (expr_list_t ln vs)"
inductive_cases den_dictE: "den h a (expr_dict_t ln vs)"

lemma den_list_cell: "den h a (expr_list_t ln vs) \<Longrightarrow> \<exists>l. h ! a = OList ln l \<and> list_all2 (kid h a) l vs"
  by (erule den_listE) (auto simp: atomic_def kid_def [abs_def])

lemma den_dict_cell: "den h a (expr_dict_t ln vs) \<Longrightarrow> \<exists>d. h ! a = ODict ln d \<and> map fst d = map fst vs \<and> list_all2 (kid h a) (map snd d) (map snd vs)"
  by (erule den_dictE) (auto simp: atomic_def kid_def [abs_def])

lemma den_atom: "den h a x \<Longrightarrow> atomic x \<Longrightarrow> h ! a = Leaf x"
  by (erule den.cases) (auto simp: atomic_def)

lemma not_empty: "m_obj_stack j = os @ [Some a] \<Longrightarrow> den (jx_heap j) a x \<Longrightarrow> x \<noteq> expr_null_t \<Longrightarrow> \<not> is_empty j"
  by (erule den.cases) (auto simp: is_empty_def vec_back_def obj_is_null_def target_def is_null_def atomic_def split: expr_t.splits)

lemma jd_scalar_den:
  assumes "m_obj_stack j = os @ [Some a]" "den (jx_heap j) a x" "x \<noteq> expr_null_t" "conv x = Some v"
  shows "jd_scalar s conv j = (Some v, j)"
  using assms not_empty [OF assms(1-3)] den_value [OF assms(2)] by (simp add: jd_scalar_def jx_top_def vec_back_def)

lemma jd_list_den:
  assumes "m_obj_stack j = os @ [Some a]" "den (jx_heap j) a (expr_list_t ln vs)"
  shows "jd_list J s j = Some (Some a, j)"
  using assms not_empty [OF assms] den_list_cell [OF assms(2)]
  by (auto simp: jd_list_def jx_top_def vec_back_def to_list_mut_def mutable_ptr_def list_at_def)

lemma decodes_one: "(\<And>j os a. m_obj_stack j = os @ [Some a] \<Longrightarrow> den (jx_heap j) a v \<Longrightarrow> dec_call J c j = Some (Some r, j)) \<Longrightarrow> decodes J [c] v [r]"
  by (simp add: decodes_def)

lemma decodes_scalar:
  assumes "\<And>j. dec_call J c j = got f (jd_scalar s conv j)" "conv x = Some v" "x \<noteq> expr_null_t"
  shows "decodes J [c] x [f v]"
  using assms jd_scalar_den by (intro decodes_one) (fastforce simp: got_def)

lemma decodes_leaves:
  assumes "\<And>s. jr_dearmor64 J (jr_armor64 J s) = Some s"
  shows "message_ok (M_int32 i) \<Longrightarrow> decodes J [C_int32 i] (expr_int_t i) [C_int32 i]"
    "message_ok (M_uint32 i) \<Longrightarrow> decodes J [C_uint32 i] (expr_int_t i) [C_uint32 i]"
    "decodes J [C_int64 i] (expr_int_t i) [C_int64 i]" "message_ok (M_uint64 i) \<Longrightarrow> decodes J [C_uint64 i] (expr_uint_t i) [C_uint64 i]"
    "decodes J [C_double d] (expr_double_t d) [C_double d]" "decodes J [C_str s] (expr_str_t (Some s)) [C_str s]"
    "decodes J [C_opaque s] (expr_str_t (Some (jr_armor64 J s))) [C_opaque s]" "decodes J [C_null] expr_null_t [C_null]"
    "decodes J [C_bigint b] (expr_str_t (Some (jr_bigstr J b))) [C_bigint 1]"
proof -
  have i: "jd_scalar ''int'' (pv_to_int (jr_pv J)) j = (Some i, j)" if "m_obj_stack j = os @ [Some a]" "den (jx_heap j) a (expr_int_t i)" for j os a
    by (rule jd_scalar_den [OF that]) (simp_all add: pv_to_int_def)
  show "message_ok (M_int32 i) \<Longrightarrow> decodes J [C_int32 i] (expr_int_t i) [C_int32 i]"
    "message_ok (M_uint32 i) \<Longrightarrow> decodes J [C_uint32 i] (expr_int_t i) [C_uint32 i]"
    by (auto intro!: decodes_one simp: dec_call_def jd_int32_def jd_uint32_def jd_range_def got_def i)
  show "decodes J [C_int64 i] (expr_int_t i) [C_int64 i]"
    by (rule decodes_scalar [where conv = "pv_to_int (jr_pv J)"]) (auto simp: dec_call_def jd_int64_def pv_to_int_def)
  show "message_ok (M_uint64 i) \<Longrightarrow> decodes J [C_uint64 i] (expr_uint_t i) [C_uint64 i]"
    by (rule decodes_scalar [where conv = to_uint]) (auto simp: dec_call_def jd_uint64_def to_uint_def)
  show "decodes J [C_double d] (expr_double_t d) [C_double d]"
    by (rule decodes_scalar [where conv = "to_double (jr_pv J)"]) (auto simp: dec_call_def jd_double_def to_double_def)
  have s: "rpc_decode J j = (Some s, j)" if "m_obj_stack j = os @ [Some a]" "den (jx_heap j) a (expr_str_t (Some s))" for j os a s
    unfolding rpc_decode_def by (rule jd_scalar_den [OF that]) (simp_all add: json_quote_def str_opt_t_def)
  show "decodes J [C_str s] (expr_str_t (Some s)) [C_str s]" by (auto intro!: decodes_one simp: dec_call_def got_def s)
  show "decodes J [C_opaque s] (expr_str_t (Some (jr_armor64 J s))) [C_opaque s]"
    by (auto intro!: decodes_one simp: dec_call_def got_def s rpc_decode_opaque_def assms)
  show "decodes J [C_null] expr_null_t [C_null]" by (auto intro!: decodes_one simp: dec_call_def)
  have "jd_bigint J j = (Some 1, j)" if j: "m_obj_stack j = os @ [Some a]" "den (jx_heap j) a (expr_str_t (Some t))" for j os a t
    using not_empty [OF j] den_value [OF j(2)] j(1) by (simp add: jd_bigint_def jx_top_def vec_back_def json_quote_def str_opt_t_def)
  then show "decodes J [C_bigint b] (expr_str_t (Some (jr_bigstr J b))) [C_bigint 1]"
    by (auto intro!: decodes_one simp: dec_call_def got_def)
qed

text \<open>A member of a structure and an element of an array: the walk comes back to where it was.\<close>

lemma dec_field:
  assumes "decodes J cs v rs" "m_obj_stack j = os @ [Some p]" "den (jx_heap j) p (expr_dict_t ln vs)" "map_of vs f = Some (Some v)"
  shows "dec_calls J (C_enter_field (Some f) # cs @ [C_exit_field (Some f)]) j = Some (Some (C_enter_field (Some f) # rs @ [C_exit_field (Some f)]), j)"
proof -
  obtain d where d: "jx_heap j ! p = ODict ln d" "map fst d = map fst vs" "list_all2 (kid (jx_heap j) p) (map snd d) (map snd vs)"
    using den_dict_cell [OF assms(3)] by blast
  have "\<exists>q. map_of d f = Some q \<and> kid (jx_heap j) p q (Some v)"
    using d(2,3) assms(4) by (induction d arbitrary: vs) (auto simp: Cons_eq_map_conv split: if_splits)
  then obtain b where b: "map_of d f = Some (Some b)" "den (jx_heap j) b v" by (auto simp: kid_def)
  let ?j = "j\<lparr>m_obj_stack := m_obj_stack j @ [Some b], m_debug_stack := m_debug_stack j @ [f]\<rparr>"
  have "\<not> is_empty (debug_push f j)" using not_empty [of "debug_push f j" os p] assms(2,3) by (simp add: debug_push_def)
  then have e: "dec_call J (C_enter_field (Some f)) j = Some (Some (C_enter_field (Some f)), ?j)"
    using assms(2) d(1) b(1) by (simp add: dec_call_def jd_enter_field_def jx_top_def vec_back_def debug_push_def to_dict_mut_def mutable_ptr_def
        dict_at_def obj_dict_lookup_def entries_def jx_push_back_def)
  have c: "dec_calls J cs ?j = Some (Some rs, ?j)" using assms(1) b(2) by (auto simp: decodes_def)
  have x: "dec_call J (C_exit_field (Some f)) ?j = Some (Some (C_exit_field (Some f)), j)"
    by (simp add: dec_call_def jd_exit_field_def jx_pop_back_def debug_pop_def)
  show ?thesis using e dec_one [OF c x] by simp
qed

lemma dec_slot:
  assumes "decodes J cs v rs" "m_obj_stack j = os @ [Some p]" "den (jx_heap j) p (expr_list_t ln vs)" "i < length vs" "vs ! i = Some v"
  shows "dec_calls J (C_enter_slot i # cs @ [C_exit_slot i]) j = Some (Some (C_enter_slot i # rs @ [C_exit_slot i]), j)"
proof -
  obtain l where l: "jx_heap j ! p = OList ln l" "list_all2 (kid (jx_heap j) p) l vs" using den_list_cell [OF assms(3)] by blast
  then have "kid (jx_heap j) p (l ! i) (Some v)" "length l = length vs" using assms(4,5) by (auto simp: list_all2_conv_all_nth)
  then obtain b where b: "l ! i = Some b" "den (jx_heap j) b v" by (auto simp: kid_def)
  let ?d = "''['' @ dec_int (int i) @ '']''"
  let ?j = "j\<lparr>m_obj_stack := m_obj_stack j @ [Some b], m_debug_stack := m_debug_stack j @ [?d]\<rparr>"
  have "jd_list J ''array'' (debug_push_slot i j) = Some (Some p, debug_push_slot i j)"
    using jd_list_den [of "debug_push_slot i j" os p ln vs] assms(2,3) by (simp add: debug_push_slot_def debug_push_def)
  then have e: "dec_call J (C_enter_slot i) j = Some (Some (C_enter_slot i), ?j)"
    using l(1) b(1) assms(4) \<open>length l = length vs\<close>
    by (simp add: dec_call_def jd_enter_slot_def debug_push_slot_def debug_push_def elems_def jx_push_back_def)
  have c: "dec_calls J cs ?j = Some (Some rs, ?j)" using assms(1) b(2) by (auto simp: decodes_def)
  have x: "dec_call J (C_exit_slot i) ?j = Some (Some (C_exit_slot i), j)"
    by (simp add: dec_call_def jd_exit_slot_def jx_pop_back_def debug_pop_def)
  show ?thesis using e dec_one [OF c x] by simp
qed

lemma decodes_slots:
  assumes "m_obj_stack j = os @ [Some p]" "den (jx_heap j) p (expr_list_t ln vs)"
    "list_all (\<lambda>(cs, v, rs). decodes J cs v rs) es" "vs = us @ map (\<lambda>(cs, v, rs). Some v) es"
  shows "dec_calls J (concat (map (\<lambda>(i, cs). C_enter_slot i # cs @ [C_exit_slot i]) (List.enumerate (length us) (map fst es)))) j =
    Some (Some (concat (map (\<lambda>(i, cs). C_enter_slot i # cs @ [C_exit_slot i]) (List.enumerate (length us) (map (\<lambda>(cs, v, rs). rs) es)))), j)"
  using assms(3,4)
proof (induction es arbitrary: us)
  case (Cons e es)
  obtain cs v rs where e: "e = (cs, v, rs)" by (cases e)
  have "dec_calls J (C_enter_slot (length us) # cs @ [C_exit_slot (length us)]) j = Some (Some (C_enter_slot (length us) # rs @ [C_exit_slot (length us)]), j)"
    using Cons.prems e by (intro dec_slot [OF _ assms(1,2)]) auto
  note step = dec_then [OF this]
  show ?case using step Cons.IH [of "us @ [Some v]"] Cons.prems e by simp
qed simp

lemma decodes_array:
  assumes "list_all (\<lambda>(cs, v, rs). decodes J cs v rs) es" "length es < 2 ^ 32"
  shows "decodes J (C_enter_array n # around_slots (map fst es) @ [C_exit_array]) (expr_list_t ln (map (\<lambda>(cs, v, rs). Some v) es))
    (C_enter_array (length es) # around_slots (map (\<lambda>(cs, v, rs). rs) es) @ [C_exit_array])"
  unfolding decodes_def
proof (intro allI impI)
  fix j :: "'a json_XDR" and os a
  let ?vs = "map (\<lambda>(cs, v, rs). Some v) es"
  assume "m_obj_stack j = os @ [Some a] \<and> den (jx_heap j) a (expr_list_t ln ?vs)"
  then have j: "m_obj_stack j = os @ [Some a]" "den (jx_heap j) a (expr_list_t ln ?vs)" by auto
  have "length (elems (jx_heap j) a) = length es" using den_list_cell [OF j(2)] by (auto simp: elems_def list_all2_lengthD)
  then have e: "dec_call J (C_enter_array n) j = Some (Some (C_enter_array (length es)), j)"
    using jd_list_den [OF j] assms(2) by (simp add: dec_call_def jd_enter_array_def got_def)
  have c: "dec_calls J (around_slots (map fst es)) j = Some (Some (around_slots (map (\<lambda>(cs, v, rs). rs) es)), j)"
    using decodes_slots [OF j assms(1), of "[]"] by (simp add: around_slots_def)
  show "dec_calls J (C_enter_array n # around_slots (map fst es) @ [C_exit_array]) j =
      Some (Some (C_enter_array (length es) # around_slots (map (\<lambda>(cs, v, rs). rs) es) @ [C_exit_array]), j)"
    using e dec_one [OF c, of C_exit_array C_exit_array j] by (simp add: dec_call_def)
qed

lemma decodes_pointer_nil: "decodes J [C_enter_pointer False, C_exit_pointer False] (expr_list_t ln []) [C_enter_pointer False, C_exit_pointer False]"
  unfolding decodes_def
proof (intro allI impI)
  fix j :: "'a json_XDR" and os a
  assume "m_obj_stack j = os @ [Some a] \<and> den (jx_heap j) a (expr_list_t ln [])"
  then have j: "m_obj_stack j = os @ [Some a]" "den (jx_heap j) a (expr_list_t ln [])" by auto
  have "jx_heap j ! a = OList ln []" using den_list_cell [OF j(2)] by simp
  then show "dec_calls J [C_enter_pointer False, C_exit_pointer False] j = Some (Some [C_enter_pointer False, C_exit_pointer False], j)"
    using jd_list_den [OF j]
    by (simp add: dec_call_def jd_enter_pointer_def jd_exit_pointer_def got_def elems_def jx_push_back_def jx_pop_back_def)
qed

lemma decodes_pointer:
  assumes "decodes J cs v rs"
  shows "decodes J (C_enter_pointer True # cs @ [C_exit_pointer True]) (expr_list_t ln [Some v]) (C_enter_pointer True # rs @ [C_exit_pointer True])"
  unfolding decodes_def
proof (intro allI impI)
  fix j :: "'a json_XDR" and os a
  assume "m_obj_stack j = os @ [Some a] \<and> den (jx_heap j) a (expr_list_t ln [Some v])"
  then have j: "m_obj_stack j = os @ [Some a]" "den (jx_heap j) a (expr_list_t ln [Some v])" by auto
  obtain b where b: "jx_heap j ! a = OList ln [Some b]" "den (jx_heap j) b v"
    using den_list_cell [OF j(2)] by (auto simp: list_all2_Cons2 kid_def)
  let ?j = "j\<lparr>m_obj_stack := m_obj_stack j @ [Some b]\<rparr>"
  have e: "dec_call J (C_enter_pointer True) j = Some (Some (C_enter_pointer True), ?j)"
    using jd_list_den [OF j] b(1) by (simp add: dec_call_def jd_enter_pointer_def got_def elems_def jx_push_back_def)
  have c: "dec_calls J cs ?j = Some (Some rs, ?j)" using assms b(2) by (auto simp: decodes_def)
  have x: "dec_call J (C_exit_pointer True) ?j = Some (Some (C_exit_pointer True), j)"
    by (simp add: dec_call_def jd_exit_pointer_def jx_pop_back_def)
  show "dec_calls J (C_enter_pointer True # cs @ [C_exit_pointer True]) j = Some (Some (C_enter_pointer True # rs @ [C_exit_pointer True]), j)"
    using e dec_one [OF c x] by simp
qed

lemma decodes_struct:
  assumes "list_all (\<lambda>(f, cs, v, rs). decodes J cs v rs) fs" "distinct (map fst fs)"
  shows "decodes J (around_fields (map (\<lambda>(f, cs, v, rs). (f, cs)) fs)) (expr_dict_t ln (map (\<lambda>(f, cs, v, rs). (f, Some v)) fs))
    (around_fields (map (\<lambda>(f, cs, v, rs). (f, rs)) fs))"
  unfolding decodes_def
proof (intro allI impI)
  fix j :: "'a json_XDR" and os a
  let ?vs = "map (\<lambda>(f, cs, v, rs). (f, Some v)) fs"
  assume "m_obj_stack j = os @ [Some a] \<and> den (jx_heap j) a (expr_dict_t ln ?vs)"
  then have j: "m_obj_stack j = os @ [Some a]" "den (jx_heap j) a (expr_dict_t ln ?vs)" by auto
  have "distinct (map fst ?vs)" using assms(2) by (simp add: comp_def case_prod_unfold)
  then have m: "map_of ?vs f = Some (Some v)" if "(f, cs, v, rs) \<in> set fs" for f cs v rs
    using that by (force intro!: map_of_is_SomeI)
  have "dec_calls J (around_fields (map (\<lambda>(f, cs, v, rs). (f, cs)) gs)) j = Some (Some (around_fields (map (\<lambda>(f, cs, v, rs). (f, rs)) gs)), j)"
    if "set gs \<subseteq> set fs" for gs
    using that
  proof (induction gs)
    case (Cons g gs)
    obtain f cs v rs where g: "g = (f, cs, v, rs)" by (cases g)
    then have "decodes J cs v rs" "map_of ?vs f = Some (Some v)" using assms(1) Cons.prems m by (auto simp: list_all_iff)
    note step = dec_then [OF dec_field [OF this(1) j this(2)]]
    show ?case using step Cons g by (simp add: around_fields_def)
  qed (simp add: around_fields_def)
  then show "dec_calls J (around_fields (map (\<lambda>(f, cs, v, rs). (f, cs)) fs)) j = Some (Some (around_fields (map (\<lambda>(f, cs, v, rs). (f, rs)) fs)), j)"
    by simp
qed

lemma decodes_message:
  assumes "\<And>s. jr_dearmor64 J (jr_armor64 J s) = Some s"
  shows "message_ok m \<Longrightarrow> decodes J (walk m) (json_value J m) (walk (received m))"
proof (induction m)
  case (M_struct fs)
  let ?fs = "map (\<lambda>(f, m). (f, walk m, json_value J m, walk (received m))) fs"
  have "list_all (\<lambda>(f, cs, v, rs). decodes J cs v rs) ?fs" using M_struct by (fastforce simp: list_all_iff snds.simps)
  moreover have "map fst ?fs = map fst fs" by (simp add: comp_def case_prod_unfold)
  ultimately show ?case using decodes_struct [of J ?fs] M_struct.prems by (simp add: comp_def case_prod_unfold map_prod_def)
next
  case (M_array ms)
  let ?es = "map (\<lambda>m. (walk m, json_value J m, walk (received m))) ms"
  have "list_all (\<lambda>(cs, v, rs). decodes J cs v rs) ?es" using M_array by (auto simp: list_all_iff)
  then show ?case using decodes_array [of J ?es "length ms" "- 1"] M_array.prems by (simp add: comp_def)
next
  case (M_ptr m)
  then show ?case using decodes_pointer decodes_pointer_nil by (cases m) auto
qed (use decodes_leaves [OF assms] in auto)

text \<open>The root of a walk: a field without a name.\<close>

definition whole :: "'d xcall list \<Rightarrow> 'd xcall list" where
  "whole cs = C_enter_field None # cs @ [C_exit_field None]"

lemma enc_whole: "enc_calls J (whole cs) j = enc_calls J cs j"
  by (simp add: whole_def enc_call_def je_enter_field_def je_exit_field_def enc_append split: Option.bind_split)

lemma dec_whole: "dec_calls J cs j = Some (Some rs, j1) \<Longrightarrow> dec_calls J (whole cs) j = Some (Some (whole rs), j1)"
  using dec_one [of J cs j rs j1 "C_exit_field None" "C_exit_field None" j1] by (simp add: whole_def dec_call_def jd_enter_field_def jd_exit_field_def)

text \<open>
  C2.  A message survives JSON: walking over a message with the encoder always ends, the root object is the value of
  the message, and a walk of the same calls with the decoder over that object, from any argument values,
  succeeds and stores the numbers, strings, array lengths and pointers of the message, with its stacks and
  its error message as before; only big integers come back as 1.
\<close>

theorem message_roundtrip:
  assumes "\<And>s. jr_dearmor64 J (jr_armor64 J s) = Some s" "message_ok m" "map call_kind cs = map call_kind (whole (walk m))"
  shows "\<exists>j a. enc_calls J (whole (walk m)) (json_encoder h) = Some j \<and> root_obj j = Some a
    \<and> value_of (jx_heap j) a = Some (json_value J m)
    \<and> dec_calls J cs (snd (init_decode (root_obj j) (json_XDR_new (jx_heap j)))) =
        Some (Some (whole (walk (received m))), snd (init_decode (root_obj j) (json_XDR_new (jx_heap j))))"
proof -
  have j0: "m_obj_stack (json_encoder h) = [] @ [None]" "m_ref_stack (json_encoder h) = [] @ [plain_obj_ref_t]"
    "ref_ok plain_obj_ref_t (jx_heap (json_encoder h))"
    by (simp_all add: json_encoder_def push_ref_def json_XDR_new_def ref_ok_def)
  then obtain j a where 1: "enc_calls J (walk m) (json_encoder h) = Some j" "encoded (json_encoder h) [] plain_obj_ref_t a j"
    "den (jx_heap j) a (json_value J m)"
    using encodes_message [OF assms(2), of J] unfolding encodes_def by blast
  have r: "root_obj j = Some a" using 1(2) by (simp add: root_obj_def encoded_def ref_set_def)
  let ?j = "snd (init_decode (root_obj j) (json_XDR_new (jx_heap j)))"
  have "m_obj_stack ?j = [] @ [Some a]" "jx_heap ?j = jx_heap j"
    using r by (simp_all add: init_decode_def jx_push_back_def json_XDR_new_def)
  then have "dec_calls J (walk m) ?j = Some (Some (walk (received m)), ?j)"
    using decodes_message [OF assms(1,2)] 1(3) unfolding decodes_def by metis
  then have "dec_calls J cs ?j = Some (Some (whole (walk (received m))), ?j)"
    using dec_whole dec_calls_kind [OF assms(3), of J ?j] by simp
  then show ?thesis using 1 r den_value [OF 1(3)] by (auto simp: enc_whole)
qed

definition plain_jr_env :: "int jr_env" where
  "plain_jr_env = \<lparr>jr_pv = int_pv_env, jr_armor64 = id, jr_dearmor64 = Some, jr_bigstr = dec_int, jr_mparse = (\<lambda>s h. (None, h))\<rparr>"

theorem message_roundtrip_witness:
  "\<exists>j. enc_calls plain_jr_env (whole (walk (M_struct [(''n'', M_uint32 7), (''v'', M_array [M_bigint 5, M_null])]))) (json_encoder []) = Some j
    \<and> dec_calls plain_jr_env (whole (walk (M_struct [(''n'', M_uint32 0), (''v'', M_array [M_bigint 0, M_null])])))
        (snd (init_decode (root_obj j) (json_XDR_new (jx_heap j)))) =
      Some (Some (whole (walk (M_struct [(''n'', M_uint32 7), (''v'', M_array [M_bigint 1, M_null])]))),
        snd (init_decode (root_obj j) (json_XDR_new (jx_heap j))))"
proof -
  let ?m = "M_struct [(''n'', M_uint32 7), (''v'', M_array [M_bigint 5, M_null])] :: int message"
  let ?c = "whole (walk (M_struct [(''n'', M_uint32 0), (''v'', M_array [M_bigint 0, M_null])])) :: int xcall list"
  have 1: "jr_dearmor64 plain_jr_env (jr_armor64 plain_jr_env s) = Some s" for s by (simp add: plain_jr_env_def)
  have 2: "message_ok ?m" by simp
  have 3: "map call_kind ?c = map call_kind (whole (walk ?m))" by (simp add: whole_def around_fields_def around_slots_def call_kind_def)
  have 4: "received ?m = M_struct [(''n'', M_uint32 7), (''v'', M_array [M_bigint 1, M_null])]" by simp
  show ?thesis using message_roundtrip [OF 1 2 3, of "[]"] unfolding 4 by blast
qed

section \<open>Every call of the decoder\<close>

definition call_in_range :: "'d xcall \<Rightarrow> bool" where
  "call_in_range c =
     (case c of C_int32 i \<Rightarrow> - (2 ^ 31) \<le> i \<and> i < 2 ^ 31 | C_uint32 i \<Rightarrow> 0 \<le> i \<and> i < 2 ^ 32 | C_enter_array n \<Rightarrow> n < 2 ^ 32 | _ \<Rightarrow> True)"

definition stack_effect :: "'d xcall \<Rightarrow> int" where
  "stack_effect c =
     (case c of
        C_enter_field (Some f) \<Rightarrow> 1 | C_exit_field (Some f) \<Rightarrow> - 1
      | C_enter_slot i \<Rightarrow> 1 | C_exit_slot i \<Rightarrow> - 1
      | C_enter_pointer b \<Rightarrow> 1 | C_exit_pointer b \<Rightarrow> - 1
      | _ \<Rightarrow> 0)"

definition has_error :: "'d json_XDR \<Rightarrow> bool" where
  "has_error j = (case m_err_msg j of None \<Rightarrow> False | Some s \<Rightarrow> True)"

lemma errors_set [simp]: "has_error (error_generic s j)" "has_error (error_empty s j)" "has_error (error_wrong_type s a j)"
  "m_obj_stack (error_generic s j) = m_obj_stack j" "m_obj_stack (error_empty s j) = m_obj_stack j" "m_obj_stack (error_wrong_type s a j) = m_obj_stack j"
  by (simp_all add: has_error_def error_generic_def error_empty_def error_wrong_type_def)

lemma push_simps [simp]: "m_obj_stack (jx_push_back x j) = m_obj_stack j @ [x]" "has_error (jx_push_back x j) = has_error j"
  "m_obj_stack (debug_push s j) = m_obj_stack j" "m_obj_stack (debug_push_slot i j) = m_obj_stack j"
  by (simp_all add: has_error_def jx_push_back_def debug_push_def debug_push_slot_def)

lemma jd_scalar_checked: "jd_scalar s conv j = (r, j') \<Longrightarrow> m_obj_stack j' = m_obj_stack j \<and> (r = None \<longrightarrow> has_error j')"
proof -
  have "jx_top j \<noteq> None" if "\<not> is_empty j" using that by (auto simp: is_empty_def jx_top_def split: option.splits)
  then show "jd_scalar s conv j = (r, j') \<Longrightarrow> m_obj_stack j' = m_obj_stack j \<and> (r = None \<longrightarrow> has_error j')"
    unfolding jd_scalar_def by (cases "is_empty j") (auto split: option.splits)
qed

lemma jd_list_checked: "jd_list J s j = Some (r, j') \<Longrightarrow> m_obj_stack j' = m_obj_stack j \<and> (r = None \<longrightarrow> has_error j')"
  by (auto simp: jd_list_def Let_def split: if_splits Option.bind_splits option.splits)

text \<open>What a call that stores a scalar has to satisfy.\<close>

definition checked :: "'d json_XDR \<Rightarrow> 'a option \<times> 'd json_XDR \<Rightarrow> ('a \<Rightarrow> bool) \<Rightarrow> bool" where
  "checked j r ok \<longleftrightarrow> m_obj_stack (snd r) = m_obj_stack j \<and> (case fst r of None \<Rightarrow> has_error (snd r) | Some v \<Rightarrow> ok v)"

lemma scalars_checked:
  fixes j :: "'d json_XDR"
  shows "checked j (jd_scalar s conv j) (\<lambda>v. True)"
  "checked j (jd_int32 J j) (\<lambda>v. - (2 ^ 31) \<le> v \<and> v \<le> 2 ^ 31 - 1)"
  "checked j (jd_uint32 J j) (\<lambda>v. 0 \<le> v \<and> v \<le> 2 ^ 32 - 1)"
  "checked j (rpc_decode_opaque J j) (\<lambda>v. True)"
  "checked j (jd_bigint J j) (\<lambda>v. v = 1)"
proof -
  show s: "checked j (jd_scalar s conv j) (\<lambda>v. True)" for s and conv :: "'d expr_t \<Rightarrow> 'b option"
    using jd_scalar_checked [of s conv j] by (cases "jd_scalar s conv j") (auto simp: checked_def split: option.splits)
  have "checked j (jd_range t lo hi (jd_scalar s conv j)) (\<lambda>v. lo \<le> v \<and> v \<le> hi)" for t lo hi s and conv :: "'d expr_t \<Rightarrow> int option"
    using s [of s conv] by (auto simp: checked_def jd_range_def split: option.splits prod.splits)
  then show "checked j (jd_int32 J j) (\<lambda>v. - (2 ^ 31) \<le> v \<and> v \<le> 2 ^ 31 - 1)" "checked j (jd_uint32 J j) (\<lambda>v. 0 \<le> v \<and> v \<le> 2 ^ 32 - 1)"
    unfolding jd_int32_def jd_uint32_def by blast+
  show "checked j (rpc_decode_opaque J j) (\<lambda>v. True)"
    using s [of "''string''" "\<lambda>x. pv_to_str (jr_pv J) x str_opt_t"]
    by (auto simp: checked_def rpc_decode_opaque_def rpc_decode_def split: option.splits prod.splits)
  have "jd_bigint J j = (if is_empty j then (None, error_empty ''bigint'' j) else apfst (map_option (\<lambda>x. 1)) (jd_scalar ''string'' (\<lambda>x. pv_to_str (jr_pv J) x str_opt_t) j))"
    by (simp add: jd_bigint_def jd_scalar_def apfst_def split: option.splits)
  then show "checked j (jd_bigint J j) (\<lambda>v. v = 1)"
    using s [of "''string''" "\<lambda>x. pv_to_str (jr_pv J) x str_opt_t"]
    by (auto simp: checked_def split: option.splits)
qed

lemma got_checked:
  assumes "checked j r ok" "got f r = Some (c', j')"
  shows "m_obj_stack j' = m_obj_stack j \<and> (c' = None \<longrightarrow> has_error j') \<and> (\<forall>c. c' = Some c \<longrightarrow> (\<exists>v. ok v \<and> c = f v))"
  using assms by (auto simp: checked_def got_def split: option.splits)

text \<open>What every call is to satisfy: \<open>r\<close> is what it stores, \<open>j'\<close> the state behind it.\<close>

definition call_ok :: "'d xcall \<Rightarrow> 'd json_XDR \<Rightarrow> 'd xcall option \<Rightarrow> 'd json_XDR \<Rightarrow> bool" where
  "call_ok c j r j' \<longleftrightarrow>
     (case r of None \<Rightarrow> has_error j' | Some c' \<Rightarrow> call_in_range c' \<and> stack_effect c' = stack_effect c)
     \<and> int (length (m_obj_stack j')) = int (length (m_obj_stack j)) + stack_effect c"

lemma got_ok:
  assumes "checked j q ok" "got f q = Some (r, j')" "stack_effect c = 0" "\<And>v. ok v \<Longrightarrow> call_in_range (f v) \<and> stack_effect (f v) = 0"
  shows "call_ok c j r j'"
  using got_checked [OF assms(1,2)] assms(3,4) by (cases r) (auto simp: call_ok_def)

lemma pop_ok: "jx_pop_back j = Some j' \<Longrightarrow> int (length (m_obj_stack j')) = int (length (m_obj_stack j)) - 1"
  by (cases "m_obj_stack j") (auto simp: jx_pop_back_def split: if_splits)

lemma debug_pop_ok: "debug_pop j = Some j' \<Longrightarrow> m_obj_stack j' = m_obj_stack j"
  by (auto simp: debug_pop_def split: if_splits)

lemma enter_ok:
  "jd_enter_field J (Some f) j = Some j' \<Longrightarrow> length (m_obj_stack j') = Suc (length (m_obj_stack j))"
  "jd_enter_slot J i j = Some j' \<Longrightarrow> length (m_obj_stack j') = Suc (length (m_obj_stack j))"
proof -
  show "jd_enter_field J (Some f) j = Some j' \<Longrightarrow> length (m_obj_stack j') = Suc (length (m_obj_stack j))"
    by (auto simp: jd_enter_field_def Let_def split: if_splits Option.bind_splits option.splits)
  show "jd_enter_slot J i j = Some j' \<Longrightarrow> length (m_obj_stack j') = Suc (length (m_obj_stack j))"
    by (auto simp: jd_enter_slot_def split: if_splits Option.bind_splits option.splits dest!: jd_list_checked)
qed



section \<open>Padding\<close>

lemma ends_Nil: "ends []"
  by (simp add: ends_def)

lemma padding_stripped:
  assumes "NUL \<notin> set p" "0 < k"
  shows "strip_padding (p @ replicate k NUL) (int (length p + k)) 0 = Some (length p)"
proof -
  have "strip_padding (p @ replicate k NUL) (int (length p + k)) n = Some (length p)" if "n \<le> length p" for n
    using that
  proof (induction "length p - n" arbitrary: n)
    case 0
    then show ?case using assms(2) by (subst strip_padding.simps) (simp add: nth_append)
  next
    case (Suc d)
    then have "n < length p" "p ! n \<noteq> NUL" using assms(1) by (auto simp: in_set_conv_nth)
    then show ?case using Suc by (subst strip_padding.simps) (simp add: nth_append)
  qed
  then show ?thesis by simp
qed

section \<open>Where the code departs from its intent\<close>

text \<open>
  The message about a missing member is lost: the walk goes on with a null object, and the next call replaces the
  message by one about an empty field.
\<close>

lemma missing_field_message:
  assumes "m_obj_stack j = os @ [Some a]" "jx_heap j ! a = ODict ln d" "map_of d f = None" "m_debug_stack j = []"
  shows "\<exists>j1 j2. jd_enter_field J (Some f) j = Some j1 \<and> jd_int32 J j1 = (None, j2)
    \<and> m_err_msg j1 = Some (''at field '' @ f @ '': cannot find field '' @ [CHR 0x27] @ f @ [CHR 0x27])
    \<and> m_err_msg j2 = Some (''at field '' @ f @ '': empty field; expected type int'')"
proof -
  have "\<not> is_empty (debug_push f j)" using assms by (simp add: is_empty_def vec_back_def debug_push_def obj_is_null_def target_def)
  then show ?thesis using assms
    by (simp add: jd_enter_field_def debug_push_def jx_top_def vec_back_def to_dict_mut_def mutable_ptr_def dict_at_def obj_dict_lookup_def entries_def
        jx_push_back_def error_generic_def jd_int32_def jd_range_def jd_scalar_def is_empty_def error_empty_def debug_path_def)
qed

text \<open>A packet without a NUL byte is read past its end.\<close>

lemma padding_overread: "NUL \<notin> set msg \<Longrightarrow> strip_padding msg (int (length msg)) 0 = None"
proof -
  have "NUL \<notin> set msg \<Longrightarrow> n \<le> length msg \<Longrightarrow> strip_padding msg (int (length msg)) n = None" for n
  proof (induction "length msg - n" arbitrary: n)
    case 0
    then show ?case by (simp add: strip_padding.simps)
  next
    case (Suc k)
    then have "n < length msg" "msg ! n \<noteq> NUL" by (auto simp: in_set_conv_nth)
    then show ?case using Suc by (subst strip_padding.simps) simp
  qed
  then show "NUL \<notin> set msg \<Longrightarrow> strip_padding msg (int (length msg)) 0 = None" by simp
qed

text \<open>The encoder does not remove the name of a member from the path when it leaves it.\<close>

lemma encoder_path_grows:
  assumes "je_enter_field J (Some f) j = Some j1" "je_exit_field (Some f) j1 = Some j2"
  shows "m_debug_stack j2 = m_debug_stack j @ [f]"
proof -
  have "m_debug_stack j1 = m_debug_stack j @ [f]"
    using assms(1) by (auto simp: je_enter_field_def top_dict_def set_top_new_def set_top_def push_ref_def debug_push_def Let_def
        split: Option.bind_splits option.splits if_splits prod.splits)
  then show ?thesis using assms(2) by (auto simp: je_exit_field_def pop_ref_def split: if_splits)
qed

end
