(* ===== verification/Spec2Isabelle.thy ===== *)
theory Spec2Isabelle
  imports Mpfd Aparse Clist MsgPack Env Xdr Chunk Jsonrpc
begin

text \<open>
  \<^bold>\<open>OKWS, the OK Web Server: input handling, and values and files of the template language.\<close>

  A request reaches a service of OKWS as bytes in a ring buffer, is read from there one character at a
  time by hand-written resumable parsers, and ends in tables of keys and values.  A reply is produced by
  the template language: the publishing daemon parses a file into a syntax tree and sends it to the
  service as XDR structures, in chunks when it is large; the service evaluates it in an environment of
  scopes, over values that are shared and copied on write; the results are escaped for HTML, JSON and
  URLs.  Values travel between processes as MessagePack, and RPC messages as JSON.  The theories follow
  that path, from the bottom up; each of them translates the files named here, definition by definition,
  in the order of the source.

  \<^item> \<^verbatim>\<open>Prelude\<close>: collections of simplification rules, characters, generic lemmas.
  \<^item> \<^verbatim>\<open>Suiolite\<close> (\<^verbatim>\<open>libahttp/suiolite.h\<close>, \<^verbatim>\<open>.C\<close>): the ring buffer.  The locale \<open>byte_fifo\<close> is its
    contract; its interpretation gives the refinement of a bounded queue of bytes, and the window
    \<^verbatim>\<open>getdata\<close> gives out stays valid while data arrives.
  \<^item> \<^verbatim>\<open>Abuf\<close> (\<^verbatim>\<open>libahttp/abuf.h\<close>, \<^verbatim>\<open>.C\<close>): the character stream on a connection or on a string, with
    push-back, mirroring, dumping and limits.  The locale \<open>data_source\<close> is what it needs of a source,
    \<open>char_stream\<close> what the parsers need of it; both are interpreted on the model.
  \<^item> \<^verbatim>\<open>Kmp\<close> (\<^verbatim>\<open>libahttp/kmp.h\<close>, \<^verbatim>\<open>.C\<close>): the string matcher; it reports a match exactly when the
    pattern is a suffix of what was read.
  \<^item> \<^verbatim>\<open>Clib\<close>: the functions of the C library that are used (decimal and hexadecimal printing,
    \<^verbatim>\<open>strtoll\<close>, \<^verbatim>\<open>strtoull\<close>).
  \<^item> \<^verbatim>\<open>Escape\<close> (\<^verbatim>\<open>libpub/escape.C\<close>): the filters for HTML, scripts, JSON and URLs.
  \<^item> \<^verbatim>\<open>Clist\<close> (\<^verbatim>\<open>libpub/clist.h\<close>): the intrusive doubly linked list on an explicit heap, as a refinement
    of sequences (locale \<open>ordered_container\<close>).
  \<^item> \<^verbatim>\<open>Pairtab\<close> (\<^verbatim>\<open>libahttp/pair.h\<close>, \<^verbatim>\<open>.C\<close>): tables from keys to lists of values with cached integers
    (locale \<open>multimap\<close>).
  \<^item> \<^verbatim>\<open>Cgi\<close> (\<^verbatim>\<open>libahttp/cgi.C\<close>): URL-encoded forms and cookies, encoder and parser.  The parser is
    related to an automaton on characters, from which the independence of how the data is cut into
    pieces and the round trip follow.
  \<^item> \<^verbatim>\<open>HttpHdr\<close>, \<^verbatim>\<open>InHdr\<close> (\<^verbatim>\<open>libahttp/hdr.C\<close>, \<^verbatim>\<open>inhdr.C\<close>): the lexer of HTTP heads and the parser of
    requests.
  \<^item> \<^verbatim>\<open>Aparse\<close> (\<^verbatim>\<open>libahttp/aparse.C\<close>): the skeleton of the asynchronous parsers, with the reading of a
    body of known length.
  \<^item> \<^verbatim>\<open>Mpfd\<close> (\<^verbatim>\<open>libahttp/mpfd.C\<close>): multipart forms, with the boundary search by \<^verbatim>\<open>Kmp\<close>.
  \<^item> \<^verbatim>\<open>Scalar\<close> (\<^verbatim>\<open>libpub/scalar.C\<close>, \<^verbatim>\<open>pscalar.h\<close>): the scalars of the template language, their cached
    conversions, arithmetic and comparison.
  \<^item> \<^verbatim>\<open>MsgPack\<close> (\<^verbatim>\<open>libpub/pub3msgpack.C\<close>, \<^verbatim>\<open>.h\<close>): the MessagePack encoder and decoder, with the round
    trip and the totality of the decoder.
  \<^item> \<^verbatim>\<open>Env\<close> (\<^verbatim>\<open>libpub/pub3env.C\<close>, \<^verbatim>\<open>.h\<close>, the binding tables of \<^verbatim>\<open>pub3expr.C\<close>): the stack of scopes over a
    store of tables.  Look-up ends in every reachable environment and follows the scope rules, closures are
    lexical, and an assignment changes one name.
  \<^item> \<^verbatim>\<open>Ast\<close> (\<^verbatim>\<open>libpub/pub3expr.h\<close>, \<^verbatim>\<open>pub3ast.h\<close>, \<^verbatim>\<open>pub3func.h\<close>): expressions, zones and statements.
  \<^item> \<^verbatim>\<open>Xdr\<close> (\<^verbatim>\<open>libpub/pub3xdr.C\<close>, \<^verbatim>\<open>pub3prot.x\<close>, \<^verbatim>\<open>pub3file.C\<close>): syntax trees and files to structures of the protocol
    and back.  \<open>f_seen\<close> describes exactly what a file loses on the way.
  \<^item> \<^verbatim>\<open>Chunk\<close> (\<^verbatim>\<open>libpub/pub3hilev.T\<close>, \<^verbatim>\<open>pub/pubserv.T\<close>): the transfer of a file in chunks with a window of calls in
    flight, as a step relation in which the answers come in any order.
  \<^item> \<^verbatim>\<open>Pubval\<close> (\<^verbatim>\<open>libpub/pub3expr.C\<close>, \<^verbatim>\<open>pub3ref.C\<close>, \<^verbatim>\<open>pubutil.C\<close>): conversions, printing, operators and containers on
    values, taken as trees.  The printed form is compared with a reader of JSON written for the purpose.
  \<^item> \<^verbatim>\<open>Obj\<close> (\<^verbatim>\<open>libpub/pub3obj.C\<close>, \<^verbatim>\<open>.h\<close>, \<^verbatim>\<open>pub3expr.C\<close>): the same values as objects on a heap with sharing and
    copy-on-write, and the handles that the applications use.  The objects refine the values of \<^verbatim>\<open>Pubval\<close>; the
    locale \<open>slot_store\<close> is the contract of a reference to a slot, interpreted on the references of the code.
  \<^item> \<^verbatim>\<open>Jsonrpc\<close> (\<^verbatim>\<open>libpub/json_rpc.C\<close>, \<^verbatim>\<open>.h\<close>): the encoder and decoder of RPC messages on those objects, with the
    round trip of messages and the error behaviour of every call.
  \<^item> This theory: properties across components, from the encoder of the daemon through the chunks to the decoder
    of the service (\<^verbatim>\<open>Xdr\<close> with \<^verbatim>\<open>Chunk\<close>), and from an RPC message to the text of its packet (\<^verbatim>\<open>Jsonrpc\<close>
    with \<^verbatim>\<open>Obj\<close> and \<^verbatim>\<open>Pubval\<close>).

  \<^bold>\<open>Conventions.\<close>  An object is a record of its members, a method a function that takes and returns
  it.  The values of enumerations are constructors; integers are mathematical ones with the range or
  the wrap-around of their type written out where it matters.  A loop whose end is not evident is a
  \<^verbatim>\<open>partial_function (option)\<close>, so that not returning is \<open>None\<close>; where it does return, that is proved as
  such, and where it does not (text behind a multipart form) that is proved too.  A failed assertion or a
  null dereference is a flag of the state or \<open>None\<close>.  Where sharing matters (binding tables, objects, the
  intrusive list) there is an explicit store of addresses.  The decoder of \<^verbatim>\<open>MsgPack\<close> has fuel for its
  recursion; every level consumes a byte, the fuel is more than the length of the message, and
  \<open>decode_total\<close> shows that it never runs out.  The reader of JSON has fuel, for which \<open>jfuel\<close> is enough; reading a heap
  as a value (\<open>value_of\<close>) has the size of the heap as its fuel.

  \<^bold>\<open>Outside the model\<close>, as arguments of the definitions: the regular expression that recognises the
  content type of a multipart form, the arithmetic, printing and conversion of \<^verbatim>\<open>double\<close>, the order of sfslite's
  strings, the decoder of wide characters, zlib, SHA-1, the marshalling routines and fresh structures of
  the RPC compiler, base-64 and the text of big integers, the generated parser of JSON, configuration
  values.  The walk of generated code over an RPC message is represented by the sequence of its calls.

  \<^bold>\<open>Not modelled.\<close>  Sockets, timers, file descriptor passing and replies (\<^verbatim>\<open>libahttp/ahttp.C\<close>, \<^verbatim>\<open>resp.T\<close>);
  the daemons (\<^verbatim>\<open>okd\<close>, \<^verbatim>\<open>okld\<close>, \<^verbatim>\<open>oklogd\<close>, \<^verbatim>\<open>pubd\<close>, \<^verbatim>\<open>okssld\<close>), which are event code in the tame
  language whose effects are system calls and RPC; the wrappers of MySQL, OpenSSL, expat and Redis; the
  statements and the asynchronous evaluation of the template language (tame code) and its generated
  parsers; the values of XML-RPC (\<^verbatim>\<open>libokxml/xmldata.C\<close>); tools, tests and build files.
\<close>

section \<open>Across components\<close>

text \<open>
  C3.  From the daemon to the service: whatever order the answers come in, when the loop of the client ends
  without a failure, the bytes it has put together pass the check of the hash and decode to the file that
  the daemon encoded, with exactly the changes that \<open>f_seen\<close> lists.  The file is shorter than 4 GB; the
  marshalling routines of the RPC library invert each other on it.
\<close>

theorem file_arrives:
  assumes fresh: "xe_zone0 E = XPUB3_ZONE_NONE" "xe_str0 E = Some []"
    and named: "md_jfn (pf_metadata f) \<noteq> None" "md_rfn (pf_metadata f) \<noteq> None" "md_hsh (pf_metadata f) \<noteq> None"
    and sent: "f_to_xdr E h0 f = Some x" "str2xdr (xdr2str x) = Some x" "length (xdr2str x) < 2 ^ 32"
      "srv_getfile xdr2str sha1 (gp_maxsz P) x = XFER_CHUNKED (gp_dsz P) h"
    and run: "gf_reach P (serves (xdr2str x)) n s" "\<not> gs_looping P s" "gs_ok s"
  shows "\<exists>x'. gf_finish sha1 str2xdr h s = GOT x' \<and> f_alloc E x' (pf_opts f) = f_seen E f"
proof -
  have "f_alloc E x (pf_opts f) = f_seen E f" by (rule file_ships [OF fresh named sent(1)])
  moreover have "length (xdr2str x) = gp_dsz P" "h = sha1 (xdr2str x)"
    using sent(3,4) by (auto simp: srv_getfile_def Let_def split: if_splits)
  ultimately show ?thesis using finished_bytes [OF run] sent(2) run(3) by (simp add: gf_finish_def)
qed

theorem file_arrives_witness:
  "\<exists>x n s x'. f_to_xdr int_xdr_env [] sample_file = Some x \<and> gf_reach P3 (serves ''abc'') n s \<and> \<not> gs_looping P3 s
     \<and> gf_finish length (\<lambda>_. Some x) 3 s = GOT x' \<and> f_alloc int_xdr_env x' 0 = f_seen int_xdr_env sample_file"
proof -
  obtain x where x: "f_to_xdr int_xdr_env [] sample_file = Some x"
    using file_sends [of sample_file int_xdr_env "[]"] by (auto simp: int_xdr_env_def sample_file_def may_def must_def)
  obtain n s where s: "gf_reach P3 (serves ''abc'') n s" "\<not> gs_looping P3 s" "gs_ok s"
    using clean_run [of P3 "''abc''"] by (auto simp: P3_def)
  have "srv_getfile (\<lambda>_. ''abc'') length (gp_maxsz P3) x = XFER_CHUNKED (gp_dsz P3) 3" by (simp add: srv_getfile_def P3_def)
  then show ?thesis
    using x s file_arrives [of int_xdr_env sample_file "[]" x "\<lambda>_. Some x" "\<lambda>_. ''abc''" length P3 3 n s]
    by (auto simp: int_xdr_env_def sample_file_def)
qed



end
